(* ===== verification/Prelude.thy ===== *)
theory Prelude
  imports Complex_Main "HOL-Library.While_Combinator" "HOL-Library.Char_ord"
    "HOL-Library.List_Lexorder"
begin

text \<open>
  Shared vocabulary of the development: the collections of rewrite rules the component
  proofs draw on, the results of fallible code, and the operations of
  \<open>std::string\<close> and \<open>std::vector\<close> the sources use, written on lists.

  A \<open>std::string\<close> is a \<^typ>\<open>string\<close>: a list of 8-bit characters, so \<open>size()\<close> is
  \<^const>\<open>length\<close> and counts bytes. A position is a \<^typ>\<open>nat\<close>, and \<open>npos\<close>, which the
  searches return when they find nothing, is \<^const>\<open>None\<close>.
\<close>

named_theorems text_simps \<open>unfolding rules of the string operations\<close>
named_theorems digit_simps \<open>evaluation of digit strings\<close>
named_theorems state_simps \<open>unfolding rules of state updates\<close>

section \<open>Searches and slices of a string\<close>

text \<open>The first position whose element satisfies a predicate: \<open>find\<close>, \<open>find_first_of\<close>,
  \<open>find_first_not_of\<close>, \<open>std::find_if\<close>.\<close>

fun find_pos :: "('a \<Rightarrow> bool) \<Rightarrow> 'a list \<Rightarrow> nat option" where
  "find_pos p [] = None"
| "find_pos p (x # xs) = (if p x then Some 0 else map_option Suc (find_pos p xs))"

definition find_pos_from :: "('a \<Rightarrow> bool) \<Rightarrow> nat \<Rightarrow> 'a list \<Rightarrow> nat option" where
  "find_pos_from p start xs = map_option ((+) start) (find_pos p (drop start xs))"

text \<open>\<open>find_last_not_of\<close>: the last position whose element satisfies a predicate.\<close>

definition find_last_pos :: "('a \<Rightarrow> bool) \<Rightarrow> 'a list \<Rightarrow> nat option" where
  "find_last_pos p xs = map_option (\<lambda>k. length xs - 1 - k) (find_pos p (rev xs))"

text \<open>\<open>substr(pos, n)\<close> with \<open>pos\<close> within the string, and \<open>resize(n, c)\<close>.\<close>

definition substr :: "nat \<Rightarrow> nat \<Rightarrow> 'a list \<Rightarrow> 'a list" where
  "substr pos n xs = take n (drop pos xs)"

definition resize :: "nat \<Rightarrow> 'a \<Rightarrow> 'a list \<Rightarrow> 'a list" where
  "resize n c xs = take n xs @ replicate (n - length xs) c"

text \<open>\<open>s[k]\<close> for \<open>k\<close> at most \<open>size()\<close>: reading at \<open>size()\<close> gives the terminating NUL. The
  accessors that give NUL past the end of their input read the same way.\<close>

definition char_at :: "string \<Rightarrow> nat \<Rightarrow> char" where
  "char_at s k = (if k < length s then s ! k else CHR 0x00)"

lemma char_at_Cons_0 [simp]: "char_at (c # s) 0 = c"
  and char_at_Nil [simp]: "char_at [] k = CHR 0x00"
  and char_at_Cons_Suc [simp]: "char_at (c # s) (Suc k) = char_at s k"
  by (simp_all add: char_at_def)

text \<open>\<open>std::min(pos, size)\<close> of a position that may be \<open>npos\<close>.\<close>

definition pos_or :: "nat \<Rightarrow> nat option \<Rightarrow> nat" where
  "pos_or n pos = (case pos of None \<Rightarrow> n | Some k \<Rightarrow> min k n)"

lemma find_pos_None: "find_pos p xs = None \<longleftrightarrow> (\<forall>x \<in> set xs. \<not> p x)"
  by (induction xs) auto

lemma find_pos_Some: "find_pos p xs = Some k \<longleftrightarrow>
    k < length xs \<and> p (xs ! k) \<and> (\<forall>j < k. \<not> p (xs ! j))"
proof (induction xs arbitrary: k)
  case Nil
  then show ?case by simp
next
  case (Cons x xs)
  show ?case
  proof (cases k)
    case 0
    then show ?thesis by auto
  next
    case (Suc k')
    then show ?thesis by (auto simp: Cons.IH less_Suc_eq_0_disj)
  qed
qed

lemma find_pos_takeWhile:
  "find_pos p xs = (if \<exists>x \<in> set xs. p x then Some (length (takeWhile (\<lambda>x. \<not> p x) xs)) else None)"
  by (induction xs) auto

lemma find_pos_append:
  "find_pos p (xs @ ys) = (case find_pos p xs of Some k \<Rightarrow> Some k
     | None \<Rightarrow> map_option ((+) (length xs)) (find_pos p ys))"
  by (induction xs) (cases "find_pos p ys"; auto split: option.splits)+

lemma pos_or_find_pos [text_simps]:
  "pos_or (length xs) (find_pos p xs) = length (takeWhile (\<lambda>x. \<not> p x) xs)"
  by (induction xs) (auto simp: pos_or_def split: option.splits)

lemma drop_pos_or_find_pos [text_simps]:
  "drop (pos_or (length xs) (find_pos p xs)) xs = dropWhile (\<lambda>x. \<not> p x) xs"
  by (simp add: pos_or_find_pos dropWhile_eq_drop)

lemma take_pos_or_find_pos [text_simps]:
  "take (pos_or (length xs) (find_pos p xs)) xs = takeWhile (\<lambda>x. \<not> p x) xs"
  by (simp add: pos_or_find_pos takeWhile_eq_take[symmetric])

lemma length_resize [simp]: "length (resize n c xs) = n"
  by (simp add: resize_def)

lemma resize_longer [text_simps]:
  "length xs \<le> n \<Longrightarrow> resize n c xs = xs @ replicate (n - length xs) c"
  by (simp add: resize_def)

text \<open>Dropping a suffix of elements that satisfy \<open>p\<close>, as the loops of \<open>pop_back()\<close> do.\<close>

definition strip_end :: "('a \<Rightarrow> bool) \<Rightarrow> 'a list \<Rightarrow> 'a list" where
  "strip_end p xs = rev (dropWhile p (rev xs))"

lemma strip_end_Nil [simp]: "strip_end p [] = []"
  by (simp add: strip_end_def)

lemma strip_end_snoc [simp]:
  "strip_end p (xs @ [x]) = (if p x then strip_end p xs else xs @ [x])"
  by (simp add: strip_end_def)

lemma strip_end_split: "\<exists>ys. xs = strip_end p xs @ ys \<and> (\<forall>y \<in> set ys. p y)"
proof -
  have "xs = strip_end p xs @ rev (takeWhile p (rev xs))"
    by (metis rev_append rev_rev_ident strip_end_def takeWhile_dropWhile_id)
  then show ?thesis
    by (metis set_rev set_takeWhileD)
qed

lemma last_strip_end: "strip_end p xs \<noteq> [] \<Longrightarrow> \<not> p (last (strip_end p xs))"
  by (simp add: strip_end_def last_rev hd_dropWhile)

lemma set_strip_end: "set (strip_end p xs) \<subseteq> set xs"
  by (metis set_dropWhileD set_rev strip_end_def subsetI)

lemma strip_end_id: "xs = [] \<or> \<not> p (last xs) \<Longrightarrow> strip_end p xs = xs"
  by (cases xs rule: rev_cases) auto

lemma find_last_pos_strip_end [text_simps]:
  "take (case find_last_pos (\<lambda>x. \<not> p x) xs of None \<Rightarrow> 0 | Some k \<Rightarrow> k + 1) xs = strip_end p xs"
proof (induction xs rule: rev_induct)
  case Nil
  then show ?case by (simp add: find_last_pos_def)
next
  case (snoc x xs)
  show ?case
  proof (cases "p x")
    case True
    have "k < length xs" if "find_pos (\<lambda>x. \<not> p x) (rev xs) = Some k" for k
      using that by (simp add: find_pos_Some)
    with True snoc.IH show ?thesis
      by (auto simp: find_last_pos_def split: option.splits)
  next
    case False
    then show ?thesis by (simp add: find_last_pos_def)
  qed
qed

section \<open>Truncating division\<close>

text \<open>Division that truncates toward zero, as \<open>/\<close> and \<open>duration_cast\<close> do; the divisor is
  positive.\<close>

definition tdiv :: "int \<Rightarrow> int \<Rightarrow> int" where
  "tdiv a b = (if a \<ge> 0 then a div b else - ((- a) div b))"

section \<open>Lexicographic comparison\<close>

text \<open>\<open>std::string::compare\<close>: the sign of the first difference, a prefix being the smaller.\<close>

fun str_compare :: "string \<Rightarrow> string \<Rightarrow> int" where
  "str_compare [] [] = 0"
| "str_compare [] (y # ys) = - 1"
| "str_compare (x # xs) [] = 1"
| "str_compare (x # xs) (y # ys) =
     (if (of_char x :: nat) < of_char y then - 1
      else if (of_char y :: nat) < of_char x then 1
      else str_compare xs ys)"

lemma str_compare_refl [simp]: "str_compare xs xs = 0"
  by (induction xs) auto

lemma str_compare_eq_0: "str_compare xs ys = 0 \<longleftrightarrow> xs = ys"
  by (induction xs ys rule: str_compare.induct) auto

lemma str_compare_swap: "str_compare ys xs = - str_compare xs ys"
  by (induction xs ys rule: str_compare.induct) auto
text \<open>The result of a three-way comparison as a sign.\<close>

definition cmp3 :: "'a::linorder \<Rightarrow> 'a \<Rightarrow> int" where
  "cmp3 x y = (if x < y then - 1 else if y < x then 1 else 0)"

lemma cmp3_simps [simp]:
  "cmp3 x x = 0" "cmp3 x y < 0 \<longleftrightarrow> x < y" "0 < cmp3 x y \<longleftrightarrow> y < x" "cmp3 x y = 0 \<longleftrightarrow> x = y"
  "0 \<le> cmp3 x y \<longleftrightarrow> y \<le> x" "cmp3 x y \<le> 0 \<longleftrightarrow> x \<le> y"
  by (auto simp: cmp3_def)

lemma cmp3_swap: "cmp3 y x = - cmp3 x y"
  by (auto simp: cmp3_def)

lemma cmp3_minus [simp]: "cmp3 (- x) (- y) = cmp3 y (x :: 'a::linordered_idom)"
  by (auto simp: cmp3_def)

section \<open>Three-way comparisons\<close>

text \<open>\<open>std::weak_ordering\<close> and \<open>std::strong_ordering\<close>.\<close>

datatype weak_ordering = Less | Equivalent | Greater

definition ordering_of :: "int \<Rightarrow> weak_ordering" where
  "ordering_of n = (if n < 0 then Less else if n > 0 then Greater else Equivalent)"

definition compare_by :: "('a \<Rightarrow> 'b::linorder) \<Rightarrow> 'a \<Rightarrow> 'a \<Rightarrow> weak_ordering" where
  "compare_by key x y = (if key x < key y then Less else if key y < key x then Greater else Equivalent)"

lemma ordering_of_cmp3: "ordering_of (cmp3 x y) = compare_by id x y"
  by (simp add: ordering_of_def compare_by_def cmp3_def)

text \<open>What a client of \<open>compare()\<close> relies on: it orders its operands by a key, on the values
  an invariant admits, so it is a total preorder whose three answers agree.\<close>

locale three_way =
  fixes valid :: "'a \<Rightarrow> bool" and key :: "'a \<Rightarrow> 'b::linorder"
    and compare :: "'a \<Rightarrow> 'a \<Rightarrow> weak_ordering"
  assumes compare_key: "valid x \<Longrightarrow> valid y \<Longrightarrow> compare x y = compare_by key x y"
begin

lemma compare_refl: "valid x \<Longrightarrow> compare x x = Equivalent"
  by (simp add: compare_key compare_by_def)

lemma compare_swap: "valid x \<Longrightarrow> valid y \<Longrightarrow> compare x y = Less \<longleftrightarrow> compare y x = Greater"
  by (auto simp: compare_key compare_by_def)

lemma compare_less: "valid x \<Longrightarrow> valid y \<Longrightarrow> compare x y = Less \<longleftrightarrow> key x < key y"
  by (auto simp: compare_key compare_by_def)

lemma compare_equivalent: "valid x \<Longrightarrow> valid y \<Longrightarrow> compare x y = Equivalent \<longleftrightarrow> key x = key y"
  by (auto simp: compare_key compare_by_def)

lemma compare_trans:
  "valid x \<Longrightarrow> valid y \<Longrightarrow> valid z \<Longrightarrow> compare x y \<noteq> Greater \<Longrightarrow> compare y z \<noteq> Greater \<Longrightarrow>
    compare x z \<noteq> Greater"
  by (auto simp: compare_key compare_by_def split: if_splits)

end

end
