(* ===== verification/Decimal.thy ===== *)
theory Decimal
  imports Prelude
begin

text \<open>
  What decimal text means. This theory holds no code of the program: it gives the integer
  value of a string of digits, the rational value of an integer part and a fraction, and the
  canonical form \<open>class number\<close> stores, with the theorem that a value has only one canonical
  text. The theories of \<open>number.cpp\<close> are proved against it.
\<close>

section \<open>Digits\<close>

text \<open>The expression \<open>c - '0'\<close>, and \<open>char('0' + d)\<close>.\<close>

definition digit :: "char \<Rightarrow> int" where
  "digit c = int (of_char c) - 48"

definition digit_char :: "int \<Rightarrow> char" where
  "digit_char d = char_of (nat (48 + d))"

text \<open>The test \<open>! ((c < '0') || (c > '9'))\<close>.\<close>

definition is_digit :: "char \<Rightarrow> bool" where
  "is_digit c \<longleftrightarrow> 48 \<le> (of_char c :: nat) \<and> (of_char c :: nat) \<le> 57"

abbreviation all_digits :: "string \<Rightarrow> bool" where
  "all_digits s \<equiv> (\<forall>c \<in> set s. is_digit c)"

lemma is_digit_iff: "is_digit c \<longleftrightarrow> 0 \<le> digit c \<and> digit c \<le> 9"
  by (auto simp: is_digit_def digit_def)

lemma digit_range: "- 48 \<le> digit c" "digit c < 208"
  using nat_of_char_less_256 [of c] by (auto simp: digit_def)

lemma digit_digit_char [digit_simps]: "- 48 \<le> d \<Longrightarrow> d < 208 \<Longrightarrow> digit (digit_char d) = d"
  by (simp add: digit_def digit_char_def)

lemma digit_char_digit [digit_simps]: "digit_char (digit c) = c"
  by (simp add: digit_def digit_char_def)

lemma is_digit_digit_char: "0 \<le> d \<Longrightarrow> d \<le> 9 \<Longrightarrow> is_digit (digit_char d)"
  by (simp add: is_digit_iff digit_digit_char)

lemma digit_inj: "digit c = digit d \<Longrightarrow> c = d"
  by (metis digit_char_digit)

lemma digit_zero [simp]: "digit (CHR ''0'') = 0"
  by (simp add: digit_def)

lemma digit_eq_0 [simp]: "digit c = 0 \<longleftrightarrow> c = CHR ''0''"
  using digit_inj by fastforce

lemma is_digit_zero [simp]: "is_digit (CHR ''0'')"
  by (simp add: is_digit_iff)

lemma not_digits [simp]:
  "\<not> is_digit (CHR ''.'')" "\<not> is_digit (CHR ''-'')" "\<not> is_digit (CHR ''+'')"
  "\<not> is_digit (CHR ''e'')" "\<not> is_digit (CHR ''E'')" "\<not> is_digit (CHR ''_'')"
  by (simp_all add: is_digit_def)

lemma digit_less: "(of_char c :: nat) < of_char d \<longleftrightarrow> digit c < digit d"
  by (simp add: digit_def)

section \<open>The value of a string of digits\<close>

definition dval :: "string \<Rightarrow> int" where
  "dval s = foldl (\<lambda>v c. 10 * v + digit c) 0 s"

lemma dval_Nil [simp]: "dval [] = 0"
  by (simp add: dval_def)

lemma dval_snoc [digit_simps]: "dval (xs @ [x]) = 10 * dval xs + digit x"
  by (simp add: dval_def)

lemma dval_single [simp]: "dval [x] = digit x"
  by (simp add: dval_def)

lemma dval_append: "dval (xs @ ys) = dval xs * 10 ^ length ys + dval ys"
proof (induction ys rule: rev_induct)
  case Nil
  then show ?case by simp
next
  case (snoc y ys)
  have "dval (xs @ ys @ [y]) = 10 * dval (xs @ ys) + digit y"
    using dval_snoc [of "xs @ ys" y] by simp
  with snoc.IH show ?case by (simp add: dval_snoc algebra_simps)
qed

lemma dval_Cons: "dval (x # xs) = digit x * 10 ^ length xs + dval xs"
  using dval_append [of "[x]" xs] by simp

lemma dval_replicate_zero [simp]: "dval (replicate n (CHR ''0'')) = 0"
  by (induction n) (simp_all add: dval_Cons)

lemma dval_zero_Cons [simp]: "dval (CHR ''0'' # xs) = dval xs"
  by (simp add: dval_Cons)

lemma dval_strip_zeros [digit_simps]: "dval (dropWhile (\<lambda>c. c = CHR ''0'') xs) = dval xs"
  by (induction xs) auto

lemma dval_nonneg: "all_digits s \<Longrightarrow> 0 \<le> dval s"
  by (induction s) (auto simp: dval_Cons is_digit_iff)

lemma dval_less: "all_digits s \<Longrightarrow> dval s < 10 ^ length s"
proof (induction s)
  case Nil
  then show ?case by simp
next
  case (Cons c s)
  then have d: "digit c \<le> 9" and v: "dval s < 10 ^ length s"
    by (auto simp: is_digit_iff)
  from d have "digit c * 10 ^ length s \<le> 9 * 10 ^ length s"
    by (intro mult_right_mono) auto
  with v show ?case unfolding dval_Cons length_Cons power_Suc by linarith
qed

lemma dval_ge_power:
  assumes "all_digits (c # s)" "c \<noteq> CHR ''0''"
  shows "10 ^ length s \<le> dval (c # s)"
proof -
  from assms have "1 \<le> digit c" and s: "0 \<le> dval s"
    using digit_eq_0 [of c] by (auto simp: is_digit_iff dval_nonneg simp del: digit_eq_0)
  then have "1 * 10 ^ length s \<le> digit c * 10 ^ length s"
    by (intro mult_right_mono) auto
  with s show ?thesis unfolding dval_Cons by linarith
qed

lemma dval_eq_0: "all_digits s \<Longrightarrow> dval s = 0 \<longleftrightarrow> (\<forall>c \<in> set s. c = CHR ''0'')"
proof (induction s)
  case Nil
  then show ?case by simp
next
  case (Cons c s)
  then have "0 \<le> dval s" "0 \<le> digit c" by (auto simp: dval_nonneg is_digit_iff)
  then have "dval (c # s) = 0 \<longleftrightarrow> digit c = 0 \<and> dval s = 0"
    by (simp add: dval_Cons add_nonneg_eq_0_iff)
  with Cons show ?case by auto
qed

lemma dval_list_update:
  "k < length xs \<Longrightarrow>
   dval (xs[k := c]) = dval xs + (digit c - digit (xs ! k)) * 10 ^ (length xs - 1 - k)"
proof (induction xs arbitrary: k)
  case Nil
  then show ?case by simp
next
  case (Cons x xs)
  then show ?case by (cases k) (auto simp: dval_Cons algebra_simps)
qed

lemma dval_inj_same_length:
  "length s = length t \<Longrightarrow> all_digits s \<Longrightarrow> all_digits t \<Longrightarrow> dval s = dval t \<Longrightarrow> s = t"
proof (induction s t rule: rev_induct2)
  case 1
  then show ?case by simp
next
  case (4 x xs y ys)
  then have "0 \<le> digit x \<and> digit x \<le> 9" "0 \<le> digit y \<and> digit y \<le> 9"
    and e: "10 * dval xs + digit x = 10 * dval ys + digit y"
    by (auto simp: is_digit_iff dval_snoc)
  then have "digit x = digit y" "dval xs = dval ys" by presburger+
  with 4 show ?case by (auto dest: digit_inj)
qed auto

text \<open>Digits without a leading zero determine their value, and the reverse.\<close>

definition no_leading_zero :: "string \<Rightarrow> bool" where
  "no_leading_zero s \<longleftrightarrow> s \<noteq> [] \<and> (hd s = CHR ''0'' \<longrightarrow> s = ''0'')"

lemma no_leading_zero_less_length:
  assumes "all_digits s" "all_digits t" "no_leading_zero t" "s \<noteq> []" "length s < length t"
  shows "dval s < dval t"
proof -
  obtain c u where t: "t = c # u" using assms(3) by (cases t) (auto simp: no_leading_zero_def)
  with assms(4,5) have "u \<noteq> []" by auto
  then have "c \<noteq> CHR ''0''" using assms(3) t by (auto simp: no_leading_zero_def)
  then have "10 ^ length u \<le> dval t" using assms(2) t dval_ge_power by blast
  moreover have "dval s < 10 ^ length s" using assms(1) by (rule dval_less)
  moreover have "(10::int) ^ length s \<le> 10 ^ length u"
    using assms(5) t by (intro power_increasing) auto
  ultimately show ?thesis by linarith
qed

lemma no_leading_zero_inj:
  assumes "all_digits s" "all_digits t" "no_leading_zero s" "no_leading_zero t" "dval s = dval t"
  shows "s = t"
proof -
  have "s \<noteq> []" "t \<noteq> []" using assms(3,4) by (auto simp: no_leading_zero_def)
  then have "length s = length t"
    using assms no_leading_zero_less_length [of s t] no_leading_zero_less_length [of t s]
    by (metis linorder_neqE_nat less_irrefl)
  then show ?thesis using assms dval_inj_same_length by blast
qed

text \<open>Dropping leading zeros, keeping one digit of a string of zeros.\<close>

definition strip_leading :: "string \<Rightarrow> string" where
  "strip_leading s = (let t = dropWhile (\<lambda>c. c = CHR ''0'') s in if t = [] then ''0'' else t)"

lemma strip_leading_props:
  assumes "all_digits s"
  shows "all_digits (strip_leading s)" "no_leading_zero (strip_leading s)"
    "dval (strip_leading s) = dval s"
proof -
  define t where "t = dropWhile (\<lambda>c. c = CHR ''0'') s"
  have s: "strip_leading s = (if t = [] then ''0'' else t)"
    by (simp add: strip_leading_def t_def Let_def)
  have "all_digits t" using assms by (auto simp: t_def dest: set_dropWhileD)
  then show "all_digits (strip_leading s)" by (cases "t = []") (simp_all add: s)
  have "hd t \<noteq> CHR ''0''" if "t \<noteq> []" using that hd_dropWhile unfolding t_def by blast
  then show "no_leading_zero (strip_leading s)"
    by (cases "t = []") (simp_all add: s no_leading_zero_def)
  have "dval t = dval s" unfolding t_def by (rule dval_strip_zeros)
  then show "dval (strip_leading s) = dval s" by (cases "t = []") (auto simp: s)
qed

lemma strip_leading_id: "no_leading_zero s \<Longrightarrow> strip_leading s = s"
  by (cases s) (auto simp: strip_leading_def no_leading_zero_def)

text \<open>The digits of a natural number.\<close>

fun digits_of :: "nat \<Rightarrow> string" where
  "digits_of n = (if n < 10 then [digit_char (int n)]
     else digits_of (n div 10) @ [digit_char (int (n mod 10))])"

declare digits_of.simps [simp del]

lemma digits_of_props:
  "all_digits (digits_of n) \<and> no_leading_zero (digits_of n) \<and> dval (digits_of n) = int n"
proof (induction n rule: digits_of.induct)
  case (1 n)
  show ?case
  proof (cases "n < 10")
    case True
    then show ?thesis
      by (subst (1 2 3) digits_of.simps)
        (auto simp: is_digit_digit_char digit_digit_char no_leading_zero_def)
  next
    case False
    then have IH: "all_digits (digits_of (n div 10))" "no_leading_zero (digits_of (n div 10))"
      "dval (digits_of (n div 10)) = int (n div 10)" using 1 by auto
    have "digits_of (n div 10) \<noteq> ''0''"
    proof
      assume "digits_of (n div 10) = ''0''"
      with IH(3) have "n div 10 = 0" by simp
      with False show False by auto
    qed
    moreover have "int (n div 10) * 10 + int (n mod 10) = int n"
      by (metis div_mult_mod_eq of_nat_add of_nat_mult of_nat_numeral)
    ultimately show ?thesis using False IH
      by (subst (1 2 3) digits_of.simps)
        (auto simp: is_digit_digit_char digit_digit_char dval_snoc no_leading_zero_def hd_append)
  qed
qed

lemma all_digits_digits_of [simp]: "all_digits (digits_of n)"
  and no_leading_zero_digits_of [simp]: "no_leading_zero (digits_of n)"
  and dval_digits_of [simp]: "dval (digits_of n) = int n"
  using digits_of_props by auto

lemma digits_of_dval:
  assumes "all_digits s" "no_leading_zero s"
  shows "digits_of (nat (dval s)) = s"
  using assms by (intro no_leading_zero_inj) (auto simp: dval_nonneg)

lemma digits_of_eqI:
  "all_digits s \<Longrightarrow> no_leading_zero s \<Longrightarrow> dval s = int n \<Longrightarrow> s = digits_of n"
  using digits_of_dval by fastforce

section \<open>The value of an integer part and a fraction\<close>

definition decimal :: "string \<Rightarrow> string \<Rightarrow> rat" where
  "decimal i f = of_int (dval (i @ f)) / 10 ^ length f"

definition fraction :: "string \<Rightarrow> rat" where
  "fraction f = of_int (dval f) / 10 ^ length f"

lemma decimal_split: "decimal i f = of_int (dval i) + fraction f"
  by (simp add: decimal_def fraction_def dval_append field_simps)

lemma fraction_Nil [simp]: "fraction [] = 0"
  by (simp add: fraction_def)

lemma fraction_Cons: "fraction (c # f) = (of_int (digit c) + fraction f) / 10"
  by (simp add: fraction_def dval_Cons field_simps)

lemma fraction_append: "fraction (f @ g) = fraction f + fraction g / 10 ^ length f"
  by (simp add: fraction_def dval_append field_simps power_add)

lemma fraction_nonneg: "all_digits f \<Longrightarrow> 0 \<le> fraction f"
  by (simp add: fraction_def dval_nonneg)

lemma fraction_less_1: "all_digits f \<Longrightarrow> fraction f < 1"
proof -
  assume "all_digits f"
  then have "dval f < 10 ^ length f" by (rule dval_less)
  then have "(of_int (dval f) :: rat) < of_int (10 ^ length f)" by (simp only: of_int_less_iff)
  then show ?thesis by (simp add: fraction_def)
qed

lemma fraction_zeros: "\<forall>c \<in> set f. c = CHR ''0'' \<Longrightarrow> fraction f = 0"
  by (induction f) (auto simp: fraction_Cons)

lemma fraction_pad [simp]: "fraction (f @ replicate k (CHR ''0'')) = fraction f"
  by (simp add: fraction_append fraction_zeros)

lemma fraction_strip_end: "fraction (strip_end (\<lambda>c. c = CHR ''0'') f) = fraction f"
proof -
  define g where "g = strip_end (\<lambda>c. c = CHR ''0'') f"
  obtain ys where f: "f = g @ ys" and ys: "\<forall>y \<in> set ys. y = CHR ''0''"
    using strip_end_split [of f "\<lambda>c. c = CHR ''0''"] unfolding g_def by blast
  have "fraction f = fraction g" using fraction_zeros [OF ys] by (simp add: f fraction_append)
  then show ?thesis by (simp add: g_def)
qed

lemma fraction_eq_0: "all_digits f \<Longrightarrow> fraction f = 0 \<longleftrightarrow> (\<forall>c \<in> set f. c = CHR ''0'')"
  by (simp add: fraction_def dval_eq_0)

lemma fraction_pos:
  assumes "all_digits f" "f \<noteq> []" "last f \<noteq> CHR ''0''"
  shows "0 < fraction f"
  using assms fraction_eq_0 [of f] fraction_nonneg [of f]
  by (metis last_in_set less_eq_rat_def)

lemma decimal_nonneg: "all_digits i \<Longrightarrow> all_digits f \<Longrightarrow> 0 \<le> decimal i f"
  by (simp add: decimal_split dval_nonneg fraction_nonneg)

text \<open>The integer part of a decimal is its floor, so parts of equal decimals are equal.\<close>

lemma floor_decimal: "all_digits f \<Longrightarrow> \<lfloor>decimal i f\<rfloor> = dval i"
  using fraction_nonneg [of f] fraction_less_1 [of f]
  by (simp add: decimal_split floor_eq_iff)

lemma decimal_eq_iff:
  assumes "all_digits f" "all_digits g"
  shows "decimal i f = decimal j g \<longleftrightarrow> dval i = dval j \<and> fraction f = fraction g"
  using assms by (metis decimal_split floor_decimal add_left_cancel)

lemma decimal_less_iff:
  assumes "all_digits f" "all_digits g"
  shows "decimal i f < decimal j g \<longleftrightarrow> dval i < dval j \<or> dval i = dval j \<and> fraction f < fraction g"
proof -
  have b: "0 \<le> fraction f" "fraction f < 1" "0 \<le> fraction g" "fraction g < 1"
    using assms fraction_nonneg fraction_less_1 by auto
  consider "dval i < dval j" | "dval i = dval j" | "dval j < dval i" by linarith
  then show ?thesis
  proof cases
    case 1
    then have "(of_int (dval i) :: rat) + 1 \<le> of_int (dval j)"
      by (metis of_int_1 of_int_add of_int_le_iff zless_imp_add1_zle)
    with 1 b show ?thesis by (simp add: decimal_split)
  next
    case 2
    then show ?thesis by (simp add: decimal_split)
  next
    case 3
    then have "(of_int (dval j) :: rat) + 1 \<le> of_int (dval i)"
      by (metis of_int_1 of_int_add of_int_le_iff zless_imp_add1_zle)
    with 3 b show ?thesis by (simp add: decimal_split)
  qed
qed

text \<open>The order of fractions without trailing zeros is the order of their texts.\<close>

abbreviation no_trailing_zero :: "string \<Rightarrow> bool" where
  "no_trailing_zero f \<equiv> f \<noteq> [] \<longrightarrow> last f \<noteq> CHR ''0''"

lemma fraction_compare:
  assumes "all_digits f" "all_digits g" "no_trailing_zero f" "no_trailing_zero g"
  shows "str_compare f g = (if fraction f < fraction g then - 1
    else if fraction g < fraction f then 1 else 0)"
  using assms
proof (induction f g rule: str_compare.induct)
  case 1
  then show ?case by simp
next
  case (2 y ys)
  then have "0 < fraction (y # ys)" by (intro fraction_pos) auto
  then show ?case by simp
next
  case (3 x xs)
  then have "0 < fraction (x # xs)" by (intro fraction_pos) auto
  then show ?case by simp
next
  case (4 x xs y ys)
  then have b: "0 \<le> fraction xs" "fraction xs < 1" "0 \<le> fraction ys" "fraction ys < 1"
    by (auto intro!: fraction_nonneg fraction_less_1)
  consider "digit x < digit y" | "digit y < digit x" | "x = y"
    by (metis digit_inj linorder_less_linear)
  then show ?case
  proof cases
    case 1
    then have "(of_int (digit x) :: rat) + 1 \<le> of_int (digit y)"
      by (metis of_int_1 of_int_add of_int_le_iff zless_imp_add1_zle)
    with b have "fraction (x # xs) < fraction (y # ys)" by (simp add: fraction_Cons)
    with 1 show ?thesis by (simp add: digit_less)
  next
    case 2
    then have "(of_int (digit y) :: rat) + 1 \<le> of_int (digit x)"
      by (metis of_int_1 of_int_add of_int_le_iff zless_imp_add1_zle)
    with b have "fraction (y # ys) < fraction (x # xs)" by (simp add: fraction_Cons)
    with 2 show ?thesis by (simp add: digit_less)
  next
    case 3
    with "4.IH" "4.prems" show ?thesis
      by (cases "xs = []"; cases "ys = []") (auto simp: fraction_Cons)
  qed
qed

lemma dval_compare:
  assumes "all_digits s" "all_digits t" "length s = length t"
  shows "str_compare s t = sgn (dval s - dval t)"
  using assms
proof (induction s t rule: str_compare.induct)
  case (4 x xs y ys)
  then have b: "0 \<le> dval xs" "dval xs < 10 ^ length ys" "0 \<le> dval ys" "dval ys < 10 ^ length ys"
    using dval_less [of xs] by (auto intro!: dval_nonneg dval_less)
  consider "digit x < digit y" | "digit y < digit x" | "x = y"
    by (metis digit_inj linorder_less_linear)
  then show ?case
  proof cases
    case 1
    then have "(digit x + 1) * 10 ^ length ys \<le> digit y * 10 ^ length ys"
      by (intro mult_right_mono) auto
    with b have "dval (x # xs) < dval (y # ys)" using 4(4) by (simp add: dval_Cons algebra_simps)
    with 1 show ?thesis by (simp add: digit_less)
  next
    case 2
    then have "(digit y + 1) * 10 ^ length ys \<le> digit x * 10 ^ length ys"
      by (intro mult_right_mono) auto
    with b have "dval (y # ys) < dval (x # xs)" using 4(4) by (simp add: dval_Cons algebra_simps)
    with 2 show ?thesis by (simp add: digit_less)
  next
    case 3
    with 4 show ?thesis by (simp add: dval_Cons)
  qed
qed auto

section \<open>Canonical text\<close>

text \<open>The text of an integer part and a fraction, and the two parts of a text.\<close>

definition render :: "string \<Rightarrow> string \<Rightarrow> string" where
  "render i f = (if f = [] then i else i @ CHR ''.'' # f)"

definition int_part :: "string \<Rightarrow> string" where
  "int_part u = takeWhile (\<lambda>c. c \<noteq> CHR ''.'') u"

definition frac_part :: "string \<Rightarrow> string" where
  "frac_part u = tl (dropWhile (\<lambda>c. c \<noteq> CHR ''.'') u)"

definition canonical_parts :: "string \<Rightarrow> string \<Rightarrow> bool" where
  "canonical_parts i f \<longleftrightarrow> all_digits i \<and> no_leading_zero i \<and> all_digits f \<and> no_trailing_zero f"

definition canonical_unsigned :: "string \<Rightarrow> bool" where
  "canonical_unsigned u \<longleftrightarrow>
     canonical_parts (int_part u) (frac_part u) \<and> u = render (int_part u) (frac_part u)"

definition unsigned_value :: "string \<Rightarrow> rat" where
  "unsigned_value u = decimal (int_part u) (frac_part u)"

definition is_negative_text :: "string \<Rightarrow> bool" where
  "is_negative_text s \<longleftrightarrow> s \<noteq> [] \<and> hd s = CHR ''-''"

definition magnitude :: "string \<Rightarrow> string" where
  "magnitude s = (if is_negative_text s then tl s else s)"

text \<open>What \<open>number::storage\<close> promises its text is, unless it is the one NaN.\<close>

definition canonical :: "string \<Rightarrow> bool" where
  "canonical s \<longleftrightarrow> canonical_unsigned (magnitude s) \<and> (is_negative_text s \<longrightarrow> magnitude s \<noteq> ''0'')"

definition num_value :: "string \<Rightarrow> rat" where
  "num_value s = (if is_negative_text s then - unsigned_value (magnitude s)
     else unsigned_value (magnitude s))"

lemma takeWhile_digits:
  "all_digits i \<Longrightarrow> takeWhile (\<lambda>c. c \<noteq> CHR ''.'') i = i"
  by (induction i) force+

lemma takeWhile_digits_dot:
  "all_digits i \<Longrightarrow> takeWhile (\<lambda>c. c \<noteq> CHR ''.'') (i @ CHR ''.'' # f) = i"
  by (induction i) force+

lemma dropWhile_digits:
  "all_digits i \<Longrightarrow> dropWhile (\<lambda>c. c \<noteq> CHR ''.'') i = []"
  by (induction i) force+

lemma dropWhile_digits_dot:
  "all_digits i \<Longrightarrow> dropWhile (\<lambda>c. c \<noteq> CHR ''.'') (i @ CHR ''.'' # f) = CHR ''.'' # f"
  by (induction i) force+

lemma int_part_render [simp]: "all_digits i \<Longrightarrow> int_part (render i f) = i"
  by (simp add: int_part_def render_def takeWhile_digits takeWhile_digits_dot)

lemma frac_part_render [simp]: "all_digits i \<Longrightarrow> frac_part (render i f) = f"
  by (simp add: frac_part_def render_def dropWhile_digits dropWhile_digits_dot)

lemma canonical_unsigned_render:
  "canonical_parts i f \<Longrightarrow> canonical_unsigned (render i f)"
  by (simp add: canonical_unsigned_def canonical_parts_def)

lemma unsigned_value_render: "all_digits i \<Longrightarrow> unsigned_value (render i f) = decimal i f"
  by (simp add: unsigned_value_def)

lemma canonical_unsignedE:
  assumes "canonical_unsigned u"
  obtains i f where "u = render i f" "canonical_parts i f"
    "int_part u = i" "frac_part u = f" "unsigned_value u = decimal i f"
proof -
  have 1: "u = render (int_part u) (frac_part u)"
    and 2: "canonical_parts (int_part u) (frac_part u)"
    using assms unfolding canonical_unsigned_def by blast+
  show thesis by (rule that [OF 1 2 refl refl]) (simp add: unsigned_value_def)
qed

lemma canonical_unsigned_not_negative [simp]:
  "canonical_unsigned u \<Longrightarrow> \<not> is_negative_text u"
  by (erule canonical_unsignedE)
    (auto simp: is_negative_text_def render_def canonical_parts_def no_leading_zero_def neq_Nil_conv
      split: if_splits)

lemma canonical_unsigned_canonical: "canonical_unsigned u \<Longrightarrow> canonical u"
  by (simp add: canonical_def magnitude_def)

lemma num_value_unsigned: "canonical_unsigned u \<Longrightarrow> num_value u = unsigned_value u"
  by (simp add: num_value_def magnitude_def)

lemma canonical_unsigned_nonneg: "canonical_unsigned u \<Longrightarrow> 0 \<le> unsigned_value u"
  by (erule canonical_unsignedE) (simp add: canonical_parts_def decimal_nonneg)

lemma canonical_unsigned_inject:
  assumes "canonical_unsigned u" "canonical_unsigned v" "unsigned_value u = unsigned_value v"
  shows "u = v"
proof -
  from assms(1) obtain i f where u: "u = render i f" "canonical_parts i f"
    "unsigned_value u = decimal i f" by (rule canonical_unsignedE)
  from assms(2) obtain j g where v: "v = render j g" "canonical_parts j g"
    "unsigned_value v = decimal j g" by (rule canonical_unsignedE)
  from u v have "dval i = dval j" and fg: "fraction f = fraction g"
    using assms(3) by (auto simp: canonical_parts_def decimal_eq_iff)
  then have "i = j" using u v by (intro no_leading_zero_inj) (auto simp: canonical_parts_def)
  moreover have "str_compare f g = 0"
    using u v fg by (subst fraction_compare) (auto simp: canonical_parts_def)
  ultimately show ?thesis using u v by (simp add: str_compare_eq_0)
qed

lemma canonical_unsigned_zero [simp]: "canonical_unsigned ''0''"
  by (simp add: canonical_unsigned_def canonical_parts_def int_part_def frac_part_def
      no_leading_zero_def render_def)

lemma unsigned_value_zero [simp]: "unsigned_value ''0'' = 0"
  by (simp add: unsigned_value_def int_part_def frac_part_def decimal_def)

lemma canonical_unsigned_eq_zero:
  "canonical_unsigned u \<Longrightarrow> unsigned_value u = 0 \<longleftrightarrow> u = ''0''"
  using canonical_unsigned_inject [of u "''0''"] by auto

lemma canonical_negate:
  "canonical_unsigned u \<Longrightarrow> u \<noteq> ''0'' \<Longrightarrow> canonical (CHR ''-'' # u)"
  by (simp add: canonical_def magnitude_def is_negative_text_def)

lemma num_value_minus [simp]: "num_value (CHR ''-'' # u) = - unsigned_value u"
  by (simp add: num_value_def magnitude_def is_negative_text_def)

lemma num_value_negative_iff: "canonical s \<Longrightarrow> num_value s < 0 \<longleftrightarrow> is_negative_text s"
  using canonical_unsigned_nonneg [of "magnitude s"] canonical_unsigned_eq_zero [of "magnitude s"]
  by (auto simp: canonical_def num_value_def less_le)

text \<open>Canonical texts of equal value are the same text.\<close>

theorem canonical_inject:
  assumes "canonical s" "canonical t" "num_value s = num_value t"
  shows "s = t"
proof -
  have sign: "is_negative_text s = is_negative_text t"
    using assms num_value_negative_iff by metis
  then have "unsigned_value (magnitude s) = unsigned_value (magnitude t)"
    using assms(3) by (auto simp: num_value_def split: if_splits)
  then have "magnitude s = magnitude t"
    using assms by (intro canonical_unsigned_inject) (auto simp: canonical_def)
  with sign show ?thesis
    by (auto simp: magnitude_def is_negative_text_def split: if_splits)
      (metis list.collapse)
qed

end
