(* ===== verification/Number_Text.thy ===== *)
theory Number_Text
  imports Decimal
begin

text \<open>
  The text of \<open>class number\<close> (\<open>src/type/number.cpp\<close>): which strings are numbers
  (\<open>is_valid_number\<close>), how an exponent is expanded (\<open>expand_exponent\<close>), the canonical form
  every stored text has (\<open>canonical_text\<close>), its split into parts (\<open>parse_number_unified\<close>) and
  the comparison of two canonical texts (\<open>compare_numbers\<close>).
\<close>

section \<open>Valid number strings\<close>

definition NAN_VALUE :: string where
  "NAN_VALUE = ''__invalid__''"

definition is_exp_char :: "char \<Rightarrow> bool" where
  "is_exp_char c \<longleftrightarrow> c = CHR ''e'' \<or> c = CHR ''E''"

definition is_sign_char :: "char \<Rightarrow> bool" where
  "is_sign_char c \<longleftrightarrow> c = CHR ''-'' \<or> c = CHR ''+''"

text \<open>The loop over the mantissa: \<^const>\<open>None\<close> for the early \<open>return false\<close>, else \<open>has_dot\<close>.\<close>

fun scan_mantissa :: "bool \<Rightarrow> string \<Rightarrow> bool option" where
  "scan_mantissa has_dot [] = Some has_dot"
| "scan_mantissa has_dot (c # cs) =
     (if c = CHR ''.'' then (if has_dot then None else scan_mantissa True cs)
      else if \<not> is_digit c then None
      else scan_mantissa has_dot cs)"

text \<open>The exponent after the \<open>e\<close> at \<open>exp_pos\<close>: an optional sign and digits up to the end.\<close>

definition valid_exponent :: "string \<Rightarrow> nat \<Rightarrow> bool" where
  "valid_exponent str exp_pos =
     (if exp_pos + 1 \<ge> length str then False
      else let exp_start = exp_pos + 1;
               has_sign = is_sign_char (char_at str exp_start);
               exp_start' = (if has_sign then exp_start + 1 else exp_start)
           in if exp_start' \<ge> length str then False
              else all_digits (drop exp_start' str))"

definition is_valid_number :: "string \<Rightarrow> bool" where
  "is_valid_number str =
     (if str = [] then False
      else if is_sign_char (char_at str 0) \<and> length str = 1 then False
      else let start = (if is_sign_char (char_at str 0) then 1 else 0);
               exp_pos = find_pos_from is_exp_char start str;
               has_exp = (exp_pos \<noteq> None);
               mantissa_end = (case exp_pos of Some p \<Rightarrow> p | None \<Rightarrow> length str)
           in if has_exp \<and> mantissa_end \<le> start then False
              else (case scan_mantissa False (substr start (mantissa_end - start) str) of
                  None \<Rightarrow> False
                | Some has_dot \<Rightarrow>
                    if has_dot \<and> (char_at str start = CHR ''.'' \<or>
                         (mantissa_end > start \<and> char_at str (mantissa_end - 1) = CHR ''.'')) \<and>
                       mantissa_end \<le> start + 1
                    then False
                    else (case exp_pos of None \<Rightarrow> True | Some p \<Rightarrow> valid_exponent str p)))"

text \<open>
  The same set of strings as a grammar: an optional sign, a mantissa of digits with at most
  one point and at least one digit, and an optional exponent of an optional sign and digits.
\<close>

definition sign_split :: "string \<Rightarrow> string \<times> string" where
  "sign_split s = (if s \<noteq> [] \<and> is_sign_char (hd s) then ([hd s], tl s) else ([], s))"

definition mantissa_of :: "string \<Rightarrow> string" where
  "mantissa_of str = takeWhile (\<lambda>c. \<not> is_exp_char c) (snd (sign_split str))"

definition exponent_of :: "string \<Rightarrow> string" where
  "exponent_of str = dropWhile (\<lambda>c. \<not> is_exp_char c) (snd (sign_split str))"

definition mantissa_syntax :: "string \<Rightarrow> bool" where
  "mantissa_syntax m \<longleftrightarrow> all_digits (int_part m) \<and> all_digits (frac_part m) \<and>
     int_part m @ frac_part m \<noteq> []"

definition exponent_syntax :: "string \<Rightarrow> bool" where
  "exponent_syntax e \<longleftrightarrow> e = [] \<or>
     (snd (sign_split (tl e)) \<noteq> [] \<and> all_digits (snd (sign_split (tl e))))"

definition number_syntax :: "string \<Rightarrow> bool" where
  "number_syntax str \<longleftrightarrow> mantissa_syntax (mantissa_of str) \<and> exponent_syntax (exponent_of str)"

lemma scan_mantissa_True: "scan_mantissa True m = (if all_digits m then Some True else None)"
  by (induction m) auto

lemma int_part_Nil [simp]: "int_part [] = []" "frac_part [] = []"
  by (simp_all add: int_part_def frac_part_def)

lemma parts_Cons [simp]:
  "int_part (c # m) = (if c = CHR ''.'' then [] else c # int_part m)"
  "frac_part (c # m) = (if c = CHR ''.'' then m else frac_part m)"
  by (simp_all add: int_part_def frac_part_def)

lemma mantissa_split: "int_part m @ (if CHR ''.'' \<in> set m then CHR ''.'' # frac_part m else []) = m"
  by (induction m) auto

lemma scan_mantissa_False:
  "scan_mantissa False m =
     (if all_digits (int_part m) \<and> all_digits (frac_part m) then Some (CHR ''.'' \<in> set m) else None)"
  by (induction m) (auto simp: scan_mantissa_True)

lemma valid_exponent_iff:
  assumes "str = pre @ c # e"
  shows "valid_exponent str (length pre) \<longleftrightarrow> exponent_syntax (c # e)"
proof (cases e)
  case Nil
  with assms show ?thesis
    by (simp add: valid_exponent_def exponent_syntax_def sign_split_def)
next
  case (Cons d e')
  have "char_at str (length pre + 1) = d"
    using assms Cons by (simp add: char_at_def nth_append)
  moreover have "drop (length pre + 1) str = d # e'" "drop (length pre + 2) str = e'"
    using assms Cons by simp_all
  moreover have "length str = length pre + 2 + length e'" using assms Cons by simp
  ultimately show ?thesis
    using Cons by (auto simp: valid_exponent_def exponent_syntax_def sign_split_def Let_def)
qed
lemma sign_split_append: "str = fst (sign_split str) @ snd (sign_split str)"
  by (simp add: sign_split_def)

lemma mantissa_exponent_append: "str = fst (sign_split str) @ mantissa_of str @ exponent_of str"
  by (metis mantissa_of_def exponent_of_def sign_split_append takeWhile_dropWhile_id)

lemma exponent_of_cases:
  "exponent_of str = [] \<or> (\<exists>c e. exponent_of str = c # e \<and> is_exp_char c)"
  unfolding exponent_of_def
  by (metis hd_dropWhile list.collapse)

lemma find_pos_from_append:
  "length pre = n \<Longrightarrow> find_pos_from p n (pre @ xs) = map_option ((+) n) (find_pos p xs)"
  by (simp add: find_pos_from_def)

text \<open>The check on leading and trailing dots rejects exactly the mantissa that is a lone dot.\<close>

lemma lone_dot_check:
  assumes "length sg = n" "m \<noteq> []"
  shows "(CHR ''.'' \<in> set m \<and>
      (char_at (sg @ m @ e) n = CHR ''.'' \<or>
        (n + length m > n \<and> char_at (sg @ m @ e) (n + length m - 1) = CHR ''.'')) \<and>
      n + length m \<le> n + 1) \<longleftrightarrow> m = ''.''"
  using assms by (cases m; cases "tl m") (auto simp: char_at_def nth_append)

lemma mantissa_syntax_iff:
  "mantissa_syntax m \<longleftrightarrow>
     all_digits (int_part m) \<and> all_digits (frac_part m) \<and> m \<noteq> [] \<and> m \<noteq> ''.''"
proof -
  have "int_part m @ frac_part m = [] \<longleftrightarrow> m = [] \<or> m = ''.''"
    using mantissa_split [of m] by (auto split: if_splits)
  then show ?thesis by (auto simp: mantissa_syntax_def)
qed

lemma is_valid_number_parts:
  assumes sg: "sg = [] \<and> (m @ e = [] \<or> \<not> is_sign_char (hd (m @ e))) \<or>
      (\<exists>c. sg = [c] \<and> is_sign_char c)"
    and m: "\<forall>c \<in> set m. \<not> is_exp_char c"
    and e: "e = [] \<or> is_exp_char (hd e)"
  shows "is_valid_number (sg @ m @ e) \<longleftrightarrow> mantissa_syntax m \<and> exponent_syntax e"
proof (cases "m = []")
  case True
  with sg e show ?thesis
    by (cases sg; cases e)
      (auto simp: is_valid_number_def mantissa_syntax_iff find_pos_from_def)
next
  case False
  define n where "n = length sg"
  have start: "is_sign_char (char_at (sg @ m @ e) 0) \<longleftrightarrow> n = 1" "n = 0 \<or> n = 1"
    using sg False by (cases m; auto simp: n_def)+
  have "find_pos is_exp_char (m @ e) = (if e = [] then None else Some (length m))"
  proof -
    have "find_pos is_exp_char m = None" using m by (simp add: find_pos_None)
    then show ?thesis using e by (cases e) (auto simp: find_pos_append)
  qed
  then have ep: "find_pos_from is_exp_char n (sg @ m @ e) =
      (if e = [] then None else Some (n + length m))"
    by (simp add: find_pos_from_append n_def)
  have "valid_exponent (sg @ m @ e) (n + length m) \<longleftrightarrow> exponent_syntax e" if "e \<noteq> []"
    using that valid_exponent_iff [of "sg @ m @ e" "sg @ m" "hd e" "tl e"] by (simp add: n_def)
  then have ve: "(case (if e = [] then None else Some (n + length m)) of None \<Rightarrow> True
      | Some p \<Rightarrow> valid_exponent (sg @ m @ e) p) \<longleftrightarrow> exponent_syntax e"
    by (auto simp: exponent_syntax_def)
  have mend: "(case (if e = [] then None else Some (n + length m)) of Some p \<Rightarrow> p
      | None \<Rightarrow> length (sg @ m @ e)) = n + length m"
    by (auto simp: n_def)
  have slice: "substr n (n + length m - n) (sg @ m @ e) = m"
    by (simp add: substr_def n_def)
  have "is_valid_number (sg @ m @ e) \<longleftrightarrow>
      (case scan_mantissa False m of None \<Rightarrow> False
       | Some has_dot \<Rightarrow> \<not> (has_dot \<and> m = ''.'') \<and> exponent_syntax e)"
  proof -
    have 1: "(if is_sign_char (char_at (sg @ m @ e) 0) then 1 else 0) = n"
      using start by auto
    have 2: "\<not> (is_sign_char (char_at (sg @ m @ e) 0) \<and> length (sg @ m @ e) = 1)"
      using start False by (auto simp: n_def)
    show ?thesis
      unfolding is_valid_number_def Let_def 1 ep mend slice ve
      using 2 False lone_dot_check [OF n_def [symmetric] False, of e]
      by (cases "scan_mantissa False m") (auto simp: scan_mantissa_False split: if_splits)
  qed
  also have "\<dots> \<longleftrightarrow> mantissa_syntax m \<and> exponent_syntax e"
    using False by (auto simp: mantissa_syntax_iff scan_mantissa_False)
  finally show ?thesis .
qed
theorem is_valid_number_iff: "is_valid_number str \<longleftrightarrow> number_syntax str"
proof -
  have "is_valid_number (fst (sign_split str) @ mantissa_of str @ exponent_of str) \<longleftrightarrow> number_syntax str"
    unfolding number_syntax_def
  proof (rule is_valid_number_parts)
    show "fst (sign_split str) = [] \<and> (mantissa_of str @ exponent_of str = [] \<or>
        \<not> is_sign_char (hd (mantissa_of str @ exponent_of str))) \<or>
      (\<exists>c. fst (sign_split str) = [c] \<and> is_sign_char c)"
      by (auto simp: mantissa_of_def exponent_of_def sign_split_def)
    show "\<forall>c \<in> set (mantissa_of str). \<not> is_exp_char c"
      by (auto simp: mantissa_of_def dest: set_takeWhileD)
    show "exponent_of str = [] \<or> is_exp_char (hd (exponent_of str))"
      using exponent_of_cases [of str] by auto
  qed
  then show ?thesis by (simp flip: mantissa_exponent_append)
qed
section \<open>Expanding an exponent\<close>

definition max_expanded_digits :: nat where
  "max_expanded_digits = 4096"

text \<open>The loop that splits the mantissa into its digits and the position of the point.\<close>

fun collect_digits :: "nat \<Rightarrow> string \<Rightarrow> nat \<Rightarrow> string \<Rightarrow> string \<times> nat" where
  "collect_digits i [] point digits = (digits, point)"
| "collect_digits i (c # cs) point digits =
     (if c = CHR ''.'' then collect_digits (Suc i) cs i digits
      else collect_digits (Suc i) cs point (digits @ [c]))"

text \<open>The sign of the exponent and its digits without leading zeros.\<close>

definition exponent_text :: "string \<Rightarrow> bool \<times> string" where
  "exponent_text exponent =
     (let exponent_negative = (char_at exponent 0 = CHR ''-'');
          digits = (if is_sign_char (char_at exponent 0) then drop 1 exponent else exponent)
      in (exponent_negative,
          drop (pos_or (length digits) (find_pos (\<lambda>c. c \<noteq> CHR ''0'') digits)) digits))"

text \<open>Writes digits with \<open>integer_digits\<close> of them before the point.\<close>

definition place_point :: "string \<Rightarrow> int \<Rightarrow> string" where
  "place_point digits integer_digits =
     (if integer_digits \<le> 0 then ''0.'' @ replicate (nat (- integer_digits)) (CHR ''0'') @ digits
      else if integer_digits \<ge> int (length digits)
      then digits @ replicate (nat (integer_digits - int (length digits))) (CHR ''0'')
      else take (nat integer_digits) digits @ ''.'' @ drop (nat integer_digits) digits)"

definition expanded_total :: "string \<Rightarrow> int \<Rightarrow> int" where
  "expanded_total digits integer_digits =
     (if integer_digits \<le> 0 then 1 - integer_digits + int (length digits)
      else max integer_digits (int (length digits)))"

definition expand_exponent :: "string \<Rightarrow> string" where
  "expand_exponent str =
     (case find_pos is_exp_char str of
        None \<Rightarrow> str
      | Some exp_pos \<Rightarrow>
          let negative = (char_at str 0 = CHR ''-'');
              start = (if is_sign_char (char_at str 0) then 1 else 0);
              mantissa = substr start (exp_pos - start) str;
              (digits, point) = collect_digits 0 mantissa (length mantissa) [];
              written_digits = length digits
          in (case find_pos (\<lambda>c. c \<noteq> CHR ''0'') digits of
                None \<Rightarrow> ''0''
              | Some first \<Rightarrow>
                  let digits = drop first digits;
                      leading = int point - int first;
                      (exponent_negative, exponent) = exponent_text (drop (exp_pos + 1) str)
                  in if length exponent > 9 then NAN_VALUE
                     else let shift = (if exponent = [] then 0 else dval exponent);
                              integer_digits = leading + (if exponent_negative then - shift else shift)
                          in if expanded_total digits integer_digits >
                                int (max max_expanded_digits written_digits)
                             then NAN_VALUE
                             else let result = place_point digits integer_digits
                                  in if negative then CHR ''-'' # result else result))"

section \<open>Canonical text\<close>

definition canonical_text :: "string \<Rightarrow> string" where
  "canonical_text str =
     (if \<not> is_valid_number str then NAN_VALUE
      else let expanded = expand_exponent str
           in if expanded = NAN_VALUE then NAN_VALUE
              else let negative = (char_at expanded 0 = CHR ''-'');
                       start = (if is_sign_char (char_at expanded 0) then 1 else 0);
                       unsigned_part = drop start expanded;
                       dot = find_pos (\<lambda>c. c = CHR ''.'') unsigned_part;
                       integer = (case dot of None \<Rightarrow> unsigned_part | Some d \<Rightarrow> take d unsigned_part);
                       fraction = (case dot of None \<Rightarrow> [] | Some d \<Rightarrow> drop (d + 1) unsigned_part);
                       integer = drop (pos_or (length integer) (find_pos (\<lambda>c. c \<noteq> CHR ''0'') integer)) integer;
                       integer = (if integer = [] then ''0'' else integer);
                       fraction = take (case find_last_pos (\<lambda>c. c \<noteq> CHR ''0'') fraction of
                           None \<Rightarrow> 0 | Some pos \<Rightarrow> pos + 1) fraction;
                       result = (if fraction = [] then integer else integer @ ''.'' @ fraction)
                   in if negative \<and> result \<noteq> ''0'' then CHR ''-'' # result else result)"

text \<open>The value a number string is written with.\<close>

definition exponent_value :: "string \<Rightarrow> int" where
  "exponent_value e = (if e = [] then 0
     else (if fst (sign_split (tl e)) = ''-'' then - 1 else 1) * dval (snd (sign_split (tl e))))"

definition written_value :: "string \<Rightarrow> rat" where
  "written_value str = (if fst (sign_split str) = ''-'' then - 1 else 1) *
     unsigned_value (mantissa_of str) * 10 powi exponent_value (exponent_of str)"

lemma split_at_dot:
  "(case find_pos (\<lambda>c. c = CHR ''.'') u of None \<Rightarrow> u | Some d \<Rightarrow> take d u) = int_part u"
  "(case find_pos (\<lambda>c. c = CHR ''.'') u of None \<Rightarrow> [] | Some d \<Rightarrow> drop (d + 1) u) = frac_part u"
  by (induction u) (auto split: option.splits)

lemma canonical_text_expanded:
  assumes "is_valid_number str" "expand_exponent str = sg @ u"
    "sg = [] \<and> (u = [] \<or> \<not> is_sign_char (hd u)) \<or> (\<exists>c. sg = [c] \<and> is_sign_char c)" "sg @ u \<noteq> NAN_VALUE"
  shows "canonical_text str = (let r = render (strip_leading (int_part u)) (strip_end (\<lambda>c. c = CHR ''0'') (frac_part u))
     in if sg = ''-'' \<and> r \<noteq> ''0'' then CHR ''-'' # r else r)"
proof -
  have 1: "char_at (sg @ u) 0 = CHR ''-'' \<longleftrightarrow> sg = ''-''"
    using assms(3) by (cases u) (auto simp: is_sign_char_def)
  have 2: "drop (if is_sign_char (char_at (sg @ u) 0) then 1 else 0) (sg @ u) = u"
    using assms(3) by (cases u) (auto simp: is_sign_char_def)
  show ?thesis
    unfolding canonical_text_def Let_def assms(2) 1 2 split_at_dot render_def strip_leading_def
    using assms(1,4) find_last_pos_strip_end [of "\<lambda>c. c = CHR ''0''" "frac_part u"]
      drop_pos_or_find_pos [of "int_part u" "\<lambda>c. c \<noteq> CHR ''0''"]
    by simp
qed
lemma NAN_VALUE_invalid [simp]: "\<not> is_valid_number NAN_VALUE"
  by (simp add: is_valid_number_iff number_syntax_def mantissa_syntax_def mantissa_of_def
      sign_split_def NAN_VALUE_def is_sign_char_def is_exp_char_def is_digit_def)

lemma valid_not_NAN: "is_valid_number str \<Longrightarrow> str \<noteq> NAN_VALUE"
  by auto

lemma digits_not_special:
  "is_digit c \<Longrightarrow> \<not> is_exp_char c \<and> \<not> is_sign_char c \<and> c \<noteq> CHR ''.''"
  by (auto simp: is_exp_char_def is_sign_char_def)

lemma expand_exponent_none: "\<forall>c \<in> set s. \<not> is_exp_char c \<Longrightarrow> expand_exponent s = s"
  by (simp add: expand_exponent_def find_pos_None [THEN iffD2])

lemma set_render: "set (render i f) \<subseteq> set i \<union> set f \<union> {CHR ''.''}"
  by (auto simp: render_def)

lemma render_no_exp: "all_digits i \<Longrightarrow> all_digits f \<Longrightarrow> \<forall>c \<in> set (render i f). \<not> is_exp_char c"
  using set_render [of i f] digits_not_special by (fastforce simp: is_exp_char_def)

lemma hd_render: "i \<noteq> [] \<Longrightarrow> hd (render i f) = hd i"
  by (simp add: render_def)

lemma render_eq_Nil [simp]: "render i f = [] \<longleftrightarrow> i = [] \<and> f = []"
  by (simp add: render_def)

text \<open>Text with an optional sign, an integer part and a fraction is a number.\<close>

lemma plain_text_valid:
  assumes "all_digits i" "i \<noteq> []" "all_digits f" "sg \<in> {[], ''-'', ''+''}"
  shows "is_valid_number (sg @ render i f)"
proof -
  have "\<not> is_sign_char (hd i)" using assms(1,2) digits_not_special by (cases i) auto
  then have "is_valid_number (sg @ render i f @ []) \<longleftrightarrow> mantissa_syntax (render i f) \<and> exponent_syntax []"
    using assms render_no_exp
    by (intro is_valid_number_parts) (auto simp: hd_render is_sign_char_def)
  then show ?thesis using assms by (simp add: mantissa_syntax_def exponent_syntax_def)
qed

lemma canonical_parts_strip:
  assumes "all_digits i" "i \<noteq> []" "all_digits f"
  shows "canonical_parts (strip_leading i) (strip_end (\<lambda>c. c = CHR ''0'') f)"
  using assms strip_leading_props [OF assms(1)] last_strip_end [of "\<lambda>c. c = CHR ''0''" f]
    set_strip_end [of "\<lambda>c. c = CHR ''0''" f]
  by (auto simp: canonical_parts_def)

lemma decimal_strip:
  assumes "all_digits i" "all_digits f"
  shows "decimal (strip_leading i) (strip_end (\<lambda>c. c = CHR ''0'') f) = decimal i f"
  using strip_leading_props [OF assms(1)] by (simp add: decimal_split fraction_strip_end)

lemma canonical_text_sign:
  assumes "all_digits i" "i \<noteq> []" "all_digits f" "sg \<in> {[], ''-'', ''+''}"
  shows "canonical_text (sg @ render i f) =
    (let r = render (strip_leading i) (strip_end (\<lambda>c. c = CHR ''0'') f)
     in if sg = ''-'' \<and> r \<noteq> ''0'' then CHR ''-'' # r else r)"
proof -
  have v: "is_valid_number (sg @ render i f)" by (rule plain_text_valid [OF assms])
  have "\<not> is_sign_char (hd i)" using assms(1,2) digits_not_special by (cases i) auto
  then have "sg = [] \<and> (render i f = [] \<or> \<not> is_sign_char (hd (render i f))) \<or>
      (\<exists>c. sg = [c] \<and> is_sign_char c)"
    using assms by (auto simp: hd_render is_sign_char_def)
  moreover have "expand_exponent (sg @ render i f) = sg @ render i f"
  proof (rule expand_exponent_none)
    have "\<forall>c \<in> set sg. \<not> is_exp_char c" using assms by (auto simp: is_exp_char_def)
    then show "\<forall>c \<in> set (sg @ render i f). \<not> is_exp_char c"
      using render_no_exp [OF assms(1,3)] by (simp add: ball_Un)
  qed
  ultimately show ?thesis
    using canonical_text_expanded [OF v, of sg "render i f"] valid_not_NAN [OF v] assms by simp
qed

text \<open>The form the results of arithmetic have before \<open>canonical_text\<close> reads them.\<close>

lemma canonical_text_plain:
  assumes "all_digits i" "i \<noteq> []" "all_digits f"
  shows "canonical_text (render i f) = render (strip_leading i) (strip_end (\<lambda>c. c = CHR ''0'') f)"
    "canonical_unsigned (canonical_text (render i f))"
    "unsigned_value (canonical_text (render i f)) = decimal i f"
proof -
  show 1: "canonical_text (render i f) = render (strip_leading i) (strip_end (\<lambda>c. c = CHR ''0'') f)"
    using canonical_text_sign [OF assms, of "[]"] by simp
  show "canonical_unsigned (canonical_text (render i f))"
    using canonical_parts_strip [OF assms] by (simp add: 1 canonical_unsigned_render)
  show "unsigned_value (canonical_text (render i f)) = decimal i f"
    using decimal_strip assms strip_leading_props(1) [OF assms(1)]
    by (simp add: 1 unsigned_value_render)
qed

lemma canonical_textE:
  assumes "canonical s"
  obtains sg i f where "s = sg @ render i f" "canonical_parts i f" "sg = [] \<or> sg = ''-''"
    "sg = ''-'' \<longrightarrow> render i f \<noteq> ''0''" "magnitude s = render i f" "is_negative_text s \<longleftrightarrow> sg = ''-''"
proof -
  from assms obtain i f where r: "magnitude s = render i f" and p: "canonical_parts i f"
    unfolding canonical_def by (blast elim: canonical_unsignedE)
  show thesis
  proof (cases "is_negative_text s")
    case True
    then have "s = ''-'' @ render i f" using r by (cases s) (auto simp: is_negative_text_def magnitude_def)
    with True show thesis using that [of "''-''" i f] assms r p by (simp add: canonical_def)
  next
    case False
    then show thesis using that [of "[]" i f] r p by (simp add: magnitude_def)
  qed
qed

lemma canonical_valid: "canonical s \<Longrightarrow> is_valid_number s"
  by (erule canonical_textE) (auto simp: canonical_parts_def no_leading_zero_def intro!: plain_text_valid)

text \<open>Canonical text is its own canonical form.\<close>

lemma canonical_text_id:
  assumes "canonical s"
  shows "canonical_text s = s"
proof -
  from assms obtain sg i f where s: "s = sg @ render i f" "canonical_parts i f"
    "sg = [] \<or> sg = ''-''" "sg = ''-'' \<longrightarrow> render i f \<noteq> ''0''" "magnitude s = render i f"
    "is_negative_text s \<longleftrightarrow> sg = ''-''" by (rule canonical_textE)
  then have "strip_leading i = i" "strip_end (\<lambda>c. c = CHR ''0'') f = f"
    by (auto simp: canonical_parts_def strip_leading_id intro!: strip_end_id)
  then show ?thesis using s canonical_text_sign [of i f sg]
    by (auto simp: canonical_parts_def no_leading_zero_def Let_def)
qed
section \<open>The value of the canonical text\<close>

lemma collect_digits_no_dot:
  "CHR ''.'' \<notin> set m \<Longrightarrow> collect_digits i m p d = (d @ m, p)"
  by (induction m arbitrary: i d) auto

lemma collect_digits_dot:
  "CHR ''.'' \<in> set m \<Longrightarrow> CHR ''.'' \<notin> set (frac_part m) \<Longrightarrow>
   collect_digits i m p d = (d @ int_part m @ frac_part m, i + length (int_part m))"
  by (induction m arbitrary: i d) (auto simp: collect_digits_no_dot)

lemma collect_digits_parts:
  assumes "all_digits (frac_part m)"
  shows "collect_digits 0 m (length m) [] = (int_part m @ frac_part m, length (int_part m))"
proof (cases "CHR ''.'' \<in> set m")
  case True
  with assms show ?thesis by (subst collect_digits_dot) auto
next
  case False
  then have "int_part m = m" using mantissa_split [of m] by simp
  moreover have "frac_part m = []" using False by (induction m) auto
  ultimately show ?thesis using False by (simp add: collect_digits_no_dot)
qed

text \<open>The digits of the significand, the digits of the exponent and where the point lands.\<close>

definition significand :: "string \<Rightarrow> string" where
  "significand str = dropWhile (\<lambda>c. c = CHR ''0'')
     (int_part (mantissa_of str) @ frac_part (mantissa_of str))"

definition written_digits :: "string \<Rightarrow> nat" where
  "written_digits str = length (int_part (mantissa_of str) @ frac_part (mantissa_of str))"

definition point_position :: "string \<Rightarrow> int" where
  "point_position str = int (length (int_part (mantissa_of str)))
     - int (written_digits str - length (significand str)) + exponent_value (exponent_of str)"

text \<open>Whether the expansion stays within the limit the code sets.\<close>

definition expansion_fits :: "string \<Rightarrow> bool" where
  "expansion_fits str \<longleftrightarrow> exponent_of str = [] \<or> significand str = [] \<or>
     (length (snd (exponent_text (tl (exponent_of str)))) \<le> 9 \<and>
      expanded_total (significand str) (point_position str)
        \<le> int (max max_expanded_digits (written_digits str)))"

lemma exponent_text_value:
  assumes "e \<noteq> []"
  shows "(if fst (exponent_text (tl e)) then - dval (snd (exponent_text (tl e)))
      else dval (snd (exponent_text (tl e)))) = exponent_value e"
    and "snd (exponent_text (tl e)) = dropWhile (\<lambda>c. c = CHR ''0'') (snd (sign_split (tl e)))"
proof -
  have 1: "(if is_sign_char (char_at x 0) then drop 1 x else x) = snd (sign_split x)" for x
    by (cases x) (auto simp: sign_split_def is_sign_char_def)
  have 2: "char_at x 0 = CHR ''-'' \<longleftrightarrow> fst (sign_split x) = ''-''" for x
    by (cases x) (auto simp: sign_split_def is_sign_char_def)
  show s: "snd (exponent_text (tl e)) = dropWhile (\<lambda>c. c = CHR ''0'') (snd (sign_split (tl e)))"
    by (simp only: exponent_text_def Let_def 1 snd_conv drop_pos_or_find_pos not_not)
  show "(if fst (exponent_text (tl e)) then - dval (snd (exponent_text (tl e)))
      else dval (snd (exponent_text (tl e)))) = exponent_value e"
    using assms by (simp add: s dval_strip_zeros exponent_value_def)
      (simp add: exponent_text_def Let_def 2)
qed

lemma find_first_nonzero:
  "find_pos (\<lambda>c. c \<noteq> CHR ''0'') d = (if dropWhile (\<lambda>c. c = CHR ''0'') d = [] then None
     else Some (length d - length (dropWhile (\<lambda>c. c = CHR ''0'') d)))"
proof (induction d)
  case Nil
  then show ?case by simp
next
  case (Cons c d)
  have "length (dropWhile (\<lambda>c. c = CHR ''0'') d) \<le> length d" by (rule length_dropWhile_le)
  with Cons show ?case by (auto simp: Suc_diff_le)
qed

lemma drop_first_nonzero:
  "drop (length d - length (dropWhile p d)) d = dropWhile p d"
  by (metis append_eq_conv_conj length_append diff_add_inverse2 takeWhile_dropWhile_id)

lemma expand_exponent_some:
  assumes v: "is_valid_number str" and e: "exponent_of str \<noteq> []"
  shows "expand_exponent str =
    (if significand str = [] then ''0''
     else if \<not> expansion_fits str then NAN_VALUE
     else (if fst (sign_split str) = ''-'' then ''-'' else []) @
       place_point (significand str) (point_position str))"
proof -
  define sg m e where "sg = fst (sign_split str)" and "m = mantissa_of str" and "e = exponent_of str"
  note defs = this
  have str: "str = sg @ m @ e" unfolding defs by (rule mantissa_exponent_append)
  have syn: "all_digits (int_part m)" "all_digits (frac_part m)"
    using v by (auto simp: is_valid_number_iff number_syntax_def mantissa_syntax_def defs)
  obtain c x where cx: "e = c # x" "is_exp_char c"
    using exponent_of_cases [of str] e by (auto simp: defs)
  have sg: "sg = [] \<and> \<not> is_sign_char (hd str) \<or> (\<exists>c. sg = [c] \<and> is_sign_char c)" 
    using v by (auto simp: defs sign_split_def is_valid_number_def)
  have "\<forall>c \<in> set (sg @ m). \<not> is_exp_char c"
    using sg by (auto simp: defs mantissa_of_def is_sign_char_def is_exp_char_def dest: set_takeWhileD)
  then have "find_pos is_exp_char (sg @ m) = None" by (simp add: find_pos_None)
  then have ep: "find_pos is_exp_char str = Some (length (sg @ m))"
    using cx find_pos_append [of is_exp_char "sg @ m" e] by (simp add: str)
  have neg: "char_at str 0 = CHR ''-'' \<longleftrightarrow> sg = ''-''"
    and start: "(if is_sign_char (char_at str 0) then 1 else 0) = length sg"
    using sg v by (cases str; auto simp: is_sign_char_def is_valid_number_def defs sign_split_def)+
  have mant: "substr (length sg) (length (sg @ m) - length sg) str = m"
    by (simp add: str substr_def)
  have ex: "drop (length (sg @ m) + 1) str = tl e" by (simp add: str cx)
  define d where "d = int_part m @ frac_part m"
  have col: "collect_digits 0 m (length m) [] = (d, length (int_part m))"
    unfolding d_def using syn(2) by (rule collect_digits_parts)
  define z where "z = dropWhile (\<lambda>c. c = CHR ''0'') d"
  have z: "significand str = z" "written_digits str = length d"
    by (simp_all add: significand_def written_digits_def z_def d_def defs)
  obtain n x where nx: "exponent_text (tl e) = (n, x)" by force
  have val: "(if n then - dval x else dval x) = exponent_value e"
    using exponent_text_value(1) [of e] cx(1) unfolding nx fst_conv snd_conv by blast
  have sh: "(if n then - (if x = [] then 0 else dval x) else (if x = [] then 0 else dval x)) = exponent_value e"
    using val by (cases n; cases "x = []") auto
  have le: "length z \<le> length d" unfolding z_def by (rule length_dropWhile_le)
  have fits: "expansion_fits str \<longleftrightarrow> z = [] \<or> (length x \<le> 9 \<and>
      expanded_total z (point_position str) \<le> int (max max_expanded_digits (length d)))"
    using e nx by (simp add: expansion_fits_def z defs)
  have pp: "int (length (int_part m)) - int (length d - length z) + exponent_value e = point_position str"
    by (simp add: point_position_def z defs)
  show ?thesis
    unfolding expand_exponent_def ep option.case Let_def neg start mant ex col prod.case
      find_first_nonzero nx z fits
    using sh pp drop_first_nonzero [of d "\<lambda>c. c = CHR ''0''"]
    by (auto simp: z_def [symmetric] defs(1) [symmetric] not_le not_less)
qed
lemma place_point_decimal:
  assumes z: "all_digits z" "z \<noteq> []"
  obtains i f where "place_point z k = render i f" "all_digits i" "i \<noteq> []" "all_digits f"
    "decimal i f = of_int (dval z) * 10 powi (k - int (length z))"
proof -
  have ten: "of_int (dval z) * (10::rat) powi (k - int (length z)) =
      of_int (dval z) / 10 ^ n" if "k - int (length z) = - int n" for n
    using that by (simp add: power_int_minus divide_inverse)
  consider "k \<le> 0" | "k \<ge> int (length z)" "0 < k" | "0 < k" "k < int (length z)" by linarith
  then show thesis
  proof cases
    case 1
    define f where "f = replicate (nat (- k)) (CHR ''0'') @ z"
    have "k - int (length z) = - int (length f)" using 1 by (simp add: f_def)
    from ten [OF this] show thesis
      using 1 z by (intro that [of "''0''" f])
        (auto simp: place_point_def render_def f_def decimal_def dval_append)
  next
    case 2
    define i where "i = z @ replicate (nat (k - int (length z))) (CHR ''0'')"
    have "of_int (dval i) = of_int (dval z) * (10::rat) powi (k - int (length z))"
      using 2 by (simp add: i_def dval_append power_int_def)
    then show thesis
      using 2 z by (intro that [of i "[]"])
        (auto simp: place_point_def render_def i_def decimal_def)
  next
    case 3
    define n where "n = nat k"
    have n: "k = int n" "0 < n" "n < length z" using 3 by (auto simp: n_def)
    have "k - int (length z) = - int (length (drop n z))" using n by simp
    from ten [OF this] show thesis
      using n z by (intro that [of "take n z" "drop n z"])
        (auto simp: place_point_def render_def decimal_def dest: in_set_takeD in_set_dropD)
  qed
qed

lemma written_value_significand:
  assumes "is_valid_number str"
  shows "written_value str = (if fst (sign_split str) = ''-'' then - 1 else 1) *
    (of_int (dval (significand str)) * 10 powi (point_position str - int (length (significand str))))"
proof -
  define m where "m = mantissa_of str"
  define d where "d = int_part m @ frac_part m"
  have z: "significand str = dropWhile (\<lambda>c. c = CHR ''0'') d" "written_digits str = length d"
    by (simp_all add: significand_def written_digits_def d_def m_def)
  have "length (significand str) \<le> length d" unfolding z by (rule length_dropWhile_le)
  then have e: "point_position str - int (length (significand str)) =
      exponent_value (exponent_of str) - int (length (frac_part m))"
    unfolding point_position_def z(2) by (simp add: d_def m_def)
  have "unsigned_value m = of_int (dval (significand str)) / 10 ^ length (frac_part m)"
    unfolding z(1) dval_strip_zeros by (simp add: unsigned_value_def decimal_def d_def)
  then show ?thesis
    unfolding e written_value_def m_def [symmetric]
    by (simp add: power_int_diff field_simps)
qed

lemma zero_significand: "is_valid_number str \<Longrightarrow> significand str = [] \<Longrightarrow> written_value str = 0"
  by (simp add: written_value_significand)

lemma all_digits_significand: "is_valid_number str \<Longrightarrow> all_digits (significand str)"
  unfolding significand_def is_valid_number_iff number_syntax_def mantissa_syntax_def
  by (metis UnE set_append set_dropWhileD)

text \<open>A number string without an exponent, as a sign, an integer part and a fraction.\<close>

lemma plain_canonical_value:
  assumes "all_digits i" "i \<noteq> []" "all_digits f" "sg \<in> {[], ''-'', ''+''}"
  defines "r \<equiv> render (strip_leading i) (strip_end (\<lambda>c. c = CHR ''0'') f)"
  shows "canonical (if sg = ''-'' \<and> r \<noteq> ''0'' then CHR ''-'' # r else r)"
    "num_value (if sg = ''-'' \<and> r \<noteq> ''0'' then CHR ''-'' # r else r) =
       (if sg = ''-'' then - 1 else 1) * decimal i f"
proof -
  have u: "canonical_unsigned r" unfolding r_def
    using canonical_parts_strip [OF assms(1-3)] by (rule canonical_unsigned_render)
  then show "canonical (if sg = ''-'' \<and> r \<noteq> ''0'' then CHR ''-'' # r else r)"
    using canonical_negate canonical_unsigned_canonical by simp
  have "unsigned_value r = decimal i f" unfolding r_def
    using decimal_strip assms strip_leading_props(1) [OF assms(1)] by (simp add: unsigned_value_render)
  with u show "num_value (if sg = ''-'' \<and> r \<noteq> ''0'' then CHR ''-'' # r else r) =
       (if sg = ''-'' then - 1 else 1) * decimal i f"
    by (auto simp: num_value_unsigned)
qed
text \<open>Every string becomes the one NaN or text in canonical form, with the value written.\<close>

text \<open>Text without an exponent, and text with one.\<close>

lemma canonical_plain_value:
  assumes v: "is_valid_number str" and none: "exponent_of str = []"
  shows "canonical (canonical_text str) \<and> num_value (canonical_text str) = written_value str"
proof -
  define sg m where "sg = fst (sign_split str)" and "m = mantissa_of str"
  have str: "str = sg @ m" using mantissa_exponent_append [of str] none by (simp add: sg_def m_def)
  have m: "all_digits (int_part m)" "all_digits (frac_part m)" "int_part m @ frac_part m \<noteq> []"
    using v by (auto simp: is_valid_number_iff number_syntax_def mantissa_syntax_def m_def)
  have sg: "sg \<in> {[], ''-'', ''+''}" by (auto simp: sg_def sign_split_def is_sign_char_def)
  have shape: "sg = [] \<and> (m = [] \<or> \<not> is_sign_char (hd m)) \<or> (\<exists>c. sg = [c] \<and> is_sign_char c)"
    using none mantissa_exponent_append [of str]
    by (auto simp: sg_def m_def sign_split_def)
  have "\<forall>c \<in> set m. \<not> is_exp_char c"
    by (auto simp: m_def mantissa_of_def dest: set_takeWhileD)
  moreover have "\<forall>c \<in> set sg. \<not> is_exp_char c" using sg by (auto simp: is_exp_char_def)
  ultimately have "\<forall>c \<in> set str. \<not> is_exp_char c" unfolding str by auto
  then have "expand_exponent str = sg @ m" by (simp add: expand_exponent_none str)
  from canonical_text_expanded [OF v this shape] valid_not_NAN [OF v]
  have c: "canonical_text str = (let r = render (strip_leading (int_part m)) (strip_end (\<lambda>c. c = CHR ''0'') (frac_part m))
     in if sg = ''-'' \<and> r \<noteq> ''0'' then CHR ''-'' # r else r)"
    unfolding str by blast
  have w: "written_value str = (if sg = ''-'' then - 1 else 1) * decimal (int_part m) (frac_part m)"
    unfolding written_value_def none sg_def m_def by (simp add: exponent_value_def unsigned_value_def)
  obtain i where i: "all_digits i" "i \<noteq> []" "strip_leading (int_part m) = strip_leading i"
      "decimal (int_part m) (frac_part m) = decimal i (frac_part m)"
  proof (cases "int_part m = []")
    case False
    with m(1) show ?thesis by (intro that [of "int_part m"]) simp_all
  next
    case True
    show ?thesis
      by (rule that [of "''0''"]) (simp_all add: True strip_leading_def decimal_split)
  qed
  show ?thesis
    unfolding c w i(3,4) Let_def using plain_canonical_value [OF i(1,2) m(2) sg] by blast
qed

lemma canonical_exponent_value:
  assumes v: "is_valid_number str" and fits: "expansion_fits str" and e: "exponent_of str \<noteq> []" and ne: "significand str \<noteq> []"
  shows "canonical (canonical_text str) \<and> num_value (canonical_text str) = written_value str"
proof -
  obtain i f where pp: "place_point (significand str) (point_position str) = render i f"
    and d: "all_digits i" "i \<noteq> []" "all_digits f"
    and val: "decimal i f = of_int (dval (significand str)) *
      10 powi (point_position str - int (length (significand str)))"
    using place_point_decimal [OF all_digits_significand [OF v] ne] by metis
  define sg where "sg = (if fst (sign_split str) = ''-'' then ''-'' else [])"
  have sg: "sg \<in> {[], ''-'', ''+''}" "sg = ''-'' \<longleftrightarrow> fst (sign_split str) = ''-''"
    by (auto simp: sg_def)
  have "expand_exponent str = sg @ render i f"
    using expand_exponent_some [OF v e] ne fits pp by (simp add: sg_def)
  moreover have "sg = [] \<and> (render i f = [] \<or> \<not> is_sign_char (hd (render i f))) \<or>
      (\<exists>c. sg = [c] \<and> is_sign_char c)"
    using d digits_not_special by (cases i) (auto simp: sg_def is_sign_char_def hd_render)
  moreover have "sg @ render i f \<noteq> NAN_VALUE"
    using valid_not_NAN [OF plain_text_valid [OF d sg(1)]] .
  ultimately have c: "canonical_text str =
      (let r = render (strip_leading i) (strip_end (\<lambda>c. c = CHR ''0'') f)
       in if sg = ''-'' \<and> r \<noteq> ''0'' then CHR ''-'' # r else r)"
    using canonical_text_expanded [OF v] d by simp
  show ?thesis
    using plain_canonical_value [OF d sg(1)]
    by (simp add: c Let_def written_value_significand [OF v] val sg(2))
qed

lemma canonical_text_value:
  assumes v: "is_valid_number str" and fits: "expansion_fits str"
  shows "canonical (canonical_text str) \<and> num_value (canonical_text str) = written_value str"
proof (cases "exponent_of str \<noteq> [] \<and> significand str = []")
  case True
  then have "expand_exponent str = ''0''" using expand_exponent_some [OF v] by simp
  with canonical_text_expanded [OF v, of "[]" "''0''"]
  have "canonical_text str = ''0''"
    by (simp add: NAN_VALUE_def is_sign_char_def strip_leading_def render_def)
  then show ?thesis
    using zero_significand [OF v] True canonical_unsigned_canonical [OF canonical_unsigned_zero]
    by (simp add: num_value_unsigned)
qed (use canonical_plain_value [OF v] canonical_exponent_value [OF v fits] in blast)

theorem canonical_text_NAN_iff:
  "canonical_text str = NAN_VALUE \<longleftrightarrow> \<not> (is_valid_number str \<and> expansion_fits str)"
proof -
  have "canonical_text str \<noteq> NAN_VALUE" if "is_valid_number str" "expansion_fits str"
    using canonical_text_value [OF that] canonical_valid valid_not_NAN by blast
  moreover have "canonical_text str = NAN_VALUE" if "is_valid_number str" "\<not> expansion_fits str"
  proof -
    have "expand_exponent str = NAN_VALUE"
      using expand_exponent_some [OF that(1)] that(2) by (auto simp: expansion_fits_def)
    then show ?thesis by (simp add: canonical_text_def)
  qed
  moreover have "canonical_text str = NAN_VALUE" if "\<not> is_valid_number str"
    using that by (simp add: canonical_text_def)
  ultimately show ?thesis by blast
qed

lemma canonical_text_cases: "canonical_text str = NAN_VALUE \<or> canonical (canonical_text str)"
  using canonical_text_value canonical_text_NAN_iff by blast
section \<open>Comparing canonical texts\<close>

definition compare_numbers :: "string \<Rightarrow> string \<Rightarrow> int" where
  "compare_numbers a b =
     (let a_neg = (char_at a 0 = CHR ''-''); b_neg = (char_at b 0 = CHR ''-'')
      in if a_neg \<noteq> b_neg then (if a_neg then - 1 else 1)
         else let a = (if a_neg then drop 1 a else a);
                  b = (if a_neg then drop 1 b else b);
                  a_dot = pos_or (length a) (find_pos (\<lambda>c. c = CHR ''.'') a);
                  b_dot = pos_or (length b) (find_pos (\<lambda>c. c = CHR ''.'') b);
                  a_int = substr 0 a_dot a;
                  b_int = substr 0 b_dot b;
                  c_int = str_compare a_int b_int;
                  c_frac = str_compare (drop a_dot a) (drop b_dot b);
                  cmp = (if length a_int \<noteq> length b_int
                         then (if length a_int < length b_int then - 1 else 1)
                         else if c_int \<noteq> 0 then (if c_int < 0 then - 1 else 1)
                         else if c_frac \<noteq> 0 then (if c_frac < 0 then - 1 else 1)
                         else 0)
              in if a_neg then - cmp else cmp)"

lemma dot_parts:
  "substr 0 (pos_or (length u) (find_pos (\<lambda>c. c = CHR ''.'') u)) u = int_part u"
  by (simp add: substr_def take_pos_or_find_pos int_part_def)

lemma drop_dot_render:
  "all_digits i \<Longrightarrow> drop (pos_or (length (render i f)) (find_pos (\<lambda>c. c = CHR ''.'') (render i f))) (render i f)
     = (if f = [] then [] else CHR ''.'' # f)"
  by (simp add: drop_pos_or_find_pos render_def dropWhile_digits dropWhile_digits_dot)

lemma str_compare_dots:
  "str_compare (if f = [] then [] else c # f) (if g = [] then [] else c # g) = str_compare f g"
  by (cases f; cases g) auto

text \<open>On unsigned canonical texts the order of texts is the order of values.\<close>

lemma compare_unsigned:
  assumes a: "canonical_unsigned a" and b: "canonical_unsigned b"
  shows "compare_numbers a b = cmp3 (unsigned_value a) (unsigned_value b)"
proof -
  from a obtain i f where a': "a = render i f" "canonical_parts i f" "int_part a = i"
    "unsigned_value a = decimal i f" by (rule canonical_unsignedE)
  from b obtain j g where b': "b = render j g" "canonical_parts j g" "int_part b = j"
    "unsigned_value b = decimal j g" by (rule canonical_unsignedE)
  have d: "all_digits i" "all_digits f" "all_digits j" "all_digits g"
    "no_leading_zero i" "no_leading_zero j" "i \<noteq> []" "j \<noteq> []"
    using a' b' by (auto simp: canonical_parts_def no_leading_zero_def)
  have pos: "char_at u 0 \<noteq> CHR ''-''" if "canonical_unsigned u" for u
    using canonical_unsigned_not_negative [OF that] by (cases u) (auto simp: is_negative_text_def)
  have frac: "str_compare f g = cmp3 (fraction f) (fraction g)"
    using a'(2) b'(2) by (simp add: canonical_parts_def fraction_compare cmp3_def)
  have "compare_numbers a b =
    (if length i \<noteq> length j then (if length i < length j then - 1 else 1)
     else if str_compare i j \<noteq> 0 then (if str_compare i j < 0 then - 1 else 1)
     else if str_compare f g \<noteq> 0 then (if str_compare f g < 0 then - 1 else 1) else 0)"
    using pos [OF a] pos [OF b] drop_dot_render [OF d(1), of f] drop_dot_render [OF d(3), of g]
    by (simp add: compare_numbers_def Let_def dot_parts a'(3) b'(3)) (simp add: a'(1) b'(1) str_compare_dots)
  also have "\<dots> = cmp3 (decimal i f) (decimal j g)"
  proof (cases "length i = length j")
    case True
    then have "str_compare i j = sgn (dval i - dval j)" using d by (intro dval_compare)
    with True show ?thesis
      using decimal_less_iff [OF d(2,4), of i j] decimal_less_iff [OF d(4,2), of j i]
      by (auto simp: frac sgn_if cmp3_def)
  next
    case False
    then consider "length i < length j" | "length j < length i" by linarith
    then show ?thesis
    proof cases
      case 1
      then have "dval i < dval j" using d by (intro no_leading_zero_less_length)
      with 1 show ?thesis using decimal_less_iff [OF d(2,4), of i j] by (simp add: cmp3_def)
    next
      case 2
      then have "dval j < dval i" using d by (intro no_leading_zero_less_length)
      with 2 show ?thesis
        using decimal_less_iff [OF d(4,2), of j i] by (auto simp: cmp3_def)
    qed
  qed
  finally show ?thesis by (simp add: a'(4) b'(4))
qed

lemma char_at_negative: "char_at s 0 = CHR ''-'' \<longleftrightarrow> is_negative_text s"
  by (cases s) (auto simp: is_negative_text_def)

lemma compare_magnitudes:
  assumes "is_negative_text a" "is_negative_text b"
    "canonical_unsigned (magnitude a)" "canonical_unsigned (magnitude b)"
  shows "compare_numbers a b = - compare_numbers (magnitude a) (magnitude b)"
  using assms canonical_unsigned_not_negative [OF assms(3)] canonical_unsigned_not_negative [OF assms(4)]
  unfolding compare_numbers_def Let_def char_at_negative
  by (auto simp: magnitude_def drop_Suc)

theorem compare_canonical:
  assumes a: "canonical a" and b: "canonical b"
  shows "compare_numbers a b = cmp3 (num_value a) (num_value b)"
proof (cases "is_negative_text a = is_negative_text b")
  case False
  then have "compare_numbers a b = (if is_negative_text a then - 1 else 1)"
    by (simp add: compare_numbers_def char_at_negative)
  then show ?thesis
    using False num_value_negative_iff [OF a] num_value_negative_iff [OF b]
    by (auto simp: cmp3_def)
next
  case True
  have u: "canonical_unsigned (magnitude a)" "canonical_unsigned (magnitude b)"
    using a b by (auto simp: canonical_def)
  show ?thesis
  proof (cases "is_negative_text a")
    case False
    with True u show ?thesis
      using compare_unsigned [OF u] by (simp add: magnitude_def num_value_def)
  next
    case neg: True
    with True have "compare_numbers a b = - cmp3 (unsigned_value (magnitude a)) (unsigned_value (magnitude b))"
      using compare_magnitudes u compare_unsigned [OF u] by simp
    also have "\<dots> = cmp3 (unsigned_value (magnitude b)) (unsigned_value (magnitude a))"
      by (simp add: cmp3_swap [of "unsigned_value (magnitude b)"])
    finally show ?thesis using neg True by (simp add: num_value_def)
  qed
qed

end
