(* ===== verification/Number_Arith.thy ===== *)
theory Number_Arith
  imports Number_Text
begin

text \<open>
  Schoolbook arithmetic on decimal text (\<open>src/type/number.cpp\<close>): \<open>add_positive_numbers\<close>,
  \<open>subtract_positive_numbers\<close> and \<open>multiply_positive_numbers\<close>, each loop translated with its
  index, its carry and its buffer, and the theorems that each is exact on unsigned canonical
  text. Positions are \<^typ>\<open>nat\<close>: a counter of the code that runs from \<open>n - 1\<close> down to \<open>0\<close> is
  here the number of positions left. The code keeps them in \<open>int\<close>, which holds every position
  of a string shorter than \<open>2^31\<close> bytes.
\<close>

section \<open>The parts of a number\<close>

record number_parts =
  np_negative :: bool
  np_integer :: string
  np_fractional :: string

definition NumberParts :: "string \<Rightarrow> number_parts" where
  "NumberParts num =
     (let negative = (char_at num 0 = CHR ''-'');
          abs_num = (if negative then drop 1 num else num)
      in case find_pos (\<lambda>c. c = CHR ''.'') abs_num of
           None \<Rightarrow> \<lparr>np_negative = negative, np_integer = abs_num, np_fractional = []\<rparr>
         | Some dot_pos \<Rightarrow> \<lparr>np_negative = negative, np_integer = take dot_pos abs_num,
                            np_fractional = drop (dot_pos + 1) abs_num\<rparr>)"

lemma NumberParts_eq:
  "NumberParts num = \<lparr>np_negative = is_negative_text num,
     np_integer = int_part (magnitude num), np_fractional = frac_part (magnitude num)\<rparr>"
  using split_at_dot [of "magnitude num"]
  by (auto simp: NumberParts_def char_at_negative magnitude_def drop_Suc Let_def split: option.splits)

section \<open>Addition\<close>

text \<open>The loop over the fractions, with \<open>n\<close> positions left: the carry and the digits so far.\<close>

fun add_frac_loop :: "string \<Rightarrow> string \<Rightarrow> nat \<Rightarrow> int \<Rightarrow> string \<Rightarrow> int \<times> string" where
  "add_frac_loop fa fb 0 carry result = (carry, result)"
| "add_frac_loop fa fb (Suc i) carry result =
     (let sum = carry + digit (fa ! i) + digit (fb ! i)
      in add_frac_loop fa fb i (sum div 10) (digit_char (sum mod 10) # result))"

text \<open>The loop over the integer parts: \<open>i\<close> and \<open>j\<close> positions are left of each.\<close>

function add_int_loop :: "string \<Rightarrow> string \<Rightarrow> nat \<Rightarrow> nat \<Rightarrow> int \<Rightarrow> string \<Rightarrow> string" where
  "add_int_loop ia ib i j carry result =
     (if 0 < i \<or> 0 < j \<or> 0 < carry
      then let sum = carry;
               sum = (if 0 < i then sum + digit (ia ! (i - 1)) else sum);
               sum = (if 0 < j then sum + digit (ib ! (j - 1)) else sum)
           in add_int_loop ia ib (i - 1) (j - 1) (sum div 10) (digit_char (sum mod 10) # result)
      else result)"
  by pat_completeness auto
termination
  by (relation "measures [\<lambda>(ia, ib, i, j, carry, result). i + j, \<lambda>(ia, ib, i, j, carry, result). nat carry]")
    auto

declare add_int_loop.simps [simp del]

text \<open>The trailing zeros of a fraction go, and the point when nothing is left of it.\<close>

definition combine_result :: "string \<Rightarrow> string \<Rightarrow> string" where
  "combine_result result_int result_frac =
     (let frac = strip_end (\<lambda>c. c = CHR ''0'') result_frac
      in if frac \<noteq> [] then result_int @ ''.'' @ frac else result_int)"

definition add_positive_numbers :: "string \<Rightarrow> string \<Rightarrow> string" where
  "add_positive_numbers a b =
     (let pa = NumberParts a; pb = NumberParts b;
          max_frac = max (length (np_fractional pa)) (length (np_fractional pb));
          fa = resize max_frac (CHR ''0'') (np_fractional pa);
          fb = resize max_frac (CHR ''0'') (np_fractional pb);
          (carry, result_frac) = add_frac_loop fa fb max_frac 0 [];
          result_int = add_int_loop (np_integer pa) (np_integer pb)
            (length (np_integer pa)) (length (np_integer pb)) carry []
      in canonical_text (combine_result result_int result_frac))"

lemma carry_bounds: "0 \<le> s \<Longrightarrow> s \<le> 19 \<Longrightarrow> 0 \<le> s div 10 \<and> s div 10 \<le> (1::int)"
  by auto

lemma add_frac_loop_value:
  assumes "n \<le> length fa" "n \<le> length fb" "all_digits fa" "all_digits fb" "0 \<le> c" "c \<le> 1"
  shows "\<exists>c' r. add_frac_loop fa fb n c acc = (c', r @ acc) \<and> length r = n \<and> all_digits r \<and>
    0 \<le> c' \<and> c' \<le> 1 \<and> c' * 10 ^ n + dval r = c + dval (take n fa) + dval (take n fb)"
  using assms
proof (induction n arbitrary: c acc)
  case 0
  then show ?case by simp
next
  case (Suc n)
  define s where "s = c + digit (fa ! n) + digit (fb ! n)"
  have d: "is_digit (fa ! n)" "is_digit (fb ! n)" using Suc.prems by auto
  have c: "0 \<le> s div 10" "s div 10 \<le> 1"
    using carry_bounds [of s] d Suc.prems(5,6) by (auto simp: s_def is_digit_iff)
  have p: "n \<le> length fa" "n \<le> length fb" using Suc.prems(1,2) by auto
  obtain c' r where r: "add_frac_loop fa fb n (s div 10) (digit_char (s mod 10) # acc)
      = (c', r @ digit_char (s mod 10) # acc)" "length r = n" "all_digits r" "0 \<le> c'" "c' \<le> 1"
    "c' * 10 ^ n + dval r = s div 10 + dval (take n fa) + dval (take n fb)"
    using Suc.IH [OF p Suc.prems(3,4) c, of "digit_char (s mod 10) # acc"] by blast
  have t: "dval (take (Suc n) f) = 10 * dval (take n f) + digit (f ! n)" if "Suc n \<le> length f" for f
    using that by (simp add: take_Suc_conv_app_nth dval_snoc)
  have "c' * 10 ^ Suc n + dval (r @ [digit_char (s mod 10)]) =
      10 * (c' * 10 ^ n + dval r) + s mod 10"
    by (simp add: dval_snoc digit_digit_char)
  also have "\<dots> = s + 10 * dval (take n fa) + 10 * dval (take n fb)"
    unfolding r(6) by (simp add: algebra_simps)
  also have "\<dots> = c + dval (take (Suc n) fa) + dval (take (Suc n) fb)"
    using Suc.prems t [of fa] t [of fb] by (simp add: s_def)
  finally show ?case
    using r by (intro exI [of _ c'] exI [of _ "r @ [digit_char (s mod 10)]"])
      (simp add: s_def Let_def is_digit_digit_char)
qed

lemma add_int_loop_value:
  assumes "i \<le> length ia" "j \<le> length ib" "all_digits ia" "all_digits ib" "0 \<le> c" "c \<le> 1"
  shows "\<exists>r. add_int_loop ia ib i j c acc = r @ acc \<and> all_digits r \<and>
    (0 < i \<or> 0 < j \<longrightarrow> r \<noteq> []) \<and> dval r = c + dval (take i ia) + dval (take j ib)"
  using assms
proof (induction "2 * (i + j) + nat c" arbitrary: i j c acc rule: less_induct)
  case less
  show ?case
  proof (cases "0 < i \<or> 0 < j \<or> 0 < c")
    case False
    with less.prems show ?thesis by (auto simp: add_int_loop.simps)
  next
    case True
    define x where "x = (if 0 < i then digit (ia ! (i - 1)) else 0)"
    define y where "y = (if 0 < j then digit (ib ! (j - 1)) else 0)"
    define s where "s = c + x + y"
    have xy: "0 \<le> x" "x \<le> 9" "0 \<le> y" "y \<le> 9"
      using less.prems by (auto simp: x_def y_def is_digit_iff)
    then have c: "0 \<le> s div 10" "s div 10 \<le> 1"
      using carry_bounds [of s] less.prems(5,6) by (auto simp: s_def)
    have unfold: "add_int_loop ia ib i j c acc =
        add_int_loop ia ib (i - 1) (j - 1) (s div 10) (digit_char (s mod 10) # acc)"
      using True by (subst add_int_loop.simps) (simp add: s_def x_def y_def Let_def)
    have t: "dval (take n f) = 10 * dval (take (n - 1) f) + (if 0 < n then digit (f ! (n - 1)) else 0)"
      if "n \<le> length f" for n f
      using that by (cases n) (simp_all add: take_Suc_conv_app_nth dval_snoc)
    have "\<exists>r. add_int_loop ia ib (i - 1) (j - 1) (s div 10) (digit_char (s mod 10) # acc)
        = r @ digit_char (s mod 10) # acc \<and> all_digits r \<and>
        dval r = s div 10 + dval (take (i - 1) ia) + dval (take (j - 1) ib)"
    proof -
      have "c = 1" "s = 1" if "i = 0" "j = 0"
        using that True less.prems by (auto simp: s_def x_def y_def)
      then have "2 * (i - 1 + (j - 1)) + nat (s div 10) < 2 * (i + j) + nat c"
        using c by (cases "i = 0"; cases "j = 0") auto
      moreover have "i - 1 \<le> length ia" "j - 1 \<le> length ib" using less.prems(1,2) by auto
      ultimately show ?thesis
        using less.hyps [OF _ _ _ less.prems(3,4) c] by blast
    qed
    then obtain r where r: "add_int_loop ia ib i j c acc = r @ digit_char (s mod 10) # acc"
      "all_digits r" "dval r = s div 10 + dval (take (i - 1) ia) + dval (take (j - 1) ib)"
      using unfold by auto
    have "dval (r @ [digit_char (s mod 10)]) = s + 10 * dval (take (i - 1) ia) + 10 * dval (take (j - 1) ib)"
      by (simp add: dval_snoc digit_digit_char r(3) algebra_simps)
    also have "\<dots> = c + dval (take i ia) + dval (take j ib)"
      using t [of i ia] t [of j ib] less.prems by (simp add: s_def x_def y_def)
    finally show ?thesis
      using r by (intro exI [of _ "r @ [digit_char (s mod 10)]"]) (simp add: is_digit_digit_char)
  qed
qed
lemma combine_result_render:
  "combine_result i f = render i (strip_end (\<lambda>c. c = CHR ''0'') f)"
  by (simp add: combine_result_def render_def Let_def)

lemma combine_result_value:
  assumes "all_digits i" "i \<noteq> []" "all_digits f"
  shows "canonical_unsigned (canonical_text (combine_result i f))"
    "unsigned_value (canonical_text (combine_result i f)) = decimal i f"
proof -
  have f: "all_digits (strip_end (\<lambda>c. c = CHR ''0'') f)"
    using assms(3) set_strip_end [of "\<lambda>c. c = CHR ''0''" f] by auto
  show "canonical_unsigned (canonical_text (combine_result i f))"
    "unsigned_value (canonical_text (combine_result i f)) = decimal i f"
    using canonical_text_plain [OF assms(1,2) f]
    by (simp_all add: combine_result_render decimal_split fraction_strip_end)
qed

text \<open>The parts of unsigned canonical text, padded to a common length.\<close>

lemma parts_unsigned:
  assumes "canonical_unsigned u"
  shows "np_integer (NumberParts u) = int_part u" "np_fractional (NumberParts u) = frac_part u"
    "all_digits (int_part u)" "int_part u \<noteq> []" "no_leading_zero (int_part u)" "all_digits (frac_part u)"
proof -
  have "canonical_parts (int_part u) (frac_part u)"
    using assms unfolding canonical_unsigned_def by blast
  then show "np_integer (NumberParts u) = int_part u" "np_fractional (NumberParts u) = frac_part u"
    "all_digits (int_part u)" "int_part u \<noteq> []" "no_leading_zero (int_part u)" "all_digits (frac_part u)"
    using canonical_unsigned_not_negative [OF assms]
    by (auto simp: NumberParts_eq magnitude_def canonical_parts_def no_leading_zero_def)
qed

lemma all_digits_resize: "all_digits f \<Longrightarrow> all_digits (resize n (CHR ''0'') f)"
  by (auto simp: resize_def dest: in_set_takeD)

lemma fraction_resize: "length f \<le> n \<Longrightarrow> fraction (resize n (CHR ''0'') f) = fraction f"
  by (simp add: resize_longer)

lemma unsigned_value_resize:
  assumes "length (frac_part u) \<le> n"
  shows "unsigned_value u = of_int (dval (int_part u)) + of_int (dval (resize n (CHR ''0'') (frac_part u))) / 10 ^ n"
  using fraction_resize [OF assms] by (simp add: unsigned_value_def decimal_split fraction_def)

theorem add_positive_exact:
  assumes a: "canonical_unsigned a" and b: "canonical_unsigned b"
  shows "canonical_unsigned (add_positive_numbers a b) \<and>
    unsigned_value (add_positive_numbers a b) = unsigned_value a + unsigned_value b"
proof -
  note pa = parts_unsigned [OF a] and pb = parts_unsigned [OF b]
  define n where "n = max (length (frac_part a)) (length (frac_part b))"
  define fa fb where "fa = resize n (CHR ''0'') (frac_part a)" and "fb = resize n (CHR ''0'') (frac_part b)"
  have f: "n \<le> length fa" "n \<le> length fb" "all_digits fa" "all_digits fb"
    "take n fa = fa" "take n fb = fb"
    using pa pb by (simp_all add: fa_def fb_def all_digits_resize)
  obtain c rf where rf: "add_frac_loop fa fb n 0 [] = (c, rf)" "length rf = n" "all_digits rf"
    "0 \<le> c" "c \<le> 1" "c * 10 ^ n + dval rf = dval fa + dval fb"
    using add_frac_loop_value [OF f(1-4), of 0 "[]"] f by auto
  obtain ri where ri: "add_int_loop (int_part a) (int_part b) (length (int_part a))
      (length (int_part b)) c [] = ri" "all_digits ri" "ri \<noteq> []"
    "dval ri = c + dval (int_part a) + dval (int_part b)"
    using add_int_loop_value [OF order_refl order_refl pa(3) pb(3) rf(4,5), of "[]"] pa(4) by auto
  have eq: "add_positive_numbers a b = canonical_text (combine_result ri rf)"
    by (simp add: add_positive_numbers_def Let_def pa(1,2) pb(1,2) n_def [symmetric]
        fa_def [symmetric] fb_def [symmetric] rf(1) ri(1))
  have "dval rf = dval fa + dval fb - c * 10 ^ n" using rf(6) by simp
  then have "(of_int (dval rf) :: rat) = of_int (dval fa) + of_int (dval fb) - of_int c * 10 ^ n"
    by simp
  then have "decimal ri rf = of_int (dval (int_part a)) + of_int (dval fa) / 10 ^ n
      + (of_int (dval (int_part b)) + of_int (dval fb) / 10 ^ n)"
    by (simp add: decimal_split fraction_def rf(2) ri(4) add_divide_distrib diff_divide_distrib)
  also have "\<dots> = unsigned_value a + unsigned_value b"
    using unsigned_value_resize [of a n] unsigned_value_resize [of b n]
    by (simp add: n_def fa_def fb_def)
  finally show ?thesis
    using combine_result_value [OF ri(2,3) rf(3)] by (simp add: eq)
qed

section \<open>Subtraction\<close>

fun sub_frac_loop :: "string \<Rightarrow> string \<Rightarrow> nat \<Rightarrow> int \<Rightarrow> string \<Rightarrow> int \<times> string" where
  "sub_frac_loop fa fb 0 borrow result = (borrow, result)"
| "sub_frac_loop fa fb (Suc i) borrow result =
     (let diff = digit (fa ! i) - digit (fb ! i) - borrow
      in if diff < 0 then sub_frac_loop fa fb i 1 (digit_char (diff + 10) # result)
         else sub_frac_loop fa fb i 0 (digit_char diff # result))"

fun sub_int_loop :: "string \<Rightarrow> string \<Rightarrow> nat \<Rightarrow> nat \<Rightarrow> int \<Rightarrow> string \<Rightarrow> string" where
  "sub_int_loop ia ib 0 j borrow result = result"
| "sub_int_loop ia ib (Suc i) j borrow result =
     (let diff = digit (ia ! i) - borrow;
          diff = (if 0 < j then diff - digit (ib ! (j - 1)) else diff)
      in if diff < 0 then sub_int_loop ia ib i (j - 1) 1 (digit_char (diff + 10) # result)
         else sub_int_loop ia ib i (j - 1) 0 (digit_char diff # result))"

definition subtract_positive_numbers :: "string \<Rightarrow> string \<Rightarrow> string" where
  "subtract_positive_numbers a b =
     (let pa = NumberParts a; pb = NumberParts b;
          max_frac = max (length (np_fractional pa)) (length (np_fractional pb));
          fa = resize max_frac (CHR ''0'') (np_fractional pa);
          fb = resize max_frac (CHR ''0'') (np_fractional pb);
          (borrow, result_frac) = sub_frac_loop fa fb max_frac 0 [];
          result_int = sub_int_loop (np_integer pa) (np_integer pb)
            (length (np_integer pa)) (length (np_integer pb)) borrow []
      in canonical_text (combine_result result_int result_frac))"

lemma take_Suc_dval: "Suc n \<le> length f \<Longrightarrow> dval (take (Suc n) f) = 10 * dval (take n f) + digit (f ! n)"
  by (simp add: take_Suc_conv_app_nth dval_snoc)

lemma sub_frac_loop_value:
  assumes "n \<le> length fa" "n \<le> length fb" "all_digits fa" "all_digits fb" "0 \<le> c" "c \<le> 1"
  shows "\<exists>c' r. sub_frac_loop fa fb n c acc = (c', r @ acc) \<and> length r = n \<and> all_digits r \<and>
    0 \<le> c' \<and> c' \<le> 1 \<and> dval r - c' * 10 ^ n = dval (take n fa) - dval (take n fb) - c"
  using assms
proof (induction n arbitrary: c acc)
  case 0
  then show ?case by simp
next
  case (Suc n)
  define s where "s = digit (fa ! n) - digit (fb ! n) - c"
  define t :: int where "t = (if s < 0 then 1 else 0)"
  have p: "n \<le> length fa" "n \<le> length fb" and t: "0 \<le> t" "t \<le> 1"
    using Suc.prems(1,2) by (auto simp: t_def)
  have "is_digit (fa ! n)" "is_digit (fb ! n)" using Suc.prems by auto
  then have s: "0 \<le> s + 10 * t" "s + 10 * t \<le> 9" using Suc.prems(5,6) by (auto simp: s_def t_def is_digit_iff)
  have unfold: "sub_frac_loop fa fb (Suc n) c acc = sub_frac_loop fa fb n t (digit_char (s + 10 * t) # acc)"
    by (simp add: s_def t_def Let_def)
  obtain c' r where r: "sub_frac_loop fa fb n t (digit_char (s + 10 * t) # acc)
      = (c', r @ digit_char (s + 10 * t) # acc)" "length r = n" "all_digits r" "0 \<le> c'" "c' \<le> 1"
    "dval r - c' * 10 ^ n = dval (take n fa) - dval (take n fb) - t"
    using Suc.IH [OF p Suc.prems(3,4) t] by blast
  have "dval (r @ [digit_char (s + 10 * t)]) - c' * 10 ^ Suc n = 10 * (dval r - c' * 10 ^ n) + s + 10 * t"
    using s by (simp add: dval_snoc digit_digit_char algebra_simps)
  also have "\<dots> = dval (take (Suc n) fa) - dval (take (Suc n) fb) - c"
    unfolding r(6) take_Suc_dval [OF Suc.prems(1)] take_Suc_dval [OF Suc.prems(2)] by (simp add: s_def)
  finally show ?case
    unfolding unfold r(1) using r s
    by (intro exI [of _ c'] exI [of _ "r @ [digit_char (s + 10 * t)]"]) (auto simp: is_digit_digit_char)
qed

lemma sub_int_loop_value:
  assumes "i \<le> length ia" "j \<le> length ib" "j \<le> i" "all_digits ia" "all_digits ib" "0 \<le> c" "c \<le> 1"
  shows "\<exists>c' r. sub_int_loop ia ib i j c acc = r @ acc \<and> length r = i \<and> all_digits r \<and>
    0 \<le> c' \<and> c' \<le> 1 \<and> dval r - c' * 10 ^ i = dval (take i ia) - dval (take j ib) - c"
  using assms
proof (induction i arbitrary: j c acc)
  case 0
  then show ?case by (intro exI [of _ c]) simp
next
  case (Suc i)
  define y where "y = (if 0 < j then digit (ib ! (j - 1)) else 0)"
  define s where "s = digit (ia ! i) - c - y"
  define t :: int where "t = (if s < 0 then 1 else 0)"
  have p: "i \<le> length ia" "j - 1 \<le> length ib" "j - 1 \<le> i" and t: "0 \<le> t" "t \<le> 1"
    using Suc.prems(1-3) by (auto simp: t_def)
  have "is_digit (ia ! i)" "0 \<le> y" "y \<le> 9" using Suc.prems by (auto simp: y_def is_digit_iff)
  then have s: "0 \<le> s + 10 * t" "s + 10 * t \<le> 9" using Suc.prems(6,7) by (auto simp: s_def t_def is_digit_iff)
  have unfold: "sub_int_loop ia ib (Suc i) j c acc = sub_int_loop ia ib i (j - 1) t (digit_char (s + 10 * t) # acc)"
    by (simp add: s_def t_def y_def Let_def)
  obtain c' r where r: "sub_int_loop ia ib i (j - 1) t (digit_char (s + 10 * t) # acc)
      = r @ digit_char (s + 10 * t) # acc" "length r = i" "all_digits r" "0 \<le> c'" "c' \<le> 1"
    "dval r - c' * 10 ^ i = dval (take i ia) - dval (take (j - 1) ib) - t"
    using Suc.IH [OF p Suc.prems(4,5) t] by blast
  have j: "dval (take j ib) = 10 * dval (take (j - 1) ib) + y"
    using Suc.prems(2) take_Suc_dval [of "j - 1" ib] by (cases j) (auto simp: y_def)
  have "dval (r @ [digit_char (s + 10 * t)]) - c' * 10 ^ Suc i = 10 * (dval r - c' * 10 ^ i) + s + 10 * t"
    using s by (simp add: dval_snoc digit_digit_char algebra_simps)
  also have "\<dots> = dval (take (Suc i) ia) - dval (take j ib) - c"
    unfolding r(6) take_Suc_dval [OF Suc.prems(1)] j by (simp add: s_def)
  finally show ?case
    unfolding unfold r(1) using r s
    by (intro exI [of _ c'] exI [of _ "r @ [digit_char (s + 10 * t)]"]) (auto simp: is_digit_digit_char)
qed
theorem subtract_positive_exact:
  assumes a: "canonical_unsigned a" and b: "canonical_unsigned b"
    and le: "unsigned_value b \<le> unsigned_value a"
  shows "canonical_unsigned (subtract_positive_numbers a b) \<and>
    unsigned_value (subtract_positive_numbers a b) = unsigned_value a - unsigned_value b"
proof -
  note pa = parts_unsigned [OF a] and pb = parts_unsigned [OF b]
  define n where "n = max (length (frac_part a)) (length (frac_part b))"
  define fa fb where "fa = resize n (CHR ''0'') (frac_part a)" and "fb = resize n (CHR ''0'') (frac_part b)"
  define ia ib where "ia = int_part a" and "ib = int_part b"
  have f: "n \<le> length fa" "n \<le> length fb" "all_digits fa" "all_digits fb"
    "take n fa = fa" "take n fb = fb"
    using pa pb by (simp_all add: fa_def fb_def all_digits_resize)
  obtain c rf where rf: "sub_frac_loop fa fb n 0 [] = (c, rf)" "length rf = n" "all_digits rf"
    "0 \<le> c" "c \<le> 1" "dval rf - c * 10 ^ n = dval fa - dval fb"
    using sub_frac_loop_value [OF f(1-4), of 0 "[]"] f by auto
  have len: "length ib \<le> length ia"
  proof (rule ccontr)
    assume "\<not> length ib \<le> length ia"
    then have "dval ia < dval ib"
      using pa pb by (intro no_leading_zero_less_length) (auto simp: ia_def ib_def)
    then have "unsigned_value a < unsigned_value b"
      using decimal_less_iff [OF pa(6) pb(6)] by (simp add: unsigned_value_def ia_def ib_def)
    with le show False by simp
  qed
  obtain d ri where ri: "sub_int_loop ia ib (length ia) (length ib) c [] = ri" "length ri = length ia"
    "all_digits ri" "0 \<le> d" "d \<le> 1" "dval ri - d * 10 ^ length ia = dval ia - dval ib - c"
    using sub_int_loop_value [OF order_refl order_refl len _ _ rf(4,5), of "[]"] pa(3) pb(3)
    by (auto simp: ia_def ib_def)
  have eq: "subtract_positive_numbers a b = canonical_text (combine_result ri rf)"
    by (simp add: subtract_positive_numbers_def Let_def pa(1,2) pb(1,2) n_def [symmetric]
        fa_def [symmetric] fb_def [symmetric] ia_def [symmetric] ib_def [symmetric] rf(1) ri(1))
  have len_a: "length (frac_part a) \<le> n" and len_b: "length (frac_part b) \<le> n"
    by (simp_all add: n_def)
  have "dval rf = dval fa - dval fb + c * 10 ^ n" "dval ri = dval ia - dval ib - c + d * 10 ^ length ia"
    using rf(6) ri(6) by simp_all
  then have "(of_int (dval rf) :: rat) = of_int (dval fa) - of_int (dval fb) + of_int c * 10 ^ n"
    "(of_int (dval ri) :: rat) = of_int (dval ia) - of_int (dval ib) - of_int c + of_int d * 10 ^ length ia"
    by simp_all
  then have v: "decimal ri rf = unsigned_value a - unsigned_value b + of_int d * 10 ^ length ia"
    using unsigned_value_resize [of a n, OF len_a] unsigned_value_resize [of b n, OF len_b]
    by (simp add: decimal_split fraction_def rf(2) ia_def [symmetric] ib_def [symmetric]
        n_def [symmetric] fa_def [symmetric] fb_def [symmetric] add_divide_distrib diff_divide_distrib)
  have "d = 0"
  proof (rule ccontr)
    assume "d \<noteq> 0"
    then have "d = 1" using ri(4,5) by linarith
    then have "10 ^ length ia \<le> decimal ri rf" using v le by simp
    moreover have "\<lfloor>decimal ri rf\<rfloor> < 10 ^ length ia"
      using floor_decimal [OF rf(3)] dval_less [OF ri(3)] ri(2) by simp
    ultimately show False
      by (metis floor_less_iff linorder_not_le of_int_numeral of_int_power)
  qed
  moreover have "ri \<noteq> []" using ri(2) pa(4) by (auto simp: ia_def)
  ultimately show ?thesis
    using combine_result_value [OF ri(3) _ rf(3)] v by (simp add: eq)
qed

section \<open>Multiplication\<close>

text \<open>One row of the product: digit \<open>i\<close> of \<open>num_a\<close> times the first \<open>j\<close> digits of \<open>num_b\<close>,
  added into the buffer. An element of the buffer may pass \<open>'9'\<close> until the next step of the
  row brings it back.\<close>

fun multiply_row :: "string \<Rightarrow> string \<Rightarrow> nat \<Rightarrow> nat \<Rightarrow> string \<Rightarrow> string" where
  "multiply_row num_a num_b i 0 result = result"
| "multiply_row num_a num_b i (Suc j) result =
     (let mul = digit (num_a ! i) * digit (num_b ! j);
          p1 = i + j; p2 = i + j + 1;
          sum = mul + digit (result ! p2);
          result = result[p2 := digit_char (sum mod 10)];
          result = result[p1 := digit_char (digit (result ! p1) + sum div 10)]
      in multiply_row num_a num_b i j result)"

fun multiply_rows :: "string \<Rightarrow> string \<Rightarrow> nat \<Rightarrow> string \<Rightarrow> string" where
  "multiply_rows num_a num_b 0 result = result"
| "multiply_rows num_a num_b (Suc i) result =
     multiply_rows num_a num_b i (multiply_row num_a num_b i (length num_b) result)"

text \<open>The leading zeros of the product, keeping its last digit.\<close>

fun drop_leading_zeros :: "string \<Rightarrow> string" where
  "drop_leading_zeros (c # d # s) = (if c = CHR ''0'' then drop_leading_zeros (d # s) else c # d # s)"
| "drop_leading_zeros s = s"

definition multiply_positive_numbers :: "string \<Rightarrow> string \<Rightarrow> string" where
  "multiply_positive_numbers a b =
     (let pa = NumberParts a; pb = NumberParts b;
          num_a = np_integer pa @ np_fractional pa;
          num_b = np_integer pb @ np_fractional pb;
          total_decimal_places = length (np_fractional pa) + length (np_fractional pb)
      in if num_a = ''0'' \<or> num_b = ''0'' then ''0''
         else let result = multiply_rows num_a num_b (length num_a)
                    (replicate (length num_a + length num_b) (CHR ''0''));
                  result = drop_leading_zeros result;
                  result = (if total_decimal_places > 0
                    then let result = (if length result \<le> total_decimal_places
                               then replicate (total_decimal_places - length result + 1) (CHR ''0'') @ result
                               else result);
                             decimal_pos = length result - total_decimal_places
                         in if decimal_pos = 0 then ''0.'' @ result
                            else take decimal_pos result @ ''.'' @ drop decimal_pos result
                    else result)
              in canonical_text result)"

text \<open>A row keeps its buffer digits, with room for the carry of the next column.\<close>

definition row_ok :: "string \<Rightarrow> nat \<Rightarrow> nat \<Rightarrow> bool" where
  "row_ok r i j \<longleftrightarrow>
     (\<forall>k < length r. 0 \<le> digit (r ! k)) \<and>
     (\<forall>k < length r. k \<noteq> i + j \<longrightarrow> digit (r ! k) \<le> 9) \<and>
     digit (r ! (i + j)) \<le> (if j = 0 then 9 else 18) \<and>
     (\<forall>k < i. r ! k = CHR ''0'') \<and> (0 < j \<longrightarrow> r ! i = CHR ''0'')"

lemma product_bounds: "0 \<le> x \<Longrightarrow> x \<le> 9 \<Longrightarrow> 0 \<le> y \<Longrightarrow> y \<le> 9 \<Longrightarrow> 0 \<le> x * y \<and> x * y \<le> (81::int)"
  using mult_mono [of x 9 y 9] by auto

lemma shift_carry: "v + (x - y) * 10 ^ p + z * 10 ^ Suc p = v + (10 * z + x - y) * (10::int) ^ p"
  by (simp add: algebra_simps)

lemma multiply_step:
  assumes "row_ok r i (Suc j)" "Suc (i + j) < length r" "0 \<le> m" "m \<le> 81"
    and s: "s = m + digit (r ! Suc (i + j))"
    and r': "r' = r[Suc (i + j) := digit_char (s mod 10), i + j := digit_char (digit (r ! (i + j)) + s div 10)]"
  shows "row_ok r' i j" "length r' = length r"
    "dval r' = dval r + m * 10 ^ (length r - 2 - (i + j))"
proof -
  have s_b: "0 \<le> s" "s \<le> 99" using assms by (auto simp: row_ok_def)
  then have d: "0 \<le> s div 10" "s div 10 \<le> 9" "0 \<le> s mod 10" "s mod 10 \<le> 9" by auto
  have e: "0 \<le> digit (r ! (i + j))" "digit (r ! (i + j)) \<le> (if j = 0 then 0 else 9)"
    using assms(1,2) by (auto simp: row_ok_def)
  show len: "length r' = length r" by (simp add: r')
  have at: "digit (r' ! k) = (if k = i + j then digit (r ! (i + j)) + s div 10
      else if k = Suc (i + j) then s mod 10 else digit (r ! k))" if "k < length r" for k
    using that d e by (auto simp: r' nth_list_update digit_digit_char split: if_splits)
  show "row_ok r' i j"
    unfolding row_ok_def len
  proof (intro conjI allI impI)
    fix k assume k: "k < length r"
    then show "0 \<le> digit (r' ! k)"
      using assms(1) d e by (auto simp: at row_ok_def)
    assume "k \<noteq> i + j"
    with k show "digit (r' ! k) \<le> 9"
      using assms(1) d by (auto simp: at row_ok_def)
  next
    show "digit (r' ! (i + j)) \<le> (if j = 0 then 9 else 18)"
      using assms(2) d e by (auto simp: at split: if_splits)
  next
    fix k assume "k < i"
    then show "r' ! k = CHR ''0''" using assms(1) by (auto simp: r' row_ok_def)
  next
    assume "0 < j"
    then show "r' ! i = CHR ''0''" using assms(1) by (auto simp: r' row_ok_def)
  qed
  define p where "p = length r - 2 - (i + j)"
  have p: "length r - 1 - Suc (i + j) = p" "length r - 1 - (i + j) = Suc p"
    using assms(2) by (auto simp: p_def)
  have "dval r' = dval r + (s mod 10 - digit (r ! Suc (i + j))) * 10 ^ p + (s div 10) * 10 ^ Suc p"
    using assms(2) d e p by (simp add: r' dval_list_update digit_digit_char split: if_splits)
  also have "\<dots> = dval r + (10 * (s div 10) + s mod 10 - digit (r ! Suc (i + j))) * 10 ^ p"
    by (rule shift_carry)
  also have "10 * (s div 10) + s mod 10 - digit (r ! Suc (i + j)) = m"
    using s by (simp add: mult_div_mod_eq)
  finally show "dval r' = dval r + m * 10 ^ (length r - 2 - (i + j))" by (simp add: p_def)
qed

lemma multiply_row_value:
  assumes "all_digits A" "all_digits B" "i < length A" "j \<le> length B"
    "length r = length A + length B" "row_ok r i j"
  shows "length (multiply_row A B i j r) = length r \<and> row_ok (multiply_row A B i j r) i 0 \<and>
    dval (multiply_row A B i j r) = dval r + digit (A ! i) * dval (take j B) * 10 ^ (length r - 1 - i - j)"
  using assms
proof (induction j arbitrary: r)
  case 0
  then show ?case by simp
next
  case (Suc j)
  define m where "m = digit (A ! i) * digit (B ! j)"
  define s where "s = m + digit (r ! Suc (i + j))"
  define r' where "r' = r[Suc (i + j) := digit_char (s mod 10), i + j := digit_char (digit (r ! (i + j)) + s div 10)]"
  have "is_digit (A ! i)" "is_digit (B ! j)" using Suc.prems by auto
  then have m: "0 \<le> m" "m \<le> 81" using product_bounds by (auto simp: m_def is_digit_iff)
  have len: "Suc (i + j) < length r" using Suc.prems by simp
  note step = multiply_step [OF Suc.prems(6) len m s_def r'_def]
  have unfold: "multiply_row A B i (Suc j) r = multiply_row A B i j r'"
    by (simp add: Let_def m_def s_def r'_def)
  have IH: "length (multiply_row A B i j r') = length r'" "row_ok (multiply_row A B i j r') i 0"
    "dval (multiply_row A B i j r') = dval r' + digit (A ! i) * dval (take j B) * 10 ^ (length r' - 1 - i - j)"
    using Suc.IH [OF Suc.prems(1-3) _ _ step(1)] Suc.prems(4,5) step(2) by auto
  have p: "length r - 1 - i - j = Suc (length r - 2 - (i + j))" "length r - 1 - i - Suc j = length r - 2 - (i + j)"
    using len by auto
  have "dval (multiply_row A B i j r') = dval r + m * 10 ^ (length r - 2 - (i + j)) +
      digit (A ! i) * dval (take j B) * 10 ^ Suc (length r - 2 - (i + j))"
    using IH(3) step(3) by (simp only: step(2) p)
  also have "\<dots> = dval r + digit (A ! i) * (10 * dval (take j B) + digit (B ! j)) * 10 ^ (length r - 2 - (i + j))"
    by (simp add: m_def algebra_simps)
  also have "10 * dval (take j B) + digit (B ! j) = dval (take (Suc j) B)"
    using take_Suc_dval [OF Suc.prems(4)] by simp
  finally show ?case using IH step(2) p unfold by simp
qed

lemma row_ok_end: "row_ok r i 0 \<Longrightarrow> i < length r \<Longrightarrow> all_digits r"
  by (auto simp: row_ok_def in_set_conv_nth is_digit_iff)

lemma row_ok_start:
  assumes "all_digits r" "i + j < length r" "\<forall>k \<le> i. r ! k = CHR ''0''"
  shows "row_ok r i j"
proof -
  have "is_digit (r ! k)" if "k < length r" for k using assms(1) that by auto
  then have "0 \<le> digit (r ! k) \<and> digit (r ! k) \<le> 9" if "k < length r" for k
    using that is_digit_iff by blast
  then show ?thesis using assms(2,3) by (fastforce simp: row_ok_def)
qed

lemma multiply_rows_value:
  assumes "all_digits A" "all_digits B" "B \<noteq> []" "i \<le> length A" "length r = length A + length B"
    "all_digits r" "\<forall>k < i. r ! k = CHR ''0''"
  shows "length (multiply_rows A B i r) = length r \<and> all_digits (multiply_rows A B i r) \<and>
    dval (multiply_rows A B i r) = dval r + dval (take i A) * dval B * 10 ^ (length A - i)"
  using assms
proof (induction i arbitrary: r)
  case 0
  then show ?case by simp
next
  case (Suc i)
  define r' where "r' = multiply_row A B i (length B) r"
  have "row_ok r i (length B)"
    using Suc.prems by (intro row_ok_start) auto
  then have r': "length r' = length r" "row_ok r' i 0"
    "dval r' = dval r + digit (A ! i) * dval B * 10 ^ (length A - Suc i)"
    using multiply_row_value [of A B i "length B" r] Suc.prems by (auto simp: r'_def)
  have IH: "length (multiply_rows A B i r') = length r'" "all_digits (multiply_rows A B i r')"
    "dval (multiply_rows A B i r') = dval r' + dval (take i A) * dval B * 10 ^ (length A - i)"
    using Suc.IH [OF Suc.prems(1-3), of r'] Suc.prems(4,5) r'(1) row_ok_end [OF r'(2)] r'(2)
    by (auto simp: row_ok_def)
  have "length A - i = Suc (length A - Suc i)" using Suc.prems(4) by simp
  then have "dval (multiply_rows A B i r') = dval r +
      (10 * dval (take i A) + digit (A ! i)) * dval B * 10 ^ (length A - Suc i)"
    unfolding IH(3) r'(3) by (simp add: algebra_simps)
  also have "10 * dval (take i A) + digit (A ! i) = dval (take (Suc i) A)"
    using take_Suc_dval [OF Suc.prems(4)] by simp
  finally show ?case using IH r' by (simp add: r'_def)
qed

lemma drop_leading_zeros_strip_leading: "s \<noteq> [] \<Longrightarrow> drop_leading_zeros s = strip_leading s"
  by (induction s rule: drop_leading_zeros.induct) (auto simp: strip_leading_def)

text \<open>Inserting the point \<open>n\<close> places from the end divides by \<open>10 ^ n\<close>.\<close>

definition insert_point :: "nat \<Rightarrow> string \<Rightarrow> string" where
  "insert_point n r =
     (if n > 0
      then let r = (if length r \<le> n then replicate (n - length r + 1) (CHR ''0'') @ r else r);
               decimal_pos = length r - n
           in if decimal_pos = 0 then ''0.'' @ r
              else take decimal_pos r @ ''.'' @ drop decimal_pos r
      else r)"

lemma insert_point_render:
  assumes "all_digits r" "r \<noteq> []"
  shows "\<exists>i f. insert_point n r = render i f \<and> i \<noteq> [] \<and> all_digits i \<and> all_digits f \<and>
    decimal i f = of_int (dval r) / 10 ^ n"
proof (cases "n = 0")
  case True
  with assms show ?thesis
    by (intro exI [of _ r] exI [of _ "[]"]) (simp add: insert_point_def render_def decimal_split)
next
  case False
  define q where "q = (if length r \<le> n then replicate (n - length r + 1) (CHR ''0'') @ r else r)"
  define p where "p = length q - n"
  have q: "all_digits q" "n < length q" "dval q = dval r"
    using assms by (auto simp: q_def dval_append)
  then have p: "0 < p" "length (drop p q) = n" by (auto simp: p_def)
  have "insert_point n r = render (take p q) (drop p q)"
    using False p by (auto simp: insert_point_def Let_def q_def [symmetric] p_def [symmetric] render_def)
  moreover have "decimal (take p q) (drop p q) = of_int (dval r) / 10 ^ n"
    using q(3) p(2) by (simp add: decimal_def)
  ultimately show ?thesis using p q
    by (intro exI [of _ "take p q"] exI [of _ "drop p q"]) (auto dest: in_set_takeD in_set_dropD)
qed

theorem multiply_positive_exact:
  assumes a: "canonical_unsigned a" and b: "canonical_unsigned b"
  shows "canonical_unsigned (multiply_positive_numbers a b) \<and>
    unsigned_value (multiply_positive_numbers a b) = unsigned_value a * unsigned_value b"
proof -
  note pa = parts_unsigned [OF a] and pb = parts_unsigned [OF b]
  define A B where "A = int_part a @ frac_part a" and "B = int_part b @ frac_part b"
  define n where "n = length (frac_part a) + length (frac_part b)"
  have va: "unsigned_value a = of_int (dval A) / 10 ^ length (frac_part a)"
    and vb: "unsigned_value b = of_int (dval B) / 10 ^ length (frac_part b)"
    by (simp_all add: unsigned_value_def decimal_def A_def B_def)
  have AB: "all_digits A" "all_digits B" "A \<noteq> []" "B \<noteq> []"
    using pa pb by (auto simp: A_def B_def)
  show ?thesis
  proof (cases "A = ''0'' \<or> B = ''0''")
    case True
    then have "unsigned_value a * unsigned_value b = 0" using va vb by auto
    moreover have "multiply_positive_numbers a b = ''0''"
      using True by (simp add: multiply_positive_numbers_def pa pb A_def B_def)
    ultimately show ?thesis by simp
  next
    case False
    define r where "r = multiply_rows A B (length A) (replicate (length A + length B) (CHR ''0''))"
    have r: "length r = length A + length B" "all_digits r" "dval r = dval A * dval B"
      using multiply_rows_value [OF AB(1,2,4) order_refl, of "replicate (length A + length B) (CHR ''0'')"]
      by (auto simp: r_def)
    then have "r \<noteq> []" using AB by auto
    then have s: "all_digits (drop_leading_zeros r)" "drop_leading_zeros r \<noteq> []" "dval (drop_leading_zeros r) = dval r"
      using strip_leading_props [OF r(2)] by (auto simp: drop_leading_zeros_strip_leading no_leading_zero_def)
    obtain i f where p: "insert_point n (drop_leading_zeros r) = render i f" "i \<noteq> []" "all_digits i"
      "all_digits f" "decimal i f = of_int (dval r) / 10 ^ n"
      using insert_point_render [OF s(1,2), of n] s(3) by auto
    have "multiply_positive_numbers a b = canonical_text (insert_point n (drop_leading_zeros r))"
      using False by (simp add: multiply_positive_numbers_def pa pb A_def B_def n_def r_def
          insert_point_def Let_def)
    moreover have "decimal i f = unsigned_value a * unsigned_value b"
      by (simp add: p(5) va vb r(3) n_def power_add)
    ultimately show ?thesis
      using canonical_text_plain [OF p(3,2,4)] p(1) by simp
  qed
qed

end
