(* ===== verification/Number_Division.thy ===== *)
theory Number_Division
  imports Number_Arith "HOL-Library.Monad_Syntax"
begin

text \<open>
  Long division on decimal text (\<open>src/type/number.cpp\<close>): \<open>divide_exactly\<close>,
  \<open>is_multiple_of\<close>, \<open>divide_positive_numbers\<close> and \<open>modulo_positive_numbers\<close>. The loops
  that subtract until the remainder is the smaller, and the loops that run until a remainder
  vanishes, need not end on arbitrary text, so they are partial functions whose value
  \<^const>\<open>None\<close> is a loop that never ends; the lemmas show which value they return on the digits
  of natural numbers, and so that they end. The theory closes with the contract of division:
  it returns on unsigned canonical text, is exact where the text of the divisor allows, and otherwise
  keeps exactly the leading digits it is asked for.
\<close>

section \<open>The loops of the division\<close>

text \<open>\<open>while (compare_numbers(temp, divisor) >= 0) { temp = temp - divisor; count++; }\<close>\<close>

partial_function (option) subtract_loop :: "string \<Rightarrow> string \<Rightarrow> nat \<Rightarrow> (string \<times> nat) option" where
  "subtract_loop temp divisor count =
     (if compare_numbers temp divisor \<ge> 0
      then subtract_loop (subtract_positive_numbers temp divisor) divisor (count + 1)
      else Some (temp, count))"

text \<open>\<open>std::to_string\<close> of a count that is not negative.\<close>

definition to_string :: "nat \<Rightarrow> string" where
  "to_string n = digits_of n"

fun divide_exactly_loop :: "string \<Rightarrow> int \<Rightarrow> int \<Rightarrow> string \<Rightarrow> string" where
  "divide_exactly_loop [] divisor carry result = result"
| "divide_exactly_loop (c # digits) divisor carry result =
     (let current = carry * 10 + digit c
      in divide_exactly_loop digits divisor (current mod divisor)
           (result @ [digit_char (current div divisor)]))"

definition divide_exactly :: "string \<Rightarrow> int \<Rightarrow> string" where
  "divide_exactly digits divisor =
     (let result = divide_exactly_loop digits divisor 0 []
      in drop (pos_or (length result - 1) (find_pos (\<lambda>c. c \<noteq> CHR ''0'') result)) result)"

fun is_multiple_of_loop :: "string \<Rightarrow> string \<Rightarrow> string \<Rightarrow> string option" where
  "is_multiple_of_loop [] divisor remainder = Some remainder"
| "is_multiple_of_loop (c # digits) divisor remainder =
     do {
       (remainder, _) \<leftarrow> subtract_loop
         (if remainder = ''0'' then [c] else remainder @ [c]) divisor 0;
       is_multiple_of_loop digits divisor remainder
     }"

definition is_multiple_of :: "string \<Rightarrow> string \<Rightarrow> bool option" where
  "is_multiple_of digits divisor =
     do {
       remainder \<leftarrow> is_multiple_of_loop digits divisor ''0'';
       Some (remainder = ''0'')
     }"

definition quotient_significant_digits :: nat where
  "quotient_significant_digits = 34"

text \<open>The integer division: the quotient and the remainder after each digit of the dividend.\<close>

fun integer_division_loop :: "string \<Rightarrow> string \<Rightarrow> string \<Rightarrow> string \<Rightarrow> (string \<times> string) option" where
  "integer_division_loop [] divisor quot remainder = Some (quot, remainder)"
| "integer_division_loop (c # dividend) divisor quot remainder =
     do {
       (temp_remainder, count) \<leftarrow> subtract_loop (drop_leading_zeros (remainder @ [c])) divisor 0;
       integer_division_loop dividend divisor (quot @ to_string count) temp_remainder
     }"

text \<open>The loops that take the factors 2 and 5 out of the divisor, counting them.\<close>

partial_function (option) strip_twos :: "string \<Rightarrow> nat \<Rightarrow> (string \<times> nat) option" where
  "strip_twos rest twos =
     (if digit (last rest) mod 2 = 0 then strip_twos (divide_exactly rest 2) (twos + 1)
      else Some (rest, twos))"

partial_function (option) strip_fives :: "string \<Rightarrow> nat \<Rightarrow> (string \<times> nat) option" where
  "strip_fives rest fives =
     (if last rest = CHR ''0'' \<or> last rest = CHR ''5''
      then strip_fives (divide_exactly rest 5) (fives + 1)
      else Some (rest, fives))"

partial_function (option) decimal_loop ::
  "bool \<Rightarrow> nat \<Rightarrow> nat \<Rightarrow> string \<Rightarrow> string \<Rightarrow> string \<Rightarrow> nat \<Rightarrow> (string \<times> string) option" where
  "decimal_loop terminates fraction_digits significant_digits divisor decimal_part remainder significant =
     (if remainder \<noteq> ''0'' \<and>
         (if terminates then length decimal_part < fraction_digits else significant < significant_digits)
      then do {
        (temp_remainder, count) \<leftarrow> subtract_loop (remainder @ ''0'') divisor 0;
        decimal_loop terminates fraction_digits significant_digits divisor
          (decimal_part @ to_string count) temp_remainder
          (if significant > 0 \<or> count \<noteq> 0 then significant + 1 else significant)
      }
      else Some (decimal_part, remainder))"

text \<open>Whether the quotient terminates, and how many fraction digits it then needs.\<close>

definition quotient_terminates ::
  "string \<Rightarrow> string \<Rightarrow> string \<Rightarrow> string \<Rightarrow> nat \<Rightarrow> (bool \<times> nat) option" where
  "quotient_terminates dividend divisor quot remainder significant_digits =
     (if remainder \<noteq> ''0'' \<and> significant_digits > 0
      then do {
        (rest, twos) \<leftarrow> strip_twos divisor 0;
        (rest, fives) \<leftarrow> strip_fives rest 0;
        let fraction_digits = max twos fives;
        if length quot + fraction_digits \<le> max_expanded_digits
        then do {
          multiple \<leftarrow> is_multiple_of dividend rest;
          Some (multiple, fraction_digits)
        }
        else Some (False, fraction_digits)
      }
      else Some (remainder = ''0'', 0))"

text \<open>A quotient that does not terminate keeps \<open>significant_digits\<close> digits.\<close>

definition truncate_quotient :: "string \<Rightarrow> string \<Rightarrow> string \<Rightarrow> nat \<Rightarrow> string" where
  "truncate_quotient quot remainder decimal_part significant_digits =
     (if remainder \<noteq> ''0''
      then let integer_significant = (if quot = ''0'' then 0 else length quot);
               leading_zeros = (if quot = ''0''
                 then pos_or (length decimal_part) (find_pos (\<lambda>c. c \<noteq> CHR ''0'') decimal_part)
                 else 0);
               keep = (if integer_significant \<ge> significant_digits then 0
                 else leading_zeros + significant_digits - integer_significant)
           in take (min keep (length decimal_part)) decimal_part
      else decimal_part)"

definition divide_positive_numbers :: "string \<Rightarrow> string \<Rightarrow> nat \<Rightarrow> string option" where
  "divide_positive_numbers a b significant_digits =
     (if b = ''0'' then Some NAN_VALUE
      else
        let pa = NumberParts a; pb = NumberParts b;
            scale = max (length (np_fractional pa)) (length (np_fractional pb));
            dividend = np_integer pa @ resize scale (CHR ''0'') (np_fractional pa);
            divisor = drop_leading_zeros (np_integer pb @ resize scale (CHR ''0'') (np_fractional pb))
        in if divisor = ''0'' then Some NAN_VALUE
           else do {
             (quot, remainder) \<leftarrow> integer_division_loop dividend divisor ''0'' ''0'';
             let quot = drop_leading_zeros quot;
             (terminates, fraction_digits) \<leftarrow>
               quotient_terminates dividend divisor quot remainder significant_digits;
             (decimal_part, remainder) \<leftarrow>
               decimal_loop terminates fraction_digits significant_digits divisor [] remainder
                 (if quot = ''0'' then 0 else length quot);
             let decimal_part = truncate_quotient quot remainder decimal_part significant_digits;
             Some (canonical_text (combine_result quot decimal_part))
           })"

definition modulo_positive_numbers :: "string \<Rightarrow> string \<Rightarrow> string option" where
  "modulo_positive_numbers a b =
     (if b = ''0'' then Some NAN_VALUE
      else do {
        quot \<leftarrow> divide_positive_numbers a b 0;
        let quot = (case find_pos (\<lambda>c. c = CHR ''.'') quot of
            None \<Rightarrow> quot | Some dot_pos \<Rightarrow> take dot_pos quot);
        let product = multiply_positive_numbers b quot;
        Some (canonical_text (subtract_positive_numbers a product))
      })"

section \<open>Natural numbers as text\<close>

lemma digits_of_render: "digits_of n = render (digits_of n) []"
  by (simp add: render_def)

lemma canonical_digits_of [simp]: "canonical_unsigned (digits_of n)"
  using canonical_unsigned_render [of "digits_of n" "[]"]
  by (simp add: canonical_parts_def render_def)

lemma unsigned_value_digits_of [simp]: "unsigned_value (digits_of n) = of_nat n"
  using unsigned_value_render [of "digits_of n" "[]"] by (simp add: render_def decimal_split)

lemma digits_of_0 [simp]: "digits_of 0 = ''0''"
  by (rule digits_of_eqI [symmetric]) (simp_all add: no_leading_zero_def)

lemma digits_of_inject [simp]: "digits_of n = digits_of m \<longleftrightarrow> n = m"
  by (metis dval_digits_of of_nat_eq_iff)

lemma digits_of_eq_0 [simp]: "digits_of n = ''0'' \<longleftrightarrow> n = 0"
  by (metis digits_of_0 digits_of_inject)

lemma digits_of_not_Nil [simp]: "digits_of n \<noteq> []"
  using no_leading_zero_digits_of by (metis no_leading_zero_def)

lemma last_digits_of: "last (digits_of n) = digit_char (int (n mod 10))"
  by (subst digits_of.simps) simp

lemma digits_of_less_10: "n < 10 \<Longrightarrow> digits_of n = [digit_char (int n)]"
  by (subst digits_of.simps) simp

lemma drop_leading_zeros_digits:
  assumes "all_digits s" "s \<noteq> []"
  shows "drop_leading_zeros s = digits_of (nat (dval s))"
  using strip_leading_props [OF assms(1)] assms
  by (simp add: drop_leading_zeros_strip_leading digits_of_eqI dval_nonneg)

lemma digits_of_snoc:
  assumes "is_digit c" "0 < n"
  shows "digits_of n @ [c] = digits_of (10 * n + nat (digit c))"
proof (rule digits_of_eqI)
  show "all_digits (digits_of n @ [c])" using assms(1) by auto
  have "digits_of n \<noteq> ''0''" using assms(2) by simp
  then show "no_leading_zero (digits_of n @ [c])"
    using no_leading_zero_digits_of [of n] by (auto simp: no_leading_zero_def hd_append)
  show "dval (digits_of n @ [c]) = int (10 * n + nat (digit c))"
    using assms(1) by (simp add: dval_snoc is_digit_iff)
qed

lemma length_digits_of:
  assumes "0 < n"
  shows "10 ^ (length (digits_of n) - 1) \<le> n" "n < 10 ^ length (digits_of n)"
proof -
  obtain c s where s: "digits_of n = c # s" by (cases "digits_of n") auto
  have "c \<noteq> CHR ''0''"
    using no_leading_zero_digits_of [of n] assms s
    by (metis digits_of_eq_0 less_irrefl list.sel(1) no_leading_zero_def)
  moreover have "all_digits (c # s)" using all_digits_digits_of [of n] s by metis
  ultimately have "10 ^ length s \<le> int n"
    using dval_ge_power [of c s] dval_digits_of [of n] s by metis
  then show "10 ^ (length (digits_of n) - 1) \<le> n"
    by (metis s list.size(4) One_nat_def add_diff_cancel_right' of_nat_le_iff of_nat_numeral of_nat_power)
  have "int n < 10 ^ length (digits_of n)"
    using dval_less [OF all_digits_digits_of, of n] by simp
  then show "n < 10 ^ length (digits_of n)"
    by (metis of_nat_less_iff of_nat_numeral of_nat_power)
qed

lemma compare_digits_of: "compare_numbers (digits_of n) (digits_of m) = cmp3 n m"
  by (simp add: compare_unsigned cmp3_def)

lemma subtract_digits_of:
  assumes "m \<le> n"
  shows "subtract_positive_numbers (digits_of n) (digits_of m) = digits_of (n - m)"
proof -
  have "(of_nat m :: rat) \<le> of_nat n" using assms by simp
  then show ?thesis
    using subtract_positive_exact [of "digits_of n" "digits_of m"] assms
    by (intro canonical_unsigned_inject) (simp_all add: of_nat_diff)
qed

lemma multiply_digits_of:
  "multiply_positive_numbers (digits_of n) (digits_of m) = digits_of (n * m)"
  using multiply_positive_exact [of "digits_of n" "digits_of m"]
  by (intro canonical_unsigned_inject) simp_all

lemma digit_char_eq: "- 48 \<le> d \<Longrightarrow> d < 208 \<Longrightarrow> digit_char d = c \<longleftrightarrow> d = digit c"
  using digit_digit_char digit_char_digit by metis

lemma last_digit_two: "digit (last (digits_of m)) mod 2 = 0 \<longleftrightarrow> even m"
  by (simp add: last_digits_of digit_digit_char) presburger

lemma last_digit_five: "last (digits_of m) = CHR ''0'' \<or> last (digits_of m) = CHR ''5'' \<longleftrightarrow> 5 dvd m"
proof -
  have "digit (CHR ''5'') = 5" by (simp add: digit_def)
  then have "last (digits_of m) = CHR ''0'' \<or> last (digits_of m) = CHR ''5'' \<longleftrightarrow>
      m mod 10 = 0 \<or> m mod 10 = 5"
    unfolding last_digits_of by (subst (1 2) digit_char_eq) auto
  also have "\<dots> \<longleftrightarrow> 5 dvd m" by presburger
  finally show ?thesis .
qed

lemma half_smaller: "0 < m \<Longrightarrow> k dvd m \<Longrightarrow> 1 < k \<Longrightarrow> m div k < m \<and> 0 < m div (k::nat)"
  by (auto elim!: dvdE)

section \<open>The loops on natural numbers\<close>

lemma subtract_loop_digits:
  assumes "0 < m"
  shows "subtract_loop (digits_of n) (digits_of m) c = Some (digits_of (n mod m), c + n div m)"
proof (induction n arbitrary: c rule: less_induct)
  case (less n)
  show ?case
  proof (cases "m \<le> n")
    case True
    then have "subtract_loop (digits_of n) (digits_of m) c =
        subtract_loop (digits_of (n - m)) (digits_of m) (c + 1)"
      by (subst subtract_loop.simps) (simp add: compare_digits_of subtract_digits_of)
    also have "\<dots> = Some (digits_of ((n - m) mod m), c + 1 + (n - m) div m)"
      using True assms by (intro less) auto
    finally show ?thesis using True assms by (simp add: le_mod_geq le_div_geq)
  next
    case False
    then show ?thesis
      by (subst subtract_loop.simps) (simp add: compare_digits_of)
  qed
qed

lemma to_string_digit: "n < 10 \<Longrightarrow> to_string n = [digit_char (int n)]"
  by (simp add: to_string_def digits_of_less_10)

text \<open>One step of a long division: the next digit of the quotient and the next remainder.\<close>

lemma long_division_step:
  fixes n m d :: nat
  assumes "0 < m" "d < 10"
  shows "10 * (n div m) + (10 * (n mod m) + d) div m = (10 * n + d) div m"
    "(10 * (n mod m) + d) mod m = (10 * n + d) mod m"
    "(10 * (n mod m) + d) div m < 10"
proof -
  define q r where "q = n div m" and "r = n mod m"
  have n: "n = q * m + r" and r: "r < m" using assms by (simp_all add: q_def r_def)
  have "10 * n + d = (10 * q) * m + (10 * r + d)" by (simp add: n algebra_simps)
  then have "(10 * n + d) div m = 10 * q + (10 * r + d) div m" "(10 * n + d) mod m = (10 * r + d) mod m"
    using assms(1) by (metis div_mult_self3 less_irrefl add.commute, metis mod_mult_self3)
  then show "10 * (n div m) + (10 * (n mod m) + d) div m = (10 * n + d) div m"
    "(10 * (n mod m) + d) mod m = (10 * n + d) mod m" by (simp_all add: q_def r_def)
  have "10 * r + d < 10 * m" using r assms(2) by simp
  then show "(10 * (n mod m) + d) div m < 10"
    using assms(1) by (simp add: less_mult_imp_div_less r_def)
qed

lemma remainder_digit:
  assumes "is_digit c"
  shows "drop_leading_zeros (digits_of r @ [c]) = digits_of (10 * r + nat (digit c))"
    "(if digits_of r = ''0'' then [c] else digits_of r @ [c]) = digits_of (10 * r + nat (digit c))"
proof -
  have "0 \<le> digit c" using assms by (simp add: is_digit_iff)
  then have "nat (dval (digits_of r @ [c])) = 10 * r + nat (digit c)"
    by (simp add: dval_snoc nat_add_distrib nat_mult_distrib)
  then show "drop_leading_zeros (digits_of r @ [c]) = digits_of (10 * r + nat (digit c))"
    using assms by (simp add: drop_leading_zeros_digits)
  show "(if digits_of r = ''0'' then [c] else digits_of r @ [c]) = digits_of (10 * r + nat (digit c))"
  proof (cases "r = 0")
    case True
    have "[c] = digits_of (nat (digit c))"
      using assms by (intro digits_of_eqI) (auto simp: no_leading_zero_def is_digit_iff)
    with True show ?thesis by simp
  next
    case False
    then show ?thesis using digits_of_snoc [OF assms, of r] by simp
  qed
qed

lemma is_multiple_of_loop_digits:
  assumes "all_digits s" "0 < m"
  shows "is_multiple_of_loop s (digits_of m) (digits_of (n mod m)) =
    Some (digits_of ((n * 10 ^ length s + nat (dval s)) mod m))"
  using assms
proof (induction s arbitrary: n)
  case Nil
  then show ?case by simp
next
  case (Cons c s)
  define d where "d = nat (digit c)"
  have c: "is_digit c" using Cons.prems by simp
  then have d: "d < 10" "digit c = int d" by (auto simp: d_def is_digit_iff)
  have "is_multiple_of_loop (c # s) (digits_of m) (digits_of (n mod m)) =
      is_multiple_of_loop s (digits_of m) (digits_of ((10 * n + d) mod m))"
    using remainder_digit(2) [OF c, of "n mod m"] long_division_step(2) [OF Cons.prems(2) d(1)]
      subtract_loop_digits [OF Cons.prems(2)]
    by (simp add: d_def del: digits_of_eq_0)
  also have "\<dots> = Some (digits_of (((10 * n + d) * 10 ^ length s + nat (dval s)) mod m))"
    using Cons.IH Cons.prems by simp
  also have "(10 * n + d) * 10 ^ length s + nat (dval s) = n * 10 ^ length (c # s) + nat (dval (c # s))"
    using Cons.prems dval_nonneg [of s] d
    by (simp add: dval_Cons nat_add_distrib nat_mult_distrib nat_power_eq algebra_simps)
  finally show ?case .
qed

lemma is_multiple_of_digits:
  assumes "all_digits s" "0 < m"
  shows "is_multiple_of s (digits_of m) = Some (m dvd nat (dval s))"
  using is_multiple_of_loop_digits [OF assms, of 0] by (simp add: is_multiple_of_def dvd_eq_mod_eq_0)

lemma integer_division_loop_digits:
  assumes "all_digits s" "0 < m" "all_digits q" "dval q = int (n div m)"
  shows "\<exists>q'. integer_division_loop s (digits_of m) q (digits_of (n mod m)) =
      Some (q', digits_of ((n * 10 ^ length s + nat (dval s)) mod m)) \<and>
    all_digits q' \<and> length q \<le> length q' \<and>
    dval q' = int ((n * 10 ^ length s + nat (dval s)) div m)"
  using assms
proof (induction s arbitrary: n q)
  case Nil
  then show ?case by simp
next
  case (Cons c s)
  define d where "d = nat (digit c)"
  define k where "k = (10 * (n mod m) + d) div m"
  have c: "is_digit c" using Cons.prems by simp
  then have d: "d < 10" "digit c = int d" by (auto simp: d_def is_digit_iff)
  note step = long_division_step [OF Cons.prems(2) d(1), of n, folded k_def]
  have unfold: "integer_division_loop (c # s) (digits_of m) q (digits_of (n mod m)) =
      integer_division_loop s (digits_of m) (q @ [digit_char (int k)]) (digits_of ((10 * n + d) mod m))"
    using remainder_digit(1) [OF c, of "n mod m"] step
      subtract_loop_digits [OF Cons.prems(2)] to_string_digit [of k]
    by (simp add: d_def k_def)
  have v: "dval (q @ [digit_char (int k)]) = int ((10 * n + d) div m)"
    using Cons.prems(4) step by (simp add: dval_snoc digit_digit_char)
  have q: "all_digits (q @ [digit_char (int k)])"
    using Cons.prems(3) step(3) by (auto simp: is_digit_digit_char)
  have e: "(10 * n + d) * 10 ^ length s + nat (dval s) = n * 10 ^ length (c # s) + nat (dval (c # s))"
    using Cons.prems dval_nonneg [of s] d
    by (simp add: dval_Cons nat_add_distrib nat_mult_distrib nat_power_eq algebra_simps)
  show ?case
    using Cons.IH [OF _ Cons.prems(2) q v] Cons.prems(1) unfolding unfold e by fastforce
qed

lemma divide_exactly_loop_digits:
  assumes "all_digits s" "0 < m" "all_digits q" "dval q = int (n div m)"
  shows "\<exists>q'. divide_exactly_loop s (int m) (int (n mod m)) q = q' \<and> all_digits q' \<and>
    length q' = length q + length s \<and> dval q' = int ((n * 10 ^ length s + nat (dval s)) div m)"
  using assms
proof (induction s arbitrary: n q)
  case Nil
  then show ?case by simp
next
  case (Cons c s)
  define d where "d = nat (digit c)"
  define k where "k = (10 * (n mod m) + d) div m"
  have c: "is_digit c" using Cons.prems by simp
  then have d: "d < 10" "digit c = int d" by (auto simp: d_def is_digit_iff)
  note step = long_division_step [OF Cons.prems(2) d(1), of n, folded k_def]
  have "int (n mod m) * 10 + digit c = int (10 * (n mod m) + d)" using d by simp
  then have unfold: "divide_exactly_loop (c # s) (int m) (int (n mod m)) q =
      divide_exactly_loop s (int m) (int ((10 * n + d) mod m)) (q @ [digit_char (int k)])"
    by (simp only: divide_exactly_loop.simps Let_def k_def step(2) [symmetric] of_nat_div of_nat_mod)
  have v: "dval (q @ [digit_char (int k)]) = int ((10 * n + d) div m)"
    using Cons.prems(4) step by (simp add: dval_snoc digit_digit_char)
  have q: "all_digits (q @ [digit_char (int k)])"
    using Cons.prems(3) step(3) by (auto simp: is_digit_digit_char)
  have e: "(10 * n + d) * 10 ^ length s + nat (dval s) = n * 10 ^ length (c # s) + nat (dval (c # s))"
    using Cons.prems dval_nonneg [of s] d
    by (simp add: dval_Cons nat_add_distrib nat_mult_distrib nat_power_eq algebra_simps)
  show ?case
    using Cons.IH [OF _ Cons.prems(2) q v] Cons.prems(1) unfolding unfold e by fastforce
qed

lemma drop_zeros_pos:
  "s \<noteq> [] \<Longrightarrow> drop (pos_or (length s - 1) (find_pos (\<lambda>c. c \<noteq> CHR ''0'') s)) s = drop_leading_zeros s"
  by (induction s rule: drop_leading_zeros.induct)
    (auto simp: pos_or_def min_def split: option.splits)

lemma divide_exactly_digits:
  assumes "0 < m"
  shows "divide_exactly (digits_of n) (int m) = digits_of (n div m)"
proof -
  obtain q where q: "divide_exactly_loop (digits_of n) (int m) 0 [] = q" "all_digits q"
    "length q = length (digits_of n)" "dval q = int (n div m)"
    using divide_exactly_loop_digits [OF all_digits_digits_of assms, of "[]" 0 n] by auto
  moreover have "q \<noteq> []" using q(3) by auto
  ultimately show ?thesis
    using drop_zeros_pos [of q] drop_leading_zeros_digits [of q]
    by (simp add: divide_exactly_def)
qed

text \<open>The factors \<open>p\<close> of a number: what is left without them, and how many there are.\<close>

function factor_out :: "nat \<Rightarrow> nat \<Rightarrow> nat \<times> nat" where
  "factor_out p m =
     (if 1 < p \<and> 0 < m \<and> p dvd m
      then let (rest, count) = factor_out p (m div p) in (rest, count + 1)
      else (m, 0))"
  by pat_completeness auto
termination
  by (relation "measure (\<lambda>(p, m). m)") (auto elim!: dvdE)

declare factor_out.simps [simp del]

lemma factor_out_correct:
  "factor_out p m = (rest, t) \<Longrightarrow> 1 < p \<Longrightarrow> 0 < m \<Longrightarrow> m = rest * p ^ t \<and> \<not> p dvd rest"
proof (induction p m arbitrary: rest t rule: factor_out.induct)
  case (1 p m)
  show ?case
  proof (cases "p dvd m")
    case True
    obtain r c where rc: "factor_out p (m div p) = (r, c)" by fastforce
    then have "factor_out p m = (r, c + 1)" using True 1 by (subst factor_out.simps) simp
    then have rt: "rest = r" "t = c + 1" using 1(2) by simp_all
    have "0 < m div p" using True 1 half_smaller by blast
    then have "m div p = r * p ^ c \<and> \<not> p dvd r" using 1 True rc by blast
    moreover have "m = p * (m div p)" using True by simp
    ultimately show ?thesis using rt by simp
  next
    case False
    then have "factor_out p m = (m, 0)" by (subst factor_out.simps) simp
    then show ?thesis using 1 False by simp
  qed
qed

lemma factor_out_power:
  assumes "1 < p" "\<not> p dvd r"
  shows "factor_out p (r * p ^ t) = (r, t)"
proof (induction t)
  case 0
  then show ?case using assms by (subst factor_out.simps) simp
next
  case (Suc t)
  have "r \<noteq> 0" using assms(2) by (cases "r = 0") auto
  then have "0 < r * p ^ Suc t" "p dvd r * p ^ Suc t" "r * p ^ Suc t div p = r * p ^ t"
    using assms(1) by auto
  then show ?case using Suc assms(1) by (subst factor_out.simps) simp
qed

lemma strip_twos_digits:
  assumes "0 < m"
  shows "strip_twos (digits_of m) c =
    Some (digits_of (fst (factor_out 2 m)), c + snd (factor_out 2 m))"
  using assms
proof (induction m arbitrary: c rule: less_induct)
  case (less m)
  show ?case
  proof (cases "even m")
    case True
    then have "strip_twos (digits_of (m div 2)) (c + 1) =
        Some (digits_of (fst (factor_out 2 (m div 2))), c + 1 + snd (factor_out 2 (m div 2)))"
      using less.IH [of "m div 2" "c + 1"] half_smaller [OF less.prems, of 2] by auto
    then show ?thesis
      using True last_digit_two [of m] divide_exactly_digits [of 2 m] less.prems
      by (subst strip_twos.simps, subst (1 2) factor_out.simps) (simp split: prod.splits)
  next
    case False
    then show ?thesis using last_digit_two [of m]
      by (subst strip_twos.simps, subst (1 2) factor_out.simps) simp
  qed
qed

lemma strip_fives_digits:
  assumes "0 < m"
  shows "strip_fives (digits_of m) c =
    Some (digits_of (fst (factor_out 5 m)), c + snd (factor_out 5 m))"
  using assms
proof (induction m arbitrary: c rule: less_induct)
  case (less m)
  show ?case
  proof (cases "5 dvd m")
    case True
    then have "strip_fives (digits_of (m div 5)) (c + 1) =
        Some (digits_of (fst (factor_out 5 (m div 5))), c + 1 + snd (factor_out 5 (m div 5)))"
      using less.IH [of "m div 5" "c + 1"] half_smaller [OF less.prems, of 5] by auto
    then show ?thesis
      using True last_digit_five [of m] divide_exactly_digits [of 5 m] less.prems
      by (subst strip_fives.simps, subst (1 2) factor_out.simps) (simp split: prod.splits)
  next
    case False
    then show ?thesis using last_digit_five [of m]
      by (subst strip_fives.simps, subst (1 2) factor_out.simps) simp
  qed
qed

text \<open>When the code takes a quotient to terminate.\<close>

definition exact_quotient :: "nat \<Rightarrow> nat \<Rightarrow> nat \<Rightarrow> bool" where
  "exact_quotient n m sd \<longleftrightarrow> m dvd n \<or> 0 < sd \<and>
     (let (rest, twos) = factor_out 2 m; (rest, fives) = factor_out 5 rest
      in length (digits_of (n div m)) + max twos fives \<le> max_expanded_digits \<and> rest dvd n)"

lemma power_dvd_ten: "t \<le> k \<Longrightarrow> f \<le> k \<Longrightarrow> 5 ^ f * 2 ^ t dvd (10::nat) ^ k"
proof -
  assume "t \<le> k" "f \<le> k"
  then have "(5::nat) ^ f dvd 5 ^ k" "(2::nat) ^ t dvd 2 ^ k" by (auto intro: le_imp_power_dvd)
  then have "5 ^ f * 2 ^ t dvd (5::nat) ^ k * 2 ^ k" by (rule mult_dvd_mono)
  also have "(5::nat) ^ k * 2 ^ k = (5 * 2) ^ k" by (rule power_mult_distrib [symmetric])
  finally show ?thesis by simp
qed

lemma quotient_terminates_digits:
  assumes "all_digits s" "0 < m" "n = nat (dval s)"
  shows "\<exists>fd. quotient_terminates s (digits_of m) (digits_of (n div m)) (digits_of (n mod m)) sd =
      Some (exact_quotient n m sd, fd) \<and> (exact_quotient n m sd \<longrightarrow> m dvd n * 10 ^ fd)"
proof (cases "n mod m = 0 \<or> sd = 0")
  case True
  then show ?thesis
    by (intro exI [of _ 0]) (auto simp: quotient_terminates_def exact_quotient_def dvd_eq_mod_eq_0)
next
  case False
  obtain r t where rt: "factor_out 2 m = (r, t)" by fastforce
  then have m: "m = r * 2 ^ t" "0 < r"
    using factor_out_correct [OF rt] assms(2) by (auto intro: gr0I)
  obtain r' f where rf: "factor_out 5 r = (r', f)" by fastforce
  then have r: "r = r' * 5 ^ f" "0 < r'"
    using factor_out_correct [OF rf] m(2) by (auto intro: gr0I)
  have "m dvd n * 10 ^ max t f" if "r' dvd n"
  proof -
    have "r' * (5 ^ f * 2 ^ t) dvd n * 10 ^ max t f"
      using that by (intro mult_dvd_mono power_dvd_ten) auto
    then show ?thesis by (simp add: m(1) r(1) mult.assoc)
  qed
  moreover have "\<not> m dvd n" using False by (simp add: dvd_eq_mod_eq_0)
  moreover have "strip_twos (digits_of m) 0 = Some (digits_of r, t)"
    "strip_fives (digits_of r) 0 = Some (digits_of r', f)"
    using strip_twos_digits [OF assms(2), of 0] strip_fives_digits [OF m(2), of 0] rt rf by simp_all
  ultimately show ?thesis
    using False is_multiple_of_digits [OF assms(1) r(2)]
    by (intro exI [of _ "max t f"]) (auto simp: quotient_terminates_def exact_quotient_def rt rf assms(3) Let_def)
qed

text \<open>The significant digits of a quotient: zeros before the first other digit do not count.\<close>

definition significant_digits :: "nat \<Rightarrow> string \<Rightarrow> nat" where
  "significant_digits q dp = (if q = 0 then length (dropWhile (\<lambda>c. c = CHR ''0'') dp)
     else length (digits_of q) + length dp)"

lemma significant_digits_snoc:
  "significant_digits q (dp @ [c]) =
     (if 0 < significant_digits q dp \<or> c \<noteq> CHR ''0'' then significant_digits q dp + 1
      else significant_digits q dp)"
  by (auto simp: significant_digits_def dropWhile_append)

lemma significant_digits_Nil:
  "significant_digits q [] = (if digits_of q = ''0'' then 0 else length (digits_of q))"
  by (simp add: significant_digits_def)

text \<open>One turn of the loop appends a digit of the quotient.\<close>

lemma decimal_digit:
  assumes "0 < m" "all_digits dp" "dval dp = int (r0 * 10 ^ length dp div m)" "r = r0 * 10 ^ length dp mod m" "r \<noteq> 0"
    and k: "k = 10 * r div m" and dp1: "dp1 = dp @ [digit_char (int k)]"
  shows "subtract_loop (digits_of r @ ''0'') (digits_of m) 0 = Some (digits_of (10 * r mod m), k)"
    "to_string k = [digit_char (int k)]"
    "all_digits dp1" "dval dp1 = int (r0 * 10 ^ length dp1 div m)" "10 * r mod m = r0 * 10 ^ length dp1 mod m"
    "significant_digits q dp1 =
       (if 0 < significant_digits q dp \<or> k \<noteq> 0 then significant_digits q dp + 1 else significant_digits q dp)"
proof -
  note step = long_division_step [OF assms(1), of 0 "r0 * 10 ^ length dp", folded assms(4)]
  have k': "k < 10" "10 * (r0 * 10 ^ length dp div m) + k = r0 * 10 ^ length dp1 div m"
    using step by (simp_all add: k dp1 algebra_simps)
  show "10 * r mod m = r0 * 10 ^ length dp1 mod m" using step by (simp add: dp1 algebra_simps)
  show "to_string k = [digit_char (int k)]" by (rule to_string_digit) (rule k'(1))
  show "all_digits dp1" "dval dp1 = int (r0 * 10 ^ length dp1 div m)"
    using assms(2,3) k' by (auto simp: dp1 dval_snoc digit_digit_char is_digit_digit_char)
  have "digit_char (int k) \<noteq> CHR ''0'' \<longleftrightarrow> k \<noteq> 0" using k'(1) by (simp add: digit_char_eq)
  then show "significant_digits q dp1 =
      (if 0 < significant_digits q dp \<or> k \<noteq> 0 then significant_digits q dp + 1 else significant_digits q dp)"
    by (simp add: dp1 significant_digits_snoc)
  show "subtract_loop (digits_of r @ ''0'') (digits_of m) 0 = Some (digits_of (10 * r mod m), k)"
    using digits_of_snoc [of "CHR ''0''" r] \<open>r \<noteq> 0\<close> subtract_loop_digits [OF assms(1)] by (simp add: k)
qed

text \<open>It ends: a terminating expansion by its length; any other by its significant digits, and before the
  first of them by the remainder, which then grows.\<close>

definition decimal_measure :: "bool \<Rightarrow> nat \<Rightarrow> nat \<Rightarrow> nat \<Rightarrow> nat \<Rightarrow> string \<Rightarrow> nat \<Rightarrow> nat" where
  "decimal_measure T F sd m q dp r =
     (if T then F - length dp else (sd - significant_digits q dp) * (m + 1) + (m - r))"

lemma decimal_measure_decreases:
  assumes "0 < r" "r < m" "if T then length dp < F else significant_digits q dp < sd"
    and k: "k = 10 * r div m" and l: "length dp1 = length dp + 1"
    and s: "significant_digits q dp1 =
       (if 0 < significant_digits q dp \<or> k \<noteq> 0 then significant_digits q dp + 1 else significant_digits q dp)"
  shows "decimal_measure T F sd m q dp1 (10 * r mod m) < decimal_measure T F sd m q dp r"
proof (cases "T \<or> significant_digits q dp1 \<noteq> significant_digits q dp")
  case True
  show ?thesis
  proof (cases T)
    case False
    then have "sd - significant_digits q dp = Suc (sd - significant_digits q dp1)"
      using True s assms(3) by (auto split: if_splits)
    then show ?thesis using False assms(2) by (simp add: decimal_measure_def)
  qed (use assms(3) l in \<open>simp add: decimal_measure_def\<close>)
next
  case False
  then have "10 * r < m" using s k assms(2) by (auto simp: div_eq_0_iff split: if_splits)
  then show ?thesis using False assms(1) by (simp add: decimal_measure_def)
qed

lemma decimal_loop_digits:
  assumes "0 < m" "all_digits dp" "dval dp = int (r0 * 10 ^ length dp div m)"
    "r = r0 * 10 ^ length dp mod m"
  shows "\<exists>dp'. decimal_loop T F sd (digits_of m) dp (digits_of r) (significant_digits q dp) =
      Some (dp', digits_of (r0 * 10 ^ length dp' mod m)) \<and>
    all_digits dp' \<and> dval dp' = int (r0 * 10 ^ length dp' div m) \<and>
    (r0 * 10 ^ length dp' mod m = 0 \<or> (if T then F \<le> length dp' else sd \<le> significant_digits q dp')) \<and>
    (T \<or> significant_digits q dp' \<le> max sd (significant_digits q dp))"
  using assms
proof (induction "decimal_measure T F sd m q dp r" arbitrary: dp r rule: less_induct)
  case less
  define go where "go \<longleftrightarrow> r \<noteq> 0 \<and> (if T then length dp < F else significant_digits q dp < sd)"
  show ?case
  proof (cases go)
    case False
    then have "decimal_loop T F sd (digits_of m) dp (digits_of r) (significant_digits q dp) =
        Some (dp, digits_of r)"
      by (subst decimal_loop.simps) (auto simp: go_def)
    moreover have "r = 0 \<or> (if T then F \<le> length dp else sd \<le> significant_digits q dp)"
      using False by (cases T) (auto simp: go_def)
    ultimately show ?thesis using less.prems by (intro exI [of _ dp]) simp
  next
    case True
    define k where "k = 10 * r div m"
    define dp1 where "dp1 = dp @ [digit_char (int k)]"
    have r: "r \<noteq> 0" "0 < r" "r < m" "if T then length dp < F else significant_digits q dp < sd"
      using True less.prems(1,4) by (auto simp: go_def)
    note turn = decimal_digit [OF less.prems r(1) k_def dp1_def]
    have unfold: "decimal_loop T F sd (digits_of m) dp (digits_of r) (significant_digits q dp) =
        decimal_loop T F sd (digits_of m) dp1 (digits_of (10 * r mod m)) (significant_digits q dp1)"
      using True by (subst decimal_loop.simps) (simp add: go_def turn(1,2,6) dp1_def [symmetric])
    have "decimal_measure T F sd m q dp1 (10 * r mod m) < decimal_measure T F sd m q dp r"
      by (rule decimal_measure_decreases [OF r(2-4) k_def _ turn(6)]) (simp add: dp1_def)
    from less.hyps [OF this less.prems(1) turn(3-5)]
    obtain dp' where IH: "decimal_loop T F sd (digits_of m) dp1 (digits_of (10 * r mod m)) (significant_digits q dp1) =
        Some (dp', digits_of (r0 * 10 ^ length dp' mod m))"
      "all_digits dp'" "dval dp' = int (r0 * 10 ^ length dp' div m)"
      "r0 * 10 ^ length dp' mod m = 0 \<or> (if T then F \<le> length dp' else sd \<le> significant_digits q dp')"
      "T \<or> significant_digits q dp' \<le> max sd (significant_digits q dp1)"
      by (elim exE conjE) (rule that)
    moreover have "T \<or> significant_digits q dp' \<le> max sd (significant_digits q dp)"
      using IH(5) r(4) turn(6) [of q] by (auto split: if_splits)
    ultimately show ?thesis unfolding unfold by (intro exI [of _ dp'] conjI)
  qed
qed

text \<open>After the loop nothing is left to truncate.\<close>

lemma truncate_quotient_id:
  assumes "r = 0 \<or> 0 < sd \<and> sd = significant_digits q dp \<or> dp = []"
  shows "truncate_quotient (digits_of q) (digits_of r) dp sd = dp"
proof (cases "r = 0 \<or> dp = []")
  case True
  then show ?thesis by (auto simp: truncate_quotient_def Let_def)
next
  case False
  with assms have sd: "sd = significant_digits q dp" "0 < significant_digits q dp" by auto
  have "length (takeWhile (\<lambda>c. c = CHR ''0'') dp) + length (dropWhile (\<lambda>c. c = CHR ''0'') dp) = length dp"
    by (metis length_append takeWhile_dropWhile_id)
  then have "pos_or (length dp) (find_pos (\<lambda>c. c \<noteq> CHR ''0'') dp) + length (dropWhile (\<lambda>c. c = CHR ''0'') dp) = length dp"
    by (simp add: pos_or_find_pos)
  then show ?thesis
    using False sd(2) by (cases "q = 0") (simp_all add: sd(1) truncate_quotient_def significant_digits_def Let_def)
qed

lemma significant_digits_bounds:
  assumes "all_digits dp"
  shows "0 < significant_digits q dp \<longrightarrow>
      10 ^ (significant_digits q dp - 1) \<le> int q * 10 ^ length dp + dval dp"
    "int q * 10 ^ length dp + dval dp < 10 ^ significant_digits q dp"
proof -
  have v: "0 \<le> dval dp" "dval dp < 10 ^ length dp"
    using assms dval_nonneg dval_less by auto
  have "(0 < significant_digits q dp \<longrightarrow>
      10 ^ (significant_digits q dp - 1) \<le> int q * 10 ^ length dp + dval dp) \<and>
    int q * 10 ^ length dp + dval dp < 10 ^ significant_digits q dp"
  proof (cases "q = 0")
    case True
    define t where "t = dropWhile (\<lambda>c. c = CHR ''0'') dp"
    have h: "t \<noteq> [] \<longrightarrow> hd t \<noteq> CHR ''0''"
      using hd_dropWhile [of "\<lambda>c. c = CHR ''0''" dp] unfolding t_def by blast
    have t: "all_digits t" "dval t = dval dp" "t \<noteq> [] \<longrightarrow> hd t \<noteq> CHR ''0''"
      using assms h by (auto simp: t_def dval_strip_zeros dest: set_dropWhileD)
    then have "t \<noteq> [] \<longrightarrow> 10 ^ (length t - 1) \<le> dval t"
      using dval_ge_power [of "hd t" "tl t"] by (cases t) simp_all
    then show ?thesis
      using True t dval_less [OF t(1)] by (auto simp: significant_digits_def t_def [symmetric])
  next
    case False
    define l where "l = length (digits_of q)"
    have "10 ^ (l - 1) \<le> q" "q < 10 ^ l" "0 < l"
      using False length_digits_of [of q] by (auto simp: l_def)
    then have l0: "10 ^ (l - 1) \<le> int q" "int q < 10 ^ l" "0 < l"
      by (metis of_nat_le_iff of_nat_numeral of_nat_power, metis of_nat_less_iff of_nat_numeral of_nat_power, blast)
    then have l: "10 ^ (l - 1) \<le> int q" "int q + 1 \<le> 10 ^ l" "0 < l" by linarith+
    define w :: int where "w = 10 ^ length dp"
    have "10 ^ (l - 1) * w \<le> int q * w" "(int q + 1) * w \<le> 10 ^ l * w"
      by (rule mult_right_mono; use l w_def in simp)+
    moreover have "0 \<le> dval dp" "dval dp < w" using v by (simp_all add: w_def)
    ultimately have "10 ^ (l - 1) * w \<le> int q * w + dval dp" "int q * w + dval dp < 10 ^ l * w"
      unfolding distrib_right by linarith+
    moreover have "significant_digits q dp - 1 = l - 1 + length dp" "significant_digits q dp = l + length dp"
      using False l(3) by (simp_all add: significant_digits_def l_def [symmetric])
    ultimately show ?thesis by (simp add: power_add w_def)
  qed
  then show "0 < significant_digits q dp \<longrightarrow>
      10 ^ (significant_digits q dp - 1) \<le> int q * 10 ^ length dp + dval dp"
    "int q * 10 ^ length dp + dval dp < 10 ^ significant_digits q dp" by auto
qed

section \<open>The contract of division\<close>

text \<open>The integer whose digits a division works on: the operand scaled by the power of ten that
  makes both operands integers.\<close>

definition scaled :: "nat \<Rightarrow> string \<Rightarrow> nat" where
  "scaled scale u = nat (dval (int_part u @ resize scale (CHR ''0'') (frac_part u)))"

definition common_scale :: "string \<Rightarrow> string \<Rightarrow> nat" where
  "common_scale a b = max (length (frac_part a)) (length (frac_part b))"

lemma scaled_value:
  assumes "canonical_unsigned u" "length (frac_part u) \<le> scale"
  shows "unsigned_value u = of_nat (scaled scale u) / 10 ^ scale"
    "all_digits (int_part u @ resize scale (CHR ''0'') (frac_part u))"
    "int_part u @ resize scale (CHR ''0'') (frac_part u) \<noteq> []"
    "dval (int_part u @ resize scale (CHR ''0'') (frac_part u)) = int (scaled scale u)"
proof -
  note p = parts_unsigned [OF assms(1)]
  show d: "all_digits (int_part u @ resize scale (CHR ''0'') (frac_part u))"
    using p(3) all_digits_resize [OF p(6)] by auto
  then show v: "dval (int_part u @ resize scale (CHR ''0'') (frac_part u)) = int (scaled scale u)"
    unfolding scaled_def by (simp only: dval_nonneg nat_0_le)
  show "int_part u @ resize scale (CHR ''0'') (frac_part u) \<noteq> []" using p(4) by simp
  have "unsigned_value u = of_int (dval (int_part u @ resize scale (CHR ''0'') (frac_part u))) / 10 ^ scale"
    using unsigned_value_resize [OF assms(2)] by (simp add: dval_append add_divide_distrib)
  then show "unsigned_value u = of_nat (scaled scale u) / 10 ^ scale" by (simp only: v of_int_of_nat_eq)
qed

lemma quotient_split:
  assumes "0 < m"
  shows "n * 10 ^ k div m = n div m * 10 ^ k + n mod m * 10 ^ k div m" "n mod m * 10 ^ k mod m = n * 10 ^ k mod (m::nat)"
proof -
  have "n * 10 ^ k = n div m * 10 ^ k * m + n mod m * 10 ^ k"
    by (metis div_mult_mod_eq distrib_right mult.assoc mult.commute)
  then show "n * 10 ^ k div m = n div m * 10 ^ k + n mod m * 10 ^ k div m" using assms by simp
qed (simp add: mod_mult_left_eq)

text \<open>What the loop over the decimal part leaves, in terms of the quotient as a whole.\<close>

lemma decimal_part:
  assumes m0: "0 < m" and T: "T = exact_quotient n m sd" "T \<longrightarrow> m dvd n * 10 ^ F"
  obtains dp where
    "decimal_loop T F sd (digits_of m) [] (digits_of (n mod m)) (significant_digits (n div m) []) =
       Some (dp, digits_of (n * 10 ^ length dp mod m))"
    "all_digits dp" "int (n * 10 ^ length dp div m) = int (n div m) * 10 ^ length dp + dval dp"
    "T \<Longrightarrow> m dvd n * 10 ^ length dp" "\<not> T \<Longrightarrow> sd = 0 \<Longrightarrow> dp = []"
    "\<not> T \<Longrightarrow> m dvd n * 10 ^ length dp \<or> sd \<le> significant_digits (n div m) dp"
    "\<not> T \<Longrightarrow> significant_digits (n div m) dp \<le> max sd (significant_digits (n div m) [])"
proof -
  obtain dp where dp: "decimal_loop T F sd (digits_of m) [] (digits_of (n mod m)) (significant_digits (n div m) []) =
      Some (dp, digits_of (n mod m * 10 ^ length dp mod m))" "all_digits dp"
    "dval dp = int (n mod m * 10 ^ length dp div m)"
    "n mod m * 10 ^ length dp mod m = 0 \<or> (if T then F \<le> length dp else sd \<le> significant_digits (n div m) dp)"
    "T \<or> significant_digits (n div m) dp \<le> max sd (significant_digits (n div m) [])"
    using decimal_loop_digits [OF m0, of "[]" "n mod m" "n mod m" T F sd "n div m"] by auto
  note split_n = quotient_split [OF m0, of n "length dp"]
  have "m dvd n * 10 ^ length dp" if T
  proof -
    have "m dvd n * 10 ^ F" "m dvd n * 10 ^ length dp \<or> F \<le> length dp"
      using that T(2) dp(4) by (simp_all only: split_n(2) dvd_eq_mod_eq_0 if_True)
    then show ?thesis by (metis dvd_refl dvd_trans le_imp_power_dvd mult_dvd_mono)
  qed
  moreover have "dp = []" if "\<not> T" "sd = 0"
    using dp(1) that by (subst (asm) decimal_loop.simps) simp
  moreover have "m dvd n * 10 ^ length dp \<or> sd \<le> significant_digits (n div m) dp" if "\<not> T"
    using dp(4) that by (simp only: split_n(2) dvd_eq_mod_eq_0 if_False)
  ultimately show thesis using dp(1-3,5) by (intro that) (auto simp: split_n)
qed

text \<open>Its digits bound the quotient.\<close>

lemma decimal_part_bounds:
  assumes "all_digits dp" and N: "int N = int q * 10 ^ length dp + dval dp"
  shows "significant_digits q dp \<le> max sd (significant_digits q []) \<Longrightarrow> N < 10 ^ max sd (length (digits_of q))"
    "0 < sd \<Longrightarrow> sd \<le> significant_digits q dp \<Longrightarrow> 10 ^ (sd - 1) \<le> N"
proof -
  assume "significant_digits q dp \<le> max sd (significant_digits q [])"
  then have "significant_digits q dp \<le> max sd (length (digits_of q))" by (auto simp: significant_digits_def)
  then have "(10::int) ^ significant_digits q dp \<le> 10 ^ max sd (length (digits_of q))"
    by (intro power_increasing) auto
  then have "int N < int (10 ^ max sd (length (digits_of q)))"
    using significant_digits_bounds(2) [OF assms(1), of q] unfolding N of_nat_power of_nat_numeral by linarith
  then show "N < 10 ^ max sd (length (digits_of q))" by (simp only: of_nat_less_iff)
next
  assume sd: "0 < sd" "sd \<le> significant_digits q dp"
  then have "(10::int) ^ (sd - 1) \<le> 10 ^ (significant_digits q dp - 1)" by (intro power_increasing) auto
  then have "int (10 ^ (sd - 1)) \<le> int N"
    using significant_digits_bounds(1) [OF assms(1), of q] sd unfolding N of_nat_power of_nat_numeral by linarith
  then show "10 ^ (sd - 1) \<le> N" by (simp only: of_nat_le_iff)
qed

text \<open>The loops together return the quotient's text, when there is nothing to truncate.\<close>

lemma divide_positive_returns:
  assumes a: "canonical_unsigned a" and b: "canonical_unsigned b" and "b \<noteq> ''0''" and m0: "0 < m"
    and n: "n = scaled (common_scale a b) a" and m: "m = scaled (common_scale a b) b"
  obtains F where "exact_quotient n m sd \<longrightarrow> m dvd n * 10 ^ F"
    "\<And>dp r. decimal_loop (exact_quotient n m sd) F sd (digits_of m) [] (digits_of (n mod m)) (significant_digits (n div m) []) =
        Some (dp, digits_of r) \<Longrightarrow> r = 0 \<or> 0 < sd \<and> sd = significant_digits (n div m) dp \<or> dp = [] \<Longrightarrow>
      divide_positive_numbers a b sd = Some (canonical_text (combine_result (digits_of (n div m)) dp))"
proof -
  define s where "s = common_scale a b"
  define A where "A = int_part a @ resize s (CHR ''0'') (frac_part a)"
  define B where "B = int_part b @ resize s (CHR ''0'') (frac_part b)"
  have "length (frac_part a) \<le> s" "length (frac_part b) \<le> s" by (simp_all add: s_def common_scale_def)
  note A = scaled_value [OF a this(1), folded A_def] and B = scaled_value [OF b this(2), folded B_def]
  have A': "all_digits A" "dval A = int n" and B': "all_digits B" "dval B = int m" "B \<noteq> []"
    using A B by (simp_all add: n m s_def)
  obtain q0 where q0: "integer_division_loop A (digits_of m) ''0'' ''0'' = Some (q0, digits_of (n mod m))"
    "all_digits q0" "1 \<le> length q0" "dval q0 = int (n div m)"
    using integer_division_loop_digits [OF A'(1) m0, of "''0''" 0] A'(2) by auto
  then have q0': "drop_leading_zeros q0 = digits_of (n div m)"
    by (subst drop_leading_zeros_digits) auto
  obtain F where F: "quotient_terminates A (digits_of m) (digits_of (n div m)) (digits_of (n mod m)) sd =
      Some (exact_quotient n m sd, F)" "exact_quotient n m sd \<longrightarrow> m dvd n * 10 ^ F"
    using quotient_terminates_digits [OF A'(1) m0, of n sd] A'(2) by auto
  have divisor: "drop_leading_zeros B = digits_of m" "digits_of m \<noteq> ''0''"
    using drop_leading_zeros_digits [OF B'(1,3)] B'(2) m0 by simp_all
  show thesis
  proof (rule that [OF F(2)])
    fix dp r
    assume "decimal_loop (exact_quotient n m sd) F sd (digits_of m) [] (digits_of (n mod m)) (significant_digits (n div m) []) =
        Some (dp, digits_of r)"
      and tr: "r = 0 \<or> 0 < sd \<and> sd = significant_digits (n div m) dp \<or> dp = []"
    then have dl: "decimal_loop (exact_quotient n m sd) F sd (digits_of m) [] (digits_of (n mod m))
        (if digits_of (n div m) = ''0'' then 0 else length (digits_of (n div m))) = Some (dp, digits_of r)"
      by (simp only: significant_digits_Nil)
    show "divide_positive_numbers a b sd = Some (canonical_text (combine_result (digits_of (n div m)) dp))"
      unfolding divide_positive_numbers_def Let_def parts_unsigned(1,2) [OF a]
        parts_unsigned(1,2) [OF b] common_scale_def [symmetric] s_def [symmetric]
        A_def [symmetric] B_def [symmetric] divisor(1)
      using \<open>b \<noteq> ''0''\<close> divisor(2)
      by (simp only: if_False q0(1) q0' F(1) dl truncate_quotient_id [OF tr] Option.bind_lunit split)
  qed
qed

lemma divide_positive_digits:
  assumes a: "canonical_unsigned a" and b: "canonical_unsigned b" and "b \<noteq> ''0''"
    and n: "n = scaled (common_scale a b) a" and m: "m = scaled (common_scale a b) b"
  shows "\<exists>q k. divide_positive_numbers a b sd = Some q \<and> canonical_unsigned q \<and>
    unsigned_value q = of_nat (n * 10 ^ k div m) / 10 ^ k \<and>
    (if exact_quotient n m sd then m dvd n * 10 ^ k
     else n * 10 ^ k div m < 10 ^ max sd (length (digits_of (n div m))) \<and>
       (if sd = 0 then k = 0 else m dvd n * 10 ^ k \<or> 10 ^ (sd - 1) \<le> n * 10 ^ k div m))"
proof -
  have "length (frac_part b) \<le> common_scale a b" by (simp add: common_scale_def)
  note B = scaled_value [OF b this]
  have "m \<noteq> 0"
  proof
    assume "m = 0"
    then have "unsigned_value b = 0" using B(1) by (simp add: m)
    then show False using b \<open>b \<noteq> ''0''\<close> canonical_unsigned_eq_zero by blast
  qed
  then have m0: "0 < m" by simp
  define T where "T = exact_quotient n m sd"
  obtain F where F: "T \<longrightarrow> m dvd n * 10 ^ F"
    "\<And>dp r. decimal_loop T F sd (digits_of m) [] (digits_of (n mod m)) (significant_digits (n div m) []) =
        Some (dp, digits_of r) \<Longrightarrow> r = 0 \<or> 0 < sd \<and> sd = significant_digits (n div m) dp \<or> dp = [] \<Longrightarrow>
      divide_positive_numbers a b sd = Some (canonical_text (combine_result (digits_of (n div m)) dp))"
    using divide_positive_returns [where sd = sd, OF a b \<open>b \<noteq> ''0''\<close> m0 n m, folded T_def] by blast
  obtain dp where dp: "decimal_loop T F sd (digits_of m) [] (digits_of (n mod m)) (significant_digits (n div m) []) =
       Some (dp, digits_of (n * 10 ^ length dp mod m))"
    "all_digits dp" "int (n * 10 ^ length dp div m) = int (n div m) * 10 ^ length dp + dval dp"
    "T \<Longrightarrow> m dvd n * 10 ^ length dp" "\<not> T \<Longrightarrow> sd = 0 \<Longrightarrow> dp = []"
    "\<not> T \<Longrightarrow> m dvd n * 10 ^ length dp \<or> sd \<le> significant_digits (n div m) dp"
    "\<not> T \<Longrightarrow> significant_digits (n div m) dp \<le> max sd (significant_digits (n div m) [])"
    using decimal_part [OF m0 T_def F(1)] by blast
  define N where "N = n * 10 ^ length dp div m"
  have "n * 10 ^ length dp mod m = 0 \<or> 0 < sd \<and> sd = significant_digits (n div m) dp \<or> dp = []"
    using dp(4-7) by (cases T) (auto simp: significant_digits_def max_def dvd_eq_mod_eq_0 split: if_splits)
  note returns = F(2) [OF dp(1) this]
  have val_N: "decimal (digits_of (n div m)) dp = of_nat N / 10 ^ length dp"
    using dp(3) [folded N_def]
    by (simp add: decimal_def dval_append) (metis of_int_add of_int_mult of_int_of_nat_eq of_int_power of_int_numeral)
  note bounds = decimal_part_bounds [OF dp(2,3), folded N_def]
  show ?thesis
    using combine_result_value [of "digits_of (n div m)" dp] dp(2,4-7) bounds [of sd] returns val_N
    by (intro exI [of _ "canonical_text (combine_result (digits_of (n div m)) dp)"] exI [of _ "length dp"])
      (auto simp: T_def N_def [symmetric])
qed

lemma scaled_ratio:
  assumes "canonical_unsigned a" "canonical_unsigned b"
  shows "unsigned_value a / unsigned_value b =
    of_nat (scaled (common_scale a b) a) / of_nat (scaled (common_scale a b) b)"
    "0 < scaled (common_scale a b) b \<longleftrightarrow> b \<noteq> ''0''"
proof -
  have "length (frac_part a) \<le> common_scale a b" "length (frac_part b) \<le> common_scale a b"
    by (simp_all add: common_scale_def)
  note v = scaled_value(1) [OF assms(1) this(1)] scaled_value(1) [OF assms(2) this(2)]
  show "unsigned_value a / unsigned_value b =
      of_nat (scaled (common_scale a b) a) / of_nat (scaled (common_scale a b) b)"
    by (simp add: v)
  have "unsigned_value b = 0 \<longleftrightarrow> scaled (common_scale a b) b = 0" by (simp add: v(2))
  then show "0 < scaled (common_scale a b) b \<longleftrightarrow> b \<noteq> ''0''"
    using canonical_unsigned_eq_zero [OF assms(2)] by auto
qed

lemma div_ratio_bounds:
  fixes n m k :: nat
  assumes "0 < m"
  shows "of_nat (n * 10 ^ k div m) / 10 ^ k \<le> (of_nat n / of_nat m :: rat)"
    "(of_nat n / of_nat m :: rat) < (of_nat (n * 10 ^ k div m) + 1) / 10 ^ k"
    "m dvd n * 10 ^ k \<Longrightarrow> of_nat (n * 10 ^ k div m) / 10 ^ k = (of_nat n / of_nat m :: rat)"
proof -
  define q where "q = n * 10 ^ k div m"
  have "q * m \<le> n * 10 ^ k" "n * 10 ^ k < (q + 1) * m"
    using assms by (simp_all add: q_def div_times_less_eq_dividend dividend_less_div_times)
  then have "(of_nat (q * m) :: rat) \<le> of_nat (n * 10 ^ k)" "(of_nat (n * 10 ^ k) :: rat) < of_nat ((q + 1) * m)"
    by (simp_all only: of_nat_le_iff of_nat_less_iff)
  then show "of_nat (n * 10 ^ k div m) / 10 ^ k \<le> (of_nat n / of_nat m :: rat)"
    "(of_nat n / of_nat m :: rat) < (of_nat (n * 10 ^ k div m) + 1) / 10 ^ k"
    using assms by (simp_all add: q_def [symmetric] field_simps)
  assume "m dvd n * 10 ^ k"
  then have "q * m = n * 10 ^ k" by (simp add: q_def)
  then have "(of_nat (q * m) :: rat) = of_nat (n * 10 ^ k)" by (simp only:)
  then show "of_nat (n * 10 ^ k div m) / 10 ^ k = (of_nat n / of_nat m :: rat)"
    using assms by (simp add: q_def [symmetric] field_simps)
qed

text \<open>The first \<open>sd\<close> significant digits of a rational, and the whole of its integer part: as many places
  after the point as it takes to have them.\<close>

definition places :: "nat \<Rightarrow> rat \<Rightarrow> nat" where
  "places sd x = (LEAST k. 10 ^ (sd - 1) \<le> \<lfloor>\<bar>x\<bar> * 10 ^ k\<rfloor>)"

definition leading_digits :: "nat \<Rightarrow> rat \<Rightarrow> rat" where
  "leading_digits sd x = sgn x * of_int \<lfloor>\<bar>x\<bar> * 10 ^ places sd x\<rfloor> / 10 ^ places sd x"

lemma leading_digits_minus: "leading_digits sd (- x) = - leading_digits sd x"
  by (simp add: leading_digits_def places_def sgn_minus)

lemma leading_digits_abs: "leading_digits sd \<bar>x\<bar> = \<bar>x\<bar> \<longleftrightarrow> leading_digits sd x = x"
  by (cases "0 \<le> x") (auto simp: leading_digits_minus)

lemma ratio_floor: "\<lfloor>\<bar>of_nat n / of_nat m :: rat\<bar> * 10 ^ k\<rfloor> = int (n * 10 ^ k div m)"
proof -
  have "\<bar>of_nat n / of_nat m :: rat\<bar> * 10 ^ k = of_nat (n * 10 ^ k) / of_nat m" by simp
  then show ?thesis by (simp only: floor_divide_of_nat_eq)
qed

lemma div_power_mono:
  fixes n m :: nat
  assumes "j \<le> k"
  shows "10 ^ (k - j) * (n * 10 ^ j div m) \<le> n * 10 ^ k div m"
proof (cases "m = 0")
  case False
  have "(n * 10 ^ j div m) * 10 ^ (k - j) * m \<le> n * 10 ^ j * 10 ^ (k - j)"
    using mult_right_mono [OF div_times_less_eq_dividend [of "n * 10 ^ j" m], of "10 ^ (k - j)"] by (simp add: ac_simps)
  also have "\<dots> = n * 10 ^ k" using assms by (simp add: mult.assoc power_add [symmetric])
  finally show ?thesis using False by (simp add: less_eq_div_iff_mult_less_eq mult.commute)
qed simp

lemma places_exist:
  assumes "0 < n" "0 < m"
  shows "\<exists>k. 10 ^ (sd - 1) \<le> n * 10 ^ k div (m :: nat)"
proof -
  have "m \<le> 10 ^ m" using power_gt_expt [of 10 m] by simp
  then have "10 ^ (sd - 1) * m \<le> n * 10 ^ (sd - 1 + m)"
    using assms(1) mult_le_mono [of 1 n m "10 ^ m"] by (simp add: power_add)
  then show ?thesis using assms(2) by (metis less_eq_div_iff_mult_less_eq)
qed

text \<open>A quotient of integers that is cut, or ends, after no more than these digits.\<close>

lemma leading_digits_ratio:
  fixes n m :: nat
  assumes m: "0 < m" and sd: "0 < sd" and N: "n * 10 ^ k div m < 10 ^ max sd (length (digits_of (n div m)))"
    and alt: "m dvd n * 10 ^ k \<or> 10 ^ (sd - 1) \<le> n * 10 ^ k div m"
  shows "leading_digits sd (of_nat n / of_nat m) = of_nat (n * 10 ^ k div m) / 10 ^ k"
proof (cases "n = 0")
  case True
  then show ?thesis by (simp add: leading_digits_def)
next
  case False
  define f where "f j = n * 10 ^ j div m" for j
  define K where "K = places sd (of_nat n / of_nat m)"
  have pow: "(10 :: int) ^ (sd - 1) \<le> int (f j) \<longleftrightarrow> 10 ^ (sd - 1) \<le> f j" for j
    by (metis of_nat_le_iff of_nat_numeral of_nat_power)
  have K: "K = (LEAST j. 10 ^ (sd - 1) \<le> f j)" unfolding K_def places_def ratio_floor f_def [symmetric] pow ..
  have fK: "10 ^ (sd - 1) \<le> f K"
    unfolding K by (rule LeastI_ex) (use places_exist [OF _ m, of n sd] False in \<open>simp add: f_def\<close>)
  have "k \<le> K"
  proof (rule ccontr)
    assume "\<not> k \<le> K"
    then have lt: "K < k" by simp
    have "10 ^ sd \<le> f k"
    proof -
      have "10 ^ sd = 10 * (10 :: nat) ^ (sd - 1)" using sd by (metis power_minus_mult mult.commute)
      also have "\<dots> \<le> 10 ^ (k - K) * f K"
        using lt fK by (intro mult_le_mono) (simp_all add: self_le_power)
      also have "\<dots> \<le> f k" using div_power_mono [of K k n m] lt by (simp add: f_def)
      finally show ?thesis .
    qed
    moreover have "10 ^ length (digits_of (n div m)) \<le> f k" if d: "0 < n div m"
    proof -
      define l where "l = length (digits_of (n div m))"
      have "0 < l" by (simp add: l_def)
      then have "10 ^ l = 10 * (10 :: nat) ^ (l - 1)" by (metis power_minus_mult mult.commute)
      also have "\<dots> \<le> 10 ^ k * f 0"
        using lt length_digits_of(1) [OF d] by (intro mult_le_mono) (simp_all add: self_le_power f_def l_def)
      also have "\<dots> \<le> f k" using div_power_mono [of 0 k n m] by (simp add: f_def)
      finally show ?thesis by (simp add: l_def)
    qed
    moreover have "length (digits_of (n div m)) \<le> sd" if "\<not> 0 < n div m" using that sd by simp
    ultimately show False using N by (cases "0 < n div m") (auto simp: f_def max_def split: if_splits)
  qed
  have "of_nat (f K) / 10 ^ K = (of_nat (f k) / 10 ^ k :: rat)"
  proof (cases "m dvd n * 10 ^ k")
    case True
    then have "m dvd n * 10 ^ K" using \<open>k \<le> K\<close> by (meson dvd_refl dvd_trans le_imp_power_dvd mult_dvd_mono)
    then show ?thesis using div_ratio_bounds(3) [OF m] True by (simp add: f_def)
  next
    case False
    then have "K \<le> k" using alt unfolding K by (intro Least_le) (simp add: f_def)
    then show ?thesis using \<open>k \<le> K\<close> by simp
  qed
  then show ?thesis
    using False m unfolding leading_digits_def K_def [symmetric] ratio_floor by (simp add: f_def)
qed

text \<open>Division returns, and keeps the significant digits it is asked for.\<close>

lemma divide_positive_rounds:
  assumes a: "canonical_unsigned a" and b: "canonical_unsigned b" and "b \<noteq> ''0''" "0 < sd"
  obtains q where "divide_positive_numbers a b sd = Some q" "canonical_unsigned q"
    "unsigned_value q =
       (if exact_quotient (scaled (common_scale a b) a) (scaled (common_scale a b) b) sd
        then unsigned_value a / unsigned_value b else leading_digits sd (unsigned_value a / unsigned_value b))"
proof -
  define n m where "n = scaled (common_scale a b) a" and "m = scaled (common_scale a b) b"
  have m: "0 < m" using scaled_ratio(2) [OF a b] \<open>b \<noteq> ''0''\<close> by (simp add: m_def)
  have v: "unsigned_value a / unsigned_value b = of_nat n / of_nat m"
    using scaled_ratio(1) [OF a b] by (simp add: n_def m_def)
  obtain q k where q: "divide_positive_numbers a b sd = Some q" "canonical_unsigned q"
    "unsigned_value q = of_nat (n * 10 ^ k div m) / 10 ^ k"
    "if exact_quotient n m sd then m dvd n * 10 ^ k
     else n * 10 ^ k div m < 10 ^ max sd (length (digits_of (n div m))) \<and>
       (if sd = 0 then k = 0 else m dvd n * 10 ^ k \<or> 10 ^ (sd - 1) \<le> n * 10 ^ k div m)"
    using divide_positive_digits [OF a b \<open>b \<noteq> ''0''\<close> n_def m_def, of sd] by auto
  have "unsigned_value q = (if exact_quotient n m sd then of_nat n / of_nat m else leading_digits sd (of_nat n / of_nat m))"
  proof (cases "exact_quotient n m sd")
    case True
    then show ?thesis using q(3,4) div_ratio_bounds(3) [OF m] by simp
  next
    case False
    then have "leading_digits sd (of_nat n / of_nat m) = of_nat (n * 10 ^ k div m) / 10 ^ k"
      using q(4) \<open>0 < sd\<close> by (intro leading_digits_ratio m) auto
    then show ?thesis using q(3) False by simp
  qed
  then show thesis using that [OF q(1,2)] unfolding v n_def [symmetric] m_def [symmetric] by blast
qed

text \<open>A sufficient condition, without the loops: the divisor is the product of a divisor of a
  power of ten and a divisor of the dividend that is coprime to ten.\<close>

lemma coprime_5: "\<not> 5 dvd n \<Longrightarrow> coprime n (5::nat)"
proof -
  assume "\<not> 5 dvd n"
  then have "n mod 5 = 1 \<or> n mod 5 = 2 \<or> n mod 5 = 3 \<or> n mod 5 = 4" by presburger
  moreover have "gcd n 5 = gcd 5 (n mod 5)" by (metis gcd.commute gcd_red_nat)
  moreover have "gcd 5 1 = (1::nat)" "gcd 5 2 = (1::nat)" "gcd 5 3 = (1::nat)" "gcd 5 4 = (1::nat)"
    by code_simp+
  ultimately show ?thesis by (auto simp: coprime_iff_gcd_eq_1)
qed

lemma exact_quotientI:
  assumes m: "m = p * d" "0 < m" and p: "p dvd 10 ^ k" and d: "coprime d 10" "d dvd n"
    and len: "length (digits_of (n div m)) + k \<le> max_expanded_digits" and "0 < sd"
  shows "exact_quotient n m sd"
proof -
  obtain r t where rt: "factor_out 2 m = (r, t)" by fastforce
  then have r: "m = r * 2 ^ t" "\<not> 2 dvd r" "0 < r"
    using factor_out_correct [OF rt] m(2) by (auto intro: gr0I)
  obtain r' f where rf: "factor_out 5 r = (r', f)" by fastforce
  then have r': "r = r' * 5 ^ f" "\<not> 5 dvd r'" using factor_out_correct [OF rf] r(3) by auto
  have odd: "odd r'" using r(2) r'(1) by auto
  have c: "coprime r' 2" "coprime r' 5" using odd coprime_5 [OF r'(2)] by simp_all
  then have "coprime r' (2 * 5)" by (simp only: coprime_mult_right_iff)
  then have "coprime r' (10 ^ k)" by simp
  then have "coprime r' p" using p coprime_divisors dvd_refl by blast
  moreover have "r' dvd p * d" using m(1) r(1) r'(1) by (metis dvd_triv_left mult.assoc)
  ultimately have rn: "r' dvd n" using d(2) coprime_dvd_mult_right_iff dvd_trans by blast
  have small: "e \<le> k" if "b ^ e dvd m" "b dvd 10" "1 < b" "coprime b c" "10 = b * c" for b c e :: nat
  proof -
    have "coprime (b ^ e) d" using d(1) that(2) coprime_divisors [of b 10 d d] coprime_commute by auto
    then have "b ^ e dvd p" using that(1) m(1) coprime_dvd_mult_left_iff by blast
    then have "b ^ e dvd b ^ k * c ^ k" using p that(5) by (metis dvd_trans power_mult_distrib)
    moreover have "coprime (b ^ e) (c ^ k)" using that(4) by simp
    ultimately have "b ^ e dvd b ^ k" using coprime_dvd_mult_left_iff by blast
    then show "e \<le> k" using that(3) power_dvd_imp_le by blast
  qed
  have c25: "coprime 2 (5::nat)" "coprime 5 (2::nat)"
    using coprime_5 [of 2] coprime_commute [of "2::nat" 5] by auto
  have t: "2 ^ t dvd m" unfolding r(1) by (rule dvd_triv_right)
  have f: "5 ^ f dvd m" unfolding r(1) r'(1) by (rule dvd_mult2 [OF dvd_triv_right])
  have "t \<le> k" by (rule small [OF t _ _ c25(1)]) simp_all
  moreover have "f \<le> k" by (rule small [OF f _ _ c25(2)]) simp_all
  ultimately have "length (digits_of (n div m)) + max t f \<le> max_expanded_digits" using len by linarith
  then show ?thesis
    using rn \<open>0 < sd\<close> by (simp add: exact_quotient_def rt rf)
qed

text \<open>And it is necessary, but for a quotient without a fraction.\<close>

lemma exact_quotientD:
  assumes "exact_quotient n m sd" "0 < m"
  shows "m dvd n \<or> (\<exists>p d k. m = p * d \<and> p dvd 10 ^ k \<and> coprime d 10 \<and> d dvd n \<and>
    length (digits_of (n div m)) + k \<le> max_expanded_digits)"
proof (cases "m dvd n")
  case False
  obtain r t where rt: "factor_out 2 m = (r, t)" by fastforce
  then have r: "m = r * 2 ^ t" "\<not> 2 dvd r" "0 < r" using factor_out_correct [OF rt] assms(2) by (auto intro: gr0I)
  obtain r' f where rf: "factor_out 5 r = (r', f)" by fastforce
  then have r': "r = r' * 5 ^ f" "\<not> 5 dvd r'" using factor_out_correct [OF rf] r(3) by auto
  have "odd r'" using r(2) r'(1) by auto
  then have "coprime r' (2 * 5)" using coprime_5 [OF r'(2)] by (simp only: coprime_mult_right_iff) simp
  moreover have "length (digits_of (n div m)) + max t f \<le> max_expanded_digits" "r' dvd n"
    using assms(1) False by (simp_all add: exact_quotient_def rt rf)
  moreover have "m = (5 ^ f * 2 ^ t) * r'" using r(1) r'(1) by simp
  moreover have "5 ^ f * 2 ^ t dvd (10 :: nat) ^ max t f" by (rule power_dvd_ten) simp_all
  ultimately show ?thesis by auto
qed simp

lemma leading_digits_integer:
  assumes "0 < m" "0 < sd" "m dvd n"
  shows "leading_digits sd (of_nat n / of_nat m) = of_nat n / of_nat m"
proof -
  have "n div m < 10 ^ length (digits_of (n div m))"
    using length_digits_of(2) [of "n div m"] by (cases "n div m = 0") auto
  then have "n * 10 ^ 0 div m < 10 ^ max sd (length (digits_of (n div m)))"
    by (simp add: max_def) (meson le_less_trans less_le_trans linorder_not_le numeral_One one_le_numeral order_less_imp_le power_increasing)
  then show ?thesis using leading_digits_ratio [OF assms(1,2), of n 0] assms(3) div_ratio_bounds(3) [OF assms(1), of n 0] by simp
qed

text \<open>The digits are all of the number exactly when it is an integer or has no more of them.\<close>

lemma leading_digits_all_iff:
  assumes "0 < sd"
  shows "leading_digits sd x = x \<longleftrightarrow> (\<exists>k N. \<bar>x\<bar> = of_nat N / 10 ^ k \<and> (k = 0 \<or> N < 10 ^ sd))"
proof
  assume l: "leading_digits sd x = x"
  define K N where "K = places sd x" and "N = nat \<lfloor>\<bar>x\<bar> * 10 ^ K\<rfloor>"
  have i: "of_int \<lfloor>\<bar>x\<bar> * 10 ^ K\<rfloor> = (of_nat N :: rat)" by (simp add: N_def)
  have x: "\<bar>x\<bar> = of_nat N / 10 ^ K"
  proof (cases "x = 0")
    case False
    have "x = sgn x * of_nat N / 10 ^ K" using l unfolding leading_digits_def K_def [symmetric] i by simp
    then have "\<bar>x\<bar> = \<bar>sgn x\<bar> * (of_nat N / 10 ^ K)" by (metis abs_divide abs_mult abs_of_nat abs_power_minus abs_numeral power_abs times_divide_eq_right)
    then show ?thesis using False by (simp add: abs_sgn_eq)
  qed (simp add: N_def)
  moreover have "N < 10 ^ sd" if "K \<noteq> 0"
  proof -
    have "\<not> 10 ^ (sd - 1) \<le> \<lfloor>\<bar>x\<bar> * 10 ^ (K - 1)\<rfloor>"
      using that not_less_Least [of "K - 1" "\<lambda>k. 10 ^ (sd - 1) \<le> \<lfloor>\<bar>x\<bar> * 10 ^ k\<rfloor>"] by (simp add: K_def places_def)
    then have "\<bar>x\<bar> * 10 ^ (K - 1) < 10 ^ (sd - 1)" by (simp add: le_floor_iff)
    then have "\<bar>x\<bar> * 10 ^ (K - 1) * 10 < 10 ^ (sd - 1) * 10" by simp
    then have "\<bar>x\<bar> * 10 ^ K < 10 ^ sd" using that assms by (metis mult.assoc neq0_conv power_minus_mult)
    then have "(of_nat N :: rat) < of_nat (10 ^ sd)" unfolding x by simp
    then show ?thesis by (simp only: of_nat_less_iff)
  qed
  ultimately show "\<exists>k N. \<bar>x\<bar> = of_nat N / 10 ^ k \<and> (k = 0 \<or> N < 10 ^ sd)"
    by (intro exI [of _ K] exI [of _ N] conjI) auto
next
  assume "\<exists>k N. \<bar>x\<bar> = of_nat N / 10 ^ k \<and> (k = 0 \<or> N < 10 ^ sd)"
  then obtain k N where x: "\<bar>x\<bar> = of_nat N / of_nat (10 ^ k)" and N: "k = 0 \<or> N < 10 ^ sd" by auto
  have "N < 10 ^ length (digits_of N)" using length_digits_of(2) [of N] by (cases "N = 0") auto
  moreover have "10 ^ sd \<le> (10 :: nat) ^ max sd l" "10 ^ l \<le> (10 :: nat) ^ max sd l" for l
    by (rule power_increasing; simp)+
  ultimately have "N < 10 ^ max sd (length (digits_of (N div 10 ^ k)))"
    using N less_le_trans by (metis power_0 div_by_1)
  then have "leading_digits sd \<bar>x\<bar> = \<bar>x\<bar>"
    using leading_digits_ratio [of "10 ^ k" sd N k] assms x by simp
  then show "leading_digits sd x = x" by (simp only: leading_digits_abs)
qed

section \<open>Modulo\<close>

lemma digits_of_parts [simp]: "int_part (digits_of n) = digits_of n" "frac_part (digits_of n) = []"
  using int_part_render [of "digits_of n" "[]"] frac_part_render [of "digits_of n" "[]"]
  by (simp_all add: render_def)

lemma scaled_digits_of [simp]: "scaled 0 (digits_of n) = n" "common_scale (digits_of n) (digits_of m) = 0"
  by (simp_all add: scaled_def common_scale_def resize_def)

lemma integer_division_digits:
  assumes "0 < m"
  shows "divide_positive_numbers (digits_of n) (digits_of m) 0 = Some (digits_of (n div m))"
proof -
  obtain q k where q: "divide_positive_numbers (digits_of n) (digits_of m) 0 = Some q"
    "canonical_unsigned q" "unsigned_value q = of_nat (n * 10 ^ k div m) / 10 ^ k"
    "if exact_quotient n m 0 then m dvd n * 10 ^ k
     else n * 10 ^ k div m < 10 ^ max 0 (length (digits_of (n div m))) \<and>
       (if (0::nat) = 0 then k = 0 else m dvd n * 10 ^ k \<or> 10 ^ (0 - 1) \<le> n * 10 ^ k div m)"
    using divide_positive_digits [of "digits_of n" "digits_of m" n m 0] assms by auto
  have "unsigned_value q = of_nat (n div m)"
  proof (cases "m dvd n")
    case True
    then obtain c where "n = m * c" by (auto elim: dvdE)
    then show ?thesis using q(3) assms by simp
  next
    case False
    then show ?thesis using q(3,4) by (simp add: exact_quotient_def)
  qed
  then have "q = digits_of (n div m)" using q(2) by (intro canonical_unsigned_inject) simp_all
  with q(1) show ?thesis by simp
qed

lemma canonical_text_digits_of [simp]: "canonical_text (digits_of n) = digits_of n"
  by (simp add: canonical_text_id canonical_unsigned_canonical)

lemma digits_of_no_dot: "find_pos (\<lambda>c. c = CHR ''.'') (digits_of n) = None"
  unfolding find_pos_None by (metis all_digits_digits_of not_digits(1))

lemma modulo_digits:
  "modulo_positive_numbers (digits_of n) (digits_of m) =
     Some (if m = 0 then NAN_VALUE else digits_of (n mod m))"
proof (cases "m = 0")
  case False
  have "m * (n div m) \<le> n" by simp
  then show ?thesis using False
    by (simp add: modulo_positive_numbers_def integer_division_digits digits_of_no_dot
        multiply_digits_of subtract_digits_of minus_mult_div_eq_mod)
qed (simp add: modulo_positive_numbers_def)

end
