(* ===== verification/Number.thy ===== *)
theory Number
  imports Number_Division "HOL-Library.Option_ord"
begin

text \<open>
  \<open>class number\<close> (\<open>src/type/number.cpp\<close>): the signed arithmetic of
  \<open>perform_arithmetic\<close>, the storage of a number and the operations on it. The contract is
  the exact one: text in canonical form stands for a rational number, sums, differences and
  products are the rational ones, a comparison is the order of the rationals with the one NaN
  below them, and the laws of a commutative ring follow by the uniqueness of canonical text.

  The conversions to \<open>double\<close> and \<open>int\<close>, which go through \<open>std::stod\<close>, are not modelled.
\<close>

section \<open>Signed arithmetic\<close>

definition perform_arithmetic :: "string \<Rightarrow> string \<Rightarrow> char \<Rightarrow> string option" where
  "perform_arithmetic na nb operation =
     (if na = NAN_VALUE \<or> nb = NAN_VALUE then Some NAN_VALUE
      else
        let a_neg = (char_at na 0 = CHR ''-''); b_neg = (char_at nb 0 = CHR ''-'');
            a_abs = (if a_neg then drop 1 na else na);
            b_abs = (if b_neg then drop 1 nb else nb)
        in if operation = CHR ''+'' then
             (if a_neg = b_neg
              then let result = add_positive_numbers a_abs b_abs
                   in Some (if a_neg then ''-'' @ result else result)
              else let cmp = compare_numbers a_abs b_abs
                   in if cmp = 0 then Some ''0''
                      else if cmp > 0
                      then let result = subtract_positive_numbers a_abs b_abs
                           in Some (if a_neg then ''-'' @ result else result)
                      else let result = subtract_positive_numbers b_abs a_abs
                           in Some (if b_neg then ''-'' @ result else result))
           else if operation = CHR ''-'' then
             (if a_neg \<noteq> b_neg
              then let result = add_positive_numbers a_abs b_abs
                   in Some (if a_neg then ''-'' @ result else result)
              else let cmp = compare_numbers a_abs b_abs
                   in if cmp = 0 then Some ''0''
                      else if cmp > 0
                      then let result = subtract_positive_numbers a_abs b_abs
                           in Some (if a_neg then ''-'' @ result else result)
                      else let result = subtract_positive_numbers b_abs a_abs
                           in Some (if a_neg then result else ''-'' @ result))
           else if operation = CHR ''*'' then
             (let result = multiply_positive_numbers a_abs b_abs
              in if result = ''0'' then Some ''0''
                 else Some (if a_neg \<noteq> b_neg then ''-'' @ result else result))
           else if operation = CHR ''/'' then
             (if nb = ''0'' then Some NAN_VALUE
              else do {
                result \<leftarrow> divide_positive_numbers a_abs b_abs quotient_significant_digits;
                if result = NAN_VALUE then Some NAN_VALUE
                else Some (if a_neg \<noteq> b_neg then ''-'' @ result else result)
              })
           else if operation = CHR ''%'' then
             (if nb = ''0'' \<or> find_pos (\<lambda>c. c = CHR ''.'') na \<noteq> None
                 \<or> find_pos (\<lambda>c. c = CHR ''.'') nb \<noteq> None
              then Some NAN_VALUE
              else do {
                result \<leftarrow> modulo_positive_numbers a_abs b_abs;
                if result = NAN_VALUE then Some NAN_VALUE
                else Some (if a_neg then ''-'' @ result else result)
              })
           else Some NAN_VALUE)"

lemma sign_parts:
  assumes "canonical s"
  shows "char_at s 0 = CHR ''-'' \<longleftrightarrow> is_negative_text s"
    "(if is_negative_text s then drop 1 s else s) = magnitude s"
    "canonical_unsigned (magnitude s)" "s \<noteq> NAN_VALUE"
  using assms valid_not_NAN canonical_valid
  by (auto simp: char_at_negative magnitude_def canonical_def drop_Suc)

lemma signed_canonical:
  assumes "canonical_unsigned u"
  shows "num_value (if neg then ''-'' @ u else u) = (if neg then - unsigned_value u else unsigned_value u)"
    "neg \<longrightarrow> u \<noteq> ''0'' \<Longrightarrow> canonical (if neg then ''-'' @ u else u)"
  using assms by (auto simp: num_value_unsigned canonical_unsigned_canonical canonical_negate)

lemma num_value_magnitude:
  "num_value s = (if is_negative_text s then - unsigned_value (magnitude s) else unsigned_value (magnitude s))"
  by (simp add: num_value_def)

lemma positive_not_zero: "canonical_unsigned u \<Longrightarrow> 0 < unsigned_value u \<Longrightarrow> u \<noteq> ''0''"
  by auto

lemma magnitude_pos: "canonical s \<Longrightarrow> is_negative_text s \<Longrightarrow> 0 < unsigned_value (magnitude s)"
  using canonical_unsigned_eq_zero [of "magnitude s"] canonical_unsigned_nonneg [of "magnitude s"]
  by (auto simp: canonical_def less_le)

text \<open>Addition and subtraction of signed magnitudes are one function of the signs.\<close>

definition signed_add :: "bool \<Rightarrow> bool \<Rightarrow> string \<Rightarrow> string \<Rightarrow> string" where
  "signed_add sa sb u v =
     (if sa = sb then (if sa then ''-'' @ add_positive_numbers u v else add_positive_numbers u v)
      else if compare_numbers u v = 0 then ''0''
      else if compare_numbers u v > 0
      then (if sa then ''-'' @ subtract_positive_numbers u v else subtract_positive_numbers u v)
      else (if sb then ''-'' @ subtract_positive_numbers v u else subtract_positive_numbers v u))"

lemma perform_add_signed:
  assumes "canonical a" "canonical b"
  shows "perform_arithmetic a b (CHR ''+'') =
      Some (signed_add (is_negative_text a) (is_negative_text b) (magnitude a) (magnitude b))"
    "perform_arithmetic a b (CHR ''-'') =
      Some (signed_add (is_negative_text a) (\<not> is_negative_text b) (magnitude a) (magnitude b))"
  using sign_parts [OF assms(1)] sign_parts [OF assms(2)]
  by (auto simp: perform_arithmetic_def signed_add_def Let_def)

lemma signed_add_exact:
  assumes u: "canonical_unsigned u" and v: "canonical_unsigned v" and pos: "sa \<longrightarrow> 0 < unsigned_value u"
  shows "canonical (signed_add sa sb u v) \<and> num_value (signed_add sa sb u v) =
    (if sa then - unsigned_value u else unsigned_value u) + (if sb then - unsigned_value v else unsigned_value v)"
proof (cases "sa = sb")
  case True
  define r where "r = add_positive_numbers u v"
  have r: "canonical_unsigned r" "unsigned_value r = unsigned_value u + unsigned_value v"
    using add_positive_exact [OF u v] by (simp_all add: r_def)
  have "sa \<longrightarrow> r \<noteq> ''0''"
    using pos canonical_unsigned_nonneg [OF v] r positive_not_zero [OF r(1)] by auto
  then show ?thesis
    using signed_canonical [OF r(1), of sa] True r(2) by (auto simp: signed_add_def r_def [symmetric])
next
  case False
  have cmp: "compare_numbers u v = cmp3 (unsigned_value u) (unsigned_value v)"
    using compare_unsigned u v by blast
  consider "unsigned_value u = unsigned_value v" | "unsigned_value v < unsigned_value u"
    | "unsigned_value u < unsigned_value v" by linarith
  then show ?thesis
  proof cases
    case 1
    then show ?thesis using False cmp
      by (auto simp: signed_add_def canonical_unsigned_canonical num_value_unsigned)
  next
    case 2
    define r where "r = subtract_positive_numbers u v"
    have r: "canonical_unsigned r" "unsigned_value r = unsigned_value u - unsigned_value v"
      using subtract_positive_exact [OF u v] 2 by (simp_all add: r_def)
    have "signed_add sa sb u v = (if sa then ''-'' @ r else r)"
      using 2 False cmp by (simp add: signed_add_def r_def)
    then show ?thesis
      using signed_canonical [OF r(1), of sa] False 2 positive_not_zero [OF r(1)] r(2) by auto
  next
    case 3
    define r where "r = subtract_positive_numbers v u"
    have r: "canonical_unsigned r" "unsigned_value r = unsigned_value v - unsigned_value u"
      using subtract_positive_exact [OF v u] 3 by (simp_all add: r_def)
    have "signed_add sa sb u v = (if sb then ''-'' @ r else r)"
      using 3 False cmp by (simp add: signed_add_def r_def)
    then show ?thesis
      using signed_canonical [OF r(1), of sb] False 3 positive_not_zero [OF r(1)] r(2) by auto
  qed
qed

lemma add_exact:
  assumes a: "canonical a" and b: "canonical b"
  shows "\<exists>r. perform_arithmetic a b (CHR ''+'') = Some r \<and> canonical r \<and>
    num_value r = num_value a + num_value b"
  using signed_add_exact [OF sign_parts(3) [OF a] sign_parts(3) [OF b], of "is_negative_text a" "is_negative_text b"]
    magnitude_pos [OF a]
  by (simp add: perform_add_signed(1) [OF a b] num_value_magnitude [of a] num_value_magnitude [of b])

lemma subtract_exact:
  assumes a: "canonical a" and b: "canonical b"
  shows "\<exists>r. perform_arithmetic a b (CHR ''-'') = Some r \<and> canonical r \<and>
    num_value r = num_value a - num_value b"
  using signed_add_exact [OF sign_parts(3) [OF a] sign_parts(3) [OF b], of "is_negative_text a" "\<not> is_negative_text b"]
    magnitude_pos [OF a]
  by (auto simp: perform_add_signed(2) [OF a b] num_value_magnitude [of a] num_value_magnitude [of b])

lemma multiply_exact:
  assumes a: "canonical a" and b: "canonical b"
  shows "\<exists>r. perform_arithmetic a b (CHR ''*'') = Some r \<and> canonical r \<and>
    num_value r = num_value a * num_value b"
proof -
  note pa = sign_parts [OF a] and pb = sign_parts [OF b]
  define r neg where "r = multiply_positive_numbers (magnitude a) (magnitude b)"
    and "neg \<longleftrightarrow> is_negative_text a \<noteq> is_negative_text b"
  have r: "canonical_unsigned r" "unsigned_value r = unsigned_value (magnitude a) * unsigned_value (magnitude b)"
    using multiply_positive_exact [OF pa(3) pb(3)] by (simp_all add: r_def)
  have p: "perform_arithmetic a b (CHR ''*'') =
      Some (if r = ''0'' then ''0'' else if neg then ''-'' @ r else r)"
    unfolding perform_arithmetic_def Let_def pa(1) pa(2) pb(1) pb(2)
    using pa(4) pb(4) by (simp add: r_def neg_def)
  have v: "num_value a * num_value b = (if neg then - unsigned_value r else unsigned_value r)"
    by (auto simp: num_value_magnitude [of a] num_value_magnitude [of b] neg_def r(2))
  show ?thesis
  proof (cases "r = ''0''")
    case True
    then show ?thesis using p v by (simp add: canonical_unsigned_canonical num_value_unsigned)
  next
    case False
    then show ?thesis using p v signed_canonical [OF r(1), of neg] by simp
  qed
qed

text \<open>Division: the result is not yet canonical when it is a negative zero, which the
  constructor of \<open>number\<close> turns into zero.\<close>

lemma canonical_text_signed:
  assumes "canonical_unsigned u"
  shows "canonical (canonical_text (if neg then ''-'' @ u else u))"
    "num_value (canonical_text (if neg then ''-'' @ u else u)) =
      (if neg then - unsigned_value u else unsigned_value u)"
proof -
  obtain i f where u: "u = render i f" "canonical_parts i f"
    using assms by (rule canonical_unsignedE)
  then have p: "all_digits i" "i \<noteq> []" "all_digits f" "strip_leading i = i"
    "strip_end (\<lambda>c. c = CHR ''0'') f = f"
    by (auto simp: canonical_parts_def no_leading_zero_def strip_leading_id intro!: strip_end_id)
  have "canonical_text (if neg then ''-'' @ u else u) = (if neg \<and> u \<noteq> ''0'' then CHR ''-'' # u else u)"
    using canonical_text_sign [OF p(1-3), of "if neg then ''-'' else []"] p(4,5) u(1)
    by (cases neg) (auto simp: Let_def)
  then show "canonical (canonical_text (if neg then ''-'' @ u else u))"
    "num_value (canonical_text (if neg then ''-'' @ u else u)) =
      (if neg then - unsigned_value u else unsigned_value u)"
    using assms by (auto simp: canonical_negate canonical_unsigned_canonical num_value_unsigned)
qed

lemma divide_exact_or_truncated:
  assumes a: "canonical a" and b: "canonical b"
  shows "\<exists>r. perform_arithmetic a b (CHR ''/'') = Some r \<and>
    (if b = ''0'' then r = NAN_VALUE
     else canonical (canonical_text r) \<and>
       num_value (canonical_text r) =
         (if exact_quotient (scaled (common_scale (magnitude a) (magnitude b)) (magnitude a))
              (scaled (common_scale (magnitude a) (magnitude b)) (magnitude b)) quotient_significant_digits
          then num_value a / num_value b else leading_digits quotient_significant_digits (num_value a / num_value b)))"
proof (cases "b = ''0''")
  case True
  note pa = sign_parts [OF a] and pb = sign_parts [OF b]
  show ?thesis
    unfolding perform_arithmetic_def Let_def pa(1) pa(2) pb(1) pb(2) using True pa(4) pb(4) by simp
next
  case False
  note pa = sign_parts [OF a] and pb = sign_parts [OF b]
  have b0: "magnitude b \<noteq> ''0''"
    using False b by (auto simp: canonical_def magnitude_def)
  define neg where "neg \<longleftrightarrow> is_negative_text a \<noteq> is_negative_text b"
  define x where "x = unsigned_value (magnitude a) / unsigned_value (magnitude b)"
  have x: "num_value a / num_value b = (if neg then - x else x)"
    by (auto simp: num_value_magnitude [of a] num_value_magnitude [of b] neg_def x_def)
  obtain q where q: "divide_positive_numbers (magnitude a) (magnitude b) quotient_significant_digits = Some q"
    "canonical_unsigned q"
    "unsigned_value q =
      (if exact_quotient (scaled (common_scale (magnitude a) (magnitude b)) (magnitude a))
          (scaled (common_scale (magnitude a) (magnitude b)) (magnitude b)) quotient_significant_digits
       then x else leading_digits quotient_significant_digits x)"
    using divide_positive_rounds [OF pa(3) pb(3) b0, of quotient_significant_digits]
    unfolding x_def by (metis quotient_significant_digits_def zero_less_numeral)
  have "q \<noteq> NAN_VALUE" using q(2) canonical_unsigned_canonical sign_parts(4) by blast
  then have p: "perform_arithmetic a b (CHR ''/'') = Some (if neg then ''-'' @ q else q)"
    unfolding perform_arithmetic_def Let_def pa(1) pa(2) pb(1) pb(2)
    using pa(4) pb(4) False q(1) by (simp add: neg_def)
  note c = canonical_text_signed [OF q(2), of neg]
  show ?thesis
    using p c q(3) False unfolding x
    by (intro exI [of _ "if neg then ''-'' @ q else q"]) (auto simp: leading_digits_minus)
qed

text \<open>Modulo of integers.\<close>

lemma canonical_integer:
  assumes "canonical_unsigned u" "find_pos (\<lambda>c. c = CHR ''.'') u = None"
  shows "u = digits_of (nat \<lfloor>unsigned_value u\<rfloor>)" "unsigned_value u = of_nat (nat \<lfloor>unsigned_value u\<rfloor>)"
proof -
  obtain i f where u: "u = render i f" "canonical_parts i f" "unsigned_value u = decimal i f"
    using assms(1) by (rule canonical_unsignedE)
  moreover have "f = []" using assms(2) u(1) by (auto simp: find_pos_None render_def split: if_splits)
  ultimately have "u = i" "all_digits i" "no_leading_zero i" "unsigned_value u = of_int (dval i)"
    by (auto simp: render_def canonical_parts_def decimal_split)
  then show "u = digits_of (nat \<lfloor>unsigned_value u\<rfloor>)" "unsigned_value u = of_nat (nat \<lfloor>unsigned_value u\<rfloor>)"
    by (simp_all add: digits_of_dval dval_nonneg)
qed

definition is_integer_text :: "string \<Rightarrow> bool" where
  "is_integer_text s \<longleftrightarrow> find_pos (\<lambda>c. c = CHR ''.'') s = None"

definition int_value :: "string \<Rightarrow> int" where
  "int_value s = \<lfloor>num_value s\<rfloor>"

lemma integer_text_magnitude: "is_integer_text s \<Longrightarrow> find_pos (\<lambda>c. c = CHR ''.'') (magnitude s) = None"
  by (cases s) (auto simp: is_integer_text_def magnitude_def split: if_splits)

lemma integer_text_value:
  assumes "canonical s" "is_integer_text s"
  shows "magnitude s = digits_of (nat \<bar>int_value s\<bar>)"
    "is_negative_text s \<longleftrightarrow> int_value s < 0" "num_value s = of_int (int_value s)"
proof -
  define n where "n = nat \<lfloor>unsigned_value (magnitude s)\<rfloor>"
  have n: "magnitude s = digits_of n" "unsigned_value (magnitude s) = of_nat n"
    unfolding n_def using canonical_integer [OF sign_parts(3) [OF assms(1)] integer_text_magnitude [OF assms(2)]]
    by simp_all
  then have v: "num_value s = (if is_negative_text s then - of_nat n else of_nat n)"
    by (simp add: num_value_magnitude)
  then have i: "int_value s = (if is_negative_text s then - int n else int n)"
    by (auto simp: int_value_def) (metis floor_of_int of_int_minus of_int_of_nat_eq)
  show "magnitude s = digits_of (nat \<bar>int_value s\<bar>)" using i n(1) by (auto split: if_splits)
  show "num_value s = of_int (int_value s)" using i v by (auto split: if_splits)
  have "is_negative_text s \<Longrightarrow> n \<noteq> 0" using assms(1) n(1) by (auto simp: canonical_def)
  then show "is_negative_text s \<longleftrightarrow> int_value s < 0" using i by (auto split: if_splits)
qed

lemma modulo_exact:
  assumes a: "canonical a" and b: "canonical b"
  shows "\<exists>r. perform_arithmetic a b (CHR ''%'') = Some r \<and>
    (if b = ''0'' \<or> \<not> is_integer_text a \<or> \<not> is_integer_text b then r = NAN_VALUE
     else canonical (canonical_text r) \<and>
       num_value (canonical_text r) =
         of_int (sgn (int_value a) * (\<bar>int_value a\<bar> mod \<bar>int_value b\<bar>)))"
proof (cases "b = ''0'' \<or> \<not> is_integer_text a \<or> \<not> is_integer_text b")
  case True
  note pa = sign_parts [OF a] and pb = sign_parts [OF b]
  show ?thesis
    unfolding perform_arithmetic_def Let_def pa(1) pa(2) pb(1) pb(2)
    using True pa(4) pb(4) by (auto simp: is_integer_text_def)
next
  case False
  then have ia: "is_integer_text a" and ib: "is_integer_text b" and b0: "b \<noteq> ''0''" by auto
  note pa = sign_parts [OF a] and pb = sign_parts [OF b]
  note va = integer_text_value [OF a ia] and vb = integer_text_value [OF b ib]
  define n m where "n = nat \<bar>int_value a\<bar>" and "m = nat \<bar>int_value b\<bar>"
  have "m \<noteq> 0"
  proof
    assume "m = 0"
    then have "magnitude b = ''0''" using vb(1) by (simp add: m_def)
    then show False using b b0 by (auto simp: canonical_def magnitude_def split: if_splits)
  qed
  define neg where "neg = is_negative_text a"
  have "digits_of (n mod m) \<noteq> NAN_VALUE"
    using canonical_unsigned_canonical sign_parts(4) canonical_digits_of by blast
  then have p: "perform_arithmetic a b (CHR ''%'') =
      Some (if neg then ''-'' @ digits_of (n mod m) else digits_of (n mod m))"
    unfolding perform_arithmetic_def Let_def pa(1) pa(2) pb(1) pb(2)
    using pa(4) pb(4) b0 ia ib \<open>m \<noteq> 0\<close> modulo_digits [of n m] va(1) vb(1)
    by (simp add: is_integer_text_def neg_def n_def m_def)
  note c = canonical_text_signed [OF canonical_digits_of [of "n mod m"], of neg]
  have "sgn (int_value a) * (\<bar>int_value a\<bar> mod \<bar>int_value b\<bar>) =
      (if neg then - int (n mod m) else int (n mod m))"
    using va(2) by (auto simp: neg_def n_def m_def sgn_if zmod_int)
  then have "num_value (canonical_text (if neg then ''-'' @ digits_of (n mod m) else digits_of (n mod m))) =
      of_int (sgn (int_value a) * (\<bar>int_value a\<bar> mod \<bar>int_value b\<bar>))"
    unfolding c(2) by simp
  then show ?thesis using p c(1) False by auto
qed

section \<open>The laws of exact arithmetic\<close>

text \<open>An operation on text that computes a rational function exactly inherits its equations,
  because canonical text of a value is unique. NaN absorbs.\<close>

locale exact_operation =
  fixes opn :: "string \<Rightarrow> string \<Rightarrow> string option" and f :: "rat \<Rightarrow> rat \<Rightarrow> rat"
  assumes exact: "canonical a \<Longrightarrow> canonical b \<Longrightarrow>
      \<exists>r. opn a b = Some r \<and> canonical r \<and> num_value r = f (num_value a) (num_value b)"
    and absorbs: "a = NAN_VALUE \<or> b = NAN_VALUE \<Longrightarrow> opn a b = Some NAN_VALUE"
begin

lemma unique: "canonical a \<Longrightarrow> canonical b \<Longrightarrow> canonical r \<Longrightarrow>
    num_value r = f (num_value a) (num_value b) \<Longrightarrow> opn a b = Some r"
  using exact [of a b] canonical_inject by metis

lemma total: "canonical a \<or> a = NAN_VALUE \<Longrightarrow> canonical b \<or> b = NAN_VALUE \<Longrightarrow>
    \<exists>r. opn a b = Some r \<and> (canonical r \<or> r = NAN_VALUE) \<and> (r = NAN_VALUE \<longleftrightarrow> a = NAN_VALUE \<or> b = NAN_VALUE)"
  using exact [of a b] absorbs [of a b] sign_parts(4) by metis

lemma commutes:
  assumes "\<And>x y. f x y = f y x" "canonical a \<or> a = NAN_VALUE" "canonical b \<or> b = NAN_VALUE"
  shows "opn a b = opn b a"
proof (cases "a = NAN_VALUE \<or> b = NAN_VALUE")
  case True
  then show ?thesis using absorbs by metis
next
  case False
  then have "canonical a" "canonical b" using assms by auto
  then show ?thesis using exact [of a b] unique [of b a] assms(1) by metis
qed

lemma associates:
  assumes "\<And>x y z. f (f x y) z = f x (f y z)"
    and "canonical a \<or> a = NAN_VALUE" "canonical b \<or> b = NAN_VALUE" "canonical c \<or> c = NAN_VALUE"
  shows "Option.bind (opn a b) (\<lambda>r. opn r c) = Option.bind (opn b c) (opn a)"
proof (cases "a = NAN_VALUE \<or> b = NAN_VALUE \<or> c = NAN_VALUE")
  case True
  obtain r s where "opn a b = Some r" "r = NAN_VALUE \<longleftrightarrow> a = NAN_VALUE \<or> b = NAN_VALUE"
    "opn b c = Some s" "s = NAN_VALUE \<longleftrightarrow> b = NAN_VALUE \<or> c = NAN_VALUE"
    using total assms(2-4) by metis
  with True show ?thesis using absorbs by auto
next
  case False
  then have c: "canonical a" "canonical b" "canonical c" using assms by auto
  obtain r where r: "opn a b = Some r" "canonical r" "num_value r = f (num_value a) (num_value b)"
    using exact c by blast
  obtain s where s: "opn b c = Some s" "canonical s" "num_value s = f (num_value b) (num_value c)"
    using exact c by blast
  obtain t where t: "opn r c = Some t" "canonical t" "num_value t = f (num_value r) (num_value c)"
    using exact r c by blast
  have "opn a s = Some t" using c s t r assms(1) by (intro unique) simp_all
  with r s t show ?thesis by simp
qed

end

interpretation addition: exact_operation "\<lambda>a b. perform_arithmetic a b (CHR ''+'')" "(+)"
  by unfold_locales (auto simp: add_exact, auto simp: perform_arithmetic_def)

interpretation subtraction: exact_operation "\<lambda>a b. perform_arithmetic a b (CHR ''-'')" "(-)"
  by unfold_locales (auto simp: subtract_exact, auto simp: perform_arithmetic_def)

interpretation multiplication: exact_operation "\<lambda>a b. perform_arithmetic a b (CHR ''*'')" "(*)"
  by unfold_locales (auto simp: multiply_exact, auto simp: perform_arithmetic_def)

section \<open>The storage of a number\<close>

record number_storage =
  st_number :: string
  st_floating_point :: bool

definition is_written_as_floating_point :: "string \<Rightarrow> bool" where
  "is_written_as_floating_point s = (find_pos (\<lambda>c. c = CHR ''.'' \<or> c = CHR ''e'' \<or> c = CHR ''E'') s \<noteq> None)"

definition storage_default :: number_storage where
  "storage_default = \<lparr>st_number = ''0'', st_floating_point = False\<rparr>"

definition storage_of :: "string \<Rightarrow> number_storage" where
  "storage_of s = \<lparr>st_number = canonical_text s, st_floating_point = is_written_as_floating_point s\<rparr>"

definition storage_with :: "string \<Rightarrow> bool \<Rightarrow> number_storage" where
  "storage_with s floating_point = \<lparr>st_number = canonical_text s, st_floating_point = floating_point\<rparr>"

definition storage_assign :: "string \<Rightarrow> number_storage \<Rightarrow> number_storage" where
  "storage_assign s st = st\<lparr>st_number := canonical_text s, st_floating_point := is_written_as_floating_point s\<rparr>"

text \<open>The moves leave the source a zero: the pair is the target and the source.\<close>

definition number_move :: "number_storage \<Rightarrow> number_storage \<times> number_storage" where
  "number_move n = (n, storage_default)"

definition number_move_assign :: "number_storage \<Rightarrow> number_storage \<Rightarrow> number_storage \<times> number_storage" where
  "number_move_assign this n =
     (let (this, n) = (n, this);
          zero = storage_default;
          n = n\<lparr>st_number := st_number zero\<rparr>;
          n = n\<lparr>st_floating_point := False\<rparr>
      in (this, n))"

definition is_nan :: "number_storage \<Rightarrow> bool" where
  "is_nan n = (st_number n = NAN_VALUE)"

definition is_integer :: "number_storage \<Rightarrow> bool" where
  "is_integer n = (\<not> is_nan n \<and> find_pos (\<lambda>c. c = CHR ''.'') (st_number n) = None)"

definition is_floating_point :: "number_storage \<Rightarrow> bool" where
  "is_floating_point n = (\<not> is_nan n \<and> st_floating_point n)"

definition number_compare :: "number_storage \<Rightarrow> number_storage \<Rightarrow> weak_ordering" where
  "number_compare this n =
     (let valid1 = is_valid_number (st_number this); valid2 = is_valid_number (st_number n)
      in if \<not> valid1 \<or> \<not> valid2
         then (if \<not> valid1 \<and> \<not> valid2 then Equivalent else if valid1 then Greater else Less)
         else let cmp = compare_numbers (st_number this) (st_number n)
              in if cmp < 0 then Less else if cmp > 0 then Greater else Equivalent)"

definition number_equals :: "number_storage \<Rightarrow> number_storage \<Rightarrow> bool" where
  "number_equals this n = (number_compare this n = Equivalent)"

definition number_text :: "number_storage \<Rightarrow> string" where
  "number_text n = (if is_nan n then ''NaN'' else st_number n)"

definition calculate :: "number_storage \<Rightarrow> number_storage \<Rightarrow> char \<Rightarrow> number_storage option" where
  "calculate this other opn =
     do {
       text \<leftarrow> perform_arithmetic (st_number this) (st_number other) opn;
       let result = storage_of text;
       Some (result\<lparr>st_floating_point :=
         st_floating_point result \<or> st_floating_point this \<or> st_floating_point other\<rparr>)
     }"

definition number_nan :: number_storage where
  "number_nan = storage_of NAN_VALUE"

subsection \<open>Conversion to an integer\<close>

record parsed_number =
  pn_is_negative :: bool
  pn_integer_part :: string
  pn_fractional_part :: "string option"
  pn_is_valid :: bool

definition parse_number_unified :: "string \<Rightarrow> parsed_number" where
  "parse_number_unified str =
     (let result = \<lparr>pn_is_negative = False, pn_integer_part = ''0'', pn_fractional_part = None,
                    pn_is_valid = True\<rparr>
      in if str = NAN_VALUE then result\<lparr>pn_is_valid := False\<rparr>
         else let start = (if char_at str 0 = CHR ''-'' then 1 else 0);
                  result = result\<lparr>pn_is_negative := (start = 1)\<rparr>
              in case find_pos_from (\<lambda>c. c = CHR ''.'') start str of
                   None \<Rightarrow> result\<lparr>pn_integer_part := drop start str\<rparr>
                 | Some dot \<Rightarrow> result\<lparr>pn_integer_part := substr start (dot - start) str,
                                    pn_fractional_part := Some (drop (dot + 1) str)\<rparr>)"

text \<open>\<open>std::stoll\<close> on a string that is an optional minus sign and digits: the value and the
  characters it read, or \<^const>\<open>None\<close> where it throws: no digits, or out of the range of
  \<open>long long\<close>.\<close>

definition stoll :: "string \<Rightarrow> (int \<times> nat) option" where
  "stoll s =
     (let negative = (char_at s 0 = CHR ''-'');
          digits = takeWhile is_digit (if negative then drop 1 s else s);
          v = (if negative then - dval digits else dval digits)
      in if digits = [] \<or> v < - (2 ^ 63) \<or> 2 ^ 63 \<le> v then None
         else Some (v, length digits + (if negative then 1 else 0)))"

definition to_long_long :: "parsed_number \<Rightarrow> int option" where
  "to_long_long p =
     (if \<not> pn_is_valid p then None
      else let int_str = (if pn_is_negative p then ''-'' else []) @ pn_integer_part p
           in case stoll int_str of
                Some (v, processed) \<Rightarrow> if processed = length int_str then Some v else None
              | None \<Rightarrow> None)"

definition number_long_long :: "number_storage \<Rightarrow> int" where
  "number_long_long n = (case to_long_long (parse_number_unified (st_number n)) of Some v \<Rightarrow> v | None \<Rightarrow> 0)"

section \<open>The invariant of the storage\<close>

text \<open>The text is canonical or the one NaN, and a fraction implies the floating-point mark.\<close>

definition number_ok :: "number_storage \<Rightarrow> bool" where
  "number_ok n \<longleftrightarrow> (canonical (st_number n) \<or> st_number n = NAN_VALUE) \<and>
     (CHR ''.'' \<in> set (st_number n) \<longrightarrow> st_floating_point n)"

text \<open>What a number means: a rational number, or nothing for NaN, which the order of options
  puts below every number.\<close>

definition number_value :: "number_storage \<Rightarrow> rat option" where
  "number_value n = (if is_nan n then None else Some (num_value (st_number n)))"

lemma number_okD:
  "number_ok n \<Longrightarrow> canonical (st_number n) \<or> st_number n = NAN_VALUE"
  "number_ok n \<Longrightarrow> CHR ''.'' \<in> set (st_number n) \<Longrightarrow> st_floating_point n"
  by (auto simp: number_ok_def)

lemma canonical_text_NAN [simp]: "canonical_text NAN_VALUE = NAN_VALUE"
  by (simp add: canonical_text_NAN_iff)

lemma canonical_text_stored:
  "canonical s \<or> s = NAN_VALUE \<Longrightarrow> canonical_text s = s"
  by (auto simp: canonical_text_id)

lemma no_dot_NAN [simp]: "CHR ''.'' \<notin> set NAN_VALUE"
  by (simp add: NAN_VALUE_def)

lemma dot_written: "CHR ''.'' \<in> set s \<Longrightarrow> is_written_as_floating_point s"
  by (auto simp: is_written_as_floating_point_def find_pos_None)

lemma canonical_no_exponent: "canonical s \<Longrightarrow> c \<in> set s \<Longrightarrow> c \<noteq> CHR ''e'' \<and> c \<noteq> CHR ''E''"
  by (erule canonical_textE) (auto simp: render_def canonical_parts_def split: if_splits)

lemma canonical_written:
  assumes "canonical s \<or> s = NAN_VALUE"
  shows "is_written_as_floating_point s \<longleftrightarrow> CHR ''.'' \<in> set s"
proof -
  have "\<not> is_written_as_floating_point NAN_VALUE"
    by (simp add: is_written_as_floating_point_def NAN_VALUE_def)
  then show ?thesis
    using assms canonical_no_exponent [of s] by (auto simp: is_written_as_floating_point_def find_pos_None)
qed

text \<open>Text without a point and an exponent stays without a point.\<close>

lemma written_if_dot:
  assumes "CHR ''.'' \<in> set (canonical_text s)"
  shows "is_written_as_floating_point s"
proof (rule ccontr)
  assume "\<not> is_written_as_floating_point s"
  then have n: "\<forall>c \<in> set s. c \<noteq> CHR ''.'' \<and> \<not> is_exp_char c"
    by (auto simp: is_written_as_floating_point_def find_pos_None is_exp_char_def)
  have v: "is_valid_number s"
    using assms canonical_text_NAN_iff [of s] by (metis no_dot_NAN)
  define sg i where "sg = fst (sign_split s)" and "i = mantissa_of s"
  have "set s = set sg \<union> set i \<union> set (exponent_of s)"
    using mantissa_exponent_append [of s] by (metis sg_def i_def set_append sup_assoc)
  moreover from this have "exponent_of s = []"
    using exponent_of_cases [of s] n by (metis UnCI list.set_intros(1))
  ultimately have s: "s = sg @ i" and i: "CHR ''.'' \<notin> set i"
    using mantissa_exponent_append [of s] n by (auto simp: sg_def i_def)
  have "frac_part m = []" if "CHR ''.'' \<notin> set m" for m
    using that by (induction m) auto
  then have "int_part i = i" "frac_part i = []"
    using i mantissa_split [of i] by simp_all
  then have d: "all_digits i" "i \<noteq> []"
    using v by (auto simp: is_valid_number_iff number_syntax_def mantissa_syntax_def i_def)
  have "sg \<in> {[], ''-'', ''+''}" by (auto simp: sg_def sign_split_def is_sign_char_def)
  then have "canonical_text s = (if sg = ''-'' \<and> strip_leading i \<noteq> ''0'' then CHR ''-'' # strip_leading i
      else strip_leading i)"
    using canonical_text_sign [of i "[]" sg] d by (simp add: s render_def Let_def)
  moreover have "all_digits (strip_leading i)" using strip_leading_props [OF d(1)] by simp
  ultimately show False using assms not_digits(1) by (auto split: if_splits)
qed

lemma storage_of_ok: "number_ok (storage_of s)"
  using canonical_text_cases [of s] written_if_dot [of s] by (auto simp: number_ok_def storage_of_def)

lemma storage_default_ok: "number_ok storage_default"
  by (simp add: number_ok_def storage_default_def canonical_unsigned_canonical)

lemma storage_of_stored:
  "canonical s \<or> s = NAN_VALUE \<Longrightarrow> st_number (storage_of s) = s"
  "canonical s \<or> s = NAN_VALUE \<Longrightarrow> st_floating_point (storage_of s) \<longleftrightarrow> CHR ''.'' \<in> set s"
  by (simp_all add: storage_of_def canonical_text_stored canonical_written)

lemma number_value_text: "number_ok n \<Longrightarrow> number_value n =
    (if st_number n = NAN_VALUE then None else Some (num_value (st_number n)))"
  by (simp add: number_value_def is_nan_def)

text \<open>Two numbers of the same value have the same text.\<close>

lemma number_value_inject:
  "number_ok x \<Longrightarrow> number_ok y \<Longrightarrow> number_value x = number_value y \<longleftrightarrow> st_number x = st_number y"
  using canonical_inject [of "st_number x" "st_number y"] sign_parts(4)
  by (auto simp: number_value_text number_ok_def split: if_splits)

text \<open>The comparison orders numbers by their values.\<close>

interpretation number_order: three_way number_ok number_value number_compare
proof
  fix x y assume "number_ok x" "number_ok y"
  then have c: "canonical (st_number x) \<or> st_number x = NAN_VALUE" "canonical (st_number y) \<or> st_number y = NAN_VALUE"
    by (simp_all add: number_ok_def)
  have v: "is_valid_number (st_number z) \<longleftrightarrow> st_number z \<noteq> NAN_VALUE"
    if "canonical (st_number z) \<or> st_number z = NAN_VALUE" for z :: number_storage
    using that canonical_valid by auto
  show "number_compare x y = compare_by number_value x y"
  proof (cases "st_number x = NAN_VALUE \<or> st_number y = NAN_VALUE")
    case True
    then show ?thesis using v c
      by (auto simp: number_compare_def compare_by_def number_value_def is_nan_def Let_def)
  next
    case False
    then show ?thesis using v c compare_canonical [of "st_number x" "st_number y"]
      by (auto simp: number_compare_def compare_by_def number_value_def is_nan_def Let_def)
  qed
qed

section \<open>Calculations\<close>

lemma calculate_total:
  assumes "number_ok x" "number_ok y" "perform_arithmetic (st_number x) (st_number y) opn = Some r"
  shows "\<exists>z. calculate x y opn = Some z \<and> number_ok z \<and> st_number z = canonical_text r \<and>
    (st_floating_point z \<longleftrightarrow> is_written_as_floating_point r \<or> st_floating_point x \<or> st_floating_point y)"
  using storage_of_ok [of r] assms
  by (auto simp: calculate_def number_ok_def storage_of_def)

definition lift2 :: "(rat \<Rightarrow> rat \<Rightarrow> rat) \<Rightarrow> rat option \<Rightarrow> rat option \<Rightarrow> rat option" where
  "lift2 f x y = (case x of None \<Rightarrow> None | Some a \<Rightarrow> (case y of None \<Rightarrow> None | Some b \<Rightarrow> Some (f a b)))"

lemma calculate_exact_operation:
  assumes op: "exact_operation (\<lambda>a b. perform_arithmetic a b opn) f" and x: "number_ok x" and y: "number_ok y"
  shows "\<exists>z. calculate x y opn = Some z \<and> number_ok z \<and>
    number_value z = lift2 f (number_value x) (number_value y) \<and>
    perform_arithmetic (st_number x) (st_number y) opn = Some (st_number z) \<and>
    (st_floating_point z \<longleftrightarrow> CHR ''.'' \<in> set (st_number z) \<or> st_floating_point x \<or> st_floating_point y)"
proof -
  obtain r where r: "perform_arithmetic (st_number x) (st_number y) opn = Some r"
    "canonical r \<or> r = NAN_VALUE" "r = NAN_VALUE \<longleftrightarrow> st_number x = NAN_VALUE \<or> st_number y = NAN_VALUE"
    using exact_operation.total [OF op number_okD(1) [OF x] number_okD(1) [OF y]] by blast
  obtain z where z: "calculate x y opn = Some z" "number_ok z" "st_number z = canonical_text r"
    "st_floating_point z \<longleftrightarrow> is_written_as_floating_point r \<or> st_floating_point x \<or> st_floating_point y"
    using calculate_total [OF x y r(1)] by blast
  have zr: "st_number z = r" using z(3) r(2) canonical_text_stored by simp
  have "number_value z = lift2 f (number_value x) (number_value y)"
  proof (cases "r = NAN_VALUE")
    case True
    then show ?thesis using r(3) zr by (auto simp: number_value_def is_nan_def lift2_def split: option.splits)
  next
    case False
    then have "canonical (st_number x)" "canonical (st_number y)" using r(3) x y by (auto simp: number_ok_def)
    then have "num_value r = f (num_value (st_number x)) (num_value (st_number y))"
      using exact_operation.exact [OF op, of "st_number x" "st_number y"] r(1) by auto
    then show ?thesis using False r(3) zr by (simp add: number_value_def is_nan_def lift2_def)
  qed
  then show ?thesis using z zr r canonical_written [OF r(2)] by auto
qed

lemmas exact_operations =
  addition.exact_operation_axioms subtraction.exact_operation_axioms multiplication.exact_operation_axioms

end
