(* ===== verification/Number_Laws.thy ===== *)
theory Number_Laws
  imports Number
begin

text \<open>
  The contract of \<open>class number\<close> as its clients see it, over the storage: calculations are
  exact and obey the laws of arithmetic, division is exact or keeps the leading digits, comparison is the order
  of the values, and text and integer conversions lose nothing they can keep.
\<close>

section \<open>Integers\<close>

definition int_text :: "int \<Rightarrow> string" where
  "int_text k = (if k < 0 then ''-'' @ digits_of (nat (- k)) else digits_of (nat k))"

lemma int_text_canonical: "canonical (int_text k)" "num_value (int_text k) = of_int k"
  "CHR ''.'' \<notin> set (int_text k)"
proof -
  show "canonical (int_text k)"
    by (auto simp: int_text_def canonical_unsigned_canonical intro!: canonical_negate)
  show "num_value (int_text k) = of_int k"
    by (simp add: int_text_def num_value_unsigned)
  have "CHR ''.'' \<notin> set (digits_of n)" for n by (metis all_digits_digits_of not_digits(1))
  then show "CHR ''.'' \<notin> set (int_text k)" by (simp add: int_text_def)
qed

lemma integer_no_dot:
  assumes "canonical s"
  shows "CHR ''.'' \<notin> set s \<longleftrightarrow> (\<exists>k. num_value s = of_int k)"
proof
  assume "CHR ''.'' \<notin> set s"
  then have "is_integer_text s" by (auto simp: is_integer_text_def find_pos_None)
  then show "\<exists>k. num_value s = of_int k" using integer_text_value(3) [OF assms] by blast
next
  assume "\<exists>k. num_value s = of_int k"
  then obtain k where "num_value s = of_int k" by blast
  then have "s = int_text k" using assms int_text_canonical by (intro canonical_inject) auto
  then show "CHR ''.'' \<notin> set s" using int_text_canonical by simp
qed

text \<open>A number that is not marked as floating point is an integer or NaN.\<close>

definition integral :: "number_storage \<Rightarrow> bool" where
  "integral n \<longleftrightarrow> (\<forall>v. number_value n = Some v \<longrightarrow> (\<exists>k. v = of_int k))"

lemma integral_no_dot: "number_ok n \<Longrightarrow> integral n \<longleftrightarrow> CHR ''.'' \<notin> set (st_number n)"
  using integer_no_dot [of "st_number n"]
  by (auto simp: integral_def number_value_text number_ok_def)

lemma not_floating_integral: "number_ok n \<Longrightarrow> \<not> st_floating_point n \<Longrightarrow> integral n"
  by (auto simp: integral_no_dot number_ok_def)

section \<open>Calculations that are exact\<close>

text \<open>A calculation by an exact operation that keeps integers integers is determined by the
  values and the marks of its operands.\<close>

lemma calculate_determined:
  assumes op: "exact_operation (\<lambda>a b. perform_arithmetic a b opn) f"
    and int: "\<And>i j. \<exists>k. f (of_int i) (of_int j) = of_int k" and x: "number_ok x" and y: "number_ok y"
  shows "\<exists>z. calculate x y opn = Some z \<and> number_ok z \<and>
    number_value z = lift2 f (number_value x) (number_value y) \<and>
    (st_floating_point z \<longleftrightarrow> st_floating_point x \<or> st_floating_point y)"
proof -
  obtain z where z: "calculate x y opn = Some z" "number_ok z"
    "number_value z = lift2 f (number_value x) (number_value y)"
    "st_floating_point z \<longleftrightarrow> CHR ''.'' \<in> set (st_number z) \<or> st_floating_point x \<or> st_floating_point y"
    using calculate_exact_operation [OF op x y] by blast
  have "CHR ''.'' \<notin> set (st_number z)" if "\<not> st_floating_point x" "\<not> st_floating_point y"
  proof -
    have "integral x" "integral y" using that x y not_floating_integral by auto
    then have "integral z"
      using int by (auto simp: integral_def z(3) lift2_def split: option.splits)
    then show ?thesis using z(2) integral_no_dot by blast
  qed
  then show ?thesis using z by blast
qed

lemma number_storage_eqI:
  "number_ok x \<Longrightarrow> number_ok y \<Longrightarrow> number_value x = number_value y \<Longrightarrow>
    st_floating_point x = st_floating_point y \<Longrightarrow> x = (y :: number_storage)"
  using number_value_inject [of x y] by simp

lemma ring_integers:
  "\<exists>k. (of_int i :: rat) + of_int j = of_int k" "\<exists>k. (of_int i :: rat) - of_int j = of_int k"
  "\<exists>k. (of_int i :: rat) * of_int j = of_int k"
  by (metis of_int_add, metis of_int_diff, metis of_int_mult)

lemma calculate_ring:
  assumes "number_ok x" "number_ok y"
  shows "\<exists>z. calculate x y (CHR ''+'') = Some z \<and> number_ok z \<and>
      number_value z = lift2 (+) (number_value x) (number_value y) \<and>
      (st_floating_point z \<longleftrightarrow> st_floating_point x \<or> st_floating_point y)"
    "\<exists>z. calculate x y (CHR ''-'') = Some z \<and> number_ok z \<and>
      number_value z = lift2 (-) (number_value x) (number_value y) \<and>
      (st_floating_point z \<longleftrightarrow> st_floating_point x \<or> st_floating_point y)"
    "\<exists>z. calculate x y (CHR ''*'') = Some z \<and> number_ok z \<and>
      number_value z = lift2 (*) (number_value x) (number_value y) \<and>
      (st_floating_point z \<longleftrightarrow> st_floating_point x \<or> st_floating_point y)"
  using calculate_determined [OF exact_operations(1) ring_integers(1) assms]
    calculate_determined [OF exact_operations(2) ring_integers(2) assms]
    calculate_determined [OF exact_operations(3) ring_integers(3) assms] by auto

lemma number_value_Some:
  assumes "number_ok x" "number_value x = Some a"
  shows "canonical (st_number x)" "a = num_value (st_number x)" "a = 0 \<longleftrightarrow> st_number x = ''0''"
proof -
  show c: "canonical (st_number x)" and v: "a = num_value (st_number x)"
    using assms by (auto simp: number_ok_def number_value_def is_nan_def split: if_splits)
  show "a = 0 \<longleftrightarrow> st_number x = ''0''"
    using canonical_inject [OF c, of "''0''"] by (auto simp: v canonical_unsigned_canonical num_value_unsigned)
qed

lemma number_value_canonical:
  "canonical (st_number z) \<Longrightarrow> number_value z = Some (num_value (st_number z))"
  using sign_parts(4) by (simp add: number_value_def is_nan_def)

lemma number_value_int_text: "number_value (storage_of (int_text k)) = Some (of_int k)"
  by (simp add: storage_of_stored int_text_canonical number_value_canonical)

text \<open>A law of the rationals that two ways of calculating instantiate holds of the storages.\<close>

locale calculation =
  fixes opn :: char and f :: "rat \<Rightarrow> rat \<Rightarrow> rat"
  assumes determined: "number_ok x \<Longrightarrow> number_ok y \<Longrightarrow>
    \<exists>z. calculate x y opn = Some z \<and> number_ok z \<and>
      number_value z = lift2 f (number_value x) (number_value y) \<and>
      (st_floating_point z \<longleftrightarrow> st_floating_point x \<or> st_floating_point y)"
    and f_commute: "f a b = f b a" and f_assoc: "f (f a b) c = f a (f b c)"
begin

lemma commute:
  assumes "number_ok x" "number_ok y"
  shows "calculate x y opn = calculate y x opn"
proof -
  obtain z w where z: "calculate x y opn = Some z" "number_ok z"
      "number_value z = lift2 f (number_value x) (number_value y)"
      "st_floating_point z \<longleftrightarrow> st_floating_point x \<or> st_floating_point y"
    and w: "calculate y x opn = Some w" "number_ok w"
      "number_value w = lift2 f (number_value y) (number_value x)"
      "st_floating_point w \<longleftrightarrow> st_floating_point y \<or> st_floating_point x"
    using determined assms by metis
  have "z = w" using z w f_commute
    by (intro number_storage_eqI) (auto simp: lift2_def split: option.splits)
  then show ?thesis using z w by simp
qed

lemma assoc:
  assumes x: "number_ok x" and y: "number_ok y" and u: "number_ok u"
  shows "Option.bind (calculate x y opn) (\<lambda>z. calculate z u opn) =
    Option.bind (calculate y u opn) (\<lambda>z. calculate x z opn)"
proof -
  obtain z where z: "calculate x y opn = Some z" "number_ok z"
      "number_value z = lift2 f (number_value x) (number_value y)"
      "st_floating_point z \<longleftrightarrow> st_floating_point x \<or> st_floating_point y"
    using determined [OF x y] by blast
  obtain w where w: "calculate y u opn = Some w" "number_ok w"
      "number_value w = lift2 f (number_value y) (number_value u)"
      "st_floating_point w \<longleftrightarrow> st_floating_point y \<or> st_floating_point u"
    using determined [OF y u] by blast
  obtain a where a: "calculate z u opn = Some a" "number_ok a"
      "number_value a = lift2 f (number_value z) (number_value u)"
      "st_floating_point a \<longleftrightarrow> st_floating_point z \<or> st_floating_point u"
    using determined [OF z(2) u] by blast
  obtain b where b: "calculate x w opn = Some b" "number_ok b"
      "number_value b = lift2 f (number_value x) (number_value w)"
      "st_floating_point b \<longleftrightarrow> st_floating_point x \<or> st_floating_point w"
    using determined [OF x w(2)] by blast
  have "a = b" using z w a b f_assoc
    by (intro number_storage_eqI) (auto simp: lift2_def split: option.splits)
  then show ?thesis using z w a b by simp
qed

end

locale unital_calculation = calculation +
  fixes unit :: number_storage and unit_value :: rat
  assumes unit_ok: "number_ok unit" "number_value unit = Some unit_value" "\<not> st_floating_point unit"
    and f_unit: "f a unit_value = a"
begin

lemma unit_neutral: "number_ok x \<Longrightarrow> calculate x unit opn = Some x"
proof -
  assume x: "number_ok x"
  obtain z where z: "calculate x unit opn = Some z" "number_ok z"
      "number_value z = lift2 f (number_value x) (number_value unit)"
      "st_floating_point z \<longleftrightarrow> st_floating_point x \<or> st_floating_point unit"
    using determined [OF x unit_ok(1)] by blast
  have "z = x"
    using z unit_ok f_unit by (intro number_storage_eqI x) (auto simp: lift2_def split: option.splits)
  then show ?thesis using z(1) by simp
qed

end

lemma small_numbers:
  "number_value (storage_of ''0'') = Some 0" "\<not> st_floating_point (storage_of ''0'')"
  "number_value (storage_of ''1'') = Some 1" "\<not> st_floating_point (storage_of ''1'')"
proof -
  have "int_text 0 = ''0''" "int_text 1 = ''1''" by code_simp+
  then show "number_value (storage_of ''0'') = Some 0" "number_value (storage_of ''1'') = Some 1"
    using number_value_int_text [of 0] number_value_int_text [of 1] by simp_all
  show "\<not> st_floating_point (storage_of ''0'')" "\<not> st_floating_point (storage_of ''1'')" by code_simp+
qed

interpretation plus_calculation: unital_calculation "CHR ''+''" "(+)" "storage_of ''0''" 0
  by unfold_locales (use calculate_ring(1) small_numbers storage_of_ok in auto)

interpretation times_calculation: unital_calculation "CHR ''*''" "(*)" "storage_of ''1''" 1
  by unfold_locales (use calculate_ring(3) small_numbers storage_of_ok in auto)

lemma calculate_subtract:
  assumes x: "number_ok x" and y: "number_ok y"
  shows "calculate x y (CHR ''-'') =
    Option.bind (calculate (storage_of ''0'') y (CHR ''-'')) (\<lambda>w. calculate x w (CHR ''+''))"
proof -
  note zero = small_numbers(1,2) storage_of_ok [of "''0''"]
  obtain w where w: "calculate (storage_of ''0'') y (CHR ''-'') = Some w" "number_ok w"
      "number_value w = lift2 (-) (Some 0) (number_value y)" "st_floating_point w \<longleftrightarrow> st_floating_point y"
    using calculate_ring(2) [OF zero(3) y] zero(1,2) by auto
  obtain z where z: "calculate x y (CHR ''-'') = Some z" "number_ok z"
      "number_value z = lift2 (-) (number_value x) (number_value y)"
      "st_floating_point z \<longleftrightarrow> st_floating_point x \<or> st_floating_point y"
    using calculate_ring(2) [OF x y] by blast
  obtain v where v: "calculate x w (CHR ''+'') = Some v" "number_ok v"
      "number_value v = lift2 (+) (number_value x) (number_value w)"
      "st_floating_point v \<longleftrightarrow> st_floating_point x \<or> st_floating_point w"
    using calculate_ring(1) [OF x w(2)] by blast
  have "z = v" by (rule number_storage_eqI [OF z(2) v(2)]) (auto simp: z v w lift2_def split: option.splits)
  then show ?thesis using z(1) v(1) w(1) by simp
qed

lemma calculate_difference:
  assumes x: "number_ok x"
  shows "calculate x x (CHR ''-'') =
    Some (if number_value x = None then x else \<lparr>st_number = ''0'', st_floating_point = st_floating_point x\<rparr>)"
proof -
  obtain d where d: "calculate x x (CHR ''-'') = Some d" "number_ok d"
      "number_value d = lift2 (-) (number_value x) (number_value x)" "st_floating_point d \<longleftrightarrow> st_floating_point x"
    using calculate_ring(2) [OF x x] by auto
  show ?thesis
  proof (cases "number_value x")
    case None
    then have "d = x" using d by (intro number_storage_eqI x) (auto simp: lift2_def)
    then show ?thesis using None d(1) by simp
  next
    case (Some a)
    then have "number_value d = Some 0" using d(3) by (simp add: lift2_def)
    then have "st_number d = ''0''" using number_value_Some(3) [OF d(2), of 0] by simp
    then show ?thesis using Some d(1,4) by (simp add: number_storage.equality)
  qed
qed

lemma calculate_distrib:
  assumes x: "number_ok x" and y: "number_ok y" and u: "number_ok u"
  shows "Option.bind (calculate y u (CHR ''+'')) (\<lambda>s. calculate x s (CHR ''*'')) =
    Option.bind (calculate x y (CHR ''*'')) (\<lambda>p. Option.bind (calculate x u (CHR ''*''))
      (\<lambda>q. calculate p q (CHR ''+'')))"
proof -
  obtain s where s: "calculate y u (CHR ''+'') = Some s" "number_ok s"
      "number_value s = lift2 (+) (number_value y) (number_value u)"
      "st_floating_point s \<longleftrightarrow> st_floating_point y \<or> st_floating_point u"
    using calculate_ring(1) [OF y u] by blast
  obtain a where a: "calculate x s (CHR ''*'') = Some a" "number_ok a"
      "number_value a = lift2 (*) (number_value x) (number_value s)"
      "st_floating_point a \<longleftrightarrow> st_floating_point x \<or> st_floating_point s"
    using calculate_ring(3) [OF x s(2)] by blast
  obtain p where p: "calculate x y (CHR ''*'') = Some p" "number_ok p"
      "number_value p = lift2 (*) (number_value x) (number_value y)"
      "st_floating_point p \<longleftrightarrow> st_floating_point x \<or> st_floating_point y"
    using calculate_ring(3) [OF x y] by blast
  obtain q where q: "calculate x u (CHR ''*'') = Some q" "number_ok q"
      "number_value q = lift2 (*) (number_value x) (number_value u)"
      "st_floating_point q \<longleftrightarrow> st_floating_point x \<or> st_floating_point u"
    using calculate_ring(3) [OF x u] by blast
  obtain b where b: "calculate p q (CHR ''+'') = Some b" "number_ok b"
      "number_value b = lift2 (+) (number_value p) (number_value q)"
      "st_floating_point b \<longleftrightarrow> st_floating_point p \<or> st_floating_point q"
    using calculate_ring(1) [OF p(2) q(2)] by blast
  have "a = b"
    by (rule number_storage_eqI [OF a(2) b(2)])
      (auto simp: a b s p q lift2_def distrib_left split: option.splits)
  then show ?thesis using s a p q b by simp
qed

section \<open>Conversions\<close>

lemma stoll_digits:
  assumes "all_digits i" "i \<noteq> []"
  shows "stoll ((if neg then ''-'' else []) @ i) =
    (let v = (if neg then - dval i else dval i)
     in if - (2 ^ 63) \<le> v \<and> v < 2 ^ 63 then Some (v, length i + (if neg then 1 else 0)) else None)"
proof -
  have tw: "takeWhile is_digit i = i" using assms(1) by (simp add: takeWhile_eq_all_conv)
  have "hd i \<noteq> CHR ''-''" using assms not_digits(2) by (metis list.set_sel(1))
  moreover have "char_at i 0 = hd i" using assms(2) by (cases i) simp_all
  ultimately show ?thesis using assms
    by (cases neg) (auto simp: stoll_def Let_def tw)
qed

lemma parse_canonical:
  assumes "canonical s"
  shows "parse_number_unified s = \<lparr>pn_is_negative = is_negative_text s,
    pn_integer_part = int_part (magnitude s),
    pn_fractional_part = (if CHR ''.'' \<in> set (magnitude s) then Some (frac_part (magnitude s)) else None),
    pn_is_valid = True\<rparr>"
proof -
  define sg where "sg = (if is_negative_text s then ''-'' else [])"
  define m where "m = magnitude s"
  have s: "s = sg @ m"
    by (auto simp: sg_def m_def magnitude_def is_negative_text_def neq_Nil_conv)
  have start: "(if char_at s 0 = CHR ''-'' then 1 else 0) = length sg"
    using sign_parts(1) [OF assms] by (simp add: sg_def)
  have neg: "length sg = 1 \<longleftrightarrow> is_negative_text s" by (simp add: sg_def)
  have d: "find_pos_from (\<lambda>c. c = CHR ''.'') (length sg) s = map_option ((+) (length sg)) (find_pos (\<lambda>c. c = CHR ''.'') m)"
    by (simp add: s find_pos_from_append)
  have ds: "drop (length sg) s = m" "drop (Suc (length sg + j)) s = drop (Suc j) m" for j
    by (simp_all add: s)
  have "s \<noteq> NAN_VALUE" using assms sign_parts(4) by blast
  show ?thesis
  proof (cases "CHR ''.'' \<in> set m")
    case True
    then have p: "find_pos (\<lambda>c. c = CHR ''.'') m = Some (length (int_part m))"
      by (auto simp: find_pos_takeWhile int_part_def)
    have "take (length (int_part m)) m = int_part m" "drop (Suc (length (int_part m))) m = frac_part m"
      by (metis append_eq_conv_conj int_part_def takeWhile_dropWhile_id,
          metis drop_Suc frac_part_def int_part_def dropWhile_eq_drop tl_drop)
    then show ?thesis
      unfolding parse_number_unified_def Let_def start neg d m_def [symmetric]
      using \<open>s \<noteq> NAN_VALUE\<close> True p by (simp add: substr_def ds)
  next
    case False
    then have "find_pos (\<lambda>c. c = CHR ''.'') m = None" "int_part m = m"
      using mantissa_split [of m] by (auto simp: find_pos_None)
    then show ?thesis
      unfolding parse_number_unified_def Let_def start neg d m_def [symmetric]
      using \<open>s \<noteq> NAN_VALUE\<close> False by (simp add: ds)
  qed
qed

text \<open>The conversion truncates toward zero, and gives nothing out of the range of
  \<open>long long\<close>.\<close>

definition truncated :: "rat \<Rightarrow> int" where
  "truncated x = (if x < 0 then - \<lfloor>- x\<rfloor> else \<lfloor>x\<rfloor>)"

lemma truncated_canonical:
  assumes "canonical s"
  shows "truncated (num_value s) =
    (if is_negative_text s then - dval (int_part (magnitude s)) else dval (int_part (magnitude s)))"
proof -
  have u: "canonical_unsigned (magnitude s)" using assms by (rule sign_parts(3))
  have "\<lfloor>unsigned_value (magnitude s)\<rfloor> = dval (int_part (magnitude s))"
    unfolding unsigned_value_def by (rule floor_decimal) (rule parts_unsigned(6) [OF u])
  then show ?thesis
    using num_value_negative_iff [OF assms] canonical_unsigned_nonneg [OF u]
    by (auto simp: truncated_def num_value_magnitude)
qed

lemma to_long_long_truncates:
  assumes "canonical s"
  shows "to_long_long (parse_number_unified s) =
    (let v = truncated (num_value s) in if - (2 ^ 63) \<le> v \<and> v < 2 ^ 63 then Some v else None)"
proof -
  note u = parts_unsigned [OF sign_parts(3) [OF assms]]
  have "to_long_long (parse_number_unified s) =
      (case stoll ((if is_negative_text s then ''-'' else []) @ int_part (magnitude s)) of
         Some (v, processed) \<Rightarrow>
           if processed = length (int_part (magnitude s)) + (if is_negative_text s then 1 else 0)
           then Some v else None
       | None \<Rightarrow> None)"
    by (simp add: to_long_long_def parse_canonical [OF assms] Let_def split: option.split)
  also have "\<dots> = (let v = truncated (num_value s) in if - (2 ^ 63) \<le> v \<and> v < 2 ^ 63 then Some v else None)"
    unfolding stoll_digits [OF u(3,4)] truncated_canonical [OF assms] Let_def by simp
  finally show ?thesis .
qed

section \<open>Division\<close>

lemma coprime_powers: "coprime (2 ^ a) ((5::nat) ^ b)" "coprime (5 ^ b) ((2::nat) ^ a)"
proof -
  have "coprime 2 (5::nat)" by (rule coprime_5) simp
  then have "coprime 2 ((5::nat) ^ b)" by simp
  then show "coprime (2 ^ a) ((5::nat) ^ b)" by simp
  then show "coprime (5 ^ b) ((2::nat) ^ a)" by (simp only: coprime_commute)
qed

lemma power_of_two_expansion:
  assumes "(of_nat N / 10 ^ k :: rat) = 1 / 2 ^ d"
  shows "5 ^ d \<le> N"
proof -
  have "(of_nat (N * 2 ^ d) :: rat) = of_nat (10 ^ k)"
    using assms by (simp add: field_simps)
  then have e: "N * 2 ^ d = 10 ^ k" by (simp only: of_nat_eq_iff)
  have "(10::nat) ^ k = (2 * 5) ^ k" by simp
  then have ten: "N * 2 ^ d = 2 ^ k * 5 ^ k" unfolding e power_mult_distrib .
  have "2 ^ d dvd (2::nat) ^ k * 5 ^ k" unfolding ten [symmetric] by (rule dvd_triv_right)
  then have "2 ^ d dvd (2::nat) ^ k" using coprime_powers(1) coprime_dvd_mult_left_iff by blast
  then have k: "d \<le> k" by (rule power_dvd_imp_le) simp
  have "5 ^ k dvd N * 2 ^ d" unfolding ten by (rule dvd_triv_right)
  then have "5 ^ k dvd N" using coprime_powers(2) coprime_dvd_mult_left_iff by blast
  moreover have "N \<noteq> 0" using e by (cases "N = 0") auto
  ultimately have "5 ^ k \<le> N" by (simp add: dvd_imp_le)
  moreover have "(5::nat) ^ d \<le> 5 ^ k" using k by (intro power_increasing) auto
  ultimately show ?thesis by (rule order_trans [rotated])
qed

text \<open>The operands of a division as the integers whose digits it works on, and when their
  quotient is short: without its factors shared with a power of ten the divisor divides the
  dividend, and the expansion stays within the limit.\<close>

definition operand_pair :: "number_storage \<Rightarrow> number_storage \<Rightarrow> nat \<times> nat" where
  "operand_pair x y =
     (let u = magnitude (st_number x); v = magnitude (st_number y); s = common_scale u v
      in (scaled s u, scaled s v))"

definition short_quotient :: "nat \<times> nat \<Rightarrow> bool" where
  "short_quotient = (\<lambda>(n, m). \<exists>p d k. m = p * d \<and> p dvd 10 ^ k \<and> coprime d 10 \<and> d dvd n \<and>
     length (digits_of (n div m)) + k \<le> max_expanded_digits)"

lemma operand_pair_positive:
  assumes "number_ok x" "number_ok y" "number_value y = Some b" "b \<noteq> 0" "number_value x = Some a"
  shows "0 < snd (operand_pair x y)"
proof -
  note va = number_value_Some [OF assms(1,5)] and vb = number_value_Some [OF assms(2,3)]
  have "magnitude (st_number y) \<noteq> ''0''"
    using assms(4) vb(1,3) by (auto simp: canonical_def magnitude_def split: if_splits)
  then show ?thesis
    using scaled_ratio(2) [OF sign_parts(3) [OF va(1)] sign_parts(3) [OF vb(1)]] by (simp add: operand_pair_def Let_def)
qed

lemma operand_pair_ratio:
  assumes "number_ok x" "number_ok y" "number_value x = Some a" "number_value y = Some b"
  shows "\<bar>a / b\<bar> = of_nat (fst (operand_pair x y)) / of_nat (snd (operand_pair x y))"
proof -
  note va = number_value_Some [OF assms(1,3)] and vb = number_value_Some [OF assms(2,4)]
  have "\<bar>num_value s\<bar> = unsigned_value (magnitude s)" if "canonical s" for s
    using canonical_unsigned_nonneg [OF sign_parts(3) [OF that]] by (simp add: num_value_magnitude [of s])
  then show ?thesis
    using scaled_ratio(1) [OF sign_parts(3) [OF va(1)] sign_parts(3) [OF vb(1)]] va(1,2) vb(1,2)
    by (simp add: operand_pair_def Let_def abs_divide)
qed

lemma operand_pair_integers:
  "operand_pair (storage_of (int_text i)) (storage_of (int_text j)) = (nat \<bar>i\<bar>, nat \<bar>j\<bar>)"
proof -
  have "is_integer_text (int_text k)" for k
    using int_text_canonical(3) [of k] by (auto simp: is_integer_text_def find_pos_None)
  then have "magnitude (int_text k) = digits_of (nat \<bar>k\<bar>)" for k
    using integer_text_value(1) [OF int_text_canonical(1)] int_text_canonical(2) by (simp add: int_value_def)
  moreover have "st_number (storage_of (int_text k)) = int_text k" for k
    by (simp add: storage_of_stored int_text_canonical)
  ultimately show ?thesis by (simp add: operand_pair_def common_scale_def scaled_def resize_def)
qed

text \<open>The limit leaves no short quotient by a divisor with as many factors 2 or 5.\<close>

lemma not_short_quotient:
  assumes "p \<in> {2, 5}" "p ^ max_expanded_digits dvd m" "0 < m"
  shows "\<not> short_quotient (n, m)"
proof
  assume "short_quotient (n, m)"
  then obtain q d k where q: "m = q * d" "q dvd 10 ^ k" "coprime d 10"
    "length (digits_of (n div m)) + k \<le> max_expanded_digits"
    by (auto simp: short_quotient_def)
  have "k < max_expanded_digits" using q(4) by (cases "digits_of (n div m)") auto
  have "p dvd 10" using assms(1) by auto
  then have "coprime p d" using q(3) by (metis coprime_commute coprime_divisors dvd_refl)
  then have "coprime (p ^ max_expanded_digits) d" by simp
  then have "p ^ max_expanded_digits dvd q" using assms(2) q(1) coprime_dvd_mult_left_iff by metis
  then have "p ^ max_expanded_digits dvd 2 ^ k * 5 ^ k"
    using q(2) dvd_trans by (metis mult_numeral_left_semiring_numeral num_double numeral_times_numeral power_mult_distrib)
  then have "p ^ max_expanded_digits dvd p ^ k"
    using assms(1) coprime_powers [of max_expanded_digits k]
    by (auto simp: coprime_dvd_mult_left_iff coprime_dvd_mult_right_iff)
  then have "max_expanded_digits \<le> k" using assms(1) by (intro power_dvd_imp_le [of p]) auto
  then show False using \<open>k < max_expanded_digits\<close> by simp
qed

lemma calculate_quotient:
  assumes x: "number_ok x" and y: "number_ok y" and a: "number_value x = Some a" and b: "number_value y = Some b"
  shows "\<exists>z. calculate x y (CHR ''/'') = Some z \<and> number_ok z \<and>
    number_value z = (if b = 0 then None
      else if short_quotient (operand_pair x y) then Some (a / b) else Some (leading_digits 34 (a / b)))"
proof -
  note va = number_value_Some [OF x a] and vb = number_value_Some [OF y b]
  obtain n m where nm: "operand_pair x y = (n, m)" by fastforce
  obtain r where r: "perform_arithmetic (st_number x) (st_number y) (CHR ''/'') = Some r"
    "if st_number y = ''0'' then r = NAN_VALUE
     else canonical (canonical_text r) \<and>
       num_value (canonical_text r) = (if exact_quotient n m 34 then a / b else leading_digits 34 (a / b))"
    using divide_exact_or_truncated [OF va(1) vb(1), folded va(2) vb(2), unfolded quotient_significant_digits_def] nm
    by (auto simp: operand_pair_def Let_def)
  obtain z where z: "calculate x y (CHR ''/'') = Some z" "number_ok z" "st_number z = canonical_text r"
    using calculate_total [OF x y r(1)] by blast
  show ?thesis
  proof (cases "b = 0")
    case True
    then show ?thesis using z r(2) vb(3) by (auto simp: number_value_def is_nan_def)
  next
    case False
    have m: "0 < m" using operand_pair_positive [OF x y b False a] nm by simp
    have "short_quotient (n, m) \<Longrightarrow> exact_quotient n m 34"
      using m exact_quotientI [OF _ m, where sd = 34] by (auto simp: short_quotient_def simp del: nat_0_less_mult_iff)
    moreover have "leading_digits 34 (a / b) = a / b" if "exact_quotient n m 34" "\<not> short_quotient (n, m)"
    proof -
      have "m dvd n" using exact_quotientD [OF that(1) m] that(2) by (auto simp: short_quotient_def)
      then have "leading_digits 34 \<bar>a / b\<bar> = \<bar>a / b\<bar>"
        using leading_digits_integer [OF m, of 34 n] unfolding operand_pair_ratio [OF x y a b] nm by simp
      then show ?thesis by (simp only: leading_digits_abs)
    qed
    ultimately show ?thesis
      using z r(2) False vb(3) number_value_canonical [of z] nm by auto
  qed
qed

text \<open>Two quotients that are not exact.\<close>

lemma not_short_seven: "\<not> short_quotient (operand_pair (storage_of (int_text (- 22))) (storage_of (int_text 7)))"
proof
  assume "short_quotient (operand_pair (storage_of (int_text (- 22))) (storage_of (int_text 7)))"
  then obtain p d k where p: "(7 :: nat) = p * d" "p dvd 10 ^ k" "d dvd (22 :: nat)"
    by (auto simp: operand_pair_integers short_quotient_def)
  have "d dvd gcd 7 22" using p(1,3) by (metis dvd_triv_right gcd_greatest)
  moreover have "gcd 7 22 = (1 :: nat)" by code_simp
  ultimately have "d = 1" by simp
  with p(1,2) have "7 dvd (10 :: nat) ^ k" by simp
  moreover have "coprime 7 ((10 :: nat) ^ k)"
  proof -
    have "gcd 7 10 = (1 :: nat)" by code_simp
    then have "coprime 7 (10 :: nat)" by (simp add: coprime_iff_gcd_eq_1)
    then show ?thesis by simp
  qed
  ultimately show False using coprime_absorb_left [of "7 :: nat" "10 ^ k"] by simp
qed

lemma leading_digits_seven: "leading_digits 34 (- 22 / 7) = - 3142857142857142857142857142857142 / 10 ^ 33"
proof -
  have d: "22 * 10 ^ 33 div 7 = (3142857142857142857142857142857142 :: nat)"
    "22 div 7 = (3 :: nat)" by simp_all
  have "leading_digits 34 (of_nat 22 / of_nat 7) = of_nat (22 * 10 ^ 33 div 7) / 10 ^ 33"
    by (rule leading_digits_ratio) (unfold d, simp_all add: digits_of_less_10)
  then show ?thesis unfolding d using leading_digits_minus [of 34 "22 / 7"] by simp
qed

lemma hundred_digits: "\<not> (\<exists>k N. \<bar>1 / 2 ^ 100 :: rat\<bar> = of_nat N / 10 ^ k \<and> (k = 0 \<or> N < 10 ^ 34))"
proof (intro notI, elim exE conjE)
  fix k N
  assume e: "\<bar>1 / 2 ^ 100 :: rat\<bar> = of_nat N / 10 ^ k" and N: "k = 0 \<or> N < 10 ^ 34"
  have "(of_nat N / 10 ^ k :: rat) = 1 / 2 ^ 100" using e by (simp del: power_numeral)
  then have "5 ^ 100 \<le> N" by (rule power_of_two_expansion)
  moreover have "k \<noteq> 0"
  proof
    assume "k = 0"
    then have "(of_nat N :: rat) = 1 / 2 ^ 100" using e by simp
    then show False using \<open>5 ^ 100 \<le> N\<close> by simp
  qed
  ultimately show False using N by simp
qed

section \<open>Properties\<close>

text \<open>C2: addition, subtraction and multiplication of numbers return, are exact, and keep the
  invariant of the storage. NaN absorbs, and the floating-point mark of the result is the
  disjunction of the marks of the operands.\<close>

theorem calculate_exact:
  assumes "number_ok x" "number_ok y" "(opn, f) \<in> {(CHR ''+'', (+)), (CHR ''-'', (-)), (CHR ''*'', (*))}"
  shows "\<exists>z. calculate x y opn = Some z \<and> number_ok z \<and>
    number_value z = lift2 f (number_value x) (number_value y) \<and>
    (st_floating_point z \<longleftrightarrow> st_floating_point x \<or> st_floating_point y)"
  using calculate_ring [OF assms(1,2)] assms(3) by auto

lemma calculate_exact_witness:
  "\<exists>z. calculate (storage_of ''19.75'') (storage_of ''-3e2'') (CHR ''*'') = Some z \<and> number_ok z \<and>
    number_value z = lift2 (*) (number_value (storage_of ''19.75'')) (number_value (storage_of ''-3e2'')) \<and>
    (st_floating_point z \<longleftrightarrow>
      st_floating_point (storage_of ''19.75'') \<or> st_floating_point (storage_of ''-3e2''))"
  by (rule calculate_exact [OF storage_of_ok storage_of_ok]) simp

text \<open>C3: division returns. By zero it is NaN. Otherwise the quotient is exact when it is short: the divisor,
  with both operands scaled to integers, is a factor of a power of ten times a factor of the dividend, within
  \<^const>\<open>max_expanded_digits\<close> digits; and any other keeps exactly its 34 leading significant digits, or all of a
  longer integer part, the rest cut off toward zero.\<close>

theorem calculate_divide:
  assumes x: "number_ok x" and y: "number_ok y" and a: "number_value x = Some a" and b: "number_value y = Some b"
  shows "\<exists>z. calculate x y (CHR ''/'') = Some z \<and> number_ok z \<and>
    number_value z = (if b = 0 then None
      else if short_quotient (operand_pair x y) then Some (a / b) else Some (leading_digits 34 (a / b)))"
  by (rule calculate_quotient [OF assms])

lemma calculate_divide_witness:
  "\<exists>z. calculate (storage_of (int_text (- 22))) (storage_of (int_text 7)) (CHR ''/'') = Some z \<and> number_ok z \<and>
    number_value z = Some (- 3142857142857142857142857142857142 / 10 ^ 33)"
proof -
  have "\<not> short_quotient (operand_pair (storage_of (int_text (- 22))) (storage_of (int_text 7)))"
    by (rule not_short_seven)
  moreover have "leading_digits 34 (- 22 / 7) = - 3142857142857142857142857142857142 / 10 ^ 33"
    by (rule leading_digits_seven)
  ultimately show ?thesis
    using calculate_divide [OF storage_of_ok storage_of_ok number_value_int_text [of "- 22"] number_value_int_text [of 7]]
    by simp
qed

text \<open>C11: whatever the operands are, a divisor with \<^const>\<open>max_expanded_digits\<close> or more factors 2, or factors 5, is
  taken for one whose quotient does not terminate, because they are counted before the fraction is reduced: the
  quotient keeps its 34 leading digits all the same. It then is exact only when it is an integer or has no more
  than 34 digits, though a terminating quotient such as that of the powers of two may be a hundred digits long,
  far within the limit.\<close>

theorem divide_terminating_truncated:
  assumes x: "number_ok x" and y: "number_ok y" and a: "number_value x = Some a" and b: "number_value y = Some b" "b \<noteq> 0"
    and p: "p \<in> {2, 5}" "p ^ max_expanded_digits dvd snd (operand_pair x y)"
  shows "\<exists>z. calculate x y (CHR ''/'') = Some z \<and> number_value z = Some (leading_digits 34 (a / b)) \<and>
    (number_value z = Some (a / b) \<longleftrightarrow> (\<exists>k N. \<bar>a / b\<bar> = of_nat N / 10 ^ k \<and> (k = 0 \<or> N < 10 ^ 34)))"
proof -
  have "\<not> short_quotient (operand_pair x y)"
    using not_short_quotient [OF p operand_pair_positive [OF x y b a], of "fst (operand_pair x y)"] by simp
  then obtain z where "calculate x y (CHR ''/'') = Some z" "number_value z = Some (leading_digits 34 (a / b))"
    using calculate_quotient [OF x y a b(1)] b(2) by auto
  then show ?thesis using leading_digits_all_iff [of 34 "a / b"] by simp
qed

lemma divide_terminating_truncated_witness:
  "\<exists>z. calculate (storage_of (int_text (2 ^ (max_expanded_digits - 96)))) (storage_of (int_text (2 ^ (max_expanded_digits + 4)))) (CHR ''/'') = Some z \<and>
    number_value z = Some (leading_digits 34 (1 / 2 ^ 100)) \<and> number_value z \<noteq> Some (1 / 2 ^ 100)"
proof -
  define i j where "i = max_expanded_digits - 96" and "j = max_expanded_digits + 4"
  have "j = i + 100" by (simp add: i_def j_def max_expanded_digits_def)
  then have e: "(of_int (2 ^ i) / of_int (2 ^ j) :: rat) = 1 / 2 ^ 100" by (simp add: power_add del: power_numeral)
  have "2 ^ max_expanded_digits dvd snd (operand_pair (storage_of (int_text (2 ^ i))) (storage_of (int_text (2 ^ j))))"
    by (simp add: operand_pair_integers nat_power_eq j_def le_imp_power_dvd)
  then have "\<exists>z. calculate (storage_of (int_text (2 ^ i))) (storage_of (int_text (2 ^ j))) (CHR ''/'') = Some z \<and>
      number_value z = Some (leading_digits 34 (1 / 2 ^ 100)) \<and>
      (number_value z = Some (1 / 2 ^ 100) \<longleftrightarrow> (\<exists>k N. \<bar>1 / 2 ^ 100 :: rat\<bar> = of_nat N / 10 ^ k \<and> (k = 0 \<or> N < 10 ^ 34)))"
    using divide_terminating_truncated [OF storage_of_ok storage_of_ok number_value_int_text [of "2 ^ i"]
        number_value_int_text [of "2 ^ j"], of 2] unfolding e by simp
  moreover have "\<not> (\<exists>k N. \<bar>1 / 2 ^ 100 :: rat\<bar> = of_nat N / 10 ^ k \<and> (k = 0 \<or> N < 10 ^ 34))"
    by (rule hundred_digits)
  ultimately show ?thesis unfolding i_def [symmetric] j_def [symmetric] by blast
qed

text \<open>C7: the remainder of integers has the sign of the dividend and the magnitude of the
  remainder of the magnitudes; with a fraction or a zero divisor it is NaN.\<close>

theorem calculate_modulo:
  assumes x: "number_ok x" and y: "number_ok y" and a: "number_value x = Some a" and b: "number_value y = Some b"
  shows "\<exists>z. calculate x y (CHR ''%'') = Some z \<and> number_ok z \<and>
    number_value z = (if b = 0 \<or> a \<noteq> of_int \<lfloor>a\<rfloor> \<or> b \<noteq> of_int \<lfloor>b\<rfloor> then None
      else Some (of_int (sgn \<lfloor>a\<rfloor> * (\<bar>\<lfloor>a\<rfloor>\<bar> mod \<bar>\<lfloor>b\<rfloor>\<bar>))))"
proof -
  note va = number_value_Some [OF x a] and vb = number_value_Some [OF y b]
  have i: "is_integer_text s \<longleftrightarrow> num_value s = of_int \<lfloor>num_value s\<rfloor>" if "canonical s" for s
  proof -
    have "is_integer_text s \<longleftrightarrow> CHR ''.'' \<notin> set s" by (auto simp: is_integer_text_def find_pos_None)
    then show ?thesis unfolding integer_no_dot [OF that] by (metis floor_of_int)
  qed
  obtain r where r: "perform_arithmetic (st_number x) (st_number y) (CHR ''%'') = Some r"
    "if st_number y = ''0'' \<or> \<not> is_integer_text (st_number x) \<or> \<not> is_integer_text (st_number y) then r = NAN_VALUE
     else canonical (canonical_text r) \<and>
       num_value (canonical_text r) = of_int (sgn \<lfloor>a\<rfloor> * (\<bar>\<lfloor>a\<rfloor>\<bar> mod \<bar>\<lfloor>b\<rfloor>\<bar>))"
    using modulo_exact [OF va(1) vb(1), unfolded int_value_def, folded va(2) vb(2)] by blast
  obtain z where z: "calculate x y (CHR ''%'') = Some z" "number_ok z" "st_number z = canonical_text r"
    using calculate_total [OF x y r(1)] by blast
  have c: "st_number y = ''0'' \<or> \<not> is_integer_text (st_number x) \<or> \<not> is_integer_text (st_number y) \<longleftrightarrow>
      b = 0 \<or> a \<noteq> of_int \<lfloor>a\<rfloor> \<or> b \<noteq> of_int \<lfloor>b\<rfloor>"
    using i [OF va(1), folded va(2)] i [OF vb(1), folded vb(2)] vb(3) by blast
  show ?thesis
  proof (cases "b = 0 \<or> a \<noteq> of_int \<lfloor>a\<rfloor> \<or> b \<noteq> of_int \<lfloor>b\<rfloor>")
    case True
    then have "r = NAN_VALUE" using r(2) c by auto
    then have "number_value z = None" using z(3) by (simp add: number_value_def is_nan_def)
    then show ?thesis using z True by auto
  next
    case False
    then have "canonical (st_number z)" "num_value (st_number z) = of_int (sgn \<lfloor>a\<rfloor> * (\<bar>\<lfloor>a\<rfloor>\<bar> mod \<bar>\<lfloor>b\<rfloor>\<bar>))"
      using r(2) c z(3) by auto
    then show ?thesis using z False number_value_canonical [of z] by auto
  qed
qed

lemma calculate_modulo_witness:
  "\<exists>z. calculate (storage_of (int_text (- 22))) (storage_of (int_text 7)) (CHR ''%'') = Some z \<and> number_ok z \<and>
    number_value z = Some (- 1)"
  using calculate_modulo [OF storage_of_ok storage_of_ok number_value_int_text [of "- 22"] number_value_int_text [of 7]]
  by simp

text \<open>C4: calculations obey the laws of a commutative ring with one, as equalities of the stored text and
  mark: sums and products commute and associate, products distribute over sums, 0 is neutral for sums and 1
  for products, a subtraction is the sum with what subtracting from 0 gives, and a number less itself is 0,
  with the number's mark. NaN is included everywhere but in the last, where it stays NaN.\<close>

theorem calculate_laws:
  assumes "number_ok x" "number_ok y" "number_ok u"
  shows "calculate x y (CHR ''+'') = calculate y x (CHR ''+'') \<and>
    calculate x y (CHR ''*'') = calculate y x (CHR ''*'') \<and>
    Option.bind (calculate x y (CHR ''+'')) (\<lambda>z. calculate z u (CHR ''+'')) =
      Option.bind (calculate y u (CHR ''+'')) (\<lambda>z. calculate x z (CHR ''+'')) \<and>
    Option.bind (calculate x y (CHR ''*'')) (\<lambda>z. calculate z u (CHR ''*'')) =
      Option.bind (calculate y u (CHR ''*'')) (\<lambda>z. calculate x z (CHR ''*'')) \<and>
    Option.bind (calculate y u (CHR ''+'')) (\<lambda>s. calculate x s (CHR ''*'')) =
      Option.bind (calculate x y (CHR ''*'')) (\<lambda>p. Option.bind (calculate x u (CHR ''*''))
        (\<lambda>q. calculate p q (CHR ''+''))) \<and>
    calculate x (storage_of ''0'') (CHR ''+'') = Some x \<and>
    calculate x (storage_of ''1'') (CHR ''*'') = Some x \<and>
    calculate x y (CHR ''-'') =
      Option.bind (calculate (storage_of ''0'') y (CHR ''-'')) (\<lambda>w. calculate x w (CHR ''+'')) \<and>
    calculate x x (CHR ''-'') =
      Some (if number_value x = None then x else \<lparr>st_number = ''0'', st_floating_point = st_floating_point x\<rparr>)"
  by (intro conjI plus_calculation.commute plus_calculation.assoc times_calculation.commute
      times_calculation.assoc calculate_distrib plus_calculation.unit_neutral times_calculation.unit_neutral
      calculate_subtract calculate_difference assms)

lemma calculate_laws_witness:
  "Option.bind (calculate (storage_of ''0.1'') (storage_of ''0.2'') (CHR ''+''))
      (\<lambda>z. calculate z (storage_of ''0.3'') (CHR ''+'')) =
    Option.bind (calculate (storage_of ''0.2'') (storage_of ''0.3'') (CHR ''+''))
      (\<lambda>z. calculate (storage_of ''0.1'') z (CHR ''+'')) \<and>
    calculate (storage_of ''0.1'') (storage_of ''1'') (CHR ''*'') = Some (storage_of ''0.1'')"
  using calculate_laws [OF storage_of_ok storage_of_ok storage_of_ok] by blast

text \<open>C6: comparison is the total order of the values, NaN being one value below every number,
  and numbers that compare equal have the same text.\<close>

theorem number_compare_order:
  assumes "number_ok x" "number_ok y"
  shows "number_compare x y = compare_by number_value x y \<and>
    (number_equals x y \<longleftrightarrow> st_number x = st_number y) \<and>
    (number_compare x y = Less \<longleftrightarrow> number_compare y x = Greater)"
  using number_order.compare_key number_order.compare_swap number_order.compare_equivalent
    number_value_inject assms by (simp add: number_equals_def)

lemma number_compare_order_witness:
  "number_compare (storage_of ''-1.50'') (storage_of ''-15e-1'') =
    compare_by number_value (storage_of ''-1.50'') (storage_of ''-15e-1'')"
  using number_compare_order [OF storage_of_ok storage_of_ok] by blast

text \<open>C5: constructing a number from text gives NaN exactly when the text is not in the number
  grammar or its exponent expands it beyond the limit; otherwise the number is the value
  that was written.\<close>

theorem storage_of_value:
  "number_ok (storage_of s) \<and>
    number_value (storage_of s) = (if number_syntax s \<and> expansion_fits s then Some (written_value s) else None)"
  using storage_of_ok canonical_text_NAN_iff [of s] canonical_text_value [of s]
  by (auto simp: number_value_def is_nan_def storage_of_def is_valid_number_iff)

text \<open>C8: the text of a number reads back as the same number, NaN included.\<close>

theorem number_text_roundtrip:
  assumes "number_ok n"
  shows "st_number (storage_of (number_text n)) = st_number n \<and>
    (is_floating_point (storage_of (number_text n)) \<longleftrightarrow> \<not> is_nan n \<and> \<not> is_integer n)"
proof -
  have nan: "canonical_text ''NaN'' = NAN_VALUE" by code_simp
  show ?thesis
  proof (cases "is_nan n")
    case True
    then show ?thesis using nan
      by (simp add: number_text_def storage_of_def is_nan_def is_floating_point_def)
  next
    case False
    then have "canonical (st_number n)" using assms by (simp add: is_nan_def number_ok_def)
    then show ?thesis using False storage_of_stored [of "st_number n"]
      by (auto simp: number_text_def is_nan_def is_floating_point_def is_integer_def find_pos_None)
  qed
qed

lemma number_text_roundtrip_witness:
  "st_number (storage_of (number_text (storage_of ''+007.10e1''))) = st_number (storage_of ''+007.10e1'')"
  using number_text_roundtrip [OF storage_of_ok] by blast

text \<open>C9: the conversion to \<open>long long\<close> truncates toward zero, and gives zero for NaN and for a
  value whose integer part does not fit in 64 bits.\<close>

theorem number_long_long_value:
  assumes "number_ok n"
  shows "number_long_long n = (case number_value n of None \<Rightarrow> 0
    | Some x \<Rightarrow> let v = truncated x in if - (2 ^ 63) \<le> v \<and> v < 2 ^ 63 then v else 0)"
proof (cases "is_nan n")
  case True
  then show ?thesis
    by (simp add: number_long_long_def number_value_def is_nan_def parse_number_unified_def to_long_long_def)
next
  case False
  then have "canonical (st_number n)" using assms by (simp add: is_nan_def number_ok_def)
  then show ?thesis using False
    by (simp add: number_long_long_def to_long_long_truncates number_value_def Let_def)
qed

lemma number_long_long_value_witness:
  "number_long_long (storage_of (int_text (- (2 ^ 63)))) = - (2 ^ 63)"
  using number_long_long_value [OF storage_of_ok, of "int_text (- (2 ^ 63))"]
  by (simp add: number_value_int_text truncated_def)

end
