(* ===== verification/Number_Conversions.thy ===== *)
theory Number_Conversions
  imports Number_Laws
begin

text \<open>
  The conversions of \<open>class number\<close> (\<open>src/type/number.cpp\<close>) to \<open>double\<close> and to \<open>int\<close>. They go through
  \<open>std::stod\<close>, which is a parameter: on a text it gives the double, as a rational, and the characters
  it read, or nothing where it throws. No text of a number reads as an infinity or a NaN of the
  floating-point format.
\<close>

section \<open>The conversions\<close>

type_synonym stod = "string \<Rightarrow> (rat \<times> nat) option"

definition to_double :: "stod \<Rightarrow> parsed_number \<Rightarrow> rat option" where
  "to_double stod p =
     (if \<not> pn_is_valid p then None
      else let full_str = (if pn_is_negative p then ''-'' else []) @ pn_integer_part p;
               full_str = (case pn_fractional_part p of None \<Rightarrow> full_str | Some f \<Rightarrow> full_str @ ''.'' @ f)
           in case stod full_str of
                Some (v, processed) \<Rightarrow> if processed = length full_str then Some v else None
              | None \<Rightarrow> None)"

definition number_double :: "stod \<Rightarrow> number_storage \<Rightarrow> rat" where
  "number_double stod n = (case to_double stod (parse_number_unified (st_number n)) of Some v \<Rightarrow> v | None \<Rightarrow> 0)"

text \<open>\<open>std::round\<close> rounds half away from zero. The bounds of \<open>int\<close> are doubles, so the clamp may be done
  on integers.\<close>

definition round_away :: "rat \<Rightarrow> int" where
  "round_away x = (if x < 0 then - \<lfloor>1 / 2 - x\<rfloor> else \<lfloor>x + 1 / 2\<rfloor>)"

definition int_max :: int where "int_max = 2 ^ 31 - 1"
definition int_min :: int where "int_min = - (2 ^ 31)"

definition to_int :: "stod \<Rightarrow> parsed_number \<Rightarrow> int" where
  "to_int stod p =
     (case to_double stod p of
        None \<Rightarrow> 0
      | Some double_val \<Rightarrow>
          let rounded = round_away double_val in if rounded < int_min then int_min else if int_max < rounded then int_max else rounded)"

definition number_int :: "stod \<Rightarrow> number_storage \<Rightarrow> int" where
  "number_int stod n = to_int stod (parse_number_unified (st_number n))"

section \<open>What \<open>std::stod\<close> promises\<close>

text \<open>Doubles are dense around zero: these are some of them, with every integer of up to 53 bits. A
  text is read as a double next to its value, so that no double is strictly between, and as the value
  itself where that is a double. A value beyond the largest double is out of range, which throws; so
  may one nearer to zero than the least normal double.\<close>

definition is_double :: "rat \<Rightarrow> bool" where
  "is_double v = (\<exists>m e. \<bar>m\<bar> \<le> 2 ^ 53 \<and> e \<le> 1022 \<and> v = of_int m / 2 ^ e)"

definition largest_double :: rat where
  "largest_double = (2 ^ 53 - 1) * 2 ^ 971"

definition least_normal :: rat where
  "least_normal = 1 / 2 ^ 1022"

definition out_of_doubles :: rat where
  "out_of_doubles = 2 ^ 1024"

definition next_to :: "rat \<Rightarrow> rat \<Rightarrow> bool" where
  "next_to v q = (\<forall>w. is_double w \<longrightarrow> (w \<le> q \<longrightarrow> w \<le> v) \<and> (q \<le> w \<longrightarrow> v \<le> w))"

definition reads_doubles :: "stod \<Rightarrow> bool" where
  "reads_doubles stod =
     (\<forall>s. canonical s \<longrightarrow>
        (out_of_doubles \<le> \<bar>num_value s\<bar> \<longrightarrow> stod s = None) \<and>
        (\<bar>num_value s\<bar> \<le> largest_double \<longrightarrow>
          (\<exists>v. stod s = Some (v, length s) \<and> next_to v (num_value s)) \<or>
          (stod s = None \<and> 0 < \<bar>num_value s\<bar> \<and> \<bar>num_value s\<bar> < least_normal)))"

lemma int_is_double: "\<bar>m\<bar> \<le> 2 ^ 53 \<Longrightarrow> is_double (of_int m)"
  unfolding is_double_def by (intro exI [of _ m] exI [of _ 0]) simp

lemma next_to_double: "next_to v q \<Longrightarrow> is_double q \<Longrightarrow> v = q"
  unfolding next_to_def by (meson antisym order_refl)

lemma next_to_near:
  assumes v: "next_to v q" and q: "\<bar>q\<bar> \<le> 2 ^ 31"
  shows "\<bar>v - q\<bar> \<le> 1 / 2 ^ 21"
proof -
  define k where "k = \<lfloor>q * 2 ^ 21\<rfloor>"
  have k: "of_int k \<le> q * 2 ^ 21" "q * 2 ^ 21 < of_int k + 1" unfolding k_def by linarith+
  have "\<bar>q * 2 ^ 21\<bar> \<le> 2 ^ 52" using mult_right_mono [OF q, of "2 ^ 21"] by (simp add: abs_mult)
  then have "- (2 ^ 52) \<le> q * 2 ^ 21" "q * 2 ^ 21 \<le> 2 ^ 52" by linarith+
  then have "of_int (- (2 ^ 52)) - 1 < (of_int k :: rat)" "of_int k \<le> (of_int (2 ^ 52) :: rat)" using k by simp_all
  then have b: "- (2 ^ 52) \<le> k" "k \<le> 2 ^ 52" by linarith+
  have "is_double (of_int k / 2 ^ 21)" "is_double (of_int (k + 1) / 2 ^ 21)"
    unfolding is_double_def using b by (intro exI [of _ k] exI [of _ "k + 1"] exI [of _ 21]; simp)+
  moreover have "of_int k / 2 ^ 21 \<le> q" "q \<le> of_int (k + 1) / 2 ^ 21" using k by (simp_all add: field_simps)
  ultimately have "of_int k / 2 ^ 21 \<le> v" "v \<le> of_int (k + 1) / 2 ^ 21" using v unfolding next_to_def by blast+
  then have "of_int k \<le> v * 2 ^ 21" "v * 2 ^ 21 \<le> of_int k + 1" by (simp_all add: field_simps)
  then have "\<bar>(v - q) * 2 ^ 21\<bar> \<le> 1" using k unfolding left_diff_distrib by linarith
  then have "\<bar>v - q\<bar> * 2 ^ 21 \<le> 1" unfolding abs_mult by simp
  then show ?thesis by (simp add: pos_le_divide_eq)
qed

section \<open>What the conversions give\<close>

text \<open>The text that is read is the stored one.\<close>

lemma to_double_reads:
  assumes "canonical s"
  shows "to_double stod (parse_number_unified s) =
    (case stod s of Some (v, processed) \<Rightarrow> if processed = length s then Some v else None | None \<Rightarrow> None)"
proof -
  have s: "s = (if is_negative_text s then ''-'' else []) @ magnitude s"
    by (auto simp: magnitude_def is_negative_text_def neq_Nil_conv)
  have "(case if CHR ''.'' \<in> set (magnitude s) then Some (frac_part (magnitude s)) else None of
      None \<Rightarrow> (if is_negative_text s then ''-'' else []) @ int_part (magnitude s)
    | Some f \<Rightarrow> ((if is_negative_text s then ''-'' else []) @ int_part (magnitude s)) @ ''.'' @ f) = s"
    using mantissa_split [of "magnitude s"] s by (auto split: if_splits)
  then show ?thesis unfolding to_double_def parse_canonical [OF assms] Let_def parsed_number.simps by (simp only: not_True_eq_False if_False)
qed

lemma round_away_near: "\<bar>of_int (round_away v) - v\<bar> \<le> 1 / 2"
proof (cases "v < 0")
  case True
  then have "round_away v = - \<lfloor>1 / 2 - v\<rfloor>" by (simp add: round_away_def)
  moreover have "of_int \<lfloor>1 / 2 - v\<rfloor> \<le> 1 / 2 - v" "1 / 2 - v < of_int \<lfloor>1 / 2 - v\<rfloor> + 1" by linarith+
  ultimately show ?thesis by linarith
next
  case False
  then have "round_away v = \<lfloor>v + 1 / 2\<rfloor>" by (simp add: round_away_def)
  moreover have "of_int \<lfloor>v + 1 / 2\<rfloor> \<le> v + 1 / 2" "v + 1 / 2 < of_int \<lfloor>v + 1 / 2\<rfloor> + 1" by linarith+
  ultimately show ?thesis by linarith
qed

lemma round_away_int [simp]: "round_away (of_int k) = k"
proof -
  have "\<lfloor>of_int j + (1 / 2 :: rat)\<rfloor> = j" for j by linarith
  from this [of k] this [of "- k"] show ?thesis by (simp add: round_away_def add.commute)
qed

lemma round_away_mono: "of_int a \<le> v \<Longrightarrow> a \<le> round_away v" "v \<le> of_int b \<Longrightarrow> round_away v \<le> b"
  unfolding round_away_def by (cases "v < 0"; simp; linarith)+

definition double_of :: "stod \<Rightarrow> string \<Rightarrow> rat option" where
  "double_of stod s = to_double stod (parse_number_unified s)"

lemma double_of_value:
  assumes c: "canonical s" and r: "reads_doubles stod" and l: "\<bar>num_value s\<bar> \<le> largest_double"
  obtains v where "double_of stod s = Some v" "next_to v (num_value s)"
  | "double_of stod s = None" "0 < \<bar>num_value s\<bar>" "\<bar>num_value s\<bar> < least_normal"
  using r [unfolded reads_doubles_def, rule_format, OF c, THEN conjunct2, rule_format, OF l]
  by (auto simp: double_of_def to_double_reads [OF c])

lemma number_int_out:
  assumes c: "canonical s" and r: "reads_doubles stod" and l: "out_of_doubles \<le> \<bar>num_value s\<bar>"
  shows "to_int stod (parse_number_unified s) = 0" "double_of stod s = None"
  using r [unfolded reads_doubles_def, rule_format, OF c, THEN conjunct1, rule_format, OF l]
  by (simp_all add: double_of_def to_double_reads [OF c] to_int_def)

lemma int_bounds: "is_double (of_int int_max)" "is_double (of_int int_min)"
  by (rule int_is_double, simp add: int_max_def int_min_def)+

lemma clamped:
  assumes "double_of stod s = Some v"
  shows "of_int int_max \<le> v \<Longrightarrow> to_int stod (parse_number_unified s) = int_max"
    and "v \<le> of_int int_min \<Longrightarrow> to_int stod (parse_number_unified s) = int_min"
    and "of_int int_min \<le> v \<Longrightarrow> v \<le> of_int int_max \<Longrightarrow> to_int stod (parse_number_unified s) = round_away v"
  using assms round_away_mono(1) [of int_max v] round_away_mono(1) [of int_min v] round_away_mono(2) [of v int_min] round_away_mono(2) [of v int_max]
  by (auto simp: to_int_def double_of_def Let_def int_max_def int_min_def)

lemma int_rat_bounds: "1 \<le> (of_int int_max :: rat)" "(of_int int_min :: rat) \<le> - 1" "(of_int int_min :: rat) = - (2 ^ 31)" "of_int int_max \<le> (2 ^ 31 :: rat)"
  "of_int int_max \<le> largest_double" "- largest_double \<le> of_int int_min" "least_normal < 1 / 2"
  by (simp_all add: int_min_def int_max_def largest_double_def least_normal_def)

lemma number_int_above:
  assumes "canonical s" "reads_doubles stod" "of_int int_max \<le> num_value s" "num_value s \<le> largest_double"
  shows "to_int stod (parse_number_unified s) = int_max"
proof -
  have "\<bar>num_value s\<bar> \<le> largest_double" using assms(3,4) int_rat_bounds(1) by linarith
  with assms(1,2) show ?thesis
  proof (cases rule: double_of_value)
    case (1 v)
    then have "of_int int_max \<le> v" using int_bounds(1) assms(3) unfolding next_to_def by blast
    with 1(1) show ?thesis by (rule clamped(1))
  next
    case 2
    then show ?thesis using int_rat_bounds(1,7) assms(3) by linarith
  qed
qed

lemma number_int_below:
  assumes "canonical s" "reads_doubles stod" "- largest_double \<le> num_value s" "num_value s \<le> of_int int_min"
  shows "to_int stod (parse_number_unified s) = int_min"
proof -
  have "\<bar>num_value s\<bar> \<le> largest_double" using assms(3,4) int_rat_bounds(2) by linarith
  with assms(1,2) show ?thesis
  proof (cases rule: double_of_value)
    case (1 v)
    then have "v \<le> of_int int_min" using int_bounds(2) assms(4) unfolding next_to_def by blast
    with 1(1) show ?thesis by (rule clamped(2))
  next
    case 2
    then show ?thesis using int_rat_bounds(2,7) assms(4) by linarith
  qed
qed

lemma number_int_within:
  assumes "canonical s" "reads_doubles stod" "of_int int_min \<le> num_value s" "num_value s \<le> of_int int_max"
  shows "\<bar>of_int (to_int stod (parse_number_unified s)) - num_value s\<bar> \<le> 1 / 2 + 1 / 2 ^ 21"
    and "num_value s = of_int k \<Longrightarrow> to_int stod (parse_number_unified s) = k"
proof -
  have l: "\<bar>num_value s\<bar> \<le> largest_double" "\<bar>num_value s\<bar> \<le> 2 ^ 31" using assms(3,4) int_rat_bounds by linarith+
  have "\<bar>of_int (to_int stod (parse_number_unified s)) - num_value s\<bar> \<le> 1 / 2 + 1 / 2 ^ 21 \<and>
      (num_value s = of_int k \<longrightarrow> to_int stod (parse_number_unified s) = k)"
    using assms(1,2) l(1)
  proof (cases rule: double_of_value)
    case (1 v)
    have "of_int int_min \<le> v" "v \<le> of_int int_max" using 1(2) int_bounds assms(3,4) unfolding next_to_def by blast+
    with 1(1) have i: "to_int stod (parse_number_unified s) = round_away v" by (rule clamped(3))
    have "\<bar>of_int (round_away v) - num_value s\<bar> \<le> 1 / 2 + 1 / 2 ^ 21"
      using round_away_near [of v] next_to_near [OF 1(2) l(2)] by linarith
    moreover have "v = of_int k" if q: "num_value s = of_int k"
    proof -
      have "\<bar>of_int k\<bar> \<le> (of_int (2 ^ 53) :: rat)" using l(2) q by simp
      then have "\<bar>k\<bar> \<le> 2 ^ 53" by linarith
      then show ?thesis using next_to_double [OF 1(2)] int_is_double q by simp
    qed
    ultimately show ?thesis by (auto simp: i)
  next
    case 2
    then have "to_int stod (parse_number_unified s) = 0" by (simp add: to_int_def double_of_def)
    moreover have "\<bar>num_value s\<bar> \<le> 1 / 2" using 2(3) int_rat_bounds(7) by linarith
    moreover have "num_value s \<noteq> of_int k"
    proof
      assume "num_value s = of_int k"
      then have "(of_int 0 :: rat) < of_int \<bar>k\<bar>" "of_int \<bar>k\<bar> < (of_int 1 :: rat)" using 2(2,3) int_rat_bounds(7) by simp_all
      then show False unfolding of_int_less_iff by simp
    qed
    ultimately show ?thesis by simp
  qed
  then show "\<bar>of_int (to_int stod (parse_number_unified s)) - num_value s\<bar> \<le> 1 / 2 + 1 / 2 ^ 21"
    "num_value s = of_int k \<Longrightarrow> to_int stod (parse_number_unified s) = k" by blast+
qed

lemma number_double_exact:
  assumes "canonical s" "reads_doubles stod" "is_double (num_value s)" "\<bar>num_value s\<bar> \<le> largest_double"
    "num_value s = 0 \<or> least_normal \<le> \<bar>num_value s\<bar>"
  shows "double_of stod s = Some (num_value s)"
  using assms(1,2,4)
proof (cases rule: double_of_value)
  case (1 v)
  then show ?thesis using next_to_double assms(3) by blast
qed (use assms(5) in auto)

text \<open>C10: The conversion to \<open>int\<close> gives an integer within the range of \<open>int\<close> as it is, and the nearest
  bound for a value beyond it that a double can hold. Any other value within the range it rounds to
  nearest, up to the precision of a double, and NaN gives zero. So does a value so large that
  \<open>std::stod\<close> throws, from \<open>2 ^ 1024\<close> on, although the conversion is documented to clamp. The
  conversion to \<open>double\<close> is exact where the value is one, and zero for NaN and those large values.\<close>

theorem number_int_value:
  assumes "number_ok n" "reads_doubles stod"
  shows "case number_value n of
      None \<Rightarrow> number_int stod n = 0 \<and> number_double stod n = 0
    | Some q \<Rightarrow>
        (\<forall>k. q = of_int k \<and> int_min \<le> k \<and> k \<le> int_max \<longrightarrow> number_int stod n = k) \<and>
        (of_int int_max \<le> q \<and> q \<le> largest_double \<longrightarrow> number_int stod n = int_max) \<and>
        (- largest_double \<le> q \<and> q \<le> of_int int_min \<longrightarrow> number_int stod n = int_min) \<and>
        (of_int int_min \<le> q \<and> q \<le> of_int int_max \<longrightarrow> \<bar>of_int (number_int stod n) - q\<bar> \<le> 1 / 2 + 1 / 2 ^ 21) \<and>
        (is_double q \<and> \<bar>q\<bar> \<le> largest_double \<and> (q = 0 \<or> least_normal \<le> \<bar>q\<bar>) \<longrightarrow> number_double stod n = q) \<and>
        (out_of_doubles \<le> \<bar>q\<bar> \<longrightarrow> number_int stod n = 0 \<and> number_double stod n = 0)"
proof (cases "is_nan n")
  case True
  then show ?thesis by (simp add: number_value_def number_int_def number_double_def is_nan_def parse_number_unified_def to_double_def to_int_def)
next
  case False
  then have c: "canonical (st_number n)" using assms(1) by (simp add: is_nan_def number_ok_def)
  note c = c assms(2)
  have k: "to_int stod (parse_number_unified (st_number n)) = k" if "num_value (st_number n) = of_int k" "int_min \<le> k" "k \<le> int_max" for k
    using number_int_within(2) [OF c] that by simp
  show ?thesis
    using False k number_int_above [OF c] number_int_below [OF c] number_int_within(1) [OF c] number_double_exact [OF c] number_int_out [OF c]
    unfolding number_value_def number_int_def number_double_def double_of_def by auto
qed

text \<open>A reader that gives each value within the range of the doubles as it is.\<close>

definition exact_stod :: stod where
  "exact_stod s = (if \<bar>num_value s\<bar> \<le> largest_double then Some (num_value s, length s) else None)"

lemma exact_stod_reads: "reads_doubles exact_stod"
proof -
  have "largest_double < out_of_doubles" by (simp add: largest_double_def out_of_doubles_def)
  then show ?thesis by (auto simp: reads_doubles_def exact_stod_def next_to_def)
qed

lemma number_int_value_witness:
  "number_int exact_stod (storage_of (int_text (2 ^ 31))) = 2 ^ 31 - 1 \<and>
   number_int exact_stod (storage_of (int_text (2 ^ 1024))) = 0"
proof -
  have "of_int int_max \<le> (of_int (2 ^ 31) :: rat)" "of_int (2 ^ 31) \<le> largest_double" "out_of_doubles \<le> \<bar>of_int (2 ^ 1024)\<bar>"
    by (simp_all add: int_max_def largest_double_def out_of_doubles_def)
  then show ?thesis
    using number_int_value [OF storage_of_ok exact_stod_reads, of "int_text (2 ^ 31)"]
      number_int_value [OF storage_of_ok exact_stod_reads, of "int_text (2 ^ 1024)"]
    unfolding number_value_int_text option.case int_max_def by blast
qed

end
