(* ===== verification/Number_Operators.thy ===== *)
theory Number_Operators
  imports Number_Conversions
begin

text \<open>
  Numbers made of the arithmetic types of the language, and the operators of \<open>class number\<close>
  (\<open>src/include/dross/type/number.h\<close>, \<open>src/type/number.cpp\<close>). What \<open>std::to_chars\<close> writes for a value of
  a floating-point type is a parameter, \<^const>\<open>None\<close> when the buffer is too short.
\<close>

section \<open>Numbers of the arithmetic types\<close>

text \<open>A value of an integer type, of a character type by its code or of \<open>bool\<close>; or of a floating-point
  type.\<close>

datatype 'f arithmetic = Integral int | Floating 'f

definition arithmetic_text :: "('f \<Rightarrow> string option) \<Rightarrow> 'f arithmetic \<Rightarrow> string" where
  "arithmetic_text to_chars n =
     (case n of
        Integral k \<Rightarrow> int_text k
      | Floating f \<Rightarrow> (case to_chars f of Some written \<Rightarrow> written | None \<Rightarrow> []))"

definition number_of_arithmetic :: "('f \<Rightarrow> string option) \<Rightarrow> 'f arithmetic \<Rightarrow> number_storage" where
  "number_of_arithmetic to_chars n = storage_with (arithmetic_text to_chars n) (case n of Integral k \<Rightarrow> False | Floating f \<Rightarrow> True)"

definition number_equals_arithmetic :: "('f \<Rightarrow> string option) \<Rightarrow> number_storage \<Rightarrow> 'f arithmetic \<Rightarrow> bool" where
  "number_equals_arithmetic to_chars this n = number_equals this (number_of_arithmetic to_chars n)"

definition number_compare_arithmetic :: "('f \<Rightarrow> string option) \<Rightarrow> number_storage \<Rightarrow> 'f arithmetic \<Rightarrow> weak_ordering" where
  "number_compare_arithmetic to_chars this n = number_compare this (number_of_arithmetic to_chars n)"

definition number_assign :: "number_storage \<Rightarrow> number_storage \<Rightarrow> number_storage" where
  "number_assign this n = this\<lparr>st_number := st_number n, st_floating_point := st_floating_point n\<rparr>"

definition number_assign_arithmetic :: "('f \<Rightarrow> string option) \<Rightarrow> number_storage \<Rightarrow> 'f arithmetic \<Rightarrow> number_storage" where
  "number_assign_arithmetic to_chars this n = fst (number_move_assign this (number_of_arithmetic to_chars n))"

section \<open>The operators\<close>

definition number_plus :: "number_storage \<Rightarrow> number_storage \<Rightarrow> number_storage option" where
  "number_plus this other = calculate this other (CHR ''+'')"

definition number_minus :: "number_storage \<Rightarrow> number_storage \<Rightarrow> number_storage option" where
  "number_minus this other = calculate this other (CHR ''-'')"

definition number_times :: "number_storage \<Rightarrow> number_storage \<Rightarrow> number_storage option" where
  "number_times this other = calculate this other (CHR ''*'')"

definition number_divide :: "number_storage \<Rightarrow> number_storage \<Rightarrow> number_storage option" where
  "number_divide this other = calculate this other (CHR ''/'')"

definition number_modulo :: "number_storage \<Rightarrow> number_storage \<Rightarrow> number_storage option" where
  "number_modulo this other = calculate this other (CHR ''%'')"

definition number_plus_assign :: "number_storage \<Rightarrow> number_storage \<Rightarrow> number_storage option" where
  "number_plus_assign this other = map_option (\<lambda>result. fst (number_move_assign this result)) (number_plus this other)"

definition number_minus_assign :: "number_storage \<Rightarrow> number_storage \<Rightarrow> number_storage option" where
  "number_minus_assign this other = map_option (\<lambda>result. fst (number_move_assign this result)) (number_minus this other)"

definition number_times_assign :: "number_storage \<Rightarrow> number_storage \<Rightarrow> number_storage option" where
  "number_times_assign this other = map_option (\<lambda>result. fst (number_move_assign this result)) (number_times this other)"

definition number_divide_assign :: "number_storage \<Rightarrow> number_storage \<Rightarrow> number_storage option" where
  "number_divide_assign this other = map_option (\<lambda>result. fst (number_move_assign this result)) (number_divide this other)"

definition number_modulo_assign :: "number_storage \<Rightarrow> number_storage \<Rightarrow> number_storage option" where
  "number_modulo_assign this other = map_option (\<lambda>result. fst (number_move_assign this result)) (number_modulo this other)"

section \<open>What they give\<close>

lemma move_assign_gives [simp]: "fst (number_move_assign this n) = n"
  by (simp add: number_move_assign_def Let_def)

lemma compound_assignments:
  "number_plus_assign this other = number_plus this other" "number_minus_assign this other = number_minus this other"
  "number_times_assign this other = number_times this other" "number_divide_assign this other = number_divide this other"
  "number_modulo_assign this other = number_modulo this other"
  by (simp_all add: number_plus_assign_def number_minus_assign_def number_times_assign_def number_divide_assign_def
      number_modulo_assign_def option.map_ident)

lemma number_of_integral: "number_of_arithmetic to_chars (Integral k) = \<lparr>st_number = int_text k, st_floating_point = False\<rparr>"
  by (simp add: number_of_arithmetic_def arithmetic_text_def storage_with_def int_text_canonical(1) canonical_text_stored)

text \<open>An integer is the number of its value, is one, and converts back to itself, by the conversions to
  \<open>long long\<close> and \<open>int\<close> as far as they reach.\<close>

lemma number_of_integral_value:
  "number_ok (number_of_arithmetic to_chars (Integral k))"
  "number_value (number_of_arithmetic to_chars (Integral k)) = Some (of_int k)"
  "is_integer (number_of_arithmetic to_chars (Integral k))" "\<not> is_floating_point (number_of_arithmetic to_chars (Integral k))"
proof -
  have n: "int_text k \<noteq> NAN_VALUE" using int_text_canonical(1) sign_parts(4) by metis
  have d: "CHR ''.'' \<notin> set (int_text k)" by (rule int_text_canonical(3))
  show "number_ok (number_of_arithmetic to_chars (Integral k))"
    using int_text_canonical(1) d by (simp add: number_of_integral number_ok_def)
  show "number_value (number_of_arithmetic to_chars (Integral k)) = Some (of_int k)"
    using n by (simp add: number_of_integral number_value_def is_nan_def int_text_canonical(2))
  show "is_integer (number_of_arithmetic to_chars (Integral k))"
    using n d by (auto simp: number_of_integral is_integer_def is_nan_def find_pos_None)
  show "\<not> is_floating_point (number_of_arithmetic to_chars (Integral k))" by (simp add: number_of_integral is_floating_point_def)
qed

lemma integral_round_trip:
  "- (2 ^ 63) \<le> k \<Longrightarrow> k < 2 ^ 63 \<Longrightarrow> number_long_long (number_of_arithmetic to_chars (Integral k)) = k"
  "reads_doubles stod \<Longrightarrow> int_min \<le> k \<Longrightarrow> k \<le> int_max \<Longrightarrow> number_int stod (number_of_arithmetic to_chars (Integral k)) = k"
proof -
  have p: "canonical (int_text k)" "num_value (int_text k) = of_int k" by (rule int_text_canonical)+
  have "truncated (of_int k :: rat) = k" by (simp add: truncated_def)
  then show "- (2 ^ 63) \<le> k \<Longrightarrow> k < 2 ^ 63 \<Longrightarrow> number_long_long (number_of_arithmetic to_chars (Integral k)) = k"
    by (simp add: number_long_long_def number_of_integral to_long_long_truncates [OF p(1)] p(2) Let_def)
  show "reads_doubles stod \<Longrightarrow> int_min \<le> k \<Longrightarrow> k \<le> int_max \<Longrightarrow> number_int stod (number_of_arithmetic to_chars (Integral k)) = k"
    using number_int_within(2) [OF p(1), of stod k] p(2) by (simp add: number_int_def number_of_integral)
qed

text \<open>A value whose text is not that of a number, such as an infinity, or is too long, makes NaN; any
  other makes a floating-point number.\<close>

lemma number_of_floating:
  "is_nan (number_of_arithmetic to_chars (Floating f)) \<longleftrightarrow> canonical_text (arithmetic_text to_chars (Floating f)) = NAN_VALUE"
  "is_floating_point (number_of_arithmetic to_chars (Floating f)) \<longleftrightarrow> \<not> is_nan (number_of_arithmetic to_chars (Floating f))"
  by (simp_all add: number_of_arithmetic_def storage_with_def is_nan_def is_floating_point_def)

lemma number_of_infinity: "to_chars f \<in> {None, Some ''inf'', Some ''-inf'', Some ''nan''} \<Longrightarrow> is_nan (number_of_arithmetic to_chars (Floating f))"
proof -
  have "canonical_text [] = NAN_VALUE" "canonical_text ''inf'' = NAN_VALUE" "canonical_text ''-inf'' = NAN_VALUE"
    "canonical_text ''nan'' = NAN_VALUE" by code_simp+
  then show "to_chars f \<in> {None, Some ''inf'', Some ''-inf'', Some ''nan''} \<Longrightarrow> is_nan (number_of_arithmetic to_chars (Floating f))"
    by (auto simp: number_of_floating arithmetic_text_def)
qed

end
