(* ===== verification/Basic_Types.thy ===== *)
theory Basic_Types
  imports Prelude "HOL-Library.Word"
begin

text \<open>
  The small value types: \<open>class boolean\<close> (\<open>src/type/boolean.cpp\<close>), \<open>class string\<close>
  (\<open>src/type/string.cpp\<close>), \<open>class data\<close> (\<open>src/type/data.cpp\<close>), \<open>class error\<close>
  (\<open>src/type/error.cpp\<close>) and the text functions of \<open>src/type.cpp\<close>. An object is its storage.
  An operation that assigns returns the storage it leaves; a move returns the target and what
  it leaves in the source, which is the default value.
\<close>

section \<open>boolean\<close>

record boolean_storage =
  bs_value :: bool

definition boolean_default :: boolean_storage where
  "boolean_default = \<lparr>bs_value = False\<rparr>"

text \<open>\<open>std::tolower\<close> of the C locale.\<close>

definition tolower :: "char \<Rightarrow> char" where
  "tolower c = (let n = (of_char c :: nat) in if 65 \<le> n \<and> n \<le> 90 then char_of (n + 32) else c)"

definition parse_boolean_string :: "string \<Rightarrow> bool" where
  "parse_boolean_string str =
     (if str = [] then False
      else let lower_str = map tolower str
           in if lower_str = ''true'' \<or> lower_str = ''1'' then True
              else if lower_str = ''false'' \<or> lower_str = ''0'' then False
              else False)"

definition boolean_of_bool :: "bool \<Rightarrow> boolean_storage" where
  "boolean_of_bool v = boolean_default\<lparr>bs_value := v\<rparr>"

definition boolean_of_int :: "int \<Rightarrow> boolean_storage" where
  "boolean_of_int v = boolean_default\<lparr>bs_value := (v \<noteq> 0)\<rparr>"

definition boolean_of_string :: "string \<Rightarrow> boolean_storage" where
  "boolean_of_string str = boolean_default\<lparr>bs_value := parse_boolean_string str\<rparr>"

definition boolean_move :: "boolean_storage \<Rightarrow> boolean_storage \<times> boolean_storage" where
  "boolean_move other = (other, boolean_default)"

definition boolean_move_assign :: "boolean_storage \<Rightarrow> boolean_storage \<Rightarrow> boolean_storage \<times> boolean_storage" where
  "boolean_move_assign this other =
     (let (this, other) = (other, this) in (this, other\<lparr>bs_value := False\<rparr>))"

text \<open>Copy assignment, and assignment of a \<open>bool\<close>.\<close>

definition boolean_assign :: "boolean_storage \<Rightarrow> boolean_storage \<Rightarrow> boolean_storage" where
  "boolean_assign this other = this\<lparr>bs_value := bs_value other\<rparr>"

definition boolean_assign_bool :: "boolean_storage \<Rightarrow> bool \<Rightarrow> boolean_storage" where
  "boolean_assign_bool this v = this\<lparr>bs_value := v\<rparr>"

definition boolean_equals_bool :: "boolean_storage \<Rightarrow> bool \<Rightarrow> bool" where
  "boolean_equals_bool this v = (bs_value this = v)"

definition boolean_equals :: "boolean_storage \<Rightarrow> boolean_storage \<Rightarrow> bool" where
  "boolean_equals this other = (bs_value this = bs_value other)"

definition boolean_compare :: "boolean_storage \<Rightarrow> boolean_storage \<Rightarrow> weak_ordering" where
  "boolean_compare this other =
     (if bs_value this = bs_value other then Equivalent
      else if bs_value this then Greater else Less)"

definition boolean_not :: "boolean_storage \<Rightarrow> boolean_storage" where
  "boolean_not b = boolean_of_bool (\<not> bs_value b)"

definition boolean_and :: "boolean_storage \<Rightarrow> boolean_storage \<Rightarrow> boolean_storage" where
  "boolean_and b other = boolean_of_bool (bs_value b \<and> bs_value other)"

definition boolean_or :: "boolean_storage \<Rightarrow> boolean_storage \<Rightarrow> boolean_storage" where
  "boolean_or b other = boolean_of_bool (bs_value b \<or> bs_value other)"

definition boolean_text :: "boolean_storage \<Rightarrow> string" where
  "boolean_text b = (if bs_value b then ''true'' else ''false'')"

interpretation boolean_order: three_way "\<lambda>_. True" bs_value boolean_compare
  by unfold_locales (auto simp: boolean_compare_def compare_by_def)

lemma boolean_text_roundtrip: "boolean_of_string (boolean_text b) = b"
proof -
  have "parse_boolean_string ''true''" "\<not> parse_boolean_string ''false''" by code_simp+
  then show ?thesis by (simp add: boolean_of_string_def boolean_text_def boolean_default_def)
qed

section \<open>string\<close>

record string_storage =
  ss_buffer :: string

definition string_default :: string_storage where
  "string_default = \<lparr>ss_buffer = []\<rparr>"

definition string_of :: "string \<Rightarrow> string_storage" where
  "string_of s = \<lparr>ss_buffer = s\<rparr>"

text \<open>\<open>compare(0, s.size(), s)\<close> compares the first \<open>s.size()\<close> characters.\<close>

definition starts_with :: "string_storage \<Rightarrow> string \<Rightarrow> bool" where
  "starts_with this s = (str_compare (substr 0 (length s) (ss_buffer this)) s = 0)"

definition string_length :: "string_storage \<Rightarrow> nat" where
  "string_length this = length (ss_buffer this)"

definition string_equals :: "string_storage \<Rightarrow> string_storage \<Rightarrow> bool" where
  "string_equals this s = (ss_buffer this = ss_buffer s)"

definition string_move :: "string_storage \<Rightarrow> string_storage \<times> string_storage" where
  "string_move s = (s, string_default)"

definition string_move_assign :: "string_storage \<Rightarrow> string_storage \<Rightarrow> string_storage \<times> string_storage" where
  "string_move_assign this s = (let (this, s) = (s, this) in (this, s\<lparr>ss_buffer := []\<rparr>))"

definition string_assign :: "string_storage \<Rightarrow> string_storage \<Rightarrow> string_storage" where
  "string_assign this s = this\<lparr>ss_buffer := ss_buffer s\<rparr>"

definition string_assign_text :: "string_storage \<Rightarrow> string \<Rightarrow> string_storage" where
  "string_assign_text this s = this\<lparr>ss_buffer := s\<rparr>"

definition string_append :: "string_storage \<Rightarrow> string \<Rightarrow> string_storage" where
  "string_append this s = this\<lparr>ss_buffer := ss_buffer this @ s\<rparr>"

lemma starts_with_prefix: "starts_with this s \<longleftrightarrow> (\<exists>t. ss_buffer this = s @ t)"
proof -
  have "take (length s) b = s \<longleftrightarrow> (\<exists>t. b = s @ t)" for b
    by (metis append_eq_conv_conj append_take_drop_id)
  then show ?thesis by (simp add: starts_with_def str_compare_eq_0 substr_def)
qed

section \<open>data\<close>

record data_storage =
  ds_bytes :: "8 word list"

definition data_default :: data_storage where
  "data_default = \<lparr>ds_bytes = []\<rparr>"

definition byte_of_char :: "char \<Rightarrow> 8 word" where
  "byte_of_char c = of_nat (of_char c)"

definition char_of_byte :: "8 word \<Rightarrow> char" where
  "char_of_byte b = char_of (unat b)"

definition data_of_bytes :: "8 word list \<Rightarrow> data_storage" where
  "data_of_bytes b = \<lparr>ds_bytes = b\<rparr>"

definition data_of_string :: "string \<Rightarrow> data_storage" where
  "data_of_string str = \<lparr>ds_bytes = map byte_of_char str\<rparr>"

definition data_move :: "data_storage \<Rightarrow> data_storage \<times> data_storage" where
  "data_move other = (other, data_default)"

definition data_move_assign :: "data_storage \<Rightarrow> data_storage \<Rightarrow> data_storage \<times> data_storage" where
  "data_move_assign this other =
     (let (this, other) = (other, this) in (this, other\<lparr>ds_bytes := []\<rparr>))"

text \<open>\<open>bytes()\<close>: the bytes, or nothing when there are none.\<close>

definition data_bytes :: "data_storage \<Rightarrow> 8 word list option" where
  "data_bytes d = (if ds_bytes d = [] then None else Some (ds_bytes d))"

definition data_assign :: "data_storage \<Rightarrow> data_storage \<Rightarrow> data_storage" where
  "data_assign this other = \<lparr>ds_bytes = ds_bytes other\<rparr>"

definition data_empty :: "data_storage \<Rightarrow> bool" where
  "data_empty d = (ds_bytes d = [])"

definition data_size :: "data_storage \<Rightarrow> nat" where
  "data_size d = length (ds_bytes d)"

text \<open>The errors the sources raise, by the \<open>std::errc\<close> they name.\<close>

datatype errc = result_out_of_range | invalid_argument | no_such_file_or_directory
  | operation_not_supported

definition data_at :: "data_storage \<Rightarrow> nat \<Rightarrow> errc + 8 word" where
  "data_at d index =
     (if index \<ge> length (ds_bytes d) then Inl result_out_of_range else Inr (ds_bytes d ! index))"

text \<open>The store through the reference the mutable \<open>at()\<close> returns.\<close>

definition data_set_at :: "data_storage \<Rightarrow> nat \<Rightarrow> 8 word \<Rightarrow> errc + data_storage" where
  "data_set_at d index b =
     (if index \<ge> length (ds_bytes d) then Inl result_out_of_range
      else Inr (d\<lparr>ds_bytes := (ds_bytes d)[index := b]\<rparr>))"

definition data_append :: "data_storage \<Rightarrow> 8 word list \<Rightarrow> data_storage" where
  "data_append d bytes = d\<lparr>ds_bytes := ds_bytes d @ bytes\<rparr>"

definition data_clear :: "data_storage \<Rightarrow> data_storage" where
  "data_clear d = d\<lparr>ds_bytes := []\<rparr>"

definition data_resize :: "data_storage \<Rightarrow> nat \<Rightarrow> 8 word \<Rightarrow> data_storage" where
  "data_resize d new_size fill_value = d\<lparr>ds_bytes := resize new_size fill_value (ds_bytes d)\<rparr>"

definition data_equals :: "data_storage \<Rightarrow> data_storage \<Rightarrow> bool" where
  "data_equals d other = (ds_bytes d = ds_bytes other)"

text \<open>\<open>operator<=>\<close> of vectors of bytes.\<close>

fun compare_bytes :: "8 word list \<Rightarrow> 8 word list \<Rightarrow> weak_ordering" where
  "compare_bytes [] [] = Equivalent"
| "compare_bytes [] (y # ys) = Less"
| "compare_bytes (x # xs) [] = Greater"
| "compare_bytes (x # xs) (y # ys) =
     (if x < y then Less else if y < x then Greater else compare_bytes xs ys)"

definition data_compare :: "data_storage \<Rightarrow> data_storage \<Rightarrow> weak_ordering" where
  "data_compare d other = compare_bytes (ds_bytes d) (ds_bytes other)"

definition data_plus :: "data_storage \<Rightarrow> data_storage \<Rightarrow> data_storage" where
  "data_plus d other = (let result = d in data_append result (ds_bytes other))"

definition data_text :: "data_storage \<Rightarrow> string" where
  "data_text d = map char_of_byte (ds_bytes d)"

lemma char_of_byte_inverse [simp]: "char_of_byte (byte_of_char c) = c"
proof -
  have "unat (of_nat (of_char c) :: 8 word) = of_char c"
    by (simp add: unat_of_nat take_bit_eq_mod)
  then show ?thesis by (simp add: char_of_byte_def byte_of_char_def)
qed

lemma byte_of_char_inverse [simp]: "byte_of_char (char_of_byte b) = b"
proof -
  have "unat b < 256" using unsigned_less [of b] by simp
  then show ?thesis by (simp add: char_of_byte_def byte_of_char_def of_char_of)
qed

lemma data_text_roundtrip: "data_text (data_of_string s) = s" "data_of_string (data_text d) = d"
proof -
  have "char_of_byte \<circ> byte_of_char = id" "byte_of_char \<circ> char_of_byte = id" by (simp_all add: fun_eq_iff)
  then show "data_text (data_of_string s) = s" "data_of_string (data_text d) = d"
    by (simp_all add: data_text_def data_of_string_def)
qed

lemma compare_bytes_order: "compare_bytes xs ys = compare_by id xs ys"
  by (induction xs ys rule: compare_bytes.induct) (auto simp: compare_by_def)

interpretation data_order: three_way "\<lambda>_. True" ds_bytes data_compare
  by unfold_locales (simp add: data_compare_def compare_bytes_order compare_by_def)

lemma data_at_set_at:
  "data_set_at d i b = Inr d' \<Longrightarrow> data_at d' j = (if j = i then Inr b else data_at d j)"
  by (auto simp: data_set_at_def data_at_def split: if_splits)

lemma data_at_append:
  "data_at (data_append d bytes) i =
     (if i < data_size d then data_at d i else data_at (data_of_bytes bytes) (i - data_size d))"
  by (auto simp: data_at_def data_append_def data_size_def data_of_bytes_def nth_append)

lemma data_at_resize:
  "data_at (data_resize d n b) i =
     (if i \<ge> n then Inl result_out_of_range else if i < data_size d then data_at d i else Inr b)"
  by (auto simp: data_at_def data_resize_def data_size_def resize_def nth_append)

section \<open>error\<close>

text \<open>An \<open>std::error_category\<close> is an object of the library: here its name, and its message for a
  value is a parameter.\<close>

record error =
  er_value :: int
  er_category :: string
  er_detail :: "string option"

definition error_domain :: "error \<Rightarrow> string" where
  "error_domain e = er_category e"

definition error_message :: "(string \<Rightarrow> int \<Rightarrow> string) \<Rightarrow> error \<Rightarrow> string" where
  "error_message message e =
     (case er_detail e of
        None \<Rightarrow> message (er_category e) (er_value e)
      | Some detail \<Rightarrow> if detail = [] then message (er_category e) (er_value e)
          else message (er_category e) (er_value e) @ '': '' @ detail)"

definition error_detail :: "error \<Rightarrow> string" where
  "error_detail e = (case er_detail e of None \<Rightarrow> [] | Some d \<Rightarrow> d)"

definition error_bool :: "error \<Rightarrow> bool" where
  "error_bool e = (er_value e \<noteq> 0)"

definition error_equals :: "error \<Rightarrow> error \<Rightarrow> bool" where
  "error_equals e f = (er_category e = er_category f \<and> er_value e = er_value f)"

section \<open>Splitting and joining text\<close>

text \<open>\<open>std::views::split\<close>: the search for the next delimiter, which an empty delimiter moves on
  by one character, and the tokens of a text that is not empty. An empty text has none.\<close>

fun search :: "'a list \<Rightarrow> 'a list \<Rightarrow> nat option" where
  "search pat [] = (if pat = [] then Some 0 else None)"
| "search pat (c # s) =
     (if take (length pat) (c # s) = pat then Some 0 else map_option Suc (search pat s))"

definition find_next :: "'a list \<Rightarrow> 'a list \<Rightarrow> nat option" where
  "find_next pat s = (if pat = [] then (if s = [] then None else Some 1) else search pat s)"

lemma search_Some:
  "search pat s = Some k \<Longrightarrow> s = take k s @ pat @ drop (k + length pat) s \<and> k + length pat \<le> length s"
proof (induction s arbitrary: k)
  case Nil
  then show ?case by (auto split: if_splits)
next
  case (Cons c s)
  show ?case
  proof (cases "take (length pat) (c # s) = pat")
    case True
    then have "k = 0" using Cons.prems by simp
    moreover have "length pat \<le> length (c # s)" using True by (metis length_take min.cobounded1 min.commute)
    ultimately show ?thesis using True by (metis add_0 append_Nil append_take_drop_id take_0)
  next
    case False
    then obtain j where "search pat s = Some j" "k = Suc j" using Cons.prems by auto
    then show ?thesis using Cons.IH [of j] by simp
  qed
qed

function split_tokens :: "string \<Rightarrow> string \<Rightarrow> string list" where
  "split_tokens delimiter s =
     (case find_next delimiter s of
        None \<Rightarrow> [s]
      | Some k \<Rightarrow>
          if delimiter = [] \<and> drop k s = [] then [take k s]
          else take k s # split_tokens delimiter (drop (k + length delimiter) s))"
  by pat_completeness auto
termination
proof (relation "measure (\<lambda>(d, s). length s)", goal_cases)
  case (2 d s k)
  show ?case
  proof (cases "d = []")
    case True
    then show ?thesis using 2 by (auto simp: find_next_def split: if_splits)
  next
    case False
    then have "0 < length d" "k + length d \<le> length s"
      using 2 search_Some [of d s k] by (simp_all add: find_next_def)
    then show ?thesis by (simp only: in_measure split length_drop)
  qed
qed simp

declare split_tokens.simps [simp del]

definition split_text :: "string \<Rightarrow> string \<Rightarrow> string list" where
  "split_text s delimiter = (if s = [] then [] else split_tokens delimiter s)"

definition join_text :: "string list \<Rightarrow> string \<Rightarrow> string" where
  "join_text c delimiter =
     (case c of [] \<Rightarrow> [] | front # rest \<Rightarrow> foldl (\<lambda>a b. a @ delimiter @ b) front rest)"

lemma join_text_Cons: "join_text (x # y # xs) d = x @ d @ join_text (y # xs) d"
proof -
  have "foldl (\<lambda>a b. a @ d @ b) (u @ v) zs = u @ foldl (\<lambda>a b. a @ d @ b) v zs" for u v zs
    by (induction zs arbitrary: v) simp_all
  then show ?thesis by (simp add: join_text_def)
qed

lemma join_text_single [simp]: "join_text [x] d = x"
  by (simp add: join_text_def)

lemma split_tokens_not_Nil: "split_tokens d s \<noteq> []"
  by (subst split_tokens.simps) (simp split: option.split)

lemma join_split_tokens: "join_text (split_tokens d s) d = s"
proof (induction d s rule: split_tokens.induct)
  case (1 d s)
  show ?case
  proof (cases "find_next d s")
    case None
    then show ?thesis by (subst split_tokens.simps) simp
  next
    case (Some k)
    show ?thesis
    proof (cases "d = [] \<and> drop k s = []")
      case True
      then have "take k s = s" by simp
      with Some True show ?thesis by (subst split_tokens.simps) simp
    next
      case False
      define r where "r = split_tokens d (drop (k + length d) s)"
      have IH: "join_text r d = drop (k + length d) s" unfolding r_def using 1 Some False by blast
      have "r \<noteq> []" by (simp add: r_def split_tokens_not_Nil)
      then have "join_text (take k s # r) d = take k s @ d @ drop (k + length d) s"
        using IH by (cases r) (simp_all add: join_text_Cons)
      also have "\<dots> = s"
        using Some search_Some [of d s k] by (cases "d = []") (auto simp: find_next_def split: if_splits)
      finally have "join_text (take k s # r) d = s" .
      then show ?thesis using Some False by (subst split_tokens.simps) (simp add: r_def)
    qed
  qed
qed

lemma join_split: "join_text (split_text s d) d = s"
  by (cases "s = []") (simp_all add: split_text_def join_split_tokens, simp add: join_text_def)

text \<open>The search finds the first place of the pattern.\<close>

lemma search_first: "search pat s = Some k \<Longrightarrow> j < k \<Longrightarrow> take (length pat) (drop j s) \<noteq> pat"
proof (induction s arbitrary: j k)
  case (Cons c s)
  then obtain i where i: "take (length pat) (c # s) \<noteq> pat" "search pat s = Some i" "k = Suc i"
    by (auto split: if_splits)
  then show ?case using Cons by (cases j) auto
qed (auto split: if_splits)

lemma search_None: "search pat s = None \<Longrightarrow> take (length pat) (drop j s) \<noteq> pat"
proof (induction s arbitrary: j)
  case (Cons c s)
  then show ?case by (cases j) (auto split: if_splits)
qed (auto split: if_splits)

lemma tokens_without_delimiter:
  "d \<noteq> [] \<Longrightarrow> t \<in> set (split_tokens d s) \<Longrightarrow> t \<noteq> u @ d @ v"
proof (induction d s rule: split_tokens.induct)
  case (1 d s)
  show ?case
  proof (cases "search d s")
    case None
    then have "t = s" using 1 by (subst (asm) split_tokens.simps) (simp add: find_next_def)
    then show ?thesis using search_None [OF None, of "length u"] by auto
  next
    case (Some k)
    then have f: "find_next d s = Some k" using 1 by (simp add: find_next_def)
    have "t = take k s \<or> t \<in> set (split_tokens d (drop (k + length d) s))"
      using 1(2,3) f by (subst (asm) split_tokens.simps) simp
    moreover have "take k s \<noteq> u @ d @ v"
    proof
      assume t: "take k s = u @ d @ v"
      then have "s = u @ d @ v @ drop k s" by (metis append.assoc append_take_drop_id)
      then have "take (length d) (drop (length u) s) = d" by (metis append_eq_conv_conj)
      moreover have "length u < k" using arg_cong [OF t, of length] 1(2) by (cases d) auto
      ultimately show False using search_first [OF Some] by blast
    qed
    ultimately show ?thesis using 1 f by auto
  qed
qed

lemma split_tokens_characters: "s \<noteq> [] \<Longrightarrow> split_tokens [] s = map (\<lambda>c. [c]) s"
proof (induction s)
  case (Cons c s)
  then show ?case by (subst split_tokens.simps) (cases s; simp add: find_next_def)
qed simp

text \<open>Tokens without the delimiter's first character come back.\<close>

lemma search_delimiter:
  assumes "d \<noteq> []" "hd d \<notin> set t"
  shows "search d (t @ d @ s) = Some (length t)" "search d t = None"
proof -
  obtain c d' where d: "d = c # d'" using assms(1) by (cases d) auto
  have "c \<notin> set t \<Longrightarrow> search (c # d') (t @ (c # d') @ s) = Some (length t) \<and> search (c # d') t = None"
    by (induction t) auto
  then show "search d (t @ d @ s) = Some (length t)" "search d t = None" using assms(2) d by simp_all
qed

lemma split_tokens_delimiter:
  assumes "d \<noteq> []" "hd d \<notin> set t"
  shows "split_tokens d (t @ d @ s) = t # split_tokens d s" "split_tokens d t = [t]"
  using assms search_delimiter [OF assms]
  by (subst split_tokens.simps; simp add: find_next_def)+

lemma split_tokens_join:
  "ts \<noteq> [] \<Longrightarrow> d \<noteq> [] \<Longrightarrow> \<forall>t \<in> set ts. hd d \<notin> set t \<Longrightarrow> split_tokens d (join_text ts d) = ts"
proof (induction ts)
  case Nil
  then show ?case by simp
next
  case (Cons t ts)
  then show ?case by (cases ts) (simp_all add: join_text_Cons split_tokens_delimiter)
qed

lemma join_text_Nil: "d \<noteq> [] \<Longrightarrow> join_text ts d = [] \<longleftrightarrow> ts = [] \<or> ts = [[]]"
proof (cases ts)
  case (Cons t us)
  moreover assume "d \<noteq> []"
  ultimately show ?thesis by (cases us) (simp_all add: join_text_Cons)
qed (simp add: join_text_def)

section \<open>Properties\<close>

text \<open>C16: The tokens a text splits into at a delimiter give the text back when they are joined with the
  delimiter, whatever the two are, and contain a delimiter that is not empty nowhere; an empty one splits
  the text into its characters. The other way round, splitting the text of tokens joined with a
  delimiter that is not empty gives the tokens back, when no token has the delimiter's first character:
  except that a single empty token joins to the empty text, which has no tokens.\<close>

theorem split_join_roundtrip:
  assumes "d \<noteq> []" "\<forall>t \<in> set ts. hd d \<notin> set t"
  shows "join_text (split_text s d') d' = s \<and> (\<forall>t \<in> set (split_text s d). \<forall>u v. t \<noteq> u @ d @ v) \<and>
    split_text s [] = map (\<lambda>c. [c]) s \<and>
    split_text (join_text ts d) d = (if ts = [[]] then [] else ts)"
proof (intro conjI)
  show "join_text (split_text s d') d' = s" by (rule join_split)
  show "\<forall>t \<in> set (split_text s d). \<forall>u v. t \<noteq> u @ d @ v"
    using tokens_without_delimiter [OF assms(1)] by (simp add: split_text_def)
  show "split_text s [] = map (\<lambda>c. [c]) s" using split_tokens_characters [of s] by (simp add: split_text_def)
  show "split_text (join_text ts d) d = (if ts = [[]] then [] else ts)"
    using split_tokens_join [of ts d] join_text_Nil [OF assms(1), of ts] assms by (auto simp: split_text_def)
qed

lemma split_join_roundtrip_witness:
  "split_text (join_text [''a'', [], ''b''] ''::'') ''::'' = [''a'', [], ''b'']"
  using split_join_roundtrip [of "''::''" "[''a'', [], ''b'']"] by simp

text \<open>Access to the bytes of a data value is checked at every index, on the value as it is and after
  a store, an append and a resize: an index at or past the size is an error, any other reads the
  byte the operation leaves there.\<close>

theorem data_access_checked:
  "data_at (data_append d bytes) i =
     (if i < data_size d then Inr (ds_bytes d ! i)
      else if i < data_size d + length bytes then Inr (bytes ! (i - data_size d))
      else Inl result_out_of_range) \<and>
   data_at (data_resize d n b) i =
     (if n \<le> i then Inl result_out_of_range else if i < data_size d then Inr (ds_bytes d ! i) else Inr b) \<and>
   (case data_set_at d j b of
      Inl e \<Rightarrow> e = result_out_of_range \<and> data_size d \<le> j
    | Inr d' \<Rightarrow> data_size d' = data_size d \<and> data_at d' i = (if i = j then Inr b else data_at d i))"
proof (intro conjI)
  show "data_at (data_append d bytes) i =
     (if i < data_size d then Inr (ds_bytes d ! i)
      else if i < data_size d + length bytes then Inr (bytes ! (i - data_size d))
      else Inl result_out_of_range)"
    by (auto simp: data_append_def data_at_def data_size_def nth_append)
  show "data_at (data_resize d n b) i =
     (if n \<le> i then Inl result_out_of_range else if i < data_size d then Inr (ds_bytes d ! i) else Inr b)"
    by (simp add: data_at_resize) (simp add: data_at_def data_size_def)
  show "case data_set_at d j b of
      Inl e \<Rightarrow> e = result_out_of_range \<and> data_size d \<le> j
    | Inr d' \<Rightarrow> data_size d' = data_size d \<and> data_at d' i = (if i = j then Inr b else data_at d i)"
    using data_at_set_at [of d j b _ i] by (auto simp: data_set_at_def data_size_def split: sum.split)
qed

end
