(* ===== verification/Errors.thy ===== *)
theory Errors
  imports Basic_Types Decimal "HOL-Library.Product_Lexorder"
begin

text \<open>
  The rest of \<open>class error\<close> (\<open>src/type/error.cpp\<close> and the templates of
  \<open>src/include/dross/type/error.h\<close>): how errors are made, compared and written. A category of
  \<open>std::error_code\<close> is an object of the standard library and goes by its name; the number an
  \<open>std::errc\<close> has, the condition a category gives a value by default and the order of the
  categories, which is that of their addresses, are parameters. No category of the program replaces
  what \<open>std::error_category\<close> does to compare a code with a condition.
\<close>

section \<open>Making errors\<close>

definition generic_category :: string where "generic_category = ''generic''"
definition system_category :: string where "system_category = ''system''"

definition error_default :: error where
  "error_default = \<lparr>er_value = 0, er_category = system_category, er_detail = None\<rparr>"

definition error_of :: "int \<Rightarrow> string \<Rightarrow> error" where
  "error_of v category = \<lparr>er_value = v, er_category = category, er_detail = None\<rparr>"

definition error_of_errc :: "(errc \<Rightarrow> int) \<Rightarrow> errc \<Rightarrow> error" where
  "error_of_errc errno e = \<lparr>er_value = errno e, er_category = generic_category, er_detail = None\<rparr>"

definition error_with_detail :: "(errc \<Rightarrow> int) \<Rightarrow> errc \<Rightarrow> string \<Rightarrow> error" where
  "error_with_detail errno e detail = \<lparr>er_value = errno e, er_category = generic_category, er_detail = Some detail\<rparr>"

definition error_code :: "error \<Rightarrow> int" where
  "error_code e = er_value e"

section \<open>Conditions\<close>

record error_condition =
  ec_value :: int
  ec_category :: string

type_synonym default_condition = "string \<Rightarrow> int \<Rightarrow> error_condition"

definition error_condition_of :: "default_condition \<Rightarrow> error \<Rightarrow> error_condition" where
  "error_condition_of defaults e = defaults (er_category e) (er_value e)"

text \<open>\<open>operator==\<close> of a code and a condition: either category may say they are equivalent, that of the
  code when the condition is its default, that of the condition when the code is its own and has
  its value.\<close>

definition error_equals_condition :: "default_condition \<Rightarrow> error \<Rightarrow> error_condition \<Rightarrow> bool" where
  "error_equals_condition defaults e c =
     (error_condition_of defaults e = c \<or> (ec_category c = er_category e \<and> er_value e = ec_value c))"

definition error_equals_errc :: "default_condition \<Rightarrow> (errc \<Rightarrow> int) \<Rightarrow> error \<Rightarrow> errc \<Rightarrow> bool" where
  "error_equals_errc defaults errno e x =
     error_equals_condition defaults e \<lparr>ec_value = errno x, ec_category = generic_category\<rparr>"

definition error_equals_category :: "error \<Rightarrow> string \<Rightarrow> bool" where
  "error_equals_category e c = (er_category e = c)"

section \<open>Order and text\<close>

definition error_compare :: "(string \<Rightarrow> nat) \<Rightarrow> error \<Rightarrow> error \<Rightarrow> weak_ordering" where
  "error_compare address e f =
     (case ordering_of (cmp3 (address (er_category e)) (address (er_category f))) of
        Equivalent \<Rightarrow> ordering_of (cmp3 (er_value e) (er_value f))
      | c \<Rightarrow> c)"

definition integer_digits :: "int \<Rightarrow> string" where
  "integer_digits k = (if k < 0 then ''-'' @ digits_of (nat (- k)) else digits_of (nat k))"

definition error_written :: "error \<Rightarrow> string" where
  "error_written e =
     error_domain e @ '':'' @ integer_digits (error_code e) @
     (if error_detail e = [] then [] else '': '' @ error_detail e)"

interpretation error_order: three_way "\<lambda>_. True" "\<lambda>e. (address (er_category e), er_value e)" "error_compare address"
  for address :: "string \<Rightarrow> nat"
  by unfold_locales (auto simp: error_compare_def compare_by_def ordering_of_def less_prod_def split: weak_ordering.splits)

section \<open>What comparing errors says\<close>

text \<open>The detail takes no part: errors that differ only in it are equal and order as equal, and each is
  equal to the \<open>std::errc\<close> it was made from and to no other, as numbers and categories are distinct.\<close>

lemma error_compare_equals:
  assumes "inj address"
  shows "error_compare address e f = Equivalent \<longleftrightarrow> error_equals e f"
  using error_order.compare_equivalent [of address e f] assms by (auto simp: error_equals_def inj_eq)

lemma error_with_detail_equals:
  assumes "inj errno" "\<And>v. defaults generic_category v = \<lparr>ec_value = v, ec_category = generic_category\<rparr>"
  shows "error_equals_errc defaults errno (error_with_detail errno x detail) y \<longleftrightarrow> x = y"
    and "error_equals (error_with_detail errno x detail) (error_of_errc errno y) \<longleftrightarrow> x = y"
  using assms(1)
  by (auto simp: error_equals_errc_def error_equals_condition_def error_condition_of_def error_with_detail_def
      error_of_errc_def error_equals_def assms(2) inj_eq)

text \<open>An error of no value is no error, and converts to false.\<close>

lemma error_default_bool: "\<not> error_bool error_default" "error_equals error_default (error_of 0 system_category)"
  by (simp_all add: error_bool_def error_default_def error_equals_def error_of_def)

text \<open>What is written begins with the domain and the code, and ends with the detail where there is one.\<close>

lemma error_written_parts:
  "error_written (error_of v category) = category @ '':'' @ integer_digits v"
  "detail \<noteq> [] \<Longrightarrow> error_written (error_with_detail errno x detail) = error_written (error_of_errc errno x) @ '': '' @ detail"
  by (simp_all add: error_written_def error_domain_def error_code_def error_detail_def error_of_def error_with_detail_def error_of_errc_def)

end
