(* ===== verification/Data_Iterators.thy ===== *)
theory Data_Iterators
  imports Basic_Types
begin

text \<open>
  The iterators of \<open>class data\<close> (\<open>src/type/data.cpp\<close>), which are pointers into the bytes: null, or a
  position, counted from the first byte. What the language leaves undefined, reading away from the
  bytes and moving a null pointer, gives nothing. A \<open>const_iterator\<close> does what an \<open>iterator\<close> does.
\<close>

section \<open>Iterators\<close>

datatype data_iterator = Null_pointer | Byte_at int

definition data_begin :: "data_storage \<Rightarrow> data_iterator" where
  "data_begin d = (if ds_bytes d = [] then Null_pointer else Byte_at 0)"

definition data_end :: "data_storage \<Rightarrow> data_iterator" where
  "data_end d = (if ds_bytes d = [] then Null_pointer else Byte_at (int (length (ds_bytes d))))"

definition data_iterator_read :: "data_storage \<Rightarrow> data_iterator \<Rightarrow> 8 word option" where
  "data_iterator_read d it =
     (case it of
        Null_pointer \<Rightarrow> None
      | Byte_at p \<Rightarrow> if 0 \<le> p \<and> p < int (length (ds_bytes d)) then Some (ds_bytes d ! nat p) else None)"

definition data_iterator_plus :: "data_iterator \<Rightarrow> int \<Rightarrow> data_iterator option" where
  "data_iterator_plus it n = (case it of Null_pointer \<Rightarrow> if n = 0 then Some Null_pointer else None | Byte_at p \<Rightarrow> Some (Byte_at (p + n)))"

definition data_iterator_minus :: "data_iterator \<Rightarrow> int \<Rightarrow> data_iterator option" where
  "data_iterator_minus it n = data_iterator_plus it (- n)"

definition data_iterator_index :: "data_storage \<Rightarrow> data_iterator \<Rightarrow> int \<Rightarrow> 8 word option" where
  "data_iterator_index d it n = Option.bind (data_iterator_plus it n) (data_iterator_read d)"

text \<open>The increments and decrements: what is returned, and the iterator after.\<close>

definition data_iterator_increment :: "data_iterator \<Rightarrow> (data_iterator \<times> data_iterator) option" where
  "data_iterator_increment it = map_option (\<lambda>it'. (it', it')) (data_iterator_plus it 1)"

definition data_iterator_post_increment :: "data_iterator \<Rightarrow> (data_iterator \<times> data_iterator) option" where
  "data_iterator_post_increment it = map_option (\<lambda>it'. (it, it')) (data_iterator_plus it 1)"

definition data_iterator_decrement :: "data_iterator \<Rightarrow> (data_iterator \<times> data_iterator) option" where
  "data_iterator_decrement it = map_option (\<lambda>it'. (it', it')) (data_iterator_minus it 1)"

definition data_iterator_post_decrement :: "data_iterator \<Rightarrow> (data_iterator \<times> data_iterator) option" where
  "data_iterator_post_decrement it = map_option (\<lambda>it'. (it, it')) (data_iterator_minus it 1)"

definition data_iterator_difference :: "data_iterator \<Rightarrow> data_iterator \<Rightarrow> int option" where
  "data_iterator_difference lhs rhs =
     (case (lhs, rhs) of
        (Byte_at p, Byte_at q) \<Rightarrow> Some (p - q)
      | (Null_pointer, Null_pointer) \<Rightarrow> Some 0
      | _ \<Rightarrow> None)"

definition data_iterator_equals :: "data_iterator \<Rightarrow> data_iterator \<Rightarrow> bool" where
  "data_iterator_equals lhs rhs = (lhs = rhs)"

definition data_iterator_compare :: "data_iterator \<Rightarrow> data_iterator \<Rightarrow> weak_ordering option" where
  "data_iterator_compare lhs rhs = map_option (\<lambda>n. ordering_of n) (data_iterator_difference lhs rhs)"

text \<open>\<open>d[i]\<close> of a \<open>data\<close> does not check the index.\<close>

definition data_index :: "data_storage \<Rightarrow> nat \<Rightarrow> 8 word option" where
  "data_index d index = (if index < length (ds_bytes d) then Some (ds_bytes d ! index) else None)"

section \<open>A loop over the bytes\<close>

text \<open>The loop a range-based \<open>for\<close> stands for, from an iterator to the end: the bytes it sees, or
  nothing where a step of it is undefined. It takes a step for each byte.\<close>

fun visit :: "nat \<Rightarrow> data_storage \<Rightarrow> data_iterator \<Rightarrow> 8 word list option" where
  "visit 0 d it = (if data_iterator_equals it (data_end d) then Some [] else None)"
| "visit (Suc steps) d it =
     (if data_iterator_equals it (data_end d) then Some []
      else case data_iterator_read d it of
          None \<Rightarrow> None
        | Some b \<Rightarrow> Option.bind (data_iterator_increment it) (\<lambda>(_, it'). map_option ((#) b) (visit steps d it')))"

lemma visit_from:
  "n \<le> length (ds_bytes d) \<Longrightarrow> ds_bytes d \<noteq> [] \<Longrightarrow> length (ds_bytes d) - n \<le> steps \<Longrightarrow>
    visit steps d (Byte_at (int n)) = Some (drop n (ds_bytes d))"
proof (induction steps arbitrary: n)
  case 0
  then show ?case by (simp add: data_iterator_equals_def data_end_def)
next
  case (Suc steps)
  show ?case
  proof (cases "n = length (ds_bytes d)")
    case True
    then show ?thesis using Suc.prems(2) by (simp add: data_iterator_equals_def data_end_def)
  next
    case False
    then have n: "n < length (ds_bytes d)" using Suc.prems(1) by simp
    then have "visit steps d (Byte_at (int (Suc n))) = Some (drop (Suc n) (ds_bytes d))"
      using Suc.prems by (intro Suc.IH) auto
    moreover have "drop n (ds_bytes d) = ds_bytes d ! n # drop (Suc n) (ds_bytes d)" using n by (rule Cons_nth_drop_Suc [symmetric])
    ultimately show ?thesis using n Suc.prems(2)
      by (simp add: data_iterator_equals_def data_end_def data_iterator_read_def data_iterator_increment_def data_iterator_plus_def add.commute)
  qed
qed

text \<open>The loop from the beginning sees every byte in order, and ends, also where there are none and
  both iterators are null; the iterators are apart by the size; and an iterator reads with an index
  what \<open>at()\<close> gives.\<close>

lemma visit_all: "visit (data_size d) d (data_begin d) = Some (ds_bytes d)"
proof (cases "ds_bytes d = []")
  case True
  then show ?thesis by (simp add: data_begin_def data_end_def data_size_def data_iterator_equals_def)
next
  case False
  then show ?thesis using visit_from [of 0 d "data_size d"] by (simp add: data_begin_def data_size_def)
qed

lemma begin_end:
  "data_iterator_difference (data_end d) (data_begin d) = Some (int (data_size d))"
  "data_iterator_plus (data_begin d) (int (data_size d)) = Some (data_end d)"
  by (simp_all add: data_iterator_difference_def data_iterator_plus_def data_begin_def data_end_def data_size_def)

lemma index_at: "data_iterator_index d (data_begin d) (int i) = data_index d i \<and> (data_index d i = None \<longleftrightarrow> data_at d i = Inl result_out_of_range)"
  by (auto simp: data_iterator_index_def data_iterator_plus_def data_iterator_read_def data_begin_def data_index_def data_at_def)

lemma plus_difference: "data_iterator_plus it n = Some it' \<Longrightarrow> data_iterator_difference it' it = Some n"
  by (auto simp: data_iterator_plus_def data_iterator_difference_def split: data_iterator.splits if_splits)

end
