(* ===== verification/Timezone.thy ===== *)
theory Timezone
  imports Decimal
begin

text \<open>
  \<open>class timezone\<close> (\<open>src/type/timezone.cpp\<close>): an offset from UTC in minutes, at most 23:59
  either side. A timezone is its offset, its text reads back, and what is out of range falls
  back to UTC or is refused.
\<close>

section \<open>Printing numbers of a fixed width\<close>

text \<open>\<open>std::setfill('0') << std::setw(w) << n\<close>: at least \<open>w\<close> digits.\<close>

definition setw :: "nat \<Rightarrow> nat \<Rightarrow> string" where
  "setw w n = (let d = digits_of n in replicate (w - length d) (CHR ''0'') @ d)"

lemma setw_props: "all_digits (setw w n)" "dval (setw w n) = int n"
  by (auto simp: setw_def Let_def dval_append)

lemma length_digits_of_le: "n < 10 ^ w \<Longrightarrow> 0 < w \<Longrightarrow> length (digits_of n) \<le> w"
proof (induction w arbitrary: n)
  case 0
  then show ?case by simp
next
  case (Suc w)
  show ?case
  proof (cases "n < 10")
    case True
    then show ?thesis by (subst digits_of.simps) simp
  next
    case False
    then have "0 < w" using Suc.prems by (cases w) auto
    moreover have "n div 10 < 10 ^ w" using Suc.prems by (simp add: less_mult_imp_div_less mult.commute)
    ultimately show ?thesis using Suc.IH [of "n div 10"] False by (subst digits_of.simps) simp
  qed
qed

lemma length_setw: "n < 10 ^ w \<Longrightarrow> 0 < w \<Longrightarrow> length (setw w n) = w"
  using length_digits_of_le [of n w] by (simp add: setw_def Let_def)

lemma setw_2: "n < 100 \<Longrightarrow> \<exists>a b. setw 2 n = [a, b] \<and> is_digit a \<and> is_digit b \<and> 10 * digit a + digit b = int n"
proof -
  assume n: "n < 100"
  then have "length (setw 2 n) = 2" by (intro length_setw) simp_all
  then obtain a b where ab: "setw 2 n = [a, b]"
    by (auto simp: length_Suc_conv numeral_2_eq_2)
  then show ?thesis using setw_props [of 2 n] by (auto simp: dval_Cons)
qed

section \<open>The timezone\<close>

record timezone =
  tz_offset_minutes :: int

definition max_offset :: int where
  "max_offset = 23 * 60 + 59"

definition in_range :: "int \<Rightarrow> bool" where
  "in_range offset = (- max_offset \<le> offset \<and> offset \<le> max_offset)"

definition timezone_utc :: timezone where
  "timezone_utc = \<lparr>tz_offset_minutes = 0\<rparr>"

definition timezone_offset_minutes :: "int \<Rightarrow> timezone" where
  "timezone_offset_minutes offset_duration =
     (if \<not> in_range offset_duration then timezone_utc
      else \<lparr>tz_offset_minutes = offset_duration\<rparr>)"

definition timezone_offset :: "int \<Rightarrow> int \<Rightarrow> timezone" where
  "timezone_offset hours minutes =
     (if minutes < 0 \<or> minutes > 59 then timezone_utc
      else let total = \<bar>hours * 60\<bar> + minutes
           in timezone_offset_minutes (if hours < 0 then - total else total))"

text \<open>The match of \<open>^([+-])(\d{1,2}):?(\d{2})$\<close>: the sign, the hours and the minutes.\<close>

definition match_offset :: "string \<Rightarrow> (char \<times> string \<times> string) option" where
  "match_offset s =
     (case s of
        [sign, a, b, c, d, e] \<Rightarrow>
          if (sign = CHR ''+'' \<or> sign = CHR ''-'') \<and> all_digits [a, b] \<and> c = CHR '':'' \<and> all_digits [d, e]
          then Some (sign, [a, b], [d, e]) else None
      | [sign, a, b, c, d] \<Rightarrow>
          if (sign = CHR ''+'' \<or> sign = CHR ''-'') \<and> all_digits [a, b, c, d]
          then Some (sign, [a, b], [c, d])
          else if (sign = CHR ''+'' \<or> sign = CHR ''-'') \<and> is_digit a \<and> b = CHR '':'' \<and> all_digits [c, d]
          then Some (sign, [a], [c, d]) else None
      | [sign, a, b, c] \<Rightarrow>
          if (sign = CHR ''+'' \<or> sign = CHR ''-'') \<and> all_digits [a, b, c]
          then Some (sign, [a], [b, c]) else None
      | _ \<Rightarrow> None)"

definition timezone_from_string :: "string \<Rightarrow> timezone option" where
  "timezone_from_string tz_str =
     (if tz_str = ''Z'' \<or> tz_str = ''z'' then Some timezone_utc
      else case match_offset tz_str of
        Some (sign, h, m) \<Rightarrow>
          let hours = dval h; minutes = dval m
          in if minutes > 59 then None
             else let total_minutes = hours * 60 + minutes;
                      total_minutes = (if sign = CHR ''-'' then - total_minutes else total_minutes)
                  in if \<not> in_range total_minutes then None
                     else Some \<lparr>tz_offset_minutes = total_minutes\<rparr>
      | None \<Rightarrow> None)"

definition timezone_is_utc :: "timezone \<Rightarrow> bool" where
  "timezone_is_utc tz = (tz_offset_minutes tz = 0)"

definition timezone_format :: "timezone \<Rightarrow> string" where
  "timezone_format tz =
     (let offset = tz_offset_minutes tz
      in if offset = 0 then ''Z''
         else let sign = (if offset \<ge> 0 then CHR ''+'' else CHR ''-'');
                  abs_offset = nat \<bar>offset\<bar>;
                  hours = abs_offset div 60;
                  minutes = abs_offset mod 60
              in [sign] @ setw 2 hours @ '':'' @ setw 2 minutes)"

definition timezone_compare :: "timezone \<Rightarrow> timezone \<Rightarrow> weak_ordering" where
  "timezone_compare tz other = ordering_of (cmp3 (tz_offset_minutes tz) (tz_offset_minutes other))"

definition timezone_ok :: "timezone \<Rightarrow> bool" where
  "timezone_ok tz \<longleftrightarrow> in_range (tz_offset_minutes tz)"

interpretation timezone_order: three_way "\<lambda>_. True" tz_offset_minutes timezone_compare
  by unfold_locales (simp add: timezone_compare_def ordering_of_cmp3 compare_by_def)

lemma timezone_utc_ok [simp]: "timezone_ok timezone_utc"
  by (simp add: timezone_ok_def timezone_utc_def in_range_def max_offset_def)

lemma timezone_offset_ok: "timezone_ok (timezone_offset h m)" "timezone_ok (timezone_offset_minutes n)"
  by (auto simp: timezone_offset_def timezone_offset_minutes_def timezone_ok_def timezone_utc_def
      in_range_def max_offset_def Let_def)

lemma timezone_from_string_ok: "timezone_from_string s = Some tz \<Longrightarrow> timezone_ok tz"
  by (auto simp: timezone_from_string_def timezone_ok_def Let_def split: if_splits option.splits prod.splits)
    (simp_all add: timezone_utc_def in_range_def max_offset_def)

text \<open>The offset that hours and minutes give extends away from UTC.\<close>

lemma timezone_offset_value:
  "0 \<le> m \<Longrightarrow> m \<le> 59 \<Longrightarrow> \<bar>h\<bar> \<le> 23 \<Longrightarrow>
    tz_offset_minutes (timezone_offset h m) = (if h < 0 then h * 60 - m else h * 60 + m)"
  by (auto simp: timezone_offset_def timezone_offset_minutes_def in_range_def max_offset_def Let_def)

text \<open>The text of a timezone is \<open>Z\<close>, or a sign and hours and minutes of two digits.\<close>

lemma timezone_format_cases:
  assumes "timezone_ok tz"
  shows "timezone_format tz = ''Z'' \<and> tz = timezone_utc \<or>
    (\<exists>sign a b c d. timezone_format tz = [sign, a, b, CHR '':'', c, d] \<and>
      (sign = CHR ''+'' \<or> sign = CHR ''-'') \<and> all_digits [a, b, c, d] \<and> 10 * digit c + digit d \<le> 59 \<and>
      tz_offset_minutes tz = (if sign = CHR ''-'' then - 1 else 1) *
        ((10 * digit a + digit b) * 60 + (10 * digit c + digit d)))"
proof (cases "tz_offset_minutes tz = 0")
  case True
  then show ?thesis by (simp add: timezone_format_def timezone_utc_def)
next
  case False
  define n where "n = nat \<bar>tz_offset_minutes tz\<bar>"
  have "n < 1440" using assms by (auto simp: n_def timezone_ok_def in_range_def max_offset_def)
  then have "n div 60 < 100" "n mod 60 < 100" by auto
  then obtain a b c d where s: "setw 2 (n div 60) = [a, b]" "is_digit a" "is_digit b" "10 * digit a + digit b = int (n div 60)"
    "setw 2 (n mod 60) = [c, d]" "is_digit c" "is_digit d" "10 * digit c + digit d = int (n mod 60)"
    using setw_2 [of "n div 60"] setw_2 [of "n mod 60"] by blast
  have "int n = (10 * digit a + digit b) * 60 + (10 * digit c + digit d)"
    unfolding s(4,8) by (metis div_mult_mod_eq of_nat_add of_nat_mult of_nat_numeral)
  moreover have "10 * digit c + digit d \<le> 59" unfolding s(8) by simp
  ultimately have v: "int n = (10 * digit a + digit b) * 60 + (10 * digit c + digit d)"
    "10 * digit c + digit d \<le> 59" by blast+
  define sign where "sign = (if tz_offset_minutes tz \<ge> 0 then CHR ''+'' else CHR ''-'')"
  have "timezone_format tz = [sign, a, b, CHR '':'', c, d]"
    using False s(1,5) by (simp add: timezone_format_def Let_def n_def [symmetric] sign_def)
  moreover have "tz_offset_minutes tz = (if sign = CHR ''-'' then - 1 else 1) * int n"
    by (simp add: sign_def n_def)
  moreover have "sign = CHR ''+'' \<or> sign = CHR ''-''" by (simp add: sign_def)
  ultimately show ?thesis using s(2,3,6,7) v(2) unfolding v(1) by auto
qed

lemma timezone_roundtrip:
  assumes "timezone_ok tz"
  shows "timezone_from_string (timezone_format tz) = Some tz"
  using timezone_format_cases [OF assms]
proof
  assume "timezone_format tz = ''Z'' \<and> tz = timezone_utc"
  then have f: "timezone_format tz = ''Z''" and tz: "tz = timezone_utc" by blast+
  show ?thesis unfolding f by (simp add: timezone_from_string_def tz)
next
  assume "\<exists>sign a b c d. timezone_format tz = [sign, a, b, CHR '':'', c, d] \<and>
      (sign = CHR ''+'' \<or> sign = CHR ''-'') \<and> all_digits [a, b, c, d] \<and> 10 * digit c + digit d \<le> 59 \<and>
      tz_offset_minutes tz = (if sign = CHR ''-'' then - 1 else 1) *
        ((10 * digit a + digit b) * 60 + (10 * digit c + digit d))"
  then obtain sign a b c d where f: "timezone_format tz = [sign, a, b, CHR '':'', c, d]"
    "sign = CHR ''+'' \<or> sign = CHR ''-''" "all_digits [a, b, c, d]" "10 * digit c + digit d \<le> 59"
    "tz_offset_minutes tz = (if sign = CHR ''-'' then - 1 else 1) *
        ((10 * digit a + digit b) * 60 + (10 * digit c + digit d))" by blast
  define v where "v = (10 * digit a + digit b) * 60 + (10 * digit c + digit d)"
  have dv: "dval [a, b] = 10 * digit a + digit b" "dval [c, d] = 10 * digit c + digit d"
    by (simp_all add: dval_Cons)
  have hv: "dval [a, b] * 60 + dval [c, d] = v" by (simp add: dv v_def)
  have m59: "\<not> 59 < dval [c, d]" using f(4) by (simp add: dv)
  have r: "in_range (if sign = CHR ''-'' then - v else v)"
    using assms f(2,5) by (auto simp: timezone_ok_def v_def)
  have "match_offset (timezone_format tz) = Some (sign, [a, b], [c, d])"
    using f(2,3) by (auto simp: match_offset_def f(1))
  moreover have "timezone_format tz \<noteq> ''Z''" "timezone_format tz \<noteq> ''z''" by (simp_all add: f(1))
  moreover have "tz = \<lparr>tz_offset_minutes = (if sign = CHR ''-'' then - v else v)\<rparr>"
    using f(5) by (auto simp: v_def)
  ultimately show ?thesis
    unfolding timezone_from_string_def using r m59 by (simp add: hv Let_def)
qed

end
