(* ===== verification/Calendar.thy ===== *)
theory Calendar
  imports Prelude
begin

text \<open>
  The part of \<open>std::chrono\<close> the timestamps use: the civil calendar. A date of the proleptic
  Gregorian calendar is a number of days since 1970-01-01 (\<open>std::chrono::sys_days\<close>), a number
  of days is a date (\<open>std::chrono::year_month_day\<close>), and the two are inverse.
\<close>

section \<open>Dates\<close>

record civil =
  c_year :: int
  c_month :: int
  c_day :: int

definition is_leap :: "int \<Rightarrow> bool" where
  "is_leap y = (y mod 4 = 0 \<and> (y mod 100 \<noteq> 0 \<or> y mod 400 = 0))"

definition days_in_month :: "int \<Rightarrow> int \<Rightarrow> int" where
  "days_in_month y m =
     (if m = 2 then (if is_leap y then 29 else 28)
      else if m = 4 \<or> m = 6 \<or> m = 9 \<or> m = 11 then 30 else 31)"

text \<open>\<open>year_month_day::ok()\<close>\<close>

definition civil_ok :: "civil \<Rightarrow> bool" where
  "civil_ok c \<longleftrightarrow> 1 \<le> c_month c \<and> c_month c \<le> 12 \<and> 1 \<le> c_day c \<and>
     c_day c \<le> days_in_month (c_year c) (c_month c)"

text \<open>The days from 0000-01-01 to the first day of a year.\<close>

definition days_before_year :: "int \<Rightarrow> int" where
  "days_before_year y = 365 * y + (y + 3) div 4 - (y + 99) div 100 + (y + 399) div 400"

text \<open>The days of a year before the first day of a month.\<close>

definition days_before_month :: "bool \<Rightarrow> int \<Rightarrow> int" where
  "days_before_month leap m =
     (if m \<le> 1 then 0 else if m = 2 then 31
      else (if leap then 1 else 0) +
        (if m = 3 then 59 else if m = 4 then 90 else if m = 5 then 120 else if m = 6 then 151
         else if m = 7 then 181 else if m = 8 then 212 else if m = 9 then 243
         else if m = 10 then 273 else if m = 11 then 304 else 334))"

definition epoch_days :: int where
  "epoch_days = 719528"

definition sys_days :: "civil \<Rightarrow> int" where
  "sys_days c = days_before_year (c_year c) + days_before_month (is_leap (c_year c)) (c_month c)
     + c_day c - 1 - epoch_days"

text \<open>The year of a day: an estimate from the length of 400 years, which is off by at most one.\<close>

definition year_of_day :: "int \<Rightarrow> int" where
  "year_of_day n =
     (let y = n * 400 div 146097
      in if n < days_before_year y then y - 1
         else if days_before_year (y + 1) \<le> n then y + 1 else y)"

definition month_of_day :: "bool \<Rightarrow> int \<Rightarrow> int" where
  "month_of_day leap n =
     (if n < days_before_month leap 2 then 1 else if n < days_before_month leap 3 then 2
      else if n < days_before_month leap 4 then 3 else if n < days_before_month leap 5 then 4
      else if n < days_before_month leap 6 then 5 else if n < days_before_month leap 7 then 6
      else if n < days_before_month leap 8 then 7 else if n < days_before_month leap 9 then 8
      else if n < days_before_month leap 10 then 9 else if n < days_before_month leap 11 then 10
      else if n < days_before_month leap 12 then 11 else 12)"

definition civil_of_days :: "int \<Rightarrow> civil" where
  "civil_of_days days =
     (let n = days + epoch_days; y = year_of_day n; r = n - days_before_year y;
          m = month_of_day (is_leap y) r
      in \<lparr>c_year = y, c_month = m, c_day = r - days_before_month (is_leap y) m + 1\<rparr>)"

section \<open>Years\<close>

lemma div_step:
  fixes y d :: int
  assumes "0 < d"
  shows "(y + d) div d = (y + (d - 1)) div d + (if y mod d = 0 then 1 else 0)"
proof -
  define q r where "q = y div d" and "r = y mod d"
  have y: "y = d * q + r" and r: "0 \<le> r" "r < d" using assms by (simp_all add: q_def r_def)
  have "(y + d) div d = q + 1"
    by (rule int_div_pos_eq [of _ _ _ r]) (use y r in \<open>simp_all add: algebra_simps\<close>)
  moreover have "(y + (d - 1)) div d = q" if "r = 0"
    by (rule int_div_pos_eq [of _ _ _ "d - 1"]) (use y r that in simp_all)
  moreover have "(y + (d - 1)) div d = q + 1" if "r \<noteq> 0"
    by (rule int_div_pos_eq [of _ _ _ "r - 1"]) (use y r that in \<open>simp_all add: algebra_simps\<close>)
  ultimately show ?thesis by (simp add: r_def [symmetric])
qed

lemma div_bounds: "0 < d \<Longrightarrow> d * (x div d) \<le> x \<and> x < d * (x div d) + (d :: int)"
  using mult_div_mod_eq [of d x] pos_mod_bound [of d x] pos_mod_sign [of d x] by linarith

lemma month_cases:
  assumes "1 \<le> m" "m \<le> (12 :: int)"
  obtains "m = 1" | "m = 2" | "m = 3" | "m = 4" | "m = 5" | "m = 6" | "m = 7" | "m = 8"
    | "m = 9" | "m = 10" | "m = 11" | "m = 12"
proof -
  have "m \<in> set [1..12]" using assms by simp
  moreover have "[1..12] = [1, 2, 3, 4, 5, 6, 7, 8, 9, 10, 11, 12 :: int]" by code_simp
  ultimately show thesis using that by (simp only:) auto
qed

lemma mod_0_trans: "d dvd e \<Longrightarrow> y mod e = 0 \<Longrightarrow> y mod d = (0 :: int)"
  using dvd_trans by (auto simp: mod_eq_0_iff_dvd)

lemma leap_count:
  assumes "m400 \<Longrightarrow> m100" "m100 \<Longrightarrow> m4"
  shows "365 * (y + 1) + (a + (if m4 then 1 else 0)) - (b + (if m100 then 1 else 0)) +
      (c + (if m400 then 1 else 0)) =
    365 * y + a - b + c + (if m4 \<and> (\<not> m100 \<or> m400) then 366 else (365 :: int))"
  using assms by auto

lemma days_before_year_Suc:
  "days_before_year (y + 1) = days_before_year y + (if is_leap y then 366 else 365)"
proof -
  have c: "(4::int) - 1 = 3" "(100::int) - 1 = 99" "(400::int) - 1 = 399"
    "y + 1 + 3 = y + 4" "y + 1 + 99 = y + 100" "y + 1 + 399 = y + 400" by simp_all
  note d = div_step [of 4 y, OF zero_less_numeral, unfolded c]
    div_step [of 100 y, OF zero_less_numeral, unfolded c]
    div_step [of 400 y, OF zero_less_numeral, unfolded c]
  have m: "y mod 400 = 0 \<Longrightarrow> y mod 100 = 0" by (rule mod_0_trans [of 100 400]) simp_all
  have n: "y mod 100 = 0 \<Longrightarrow> y mod 4 = 0" by (rule mod_0_trans [of 4 100]) simp_all
  show ?thesis
    unfolding days_before_year_def is_leap_def c d by (rule leap_count) (erule m, erule n)
qed

lemma days_before_year_less: "y < z \<Longrightarrow> days_before_year y + 365 * (z - y) \<le> days_before_year z"
proof (induction "nat (z - y)" arbitrary: z)
  case 0
  then show ?case by simp
next
  case (Suc n)
  have step: "days_before_year (z - 1) + 365 \<le> days_before_year z"
    using days_before_year_Suc [of "z - 1"] by simp
  show ?case
  proof (cases "y < z - 1")
    case True
    then have "days_before_year y + 365 * (z - 1 - y) \<le> days_before_year (z - 1)"
      using Suc by (intro Suc.hyps) auto
    with step show ?thesis by (simp add: algebra_simps)
  next
    case False
    then have "y = z - 1" using Suc.prems by simp
    with step show ?thesis by simp
  qed
qed

lemma year_unique:
  assumes "days_before_year y \<le> n" "n < days_before_year (y + 1)"
    and "days_before_year z \<le> n" "n < days_before_year (z + 1)"
  shows "y = z"
proof (rule ccontr)
  assume "y \<noteq> z"
  then consider "y < z" | "z < y" by linarith
  then show False
  proof cases
    case 1
    then have "days_before_year (y + 1) \<le> days_before_year z"
      using days_before_year_less [of "y + 1" z] by (cases "y + 1 = z") auto
    with assms show False by simp
  next
    case 2
    then have "days_before_year (z + 1) \<le> days_before_year y"
      using days_before_year_less [of "z + 1" y] by (cases "z + 1 = y") auto
    with assms show False by simp
  qed
qed

lemma days_before_year_estimate:
  "400 * days_before_year y \<le> 146097 * y + 400 * 365 " "146097 * y - 400 * 300 \<le> 400 * days_before_year y"
proof -
  define a b c where "a = (y + 3) div 4" and "b = (y + 99) div 100" and "c = (y + 399) div 400"
  have "4 * a \<le> y + 3" "y \<le> 4 * a" "100 * b \<le> y + 99" "y \<le> 100 * b" "400 * c \<le> y + 399" "y \<le> 400 * c"
    using div_bounds [of 4 "y + 3"] div_bounds [of 100 "y + 99"] div_bounds [of 400 "y + 399"]
    unfolding a_def b_def c_def by simp_all
  note b = this
  have e: "400 * days_before_year y = 400 * (365 * y + a - b + c)"
    by (simp add: days_before_year_def a_def b_def c_def)
  show "400 * days_before_year y \<le> 146097 * y + 400 * 365 " unfolding e using b by (simp add: algebra_simps)
  show "146097 * y - 400 * 300 \<le> 400 * days_before_year y" unfolding e using b by (simp add: algebra_simps)
qed

lemma year_of_day:
  "days_before_year (year_of_day n) \<le> n" "n < days_before_year (year_of_day n + 1)"
proof -
  define y where "y = n * 400 div 146097"
  have y: "146097 * y \<le> n * 400" "n * 400 < 146097 * y + 146097" 
    using div_bounds [of 146097 "n * 400"] unfolding y_def by simp_all
  have below: "days_before_year (y - 1) \<le> n"
    using days_before_year_estimate(1) [of "y - 1"] y by (simp add: algebra_simps)
  have above: "n < days_before_year (y + 2)"
    using days_before_year_estimate(2) [of "y + 2"] y by (simp add: algebra_simps)
  have "year_of_day n = (if n < days_before_year y then y - 1
      else if days_before_year (y + 1) \<le> n then y + 1 else y)"
    by (simp add: year_of_day_def y_def Let_def)
  then show "days_before_year (year_of_day n) \<le> n" "n < days_before_year (year_of_day n + 1)"
    using below above by (auto simp: add.commute)
qed

lemma year_of_day_eq:
  "days_before_year y \<le> n \<Longrightarrow> n < days_before_year (y + 1) \<Longrightarrow> year_of_day n = y"
  using year_unique year_of_day by blast

section \<open>The bijection\<close>

lemma month_of_day:
  assumes r: "0 \<le> r" "r < (if is_leap y then 366 else 365)" and m: "m = month_of_day (is_leap y) r"
  shows "1 \<le> m \<and> m \<le> 12 \<and> days_before_month (is_leap y) m \<le> r \<and>
    r < days_before_month (is_leap y) m + days_in_month y m"
proof (cases "is_leap y")
  case True
  then show ?thesis
    using m r unfolding month_of_day_def days_before_month_def days_in_month_def
    by (simp split: if_splits)
next
  case False
  then show ?thesis
    using m r unfolding month_of_day_def days_before_month_def days_in_month_def
    by (simp split: if_splits)
qed

lemma month_of_day_eq:
  assumes "1 \<le> m" "m \<le> 12" "0 \<le> d" "d < days_in_month y m"
  shows "month_of_day (is_leap y) (days_before_month (is_leap y) m + d) = m"
proof -
  show ?thesis
    using assms(3,4) by (cases rule: month_cases [OF assms(1,2)]) (auto simp: month_of_day_def days_before_month_def days_in_month_def)
qed

lemma days_of_year_bound:
  assumes "1 \<le> m" "m \<le> 12" "0 \<le> d" "d < days_in_month y m"
  shows "0 \<le> days_before_month (is_leap y) m + d" "days_before_month (is_leap y) m + d < (if is_leap y then 366 else 365)"
proof -
  show "0 \<le> days_before_month (is_leap y) m + d" "days_before_month (is_leap y) m + d < (if is_leap y then 366 else 365)"
    using assms(3,4) by (cases rule: month_cases [OF assms(1,2)]; auto simp: days_before_month_def days_in_month_def)+
qed

lemma civil_of_days_sys_days:
  assumes "civil_ok c"
  shows "civil_of_days (sys_days c) = c"
proof -
  define y m d where "y = c_year c" and "m = c_month c" and "d = c_day c - 1"
  have md: "1 \<le> m" "m \<le> 12" "0 \<le> d" "d < days_in_month y m"
    using assms by (simp_all add: civil_ok_def y_def m_def d_def)
  define n where "n = sys_days c + epoch_days"
  have n: "n = days_before_year y + (days_before_month (is_leap y) m + d)"
    by (simp add: n_def sys_days_def y_def m_def d_def)
  have "year_of_day n = y"
    using days_of_year_bound [OF md] days_before_year_Suc [of y]
    by (intro year_of_day_eq) (simp_all add: n split: if_splits)
  moreover have "month_of_day (is_leap y) (n - days_before_year y) = m"
    using month_of_day_eq [OF md] by (simp add: n)
  ultimately show ?thesis
    by (simp add: civil_of_days_def Let_def n_def [symmetric]) (simp add: n y_def m_def d_def)
qed

lemma civil_of_days_ok: "civil_ok (civil_of_days days)"
  and sys_days_civil_of_days: "sys_days (civil_of_days days) = days"
proof -
  define n where "n = days + epoch_days"
  define y where "y = year_of_day n"
  define r where "r = n - days_before_year y"
  have r: "0 \<le> r" "r < (if is_leap y then 366 else 365)"
    using year_of_day [of n] days_before_year_Suc [of y] by (auto simp: r_def y_def split: if_splits)
  have c: "civil_of_days days = \<lparr>c_year = y, c_month = month_of_day (is_leap y) r,
      c_day = r - days_before_month (is_leap y) (month_of_day (is_leap y) r) + 1\<rparr>"
    by (simp add: civil_of_days_def Let_def n_def y_def r_def)
  show "civil_ok (civil_of_days days)"
    using month_of_day [OF r refl] by (auto simp: c civil_ok_def)
  show "sys_days (civil_of_days days) = days"
    by (simp add: c sys_days_def r_def n_def)
qed

lemma civil_year_of_days:
  "civil_ok c \<Longrightarrow> y \<le> c_year c \<longleftrightarrow> days_before_year y - epoch_days \<le> sys_days c"
proof -
  assume "civil_ok c"
  then have md: "1 \<le> c_month c" "c_month c \<le> 12" "0 \<le> c_day c - 1" "c_day c - 1 < days_in_month (c_year c) (c_month c)"
    by (simp_all add: civil_ok_def)
  note b = days_of_year_bound [OF md]
  have lo: "days_before_year (c_year c) - epoch_days \<le> sys_days c"
    and hi: "sys_days c < days_before_year (c_year c + 1) - epoch_days"
    using b days_before_year_Suc [of "c_year c"] by (auto simp: sys_days_def split: if_splits)
  show ?thesis
  proof
    assume "y \<le> c_year c"
    then have "days_before_year y \<le> days_before_year (c_year c)"
      using days_before_year_less [of y "c_year c"] by (cases "y = c_year c") auto
    with lo show "days_before_year y - epoch_days \<le> sys_days c" by simp
  next
    assume "days_before_year y - epoch_days \<le> sys_days c"
    with hi have "days_before_year y < days_before_year (c_year c + 1)" by simp
    then show "y \<le> c_year c"
      using days_before_year_less [of "c_year c + 1" y] by (cases "y = c_year c + 1") force+
  qed
qed

end
