(* ===== verification/Timestamp.thy ===== *)
theory Timestamp
  imports Timezone Calendar Basic_Types
begin

text \<open>
  \<open>class timestamp\<close> (\<open>src/type/timestamp.cpp\<close>): a civil date of the years 0 to 9999, the
  nanoseconds since midnight, and a timezone. Durations of the code are integers with a bound
  of 64 bits, which is written out where the code compares against it. The duration of
  \<open>std::chrono::system_clock\<close> is a choice of the standard library: the operations that use it
  take the nanoseconds of one tick as a parameter.

  \<open>format(const std::string&)\<close> hands its text to \<open>std::put_time\<close>, which is not modelled; the
  expansion of the conversions before that is.
\<close>

section \<open>Durations\<close>

definition ns_per_second :: int where
  "ns_per_second = 10 ^ 9"

definition seconds_max :: int where "seconds_max = 2 ^ 63 - 1"
definition seconds_min :: int where "seconds_min = - (2 ^ 63)"
definition clock_max :: int where "clock_max = 2 ^ 63 - 1"
definition clock_min :: int where "clock_min = - (2 ^ 63)"

text \<open>The first second of year 0, and the one after the last of year 9999, since the epoch.\<close>

definition first_second :: int where
  "first_second = sys_days \<lparr>c_year = 0, c_month = 1, c_day = 1\<rparr> * 86400"

definition end_second :: int where
  "end_second = sys_days \<lparr>c_year = 10000, c_month = 1, c_day = 1\<rparr> * 86400"

text \<open>A duration of units of \<open>u\<close> seconds, in seconds.\<close>

definition in_seconds :: "int \<Rightarrow> int \<Rightarrow> int option" where
  "in_seconds u duration =
     (if duration > tdiv seconds_max u \<or> duration < tdiv seconds_min u then None
      else Some (duration * u))"

definition with_the_same_sign :: "int \<Rightarrow> int \<Rightarrow> int \<times> int" where
  "with_the_same_sign seconds subseconds =
     (if seconds < 0 \<and> subseconds > 0 then (seconds + 1, subseconds - ns_per_second)
      else if seconds > 0 \<and> subseconds < 0 then (seconds - 1, subseconds + ns_per_second)
      else (seconds, subseconds))"

definition ticks_per_second :: "int \<Rightarrow> int" where
  "ticks_per_second tick = ns_per_second div tick"

definition in_clock_duration :: "int \<Rightarrow> int \<Rightarrow> int \<Rightarrow> int option" where
  "in_clock_duration tick seconds subseconds =
     (let max_seconds = tdiv clock_max (ticks_per_second tick);
          min_seconds = tdiv clock_min (ticks_per_second tick)
      in if seconds > max_seconds \<or> seconds < min_seconds then None
         else let whole = seconds * ticks_per_second tick
              in if (whole > 0 \<and> subseconds > clock_max - whole) \<or> (whole < 0 \<and> subseconds < clock_min - whole)
                 then None else Some (whole + subseconds))"

section \<open>The timestamp\<close>

record timestamp =
  ts_date :: civil
  ts_timezone :: timezone
  ts_since_midnight :: int

definition date_default :: civil where
  "date_default = \<lparr>c_year = 1970, c_month = 1, c_day = 1\<rparr>"

definition timestamp_default :: timestamp where
  "timestamp_default = \<lparr>ts_date = date_default, ts_timezone = timezone_utc, ts_since_midnight = 0\<rparr>"

definition year_digits :: "int \<Rightarrow> string" where
  "year_digits year = setw 4 (nat year)"

definition date_text :: "civil \<Rightarrow> string" where
  "date_text d = year_digits (c_year d) @ ''-'' @ setw 2 (nat (c_month d)) @ ''-'' @ setw 2 (nat (c_day d))"

definition date_compare :: "civil \<Rightarrow> civil \<Rightarrow> weak_ordering" where
  "date_compare d other = ordering_of (cmp3 (sys_days d) (sys_days other))"

definition time_hour :: "int \<Rightarrow> int" where
  "time_hour since_midnight = since_midnight div (3600 * ns_per_second)"

definition time_minute :: "int \<Rightarrow> int" where
  "time_minute since_midnight = since_midnight div (60 * ns_per_second) mod 60"

definition time_second :: "int \<Rightarrow> int" where
  "time_second since_midnight = since_midnight div ns_per_second mod 60"

definition total_seconds :: "int \<Rightarrow> int" where
  "total_seconds since_midnight = since_midnight div ns_per_second"

definition time_text :: "int \<Rightarrow> string" where
  "time_text t = setw 2 (nat (time_hour t)) @ '':'' @ setw 2 (nat (time_minute t)) @ '':'' @ setw 2 (nat (time_second t))"

text \<open>\<open>%Y\<close> and \<open>%F\<close> are written out; any other conversion stays.\<close>

fun expand_date_conversions :: "string \<Rightarrow> civil \<Rightarrow> string" where
  "expand_date_conversions [] date = []"
| "expand_date_conversions [c] date = [c]"
| "expand_date_conversions (c # conversion # format) date =
     (if c \<noteq> CHR ''%'' then c # expand_date_conversions (conversion # format) date
      else if conversion = CHR ''Y'' then year_digits (c_year date) @ expand_date_conversions format date
      else if conversion = CHR ''F'' then date_text date @ expand_date_conversions format date
      else CHR ''%'' # conversion # expand_date_conversions format date)"

definition local_seconds :: "timestamp \<Rightarrow> int" where
  "local_seconds t = sys_days (ts_date t) * 86400 + ts_since_midnight t div ns_per_second"

definition subseconds :: "timestamp \<Rightarrow> int" where
  "subseconds t = ts_since_midnight t - (ts_since_midnight t div ns_per_second) * ns_per_second"

definition instant :: "timestamp \<Rightarrow> int \<times> int" where
  "instant t = (local_seconds t - tz_offset_minutes (ts_timezone t) * 60, subseconds t)"

definition set_local :: "timestamp \<Rightarrow> int \<Rightarrow> int \<Rightarrow> timestamp" where
  "set_local t local nanos =
     (let days = local div 86400
      in t\<lparr>ts_date := civil_of_days days,
           ts_since_midnight := (local - days * 86400) * ns_per_second + nanos\<rparr>)"

definition from_components :: "int \<Rightarrow> int \<Rightarrow> int \<Rightarrow> int \<Rightarrow> int \<Rightarrow> int \<Rightarrow> timezone \<Rightarrow> timestamp option" where
  "from_components year month day hour minute second tz =
     (if year < 0 \<or> year > 9999 \<or> month < 1 \<or> month > 12 \<or> day < 1 \<or> day > 31 then None
      else if hour < 0 \<or> hour > 23 \<or> minute < 0 \<or> minute > 59 \<or> second < 0 \<or> second > 59 then None
      else let ymd = \<lparr>c_year = year, c_month = month, c_day = day\<rparr>
           in if \<not> civil_ok ymd then None
              else Some \<lparr>ts_date = ymd, ts_timezone = tz,
                ts_since_midnight = (hour * 3600 + minute * 60 + second) * ns_per_second\<rparr>)"

definition from_time_point :: "int \<Rightarrow> int \<Rightarrow> timestamp option" where
  "from_time_point tick since_epoch =
     (let whole = tdiv since_epoch (ticks_per_second tick);
          nanos = since_epoch - whole * ticks_per_second tick;
          (whole, nanos) = (if nanos < 0 then (whole - 1, nanos + ticks_per_second tick)
            else (whole, nanos))
      in if whole < first_second \<or> whole \<ge> end_second then None
         else Some (set_local timestamp_default whole (nanos * tick)))"

definition timestamp_of_time_point :: "int \<Rightarrow> int \<Rightarrow> timestamp" where
  "timestamp_of_time_point tick tp =
     (case from_time_point tick tp of
        Some converted \<Rightarrow> converted
      | None \<Rightarrow>
          if tp div ticks_per_second tick < first_second
          then set_local timestamp_default first_second 0
          else set_local timestamp_default (end_second - 1) 999999999)"

definition to_time_point :: "int \<Rightarrow> timestamp \<Rightarrow> int option" where
  "to_time_point tick t =
     (let (floor_seconds, nanos) = instant t;
          (seconds, subsecs) = with_the_same_sign floor_seconds nanos
      in in_clock_duration tick seconds (subsecs div tick))"

definition time_point_of :: "int \<Rightarrow> timestamp \<Rightarrow> int" where
  "time_point_of tick t =
     (case to_time_point tick t of
        Some tp \<Rightarrow> tp
      | None \<Rightarrow> if fst (instant t) < 0 then clock_min else clock_max)"

definition timestamp_compare :: "timestamp \<Rightarrow> timestamp \<Rightarrow> weak_ordering" where
  "timestamp_compare t other =
     (let (s, n) = instant t; (s', n') = instant other
      in if s < s' then Less else if s' < s then Greater else ordering_of (cmp3 n n'))"

definition timestamp_equals :: "timestamp \<Rightarrow> timestamp \<Rightarrow> bool" where
  "timestamp_equals t other = (instant t = instant other)"

definition duration_since :: "int \<Rightarrow> timestamp \<Rightarrow> timestamp \<Rightarrow> int option" where
  "duration_since tick t other =
     (let (seconds, subsecs) = instant t; (other_seconds, other_subsecs) = instant other;
          (whole, rest) = with_the_same_sign (seconds - other_seconds) (subsecs - other_subsecs)
      in in_clock_duration tick whole (tdiv rest tick))"

definition timestamp_minus :: "int \<Rightarrow> timestamp \<Rightarrow> timestamp \<Rightarrow> int" where
  "timestamp_minus tick t other =
     (case duration_since tick t other of
        Some duration \<Rightarrow> duration
      | None \<Rightarrow> if timestamp_compare t other = Less then clock_min else clock_max)"

definition timestamp_add :: "timestamp \<Rightarrow> int \<Rightarrow> timestamp option" where
  "timestamp_add t duration =
     (let local = local_seconds t
      in if duration < first_second - local \<or> duration \<ge> end_second - local then None
         else Some (set_local t (local + duration) (subseconds t)))"

definition timestamp_subtract :: "timestamp \<Rightarrow> int \<Rightarrow> timestamp option" where
  "timestamp_subtract t duration =
     (if duration = seconds_min then None else timestamp_add t (- duration))"

text \<open>The operators on minutes (\<open>u = 60\<close>) and hours (\<open>u = 3600\<close>), whose \<^const>\<open>None\<close> is the
  \<open>std::out_of_range\<close> of \<open>value_or_throw\<close>.\<close>

definition value_or_throw :: "timestamp option \<Rightarrow> errc + timestamp" where
  "value_or_throw result = (case result of None \<Rightarrow> Inl result_out_of_range | Some t \<Rightarrow> Inr t)"

definition timestamp_plus :: "int \<Rightarrow> timestamp \<Rightarrow> int \<Rightarrow> errc + timestamp" where
  "timestamp_plus u t duration =
     value_or_throw (case in_seconds u duration of Some s \<Rightarrow> timestamp_add t s | None \<Rightarrow> None)"

definition timestamp_minus_duration :: "int \<Rightarrow> timestamp \<Rightarrow> int \<Rightarrow> errc + timestamp" where
  "timestamp_minus_duration u t duration =
     value_or_throw (case in_seconds u duration of Some s \<Rightarrow> timestamp_subtract t s | None \<Rightarrow> None)"

section \<open>Text\<close>

text \<open>The fraction in digits, without the zeros at its end.\<close>

definition fraction_text :: "int \<Rightarrow> string" where
  "fraction_text nanos =
     (if nanos \<noteq> 0
      then let digits = digits_of (nat nanos);
               digits = replicate (9 - length digits) (CHR ''0'') @ digits;
               digits = strip_end (\<lambda>c. c = CHR ''0'') digits
           in ''.'' @ digits
      else [])"

definition format_iso8601 :: "timestamp \<Rightarrow> string" where
  "format_iso8601 t =
     date_text (ts_date t) @ ''T'' @ time_text (ts_since_midnight t) @
     fraction_text (subseconds t) @ timezone_format (ts_timezone t)"

text \<open>The match of the timezone group, of the fraction group, and of the whole pattern.\<close>

definition match_zone :: "string \<Rightarrow> string option option" where
  "match_zone s =
     (if s = [] then Some None
      else if s = ''Z'' then Some (Some s)
      else case s of
        [sign, a, b, c, d, e] \<Rightarrow>
          if (sign = CHR ''+'' \<or> sign = CHR ''-'') \<and> all_digits [a, b, d, e] \<and> c = CHR '':''
          then Some (Some s) else None
      | _ \<Rightarrow> None)"

definition match_fraction :: "string \<Rightarrow> (string option \<times> string) option" where
  "match_fraction s =
     (case s of
        c # r \<Rightarrow>
          if c = CHR ''.''
          then (if takeWhile is_digit r = [] then None else Some (Some (takeWhile is_digit r), dropWhile is_digit r))
          else Some (None, s)
      | [] \<Rightarrow> Some (None, []))"

definition match_time :: "string \<Rightarrow> ((int \<times> int \<times> int) \<times> string option \<times> string option) option" where
  "match_time s =
     (case s of
        [] \<Rightarrow> Some ((0, 0, 0), None, None)
      | t # h1 # h2 # c1 # m1 # m2 # c2 # s1 # s2 # rest \<Rightarrow>
          if t = CHR ''T'' \<and> c1 = CHR '':'' \<and> c2 = CHR '':'' \<and> all_digits [h1, h2, m1, m2, s1, s2]
          then (case match_fraction rest of
              None \<Rightarrow> None
            | Some (nanos, rest) \<Rightarrow>
                (case match_zone rest of
                   None \<Rightarrow> None
                 | Some zone \<Rightarrow> Some ((dval [h1, h2], dval [m1, m2], dval [s1, s2]), nanos, zone)))
          else None
      | _ \<Rightarrow> None)"

definition from_string :: "string \<Rightarrow> timestamp option" where
  "from_string s =
     (case s of
        y1 # y2 # y3 # y4 # c1 # m1 # m2 # c2 # d1 # d2 # rest \<Rightarrow>
          if c1 = CHR ''-'' \<and> c2 = CHR ''-'' \<and> all_digits [y1, y2, y3, y4, m1, m2, d1, d2]
          then (case match_time rest of
              None \<Rightarrow> None
            | Some ((hour, minute, second), nanos, zone) \<Rightarrow>
                (case (case zone of None \<Rightarrow> Some timezone_utc | Some z \<Rightarrow> timezone_from_string z) of
                   None \<Rightarrow> None
                 | Some tz \<Rightarrow>
                     (case from_components (dval [y1, y2, y3, y4]) (dval [m1, m2]) (dval [d1, d2]) hour minute second tz of
                        None \<Rightarrow> None
                      | Some result \<Rightarrow>
                          (case nanos of
                             None \<Rightarrow> Some result
                           | Some digits \<Rightarrow>
                               let digits = resize 9 (CHR ''0'') (take 9 digits)
                               in Some (result\<lparr>ts_since_midnight := ts_since_midnight result + dval digits\<rparr>)))))
          else None
      | _ \<Rightarrow> None)"

definition timestamp_of_string :: "string \<Rightarrow> timestamp" where
  "timestamp_of_string s = (case from_string s of None \<Rightarrow> timestamp_default | Some t \<Rightarrow> t)"

definition timestamp_of_components :: "int \<Rightarrow> int \<Rightarrow> int \<Rightarrow> int \<Rightarrow> int \<Rightarrow> int \<Rightarrow> timezone \<Rightarrow> timestamp" where
  "timestamp_of_components year month day hour minute second tz =
     (case from_components year month day hour minute second tz of None \<Rightarrow> timestamp_default | Some t \<Rightarrow> t)"

section \<open>The other durations, and formats\<close>

definition timestamp_plus_hours :: "timestamp \<Rightarrow> int \<Rightarrow> errc + timestamp" where
  "timestamp_plus_hours t duration = timestamp_plus 3600 t duration"

definition timestamp_minus_hours :: "timestamp \<Rightarrow> int \<Rightarrow> errc + timestamp" where
  "timestamp_minus_hours t duration = timestamp_minus_duration 3600 t duration"

definition timestamp_plus_seconds :: "timestamp \<Rightarrow> int \<Rightarrow> errc + timestamp" where
  "timestamp_plus_seconds t duration = value_or_throw (timestamp_add t duration)"

definition timestamp_minus_seconds :: "timestamp \<Rightarrow> int \<Rightarrow> errc + timestamp" where
  "timestamp_minus_seconds t duration = value_or_throw (timestamp_subtract t duration)"

text \<open>The current time, which the clock gives.\<close>

definition timestamp_now :: "int \<Rightarrow> int \<Rightarrow> timestamp" where
  "timestamp_now tick clock = timestamp_of_time_point tick clock"

definition date_equals :: "civil \<Rightarrow> civil \<Rightarrow> bool" where
  "date_equals d other = (d = other)"

definition time_compare :: "int \<Rightarrow> int \<Rightarrow> weak_ordering" where
  "time_compare t other = ordering_of (cmp3 t other)"

definition time_equals :: "int \<Rightarrow> int \<Rightarrow> bool" where
  "time_equals t other = (t = other)"

datatype format_type = Iso8601 | Rfc3339

definition timestamp_format :: "timestamp \<Rightarrow> format_type \<Rightarrow> string" where
  "timestamp_format t fmt = (case fmt of Iso8601 \<Rightarrow> format_iso8601 t | Rfc3339 \<Rightarrow> format_iso8601 t)"

text \<open>\<open>gmtime_r\<close>, which fails only on years that an \<open>int\<close> cannot hold.\<close>

record tm =
  tm_sec :: int
  tm_min :: int
  tm_hour :: int
  tm_mday :: int
  tm_mon :: int
  tm_year :: int
  tm_wday :: int
  tm_yday :: int

definition gmtime :: "int \<Rightarrow> tm" where
  "gmtime time_c =
     (let days = time_c div 86400; rest = time_c mod 86400; c = civil_of_days days
      in \<lparr>tm_sec = rest mod 60, tm_min = rest div 60 mod 60, tm_hour = rest div 3600, tm_mday = c_day c, tm_mon = c_month c - 1,
          tm_year = c_year c - 1900, tm_wday = (days + 4) mod 7,
          tm_yday = days_before_month (is_leap (c_year c)) (c_month c) + c_day c - 1\<rparr>)"

text \<open>\<open>std::put_time\<close> is a parameter.\<close>

definition timestamp_format_custom :: "(tm \<Rightarrow> string \<Rightarrow> string) \<Rightarrow> timestamp \<Rightarrow> string \<Rightarrow> string" where
  "timestamp_format_custom put_time t custom_format =
     put_time (gmtime (local_seconds t)) (expand_date_conversions custom_format (ts_date t))"

section \<open>The invariant\<close>

definition timestamp_ok :: "timestamp \<Rightarrow> bool" where
  "timestamp_ok t \<longleftrightarrow> civil_ok (ts_date t) \<and> 0 \<le> c_year (ts_date t) \<and> c_year (ts_date t) \<le> 9999 \<and>
     timezone_ok (ts_timezone t) \<and> 0 \<le> ts_since_midnight t \<and> ts_since_midnight t < 86400 * ns_per_second"

lemma second_bounds: "first_second = - (719528 * 86400)" "end_second = 2932897 * 86400"
  by (simp_all add: first_second_def end_second_def sys_days_def days_before_year_def
      days_before_month_def epoch_days_def is_leap_def)

lemma timestamp_default_ok: "timestamp_ok timestamp_default"
  by (simp add: timestamp_ok_def timestamp_default_def date_default_def civil_ok_def days_in_month_def ns_per_second_def)

lemma split_seconds:
  fixes x n :: int
  assumes "0 < n"
  shows "x = x div n * n + (x - x div n * n)" "0 \<le> x - x div n * n" "x - x div n * n < n"
  using assms by (simp_all add: minus_div_mult_eq_mod)

lemma subseconds_bounds: "0 \<le> subseconds t" "subseconds t < ns_per_second"
  by (simp_all add: subseconds_def minus_div_mult_eq_mod ns_per_second_def)

lemma local_set_local:
  assumes "0 \<le> f" "f < ns_per_second"
  shows "local_seconds (set_local t l f) = l" "subseconds (set_local t l f) = f"
    "ts_timezone (set_local t l f) = ts_timezone t"
proof -
  define r where "r = l - l div 86400 * 86400"
  have n: "(r * ns_per_second + f) div ns_per_second = r"
    by (rule int_div_pos_eq [of _ _ _ f]) (use assms in \<open>simp_all add: mult.commute\<close>)
  then show "local_seconds (set_local t l f) = l"
    by (simp add: local_seconds_def set_local_def Let_def sys_days_civil_of_days r_def [symmetric]) (simp add: r_def)
  show "subseconds (set_local t l f) = f"
    using n by (simp add: subseconds_def set_local_def Let_def r_def [symmetric])
  show "ts_timezone (set_local t l f) = ts_timezone t" by (simp add: set_local_def Let_def)
qed

lemma year_range:
  assumes "civil_ok c"
  shows "0 \<le> c_year c \<longleftrightarrow> first_second \<le> sys_days c * 86400" "c_year c \<le> 9999 \<longleftrightarrow> sys_days c * 86400 < end_second"
proof -
  have "0 \<le> c_year c \<longleftrightarrow> - 719528 \<le> sys_days c"
    using civil_year_of_days [OF assms, of 0] by (simp add: days_before_year_def epoch_days_def)
  then show "0 \<le> c_year c \<longleftrightarrow> first_second \<le> sys_days c * 86400" unfolding second_bounds by auto
  have "10000 \<le> c_year c \<longleftrightarrow> 2932897 \<le> sys_days c"
    using civil_year_of_days [OF assms, of 10000] by (simp add: days_before_year_def epoch_days_def)
  then show "c_year c \<le> 9999 \<longleftrightarrow> sys_days c * 86400 < end_second" unfolding second_bounds by auto
qed

text \<open>A second of a day is in the range when the day is.\<close>

lemma day_bounds:
  assumes "0 \<le> r" "r < 86400"
  shows "first_second \<le> d * 86400 + r \<longleftrightarrow> first_second \<le> d * 86400"
    "d * 86400 + r < end_second \<longleftrightarrow> d * 86400 < end_second"
  using assms unfolding second_bounds by auto

lemma timestamp_ok_seconds:
  assumes "timestamp_ok t"
  shows "first_second \<le> local_seconds t" "local_seconds t < end_second"
    "0 \<le> ts_since_midnight t div ns_per_second" "ts_since_midnight t div ns_per_second < 86400"
proof -
  have t: "0 \<le> ts_since_midnight t div ns_per_second" "ts_since_midnight t div ns_per_second < 86400"
    using assms div_bounds [of ns_per_second "ts_since_midnight t"]
    by (auto simp: timestamp_ok_def ns_per_second_def)
  then show "0 \<le> ts_since_midnight t div ns_per_second" "ts_since_midnight t div ns_per_second < 86400" .
  have c: "civil_ok (ts_date t)" "0 \<le> c_year (ts_date t)" "c_year (ts_date t) \<le> 9999"
    using assms by (simp_all add: timestamp_ok_def)
  then have "first_second \<le> sys_days (ts_date t) * 86400" "sys_days (ts_date t) * 86400 < end_second"
    using year_range by blast+
  then show "first_second \<le> local_seconds t" "local_seconds t < end_second"
    using t day_bounds unfolding local_seconds_def by blast+
qed

lemma set_local_ok:
  assumes "first_second \<le> l" "l < end_second" "0 \<le> f" "f < ns_per_second" "timezone_ok (ts_timezone t)"
  shows "timestamp_ok (set_local t l f)"
proof -
  define c where "c = civil_of_days (l div 86400)"
  define r where "r = l - l div 86400 * 86400"
  have r: "0 \<le> r" "r < 86400" by (simp_all add: r_def minus_div_mult_eq_mod)
  have c: "civil_ok c" "sys_days c = l div 86400"
    by (simp_all add: c_def civil_of_days_ok sys_days_civil_of_days)
  have "l = sys_days c * 86400 + r" by (simp add: c(2) r_def)
  then have "first_second \<le> sys_days c * 86400" "sys_days c * 86400 < end_second"
    using assms(1,2) r day_bounds by metis+
  then have y: "0 \<le> c_year c" "c_year c \<le> 9999" using year_range [OF c(1)] by blast+
  have "(r + 1) * ns_per_second \<le> 86400 * ns_per_second"
    by (rule mult_right_mono) (use r in \<open>simp_all add: ns_per_second_def\<close>)
  then have "r * ns_per_second + ns_per_second \<le> 86400 * ns_per_second"
    by (simp only: distrib_right mult_1)
  moreover have "0 \<le> r * ns_per_second" using r by (simp add: ns_per_second_def)
  ultimately have "0 \<le> r * ns_per_second + f" "r * ns_per_second + f < 86400 * ns_per_second"
    using assms(3,4) by linarith+
  then show ?thesis
    using assms(5) c(1) y
    by (simp add: timestamp_ok_def set_local_def Let_def c_def [symmetric] r_def [symmetric])
qed

text \<open>The broken-down time that a format of the caller is given has the local date and time of day.\<close>

lemma gmtime_local:
  assumes "timestamp_ok t"
  shows "tm_mday (gmtime (local_seconds t)) = c_day (ts_date t)" "tm_mon (gmtime (local_seconds t)) = c_month (ts_date t) - 1"
    "tm_year (gmtime (local_seconds t)) = c_year (ts_date t) - 1900"
    "tm_hour (gmtime (local_seconds t)) = time_hour (ts_since_midnight t)"
    "tm_min (gmtime (local_seconds t)) = time_minute (ts_since_midnight t)"
    "tm_sec (gmtime (local_seconds t)) = time_second (ts_since_midnight t)"
proof -
  define r where "r = ts_since_midnight t div ns_per_second"
  have r: "0 \<le> r" "r < 86400" using timestamp_ok_seconds(3,4) [OF assms] by (simp_all add: r_def)
  have l: "local_seconds t = sys_days (ts_date t) * 86400 + r" by (simp add: local_seconds_def r_def)
  have d: "local_seconds t div 86400 = sys_days (ts_date t)" "local_seconds t mod 86400 = r" using r by (simp_all add: l)
  have c: "civil_of_days (sys_days (ts_date t)) = ts_date t" using assms by (intro civil_of_days_sys_days) (simp add: timestamp_ok_def)
  show "tm_mday (gmtime (local_seconds t)) = c_day (ts_date t)" "tm_mon (gmtime (local_seconds t)) = c_month (ts_date t) - 1"
    "tm_year (gmtime (local_seconds t)) = c_year (ts_date t) - 1900"
    by (simp_all add: gmtime_def Let_def d c)
  have "r div 3600 = ts_since_midnight t div (3600 * ns_per_second)" "r div 60 = ts_since_midnight t div (60 * ns_per_second)"
    unfolding r_def by (simp_all add: ns_per_second_def div_mult2_eq' zdiv_zmult2_eq)
  then show "tm_hour (gmtime (local_seconds t)) = time_hour (ts_since_midnight t)"
    "tm_min (gmtime (local_seconds t)) = time_minute (ts_since_midnight t)"
    "tm_sec (gmtime (local_seconds t)) = time_second (ts_since_midnight t)"
    by (simp_all add: gmtime_def Let_def d time_hour_def time_minute_def time_second_def r_def [symmetric])
qed

text \<open>The operators on each unit are one operator on seconds.\<close>

lemma duration_operators:
  "in_seconds u duration = Some s \<Longrightarrow> timestamp_plus u t duration = timestamp_plus_seconds t s"
  "in_seconds u duration = Some s \<Longrightarrow> timestamp_minus_duration u t duration = timestamp_minus_seconds t s"
  "in_seconds u duration = None \<Longrightarrow> timestamp_plus u t duration = Inl result_out_of_range"
  by (simp_all add: timestamp_plus_def timestamp_minus_duration_def timestamp_plus_seconds_def timestamp_minus_seconds_def value_or_throw_def)

end
