(* ===== verification/Timestamp_Laws.thy ===== *)
theory Timestamp_Laws
  imports Timestamp
begin

text \<open>
  What \<open>class timestamp\<close> promises: every way to make one keeps its invariant, its text reads
  back, arithmetic moves the instant by exactly the duration or refuses, the order is the order
  of instants, and the conversion from and to the clock loses nothing within the range.
\<close>

section \<open>Every constructor keeps the invariant\<close>

lemma from_components_Some:
  assumes "from_components y mo d h mi s tz = Some t"
  shows "0 \<le> y" "y \<le> 9999" "0 \<le> h" "h \<le> 23" "0 \<le> mi" "mi \<le> 59" "0 \<le> s" "s \<le> 59"
    "civil_ok \<lparr>c_year = y, c_month = mo, c_day = d\<rparr>"
    "t = \<lparr>ts_date = \<lparr>c_year = y, c_month = mo, c_day = d\<rparr>, ts_timezone = tz,
      ts_since_midnight = (h * 3600 + mi * 60 + s) * ns_per_second\<rparr>"
  using assms by (auto simp: from_components_def Let_def split: if_splits)

lemma from_components_ok:
  assumes "from_components y mo d h mi s tz = Some t" "timezone_ok tz"
  shows "timestamp_ok t" "ts_since_midnight t + ns_per_second \<le> 86400 * ns_per_second"
proof -
  note c = from_components_Some [OF assms(1)]
  have "(h * 3600 + mi * 60 + s + 1) * ns_per_second \<le> 86400 * ns_per_second"
    by (rule mult_right_mono) (use c(3-8) in \<open>simp_all add: ns_per_second_def\<close>)
  then have "(h * 3600 + mi * 60 + s) * ns_per_second + ns_per_second \<le> 86400 * ns_per_second"
    unfolding distrib_right [of _ 1] by simp
  then show s: "ts_since_midnight t + ns_per_second \<le> 86400 * ns_per_second" by (simp add: c(10))
  have "0 < ns_per_second" by (simp add: ns_per_second_def)
  then show "timestamp_ok t"
    using c(1-9) s assms(2) unfolding c(10) timestamp_ok_def by (simp add: add_strict_increasing2)
qed

lemma from_components_total:
  assumes "0 \<le> y" "y \<le> 9999" "0 \<le> h" "h \<le> 23" "0 \<le> mi" "mi \<le> 59" "0 \<le> s" "s \<le> 59"
    "civil_ok \<lparr>c_year = y, c_month = mo, c_day = d\<rparr>"
  shows "from_components y mo d h mi s tz = Some \<lparr>ts_date = \<lparr>c_year = y, c_month = mo, c_day = d\<rparr>,
    ts_timezone = tz, ts_since_midnight = (h * 3600 + mi * 60 + s) * ns_per_second\<rparr>"
proof -
  have "1 \<le> mo" "mo \<le> 12" "1 \<le> d" "d \<le> 31"
    using assms(9) by (auto simp: civil_ok_def days_in_month_def split: if_splits)
  then show ?thesis using assms by (simp add: from_components_def Let_def)
qed

lemma ns_dval_bound:
  assumes "all_digits f"
  shows "0 \<le> dval (resize 9 (CHR ''0'') (take 9 f))" "dval (resize 9 (CHR ''0'') (take 9 f)) < ns_per_second"
proof -
  have d: "all_digits (resize 9 (CHR ''0'') (take 9 f))"
    using assms by (auto simp: resize_def dest: in_set_takeD)
  then show "0 \<le> dval (resize 9 (CHR ''0'') (take 9 f))" by (rule dval_nonneg)
  show "dval (resize 9 (CHR ''0'') (take 9 f)) < ns_per_second"
    using dval_less [OF d] by (simp add: ns_per_second_def)
qed

lemma match_fraction_digits: "match_fraction s = Some (Some f, r) \<Longrightarrow> all_digits f \<and> f \<noteq> []"
  by (auto simp: match_fraction_def split: list.splits if_splits dest: set_takeWhileD)

lemma match_time_digits: "match_time s = Some (hms, Some f, z) \<Longrightarrow> all_digits f"
  by (auto simp: match_time_def split: list.splits if_splits option.splits prod.splits
      dest!: match_fraction_digits)

lemma from_string_ok:
  assumes "from_string s = Some t"
  shows "timestamp_ok t"
proof -
  obtain y1 y2 y3 y4 c1 m1 m2 c2 d1 d2 rest where s: "s = y1 # y2 # y3 # y4 # c1 # m1 # m2 # c2 # d1 # d2 # rest"
    using assms by (auto simp: from_string_def split: list.splits)
  obtain h mi sec f zone where mt: "match_time rest = Some ((h, mi, sec), f, zone)"
    using assms by (auto simp: from_string_def s split: option.splits if_splits)
  obtain tz where tz: "(case zone of None \<Rightarrow> Some timezone_utc | Some z \<Rightarrow> timezone_from_string z) = Some tz"
    using assms by (auto simp: from_string_def s mt split: option.splits if_splits)
  obtain u where u: "from_components (dval [y1, y2, y3, y4]) (dval [m1, m2]) (dval [d1, d2]) h mi sec tz = Some u"
    using assms by (auto simp: from_string_def s mt tz split: option.splits if_splits)
  have "timezone_ok tz" using tz timezone_from_string_ok by (auto split: option.splits)
  note ok = from_components_ok [OF u this]
  have t: "t = (case f of None \<Rightarrow> u | Some digits \<Rightarrow>
      u\<lparr>ts_since_midnight := ts_since_midnight u + dval (resize 9 (CHR ''0'') (take 9 digits))\<rparr>)"
    using assms by (simp add: from_string_def s mt tz u Let_def split: if_splits option.splits)
  show ?thesis
  proof (cases f)
    case None
    then show ?thesis using ok t by simp
  next
    case (Some digits)
    then show ?thesis
      using ok t ns_dval_bound [of digits] match_time_digits [of rest "(h, mi, sec)" digits zone] mt
      by (simp add: timestamp_ok_def)
  qed
qed

lemma tick_simps:
  assumes "0 < tick" "tick dvd ns_per_second"
  shows "0 < ticks_per_second tick" "ticks_per_second tick * tick = ns_per_second"
proof -
  show m: "ticks_per_second tick * tick = ns_per_second"
    using assms by (simp add: ticks_per_second_def)
  have "0 < ns_per_second" by (simp add: ns_per_second_def)
  then show "0 < ticks_per_second tick" using m assms(1) by (metis zero_less_mult_pos2)
qed

lemma tdiv_bounds:
  assumes "0 < n"
  shows "0 \<le> a \<Longrightarrow> tdiv a n * n \<le> a \<and> a < tdiv a n * n + n"
    "a < 0 \<Longrightarrow> a \<le> tdiv a n * n \<and> tdiv a n * n - n < a"
  using div_bounds [OF assms, of a] div_bounds [OF assms, of "- a"]
  by (auto simp: tdiv_def mult.commute)

text \<open>The truncated quotient with its borrow is the floor.\<close>

lemma borrow_floor:
  assumes "0 < n"
  shows "(let w = tdiv a n; f = a - w * n in if f < 0 then (w - 1, f + n) else (w, f)) = (a div n, a mod n)"
proof -
  define w where "w = tdiv a n"
  define f where "f = a - w * n"
  have f: "a = w * n + f" by (simp add: f_def)
  have b: "- n < f" "f < n" using tdiv_bounds [OF assms, of a] assms by (cases "0 \<le> a"; simp add: f_def w_def)+
  show ?thesis
  proof (cases "f < 0")
    case True
    have "a div n = w - 1"
      by (rule int_div_pos_eq [of _ _ _ "f + n"]) (use f b True in \<open>simp_all add: algebra_simps\<close>)
    moreover have "a mod n = f + n"
      unfolding minus_div_mult_eq_mod [symmetric] \<open>a div n = w - 1\<close> by (simp add: f_def algebra_simps)
    ultimately show ?thesis
      unfolding Let_def w_def [symmetric] f_def [symmetric] using True by simp
  next
    case False
    have "a div n = w"
      by (rule int_div_pos_eq [of _ _ _ f]) (use f b False in \<open>simp_all add: algebra_simps\<close>)
    moreover have "a mod n = f"
      unfolding minus_div_mult_eq_mod [symmetric] \<open>a div n = w\<close> by (simp add: f_def)
    ultimately show ?thesis
      unfolding Let_def w_def [symmetric] f_def [symmetric] using False by simp
  qed
qed

lemma from_time_point_floor:
  assumes "0 < tick" "tick dvd ns_per_second"
  shows "from_time_point tick p =
    (let s = p div ticks_per_second tick
     in if s < first_second \<or> s \<ge> end_second then None
        else Some (set_local timestamp_default s (p mod ticks_per_second tick * tick)))"
  using borrow_floor [OF tick_simps(1) [OF assms], of p]
  by (simp add: from_time_point_def Let_def split: if_splits prod.splits)

lemma tick_fraction:
  assumes "0 < tick" "tick dvd ns_per_second"
  shows "0 \<le> p mod ticks_per_second tick * tick" "p mod ticks_per_second tick * tick < ns_per_second"
proof -
  note t = tick_simps [OF assms]
  have m: "0 \<le> p mod ticks_per_second tick" "p mod ticks_per_second tick < ticks_per_second tick"
    using t(1) by simp_all
  then show "0 \<le> p mod ticks_per_second tick * tick" using assms(1) by simp
  have "p mod ticks_per_second tick * tick < ticks_per_second tick * tick"
    using m(2) assms(1) by (rule mult_strict_right_mono)
  then show "p mod ticks_per_second tick * tick < ns_per_second" by (simp only: t(2))
qed

lemma timezone_default_ok: "timezone_ok (ts_timezone timestamp_default)"
  by (simp add: timestamp_default_def)

lemma second_order: "first_second < end_second" "first_second < 0" "0 < end_second"
  by (simp_all add: second_bounds)

lemma timestamp_of_time_point_ok:
  assumes "0 < tick" "tick dvd ns_per_second"
  shows "timestamp_ok (timestamp_of_time_point tick p)"
  using tick_fraction [OF assms, of p] second_order
  by (auto simp: timestamp_of_time_point_def from_time_point_floor [OF assms] Let_def ns_per_second_def
      intro!: set_local_ok timezone_default_ok split: option.splits if_splits)

section \<open>Arithmetic\<close>

lemma timestamp_add_Some:
  assumes "timestamp_ok t" "timestamp_add t d = Some t'"
  shows "timestamp_ok t'" "local_seconds t' = local_seconds t + d" "subseconds t' = subseconds t"
    "ts_timezone t' = ts_timezone t" "instant t' = (fst (instant t) + d, snd (instant t))"
proof -
  have t': "t' = set_local t (local_seconds t + d) (subseconds t)"
    and r: "first_second \<le> local_seconds t + d" "local_seconds t + d < end_second"
    using assms(2) by (auto simp: timestamp_add_def Let_def split: if_splits)
  note l = local_set_local [OF subseconds_bounds, of t "local_seconds t + d"]
  show "local_seconds t' = local_seconds t + d" "subseconds t' = subseconds t" "ts_timezone t' = ts_timezone t"
    using l by (simp_all add: t')
  then show "instant t' = (fst (instant t) + d, snd (instant t))" by (simp add: instant_def)
  show "timestamp_ok t'"
    unfolding t' using assms(1) by (intro set_local_ok r subseconds_bounds) (simp add: timestamp_ok_def)
qed

lemma timestamp_add_None:
  "timestamp_add t d = None \<longleftrightarrow> local_seconds t + d < first_second \<or> end_second \<le> local_seconds t + d"
  by (auto simp: timestamp_add_def Let_def)

text \<open>A timestamp is its local seconds, its subseconds and its timezone.\<close>

lemma timestamp_eqI:
  assumes "timestamp_ok t" "timestamp_ok u" "local_seconds t = local_seconds u" "subseconds t = subseconds u"
    "ts_timezone t = ts_timezone u"
  shows "t = (u :: timestamp)"
proof -
  have parts: "sys_days (ts_date x) = local_seconds x div 86400"
    "ts_since_midnight x = (local_seconds x - local_seconds x div 86400 * 86400) * ns_per_second + subseconds x"
    if "timestamp_ok x" for x
  proof -
    define r where "r = ts_since_midnight x div ns_per_second"
    have r: "0 \<le> r" "r < 86400" using timestamp_ok_seconds [OF that] by (simp_all add: r_def)
    have l: "local_seconds x = 86400 * sys_days (ts_date x) + r" by (simp add: local_seconds_def r_def)
    then have "local_seconds x div 86400 = sys_days (ts_date x)" using r by (rule int_div_pos_eq)
    then show "sys_days (ts_date x) = local_seconds x div 86400"
      "ts_since_midnight x = (local_seconds x - local_seconds x div 86400 * 86400) * ns_per_second + subseconds x"
      using l by (simp_all add: subseconds_def r_def)
  qed
  have "sys_days (ts_date t) = sys_days (ts_date u)" "ts_since_midnight t = ts_since_midnight u"
    using parts [OF assms(1)] parts [OF assms(2)] assms(3,4) by simp_all
  moreover have "civil_ok (ts_date t)" "civil_ok (ts_date u)" using assms by (simp_all add: timestamp_ok_def)
  ultimately show ?thesis using assms(5) civil_of_days_sys_days by (metis timestamp.equality old.unit.exhaust)
qed

lemma timestamp_add_back:
  assumes "timestamp_ok t" "timestamp_add t d = Some t'"
  shows "timestamp_add t' (- d) = Some t"
proof -
  note a = timestamp_add_Some [OF assms]
  have "timestamp_add t' (- d) \<noteq> None"
    using timestamp_ok_seconds(1,2) [OF assms(1)] a(2) by (simp add: timestamp_add_None)
  then obtain u where u: "timestamp_add t' (- d) = Some u" by blast
  note b = timestamp_add_Some [OF a(1) u]
  have "u = t" using a b assms(1) by (intro timestamp_eqI) simp_all
  with u show ?thesis by simp
qed

section \<open>Order\<close>

interpretation timestamp_order: three_way "\<lambda>_. True"
  "\<lambda>t. fst (instant t) * ns_per_second + snd (instant t)" timestamp_compare
proof
  fix t u
  define a b c d where "a = fst (instant t)" and "b = snd (instant t)" and "c = fst (instant u)" and "d = snd (instant u)"
  have bd: "0 \<le> b" "b < ns_per_second" "0 \<le> d" "d < ns_per_second"
    using subseconds_bounds [of t] subseconds_bounds [of u] by (simp_all add: b_def d_def instant_def)
  have less: "x * ns_per_second + v < y * ns_per_second + w" if "x < y" "v < ns_per_second" "0 \<le> w" for x y v w
  proof -
    have "(x + 1) * ns_per_second \<le> y * ns_per_second"
      using that(1) by (intro mult_right_mono) (simp_all add: ns_per_second_def)
    then show ?thesis using that(2,3) unfolding distrib_right mult_1 by linarith
  qed
  have "timestamp_compare t u = (if a < c then Less else if c < a then Greater else ordering_of (cmp3 b d))"
    by (simp add: timestamp_compare_def a_def b_def c_def d_def split: prod.splits)
  moreover have "compare_by (\<lambda>t. fst (instant t) * ns_per_second + snd (instant t)) t u =
      compare_by id (a * ns_per_second + b) (c * ns_per_second + d)"
    by (simp add: compare_by_def a_def b_def c_def d_def)
  moreover have "a < c \<or> c < a \<or> a = c" by linarith
  ultimately show "timestamp_compare t u = compare_by (\<lambda>t. fst (instant t) * ns_per_second + snd (instant t)) t u"
    using less [of a c b d] less [of c a d b] bd
    by (auto simp: compare_by_def ordering_of_def cmp3_def)
qed

text \<open>The nanoseconds since the epoch of the instant.\<close>

definition instant_ns :: "timestamp \<Rightarrow> int" where
  "instant_ns t = fst (instant t) * ns_per_second + snd (instant t)"

lemma instant_ns_inject: "instant_ns t = instant_ns u \<longleftrightarrow> instant t = instant u"
proof
  assume e: "instant_ns t = instant_ns u"
  have "fst (instant x) = instant_ns x div ns_per_second" "snd (instant x) = instant_ns x mod ns_per_second" for x
    using subseconds_bounds [of x] by (simp_all add: instant_ns_def instant_def)
  with e show "instant t = instant u" by (simp add: prod_eq_iff)
qed (simp add: instant_ns_def)

section \<open>Text\<close>

lemma setw_text:
  "0 < w \<Longrightarrow> n < 10 ^ w \<Longrightarrow> length (setw w n) = w \<and> all_digits (setw w n) \<and> dval (setw w n) = int n"
  using length_setw [of n w] setw_props [of w n] by blast

lemma length_2: "length s = 2 \<Longrightarrow> \<exists>a b. s = [a, b]"
  by (auto simp: length_Suc_conv numeral_2_eq_2)

lemma length_4: "length s = 4 \<Longrightarrow> \<exists>a b c d. s = [a, b, c, d]"
  by (auto simp: length_Suc_conv eval_nat_numeral)

lemma setw_2_text: "0 \<le> n \<Longrightarrow> n < 100 \<Longrightarrow> \<exists>a b. setw 2 (nat n) = [a, b] \<and> all_digits [a, b] \<and> dval [a, b] = n"
  using setw_text [of 2 "nat n"] length_2 [of "setw 2 (nat n)"] by (auto simp: nat_less_iff)

lemma setw_4_text:
  "0 \<le> n \<Longrightarrow> n < 10000 \<Longrightarrow> \<exists>a b c d. setw 4 (nat n) = [a, b, c, d] \<and> all_digits [a, b, c, d] \<and> dval [a, b, c, d] = n"
  using setw_text [of 4 "nat n"] length_4 [of "setw 4 (nat n)"] by (auto simp: nat_less_iff)

text \<open>The digits of the nanoseconds: nine, without the zeros at their end.\<close>

lemma fraction_text_digits:
  assumes "0 < nanos" "nanos < ns_per_second"
  shows "\<exists>ds. fraction_text nanos = CHR ''.'' # ds \<and> all_digits ds \<and> ds \<noteq> [] \<and>
    dval (resize 9 (CHR ''0'') (take 9 ds)) = nanos"
proof -
  define full where "full = setw 9 (nat nanos)"
  define ds where "ds = strip_end (\<lambda>c. c = CHR ''0'') full"
  have full: "length full = 9" "all_digits full" "dval full = nanos"
    using setw_text [of 9 "nat nanos"] assms by (simp_all add: full_def ns_per_second_def nat_less_iff)
  obtain zs where zs: "full = ds @ zs" "\<forall>z \<in> set zs. z = CHR ''0''"
    using strip_end_split [of full "\<lambda>c. c = CHR ''0''"] unfolding ds_def by blast
  have "zs = replicate (9 - length ds) (CHR ''0'')"
    using zs full(1) by (simp add: replicate_eqI)
  then have r: "resize 9 (CHR ''0'') (take 9 ds) = full" using zs(1) full(1) by (simp add: resize_def)
  have "fraction_text nanos = CHR ''.'' # ds"
    using assms(1) by (simp add: fraction_text_def Let_def ds_def full_def setw_def)
  moreover have "all_digits ds" using full(2) zs(1) by simp
  moreover have "ds \<noteq> []"
  proof
    assume "ds = []"
    then have "dval full = 0" using zs full(2) by (simp add: dval_eq_0)
    then show False using full(3) assms(1) by simp
  qed
  ultimately show ?thesis using r full(3) by auto
qed

lemma match_fraction_text:
  assumes "0 \<le> nanos" "nanos < ns_per_second" "z \<noteq> []" "\<not> is_digit (hd z)" "hd z \<noteq> CHR ''.''"
  shows "\<exists>f. match_fraction (fraction_text nanos @ z) = Some (f, z) \<and>
    (case f of None \<Rightarrow> nanos = 0 | Some ds \<Rightarrow> dval (resize 9 (CHR ''0'') (take 9 ds)) = nanos)"
proof (cases "nanos = 0")
  case True
  then show ?thesis using assms(3,5) by (cases z) (auto simp: fraction_text_def match_fraction_def)
next
  case False
  then obtain ds where ds: "fraction_text nanos = CHR ''.'' # ds" "all_digits ds" "ds \<noteq> []"
    "dval (resize 9 (CHR ''0'') (take 9 ds)) = nanos"
    using fraction_text_digits [of nanos] assms(1,2) by auto
  obtain c r where z: "z = c # r" "\<not> is_digit c" using assms(3,4) by (cases z) auto
  have "takeWhile is_digit (ds @ z) = ds" "dropWhile is_digit (ds @ z) = z"
    using ds(2) z by (simp_all add: takeWhile_append2 dropWhile_append2)
  then have "match_fraction (fraction_text nanos @ z) = Some (Some ds, z)"
    using ds(3) unfolding ds(1) by (simp add: match_fraction_def)
  then show ?thesis using ds(4) by auto
qed

lemma match_zone_format:
  assumes "timezone_ok tz"
  shows "match_zone (timezone_format tz) = Some (Some (timezone_format tz))"
    "timezone_format tz \<noteq> []" "\<not> is_digit (hd (timezone_format tz))" "hd (timezone_format tz) \<noteq> CHR ''.''"
  using timezone_format_cases [OF assms] by (auto simp: match_zone_def is_digit_def)

lemma hms_bounds:
  assumes "0 \<le> s" "s < 86400 * ns_per_second"
  shows "0 \<le> time_hour s" "time_hour s \<le> 23" "0 \<le> time_minute s" "time_minute s \<le> 59"
    "0 \<le> time_second s" "time_second s \<le> 59"
    "time_hour s * 3600 + time_minute s * 60 + time_second s = s div ns_per_second"
proof -
  define t where "t = s div ns_per_second"
  have t: "0 \<le> t" "t < 86400"
    using assms by (simp_all add: t_def ns_per_second_def div_less_iff_less_mult pos_imp_zdiv_nonneg_iff)
  have h: "time_hour s = t div 3600" "time_minute s = t div 60 mod 60" "time_second s = t mod 60"
    unfolding time_hour_def time_minute_def time_second_def t_def
    by (simp_all add: zdiv_zmult2_eq [symmetric] ns_per_second_def mult.commute)
  show "0 \<le> time_hour s" "time_hour s \<le> 23" "0 \<le> time_minute s" "time_minute s \<le> 59"
    "0 \<le> time_second s" "time_second s \<le> 59"
    unfolding h using t div_bounds [of 3600 t] by (simp_all add: pos_imp_zdiv_nonneg_iff)
  have "t div 3600 = t div 60 div 60" by (simp add: zdiv_zmult2_eq [symmetric])
  moreover have "t = t div 60 * 60 + t mod 60" "t div 60 = t div 60 div 60 * 60 + t div 60 mod 60" by simp_all
  ultimately show "time_hour s * 3600 + time_minute s * 60 + time_second s = s div ns_per_second"
    unfolding h t_def [symmetric] by linarith
qed

lemma civil_ok_ranges: "civil_ok c \<Longrightarrow> 1 \<le> c_month c \<and> c_month c \<le> 12 \<and> 1 \<le> c_day c \<and> c_day c \<le> 31"
  by (auto simp: civil_ok_def days_in_month_def split: if_splits)

lemma from_string_format:
  assumes ok: "timestamp_ok t"
  shows "from_string (format_iso8601 t) = Some t"
proof -
  define s where "s = ts_since_midnight t"
  have o: "civil_ok (ts_date t)" "0 \<le> c_year (ts_date t)" "c_year (ts_date t) \<le> 9999"
    "timezone_ok (ts_timezone t)" "0 \<le> s" "s < 86400 * ns_per_second"
    using ok by (simp_all add: timestamp_ok_def s_def)
  note hms = hms_bounds [OF o(5,6)] and md = civil_ok_ranges [OF o(1)]
  obtain y1 y2 y3 y4 where y: "setw 4 (nat (c_year (ts_date t))) = [y1, y2, y3, y4]" "all_digits [y1, y2, y3, y4]"
    "dval [y1, y2, y3, y4] = c_year (ts_date t)" using setw_4_text [of "c_year (ts_date t)"] o(2,3) by auto
  obtain m1 m2 where m: "setw 2 (nat (c_month (ts_date t))) = [m1, m2]" "all_digits [m1, m2]" "dval [m1, m2] = c_month (ts_date t)"
    using setw_2_text [of "c_month (ts_date t)"] md by auto
  obtain d1 d2 where d: "setw 2 (nat (c_day (ts_date t))) = [d1, d2]" "all_digits [d1, d2]" "dval [d1, d2] = c_day (ts_date t)"
    using setw_2_text [of "c_day (ts_date t)"] md by auto
  obtain h1 h2 where h: "setw 2 (nat (time_hour s)) = [h1, h2]" "all_digits [h1, h2]" "dval [h1, h2] = time_hour s"
    using setw_2_text [of "time_hour s"] hms(1,2) by auto
  obtain i1 i2 where i: "setw 2 (nat (time_minute s)) = [i1, i2]" "all_digits [i1, i2]" "dval [i1, i2] = time_minute s"
    using setw_2_text [of "time_minute s"] hms(3,4) by auto
  obtain e1 e2 where e: "setw 2 (nat (time_second s)) = [e1, e2]" "all_digits [e1, e2]" "dval [e1, e2] = time_second s"
    using setw_2_text [of "time_second s"] hms(5,6) by auto
  define z where "z = timezone_format (ts_timezone t)"
  note zf = match_zone_format [OF o(4), folded z_def]
  obtain f where f: "match_fraction (fraction_text (subseconds t) @ z) = Some (f, z)"
    "case f of None \<Rightarrow> subseconds t = 0 | Some ds \<Rightarrow> dval (resize 9 (CHR ''0'') (take 9 ds)) = subseconds t"
    using match_fraction_text [OF subseconds_bounds zf(2-4), of t] by blast
  define rest where "rest = CHR ''T'' # h1 # h2 # CHR '':'' # i1 # i2 # CHR '':'' # e1 # e2 # (fraction_text (subseconds t) @ z)"
  have iso: "format_iso8601 t = y1 # y2 # y3 # y4 # CHR ''-'' # m1 # m2 # CHR ''-'' # d1 # d2 # rest"
    unfolding format_iso8601_def date_text_def time_text_def year_digits_def s_def [symmetric] z_def [symmetric]
      y(1) m(1) d(1) h(1) i(1) e(1) rest_def by simp
  have mt: "match_time rest = Some ((time_hour s, time_minute s, time_second s), f, Some z)"
    unfolding rest_def match_time_def using h i e f(1) zf(1) by simp
  have tz: "timezone_from_string z = Some (ts_timezone t)" unfolding z_def by (rule timezone_roundtrip [OF o(4)])
  define u where "u = \<lparr>ts_date = ts_date t, ts_timezone = ts_timezone t, ts_since_midnight = s div ns_per_second * ns_per_second\<rparr>"
  have cd: "\<lparr>c_year = c_year c, c_month = c_month c, c_day = c_day c\<rparr> = (c :: civil)" for c
    by (cases c) simp
  have fc: "from_components (c_year (ts_date t)) (c_month (ts_date t)) (c_day (ts_date t)) (time_hour s)
      (time_minute s) (time_second s) (ts_timezone t) = Some u"
    unfolding u_def hms(7) [symmetric] using o hms by (subst from_components_total) (simp_all add: cd)
  have "from_string (format_iso8601 t) = Some (case f of None \<Rightarrow> u
      | Some ds \<Rightarrow> u\<lparr>ts_since_midnight := ts_since_midnight u + dval (resize 9 (CHR ''0'') (take 9 ds))\<rparr>)"
    unfolding iso from_string_def using y(2) m(2) d(2) mt tz
    by (simp add: y(3) m(3) d(3) fc Let_def split: option.splits)
  also have "\<dots> = Some t"
  proof -
    have "s = s div ns_per_second * ns_per_second + subseconds t" by (simp add: subseconds_def s_def)
    then show ?thesis using f(2) by (cases f) (simp_all add: u_def s_def)
  qed
  finally show ?thesis .
qed

section \<open>The clock\<close>

lemma with_the_same_sign_sum:
  assumes "with_the_same_sign s n = (s', n')"
  shows "s' * ns_per_second + n' = s * ns_per_second + n"
    "\<lbrakk>- ns_per_second < n; n < ns_per_second\<rbrakk> \<Longrightarrow> - ns_per_second < n' \<and> n' < ns_per_second \<and> (s' < 0 \<longrightarrow> n' \<le> 0) \<and> (s' > 0 \<longrightarrow> 0 \<le> n')"
  using assms by (auto simp: with_the_same_sign_def algebra_simps ns_per_second_def split: if_splits)

definition clock_range :: "int \<Rightarrow> int option" where
  "clock_range d = (if clock_min \<le> d \<and> d \<le> clock_max then Some d else None)"

lemma int_div_less: "0 < n \<Longrightarrow> a div n < s \<longleftrightarrow> a < s * (n :: int)"
proof -
  assume n: "0 < n"
  have "s \<le> a div n \<longleftrightarrow> s * n \<le> a"
  proof
    assume "s \<le> a div n"
    then have "n * s \<le> n * (a div n)" using n by (intro mult_left_mono) simp_all
    then have "n * s \<le> a" using div_bounds [OF n, of a] by linarith
    then show "s * n \<le> a" by (simp only: mult.commute)
  next
    assume "s * n \<le> a"
    then show "s \<le> a div n" using zdiv_mono1 [of "s * n" a n] n by simp
  qed
  then show ?thesis by linarith
qed

lemma in_clock_duration_sum:
  assumes tick: "0 < tick" "tick dvd ns_per_second"
    and sub: "- ticks_per_second tick \<le> sub" "sub \<le> ticks_per_second tick" "s < 0 \<Longrightarrow> sub \<le> 0" "0 < s \<Longrightarrow> 0 \<le> sub"
  shows "in_clock_duration tick s sub = clock_range (s * ticks_per_second tick + sub)"
proof -
  define n where "n = ticks_per_second tick"
  note n = tick_simps [OF tick, folded n_def]
  have "n \<le> ns_per_second" using n tick(1) by (metis less_imp_le mult_le_cancel_left1 not_less zero_less_mult_pos2 int_one_le_iff_zero_less mult.commute)
  then have small: "n < clock_max" "clock_min < - n" by (simp_all add: ns_per_second_def clock_max_def clock_min_def)
  have p: "s * n > 0 \<longleftrightarrow> s > 0" "s * n < 0 \<longleftrightarrow> s < 0"
    using n(1) by (simp_all add: zero_less_mult_iff mult_less_0_iff)
  have q: "s > tdiv clock_max n \<longleftrightarrow> s * n > clock_max" "s < tdiv clock_min n \<longleftrightarrow> s * n < clock_min"
  proof -
    have "clock_max div n < s \<longleftrightarrow> clock_max < s * n" by (rule int_div_less [OF n(1)])
    then show "s > tdiv clock_max n \<longleftrightarrow> s * n > clock_max" by (simp add: tdiv_def clock_max_def)
    have "- s > (- clock_min) div n \<longleftrightarrow> - s * n > - clock_min" by (rule int_div_less [OF n(1)])
    then show "s < tdiv clock_min n \<longleftrightarrow> s * n < clock_min" by (auto simp: tdiv_def clock_min_def)
  qed
  show ?thesis
    unfolding in_clock_duration_def clock_range_def n_def [symmetric] Let_def q p
    using sub [folded n_def] small p by (cases "s = 0"; cases "s < 0"; auto)
qed

lemma tdiv_sum:
  assumes "0 < tick" "tick dvd ns_per_second" "s < 0 \<Longrightarrow> n \<le> 0" "0 < s \<Longrightarrow> 0 \<le> n"
  shows "tdiv (s * ns_per_second + n) tick = s * ticks_per_second tick + tdiv n tick"
proof -
  have m: "s * ns_per_second = (s * ticks_per_second tick) * tick"
    using tick_simps(2) [OF assms(1,2)] by (simp add: mult.assoc)
  have ns: "0 < ns_per_second" by (simp add: ns_per_second_def)
  have d: "(a * tick + b) div tick = a + b div tick" for a b using assms(1) by simp
  consider "s > 0" | "s = 0" | "s < 0" by linarith
  then show ?thesis
  proof cases
    case 1
    then have "0 \<le> n" "0 \<le> s * ns_per_second + n" using assms(4) ns by simp_all
    then show ?thesis unfolding tdiv_def m d by simp
  next
    case 2
    then show ?thesis by simp
  next
    case 3
    then have n: "n \<le> 0" "s * ns_per_second < 0" using assms(3) ns by (simp_all add: mult_less_0_iff)
    then have "\<not> 0 \<le> s * ns_per_second + n" by linarith
    moreover have "(- (s * ns_per_second + n)) div tick = - (s * ticks_per_second tick) + (- n) div tick"
      using d [of "- (s * ticks_per_second tick)" "- n"] by (simp add: m)
    ultimately show ?thesis using n(1) by (cases "n = 0") (simp_all add: tdiv_def)
  qed
qed

lemma floor_sum:
  assumes "0 < tick" "tick dvd ns_per_second"
  shows "(s * ns_per_second + n) div tick = s * ticks_per_second tick + n div tick"
proof -
  have m: "s * ns_per_second = (s * ticks_per_second tick) * tick"
    using tick_simps(2) [OF assms(1,2)] by (simp add: mult.assoc)
  show ?thesis unfolding m using assms(1) by simp
qed

lemma tick_quotients:
  assumes "0 < tick" "tick dvd ns_per_second" "- ns_per_second < n" "n < ns_per_second"
  shows "- ticks_per_second tick \<le> n div tick" "n div tick \<le> ticks_per_second tick" "n \<le> 0 \<Longrightarrow> n div tick \<le> 0"
    "0 \<le> n \<Longrightarrow> 0 \<le> n div tick"
    "- ticks_per_second tick \<le> tdiv n tick" "tdiv n tick \<le> ticks_per_second tick" "n \<le> 0 \<Longrightarrow> tdiv n tick \<le> 0"
    "0 \<le> n \<Longrightarrow> 0 \<le> tdiv n tick"
proof -
  have t: "x div tick \<le> ticks_per_second tick \<and> - ticks_per_second tick \<le> x div tick"
    if "- ns_per_second < x" "x < ns_per_second" for x
    using zdiv_mono1 [of x ns_per_second tick] zdiv_mono1 [of "- ns_per_second" x tick] that assms(1,2)
    by (auto simp: ticks_per_second_def dvd_neg_div)
  show "- ticks_per_second tick \<le> n div tick" "n div tick \<le> ticks_per_second tick"
    "- ticks_per_second tick \<le> tdiv n tick" "tdiv n tick \<le> ticks_per_second tick"
    using t [of n] t [of "- n"] assms(3,4) by (auto simp: tdiv_def)
  show "n \<le> 0 \<Longrightarrow> n div tick \<le> 0" "n \<le> 0 \<Longrightarrow> tdiv n tick \<le> 0" "0 \<le> n \<Longrightarrow> 0 \<le> n div tick" "0 \<le> n \<Longrightarrow> 0 \<le> tdiv n tick"
    using assms(1) zdiv_mono1 [of n 0 tick]
    by (auto simp: tdiv_def pos_imp_zdiv_nonneg_iff)
qed

lemma to_time_point_value:
  assumes "0 < tick" "tick dvd ns_per_second"
  shows "to_time_point tick t = clock_range (instant_ns t div tick)"
proof -
  obtain s n where i: "instant t = (s, n)" by (cases "instant t")
  obtain s' n' where w: "with_the_same_sign s n = (s', n')" by (cases "with_the_same_sign s n")
  have b: "- ns_per_second < n" "n < ns_per_second"
    using i subseconds_bounds [of t] by (auto simp: instant_def ns_per_second_def)
  note ws = with_the_same_sign_sum [OF w]
  have r: "- ns_per_second < n'" "n' < ns_per_second" "s' < 0 \<Longrightarrow> n' \<le> 0" "0 < s' \<Longrightarrow> 0 \<le> n'"
    using ws(2) [OF b] by auto
  note q = tick_quotients [OF assms r(1,2)]
  have "instant_ns t = s' * ns_per_second + n'" unfolding instant_ns_def i ws(1) by simp
  then show ?thesis
    using in_clock_duration_sum [OF assms q(1,2)] q(3,4) r(3,4)
    by (simp add: to_time_point_def i w floor_sum [OF assms])
qed

lemma duration_since_value:
  assumes "0 < tick" "tick dvd ns_per_second"
  shows "duration_since tick t u = clock_range (tdiv (instant_ns t - instant_ns u) tick)"
proof -
  obtain s n where i: "instant t = (s, n)" by (cases "instant t")
  obtain v m where j: "instant u = (v, m)" by (cases "instant u")
  obtain s' n' where w: "with_the_same_sign (s - v) (n - m) = (s', n')" by (cases "with_the_same_sign (s - v) (n - m)")
  have b: "- ns_per_second < n - m" "n - m < ns_per_second"
    using i j subseconds_bounds [of t] subseconds_bounds [of u] by (auto simp: instant_def)
  note ws = with_the_same_sign_sum [OF w]
  have r: "- ns_per_second < n'" "n' < ns_per_second" "s' < 0 \<Longrightarrow> n' \<le> 0" "0 < s' \<Longrightarrow> 0 \<le> n'"
    using ws(2) [OF b] by auto
  note q = tick_quotients [OF assms r(1,2)]
  have "instant_ns t - instant_ns u = s' * ns_per_second + n'"
    unfolding instant_ns_def i j ws(1) by (simp add: left_diff_distrib)
  then show ?thesis
    using in_clock_duration_sum [OF assms q(5,6)] q(7,8) r(3,4) tdiv_sum [OF assms, of s' n']
    by (simp add: duration_since_def i j w)
qed

lemma from_time_point_instant:
  assumes "0 < tick" "tick dvd ns_per_second" "from_time_point tick p = Some t"
  shows "instant_ns t = p * tick"
proof -
  define n where "n = ticks_per_second tick"
  have t: "t = set_local timestamp_default (p div n) (p mod n * tick)"
    using assms(3) by (auto simp: from_time_point_floor [OF assms(1,2)] Let_def n_def split: if_splits)
  note l = local_set_local [OF tick_fraction [OF assms(1,2), of p, folded n_def], of timestamp_default "p div n"]
  have "instant_ns t = p div n * ns_per_second + p mod n * tick"
    using l by (simp add: instant_ns_def instant_def t timestamp_default_def timezone_utc_def)
  also have "\<dots> = (p div n * n + p mod n) * tick"
    unfolding tick_simps(2) [OF assms(1,2), folded n_def, symmetric] distrib_right by (simp only: mult.assoc)
  finally show ?thesis by simp
qed

lemma in_seconds_range:
  assumes "0 < u"
  shows "in_seconds u d = (if seconds_max < d * u \<or> d * u < seconds_min then None else Some (d * u))"
proof -
  have "tdiv seconds_max u < d \<longleftrightarrow> seconds_max < d * u"
    using int_div_less [OF assms, of seconds_max d] by (simp add: tdiv_def seconds_max_def)
  moreover have "d < tdiv seconds_min u \<longleftrightarrow> d * u < seconds_min"
    using int_div_less [OF assms, of "- seconds_min" "- d"] by (auto simp: tdiv_def seconds_min_def)
  ultimately show ?thesis by (simp add: in_seconds_def)
qed

lemma seconds_bounds_wide: "end_second - first_second < seconds_max" "seconds_min < first_second - end_second"
  by (simp_all add: second_bounds seconds_max_def seconds_min_def)

lemma timestamp_plus_range:
  assumes "0 < u" "timestamp_ok t"
  shows "timestamp_plus u t d =
    (if first_second \<le> local_seconds t + d * u \<and> local_seconds t + d * u < end_second
     then Inr (set_local t (local_seconds t + d * u) (subseconds t)) else Inl result_out_of_range)"
    "timestamp_minus_duration u t d = timestamp_plus u t (- d)"
proof -
  note w = seconds_bounds_wide timestamp_ok_seconds(1,2) [OF assms(2)]
  show p: "timestamp_plus u t d =
    (if first_second \<le> local_seconds t + d * u \<and> local_seconds t + d * u < end_second
     then Inr (set_local t (local_seconds t + d * u) (subseconds t)) else Inl result_out_of_range)" for d
    unfolding timestamp_plus_def in_seconds_range [OF assms(1)] value_or_throw_def timestamp_add_def Let_def
    using w by (simp add: algebra_simps)
  have m: "- d * u = - (d * u)" by simp
  have r: "\<not> seconds_min < d * u \<Longrightarrow> \<not> local_seconds t - d * u < end_second"
    "\<not> d * u \<le> seconds_max \<Longrightarrow> \<not> first_second \<le> local_seconds t - d * u" using w by linarith+
  show "timestamp_minus_duration u t d = timestamp_plus u t (- d)"
    unfolding p m timestamp_minus_duration_def in_seconds_range [OF assms(1)] value_or_throw_def
      timestamp_subtract_def timestamp_add_def Let_def
    using r by (cases "d * u = seconds_min") (auto simp: not_less not_le)
qed

section \<open>Properties\<close>

lemmas timestamp_ok_results = from_string_ok timestamp_default_ok timestamp_of_time_point_ok

text \<open>C12: Every public way to make a timestamp, and every arithmetic operator that returns one,
  gives a timestamp of the years 0 to 9999 whose date exists, whose time of day is within the day
  and whose timezone is within its bounds.\<close>

theorem timestamp_invariant:
  assumes "0 < tick" "tick dvd ns_per_second" "0 < u" "timezone_ok tz" "timestamp_ok t"
  shows "timestamp_ok timestamp_default \<and> timestamp_ok (timestamp_of_string s) \<and>
    timestamp_ok (timestamp_of_components y mo d h mi sec tz) \<and>
    timestamp_ok (timestamp_of_time_point tick p) \<and>
    (\<forall>r \<in> {timestamp_plus u t n, timestamp_minus_duration u t n}. case r of Inr t' \<Rightarrow> timestamp_ok t'
       | Inl e \<Rightarrow> e = result_out_of_range)"
proof (intro conjI)
  show "timestamp_ok timestamp_default" by (rule timestamp_default_ok)
  show "timestamp_ok (timestamp_of_string s)"
    using from_string_ok timestamp_default_ok by (auto simp: timestamp_of_string_def split: option.splits)
  show "timestamp_ok (timestamp_of_components y mo d h mi sec tz)"
    using from_components_ok(1) assms(4) timestamp_default_ok by (auto simp: timestamp_of_components_def split: option.splits)
  show "timestamp_ok (timestamp_of_time_point tick p)" by (rule timestamp_of_time_point_ok [OF assms(1,2)])
  have "case timestamp_plus u t k of Inr t' \<Rightarrow> timestamp_ok t' | Inl e \<Rightarrow> e = result_out_of_range" for k
    using assms(5) set_local_ok subseconds_bounds timestamp_plus_range(1) [OF assms(3,5)]
    by (auto simp: timestamp_ok_def)
  then show "\<forall>r \<in> {timestamp_plus u t n, timestamp_minus_duration u t n}. case r of Inr t' \<Rightarrow> timestamp_ok t'
       | Inl e \<Rightarrow> e = result_out_of_range"
    by (simp add: timestamp_plus_range(2) [OF assms(3,5)])
qed

lemma timestamp_invariant_witness:
  "timestamp_ok (timestamp_of_components 2024 2 29 1 2 3 timezone_utc)"
  using timestamp_invariant [of 1 60 timezone_utc timestamp_default "[]" 2024 2 29 1 2 3 0 0] timestamp_default_ok
  by simp

text \<open>C13: The ISO 8601 text of a timestamp reads back as the same timestamp: date, time of day down
  to the nanosecond, and timezone.\<close>

theorem timestamp_roundtrip:
  assumes "timestamp_ok t"
  shows "from_string (format_iso8601 t) = Some t \<and> timestamp_of_string (format_iso8601 t) = t"
  by (simp add: timestamp_of_string_def from_string_format [OF assms])

lemma timestamp_roundtrip_witness: "from_string (format_iso8601 timestamp_default) = Some timestamp_default"
  using timestamp_roundtrip [OF timestamp_default_ok] by simp

text \<open>C14: Adding a duration of \<open>n\<close> units of \<open>u\<close> seconds (seconds, minutes, hours) gives a timestamp
  exactly when the local time stays from the first second of the year 0 to the last of the year 9999:
  the timestamp is then moved by exactly that duration, within its bounds again, keeps its timezone,
  and subtracting the duration gives the first one back. In every other case the operator reports
  \<open>std::out_of_range\<close>.\<close>

theorem timestamp_plus_exact:
  assumes "0 < u" "timestamp_ok t"
  shows "case timestamp_plus u t n of
      Inr t' \<Rightarrow> first_second \<le> local_seconds t + n * u \<and> local_seconds t + n * u < end_second \<and>
        timestamp_ok t' \<and> local_seconds t' = local_seconds t + n * u \<and>
        instant_ns t' = instant_ns t + n * u * ns_per_second \<and> ts_timezone t' = ts_timezone t \<and>
        timestamp_minus_duration u t' n = Inr t
    | Inl e \<Rightarrow> e = result_out_of_range \<and> \<not> (first_second \<le> local_seconds t + n * u \<and> local_seconds t + n * u < end_second)"
proof (cases "first_second \<le> local_seconds t + n * u \<and> local_seconds t + n * u < end_second")
  case False
  then show ?thesis using timestamp_plus_range(1) [OF assms, of n] by auto
next
  case True
  define t' where "t' = set_local t (local_seconds t + n * u) (subseconds t)"
  note l = local_set_local [OF subseconds_bounds, of t "local_seconds t + n * u" t, folded t'_def]
  have ok: "timestamp_ok t'"
    unfolding t'_def using True assms(2) by (intro set_local_ok subseconds_bounds) (simp_all add: timestamp_ok_def)
  define t'' where "t'' = set_local t' (local_seconds t' + (- n) * u) (subseconds t')"
  note l' = local_set_local [OF subseconds_bounds, of t' "local_seconds t' + (- n) * u" t', folded t''_def]
  have s: "local_seconds t' + (- n) * u = local_seconds t" using l by simp
  have r: "first_second \<le> local_seconds t' + (- n) * u" "local_seconds t' + (- n) * u < end_second"
    unfolding s using timestamp_ok_seconds(1,2) [OF assms(2)] by blast+
  have "timestamp_ok t''"
    unfolding t''_def using r ok by (intro set_local_ok subseconds_bounds) (simp_all add: timestamp_ok_def)
  then have "t'' = t" using l l' s assms(2) by (intro timestamp_eqI) simp_all
  then have "timestamp_minus_duration u t' n = Inr t"
    using r unfolding timestamp_plus_range [OF assms(1) ok] t''_def by simp
  moreover have "instant_ns t' = instant_ns t + n * u * ns_per_second"
    using l by (simp add: instant_ns_def instant_def algebra_simps)
  moreover have "timestamp_plus u t n = Inr t'"
    using True timestamp_plus_range(1) [OF assms, of n] by (simp add: t'_def)
  ultimately show ?thesis using l True ok by simp
qed

lemma timestamp_plus_exact_witness:
  "case timestamp_plus 3600 timestamp_default 24 of
      Inr t' \<Rightarrow> instant_ns t' = instant_ns timestamp_default + 24 * 3600 * ns_per_second \<and>
        ts_timezone t' = timezone_utc \<and> timestamp_minus_duration 3600 t' 24 = Inr timestamp_default
    | Inl e \<Rightarrow> False"
proof -
  have tz: "ts_timezone timestamp_default = timezone_utc" by (simp add: timestamp_default_def)
  have "local_seconds timestamp_default = 0" by code_simp
  then have "first_second \<le> local_seconds timestamp_default + 24 * 3600 \<and>
    local_seconds timestamp_default + 24 * 3600 < end_second" by (simp add: second_bounds)
  then show ?thesis
    using timestamp_plus_exact [OF _ timestamp_default_ok, of 3600 24] unfolding tz
    by (auto split: sum.splits)
qed

text \<open>C15: The order of timestamps is the order of their instants in nanoseconds, whatever timezone
  they are written in; two are equal exactly when neither is before the other, and the difference
  of two is the nanoseconds between them, at the resolution of the clock, held at the ends of the
  clock's duration.\<close>

theorem timestamp_order_difference:
  assumes "0 < tick" "tick dvd ns_per_second"
  shows "timestamp_compare t u = compare_by instant_ns t u \<and>
    (timestamp_equals t u \<longleftrightarrow> timestamp_compare t u = Equivalent) \<and>
    timestamp_minus tick t u = max clock_min (min clock_max (tdiv (instant_ns t - instant_ns u) tick))"
proof -
  have c: "timestamp_compare t u = compare_by instant_ns t u"
    using timestamp_order.compare_key by (simp add: instant_ns_def [abs_def])
  moreover have "timestamp_equals t u \<longleftrightarrow> timestamp_compare t u = Equivalent"
    unfolding c timestamp_equals_def instant_ns_inject [symmetric] by (simp add: compare_by_def)
  moreover have "timestamp_minus tick t u = max clock_min (min clock_max (tdiv (instant_ns t - instant_ns u) tick))"
  proof -
    define e where "e = instant_ns t - instant_ns u"
    define d where "d = tdiv e tick"
    have "d < 0 \<Longrightarrow> e < 0" "0 < d \<Longrightarrow> 0 < e"
      using assms(1) by (auto simp: d_def tdiv_def pos_imp_zdiv_neg_iff split: if_splits)
        (metis div_0 le_less linorder_not_less neg_0_less_iff_less pos_imp_zdiv_neg_iff)+
    then have "clock_max < d \<Longrightarrow> \<not> instant_ns t < instant_ns u" "d < clock_min \<Longrightarrow> instant_ns t < instant_ns u"
      by (auto simp: e_def clock_max_def clock_min_def)
    moreover have "clock_min < clock_max" by (simp add: clock_max_def clock_min_def)
    ultimately show ?thesis
      unfolding timestamp_minus_def duration_since_value [OF assms] c e_def [symmetric] d_def [symmetric]
      by (auto simp: clock_range_def compare_by_def)
  qed
  ultimately show ?thesis by blast
qed

lemma timestamp_order_difference_witness:
  "timestamp_compare timestamp_default timestamp_default = compare_by instant_ns timestamp_default timestamp_default"
  using timestamp_order_difference [of 1 timestamp_default timestamp_default] by simp

text \<open>A time point of the clock within the years 0 to 9999 converts to the timestamp of the same
  instant and back to itself; a timestamp converts to the time point at or before it, unless the clock cannot
  hold it.\<close>

theorem timestamp_clock_roundtrip:
  assumes "0 < tick" "tick dvd ns_per_second" "clock_min \<le> p" "p \<le> clock_max"
  shows "to_time_point tick t = clock_range (instant_ns t div tick) \<and>
    (case from_time_point tick p of
       Some t \<Rightarrow> instant_ns t = p * tick \<and> to_time_point tick t = Some p
     | None \<Rightarrow> p div ticks_per_second tick < first_second \<or> end_second \<le> p div ticks_per_second tick)"
proof (cases "from_time_point tick p")
  case None
  then show ?thesis
    using to_time_point_value [OF assms(1,2)] from_time_point_floor [OF assms(1,2), of p]
    by (auto simp: Let_def split: if_splits)
next
  case (Some u)
  have i: "instant_ns u = p * tick" by (rule from_time_point_instant [OF assms(1,2) Some])
  then have "to_time_point tick u = clock_range p"
    using assms(1) by (simp add: to_time_point_value [OF assms(1,2)])
  then show ?thesis using i Some assms(1,3,4) to_time_point_value [OF assms(1,2)] by (simp add: clock_range_def)
qed

lemma timestamp_clock_roundtrip_witness:
  "to_time_point 1 timestamp_default = clock_range (instant_ns timestamp_default)"
  using timestamp_clock_roundtrip [of 1 0 timestamp_default] by (simp add: clock_min_def clock_max_def)

end
