(* ===== verification/Values.thy ===== *)
theory Values
  imports Number Timestamp
begin

text \<open>
  \<open>class value\<close>, \<open>class array\<close> and \<open>class dictionary\<close> (\<open>src/type/value.cpp\<close>,
  \<open>array.cpp\<close>, \<open>dictionary.cpp\<close>), which contain each other. A \<open>std::vector\<close> is a list, a
  \<open>std::map\<close> from strings is the list of its entries in the order of the keys, bytes compared as
  unsigned. An iterator is the position of its cursor.
\<close>

section \<open>The values\<close>

text \<open>The alternatives of the variant. An array holds its contents, a dictionary its properties.\<close>

datatype val =
    Monostate
  | Boolean boolean_storage
  | Number number_storage
  | String string_storage
  | Array "val list"
  | Dictionary "(string \<times> val) list"
  | Timestamp timestamp
  | Data data_storage

type_synonym entries = "(string \<times> val) list"

definition val_default :: val where
  "val_default = Monostate"

text \<open>A move returns what it makes and what it leaves in the source.\<close>

definition val_move :: "val \<Rightarrow> val \<times> val" where
  "val_move v = (v, val_default)"

definition val_move_assign :: "val \<Rightarrow> val \<Rightarrow> val \<times> val" where
  "val_move_assign this v = (let (this, v) = (v, this) in (this, Monostate))"

definition val_assign_null :: "val \<Rightarrow> val" where
  "val_assign_null this = Monostate"

definition val_assign :: "val \<Rightarrow> val \<Rightarrow> val" where
  "val_assign this v = v"

text \<open>The constructors from a string, an array, a dictionary or data that is moved in.\<close>

definition val_of_string_move :: "string_storage \<Rightarrow> val \<times> string_storage" where
  "val_of_string_move s = (let (value, s) = string_move s in (String value, s))"

definition val_of_data_move :: "data_storage \<Rightarrow> val \<times> data_storage" where
  "val_of_data_move d = (let (value, d) = data_move d in (Data value, d))"

definition array_move :: "val list \<Rightarrow> val list \<times> val list" where
  "array_move a = (a, [])"

definition dictionary_move :: "entries \<Rightarrow> entries \<times> entries" where
  "dictionary_move d = (d, [])"

definition val_of_array_move :: "val list \<Rightarrow> val \<times> val list" where
  "val_of_array_move a = (let (value, a) = array_move a in (Array value, a))"

definition val_of_dictionary_move :: "entries \<Rightarrow> val \<times> entries" where
  "val_of_dictionary_move d = (let (value, d) = dictionary_move d in (Dictionary value, d))"

text \<open>Equality of the variants: the same alternative, and its \<open>operator==\<close>; that of vectors and
  maps compares the sizes and then the elements in order.\<close>

fun val_equals :: "val \<Rightarrow> val \<Rightarrow> bool"
  and contents_equal :: "val list \<Rightarrow> val list \<Rightarrow> bool"
  and entries_equal :: "entries \<Rightarrow> entries \<Rightarrow> bool" where
  "val_equals Monostate Monostate = True"
| "val_equals (Boolean b) (Boolean b') = boolean_equals b b'"
| "val_equals (Number n) (Number n') = number_equals n n'"
| "val_equals (String s) (String s') = string_equals s s'"
| "val_equals (Array a) (Array a') = contents_equal a a'"
| "val_equals (Dictionary d) (Dictionary d') = entries_equal d d'"
| "val_equals (Timestamp t) (Timestamp t') = timestamp_equals t t'"
| "val_equals (Data d) (Data d') = data_equals d d'"
| "val_equals _ _ = False"
| "contents_equal [] [] = True"
| "contents_equal (x # xs) (y # ys) = (val_equals x y \<and> contents_equal xs ys)"
| "contents_equal _ _ = False"
| "entries_equal [] [] = True"
| "entries_equal ((k, x) # xs) ((k', y) # ys) = (k = k' \<and> val_equals x y \<and> entries_equal xs ys)"
| "entries_equal _ _ = False"

definition val_bool :: "val \<Rightarrow> bool" where
  "val_bool v = (case v of Monostate \<Rightarrow> False | _ \<Rightarrow> True)"

text \<open>\<open>is\<close>, \<open>get_if\<close> and \<open>value_cast\<close> for each alternative, named by a kind.\<close>

datatype kind = boolean_kind | number_kind | string_kind | array_kind | dictionary_kind
  | timestamp_kind | data_kind

definition val_is :: "kind \<Rightarrow> val \<Rightarrow> bool" where
  "val_is k v =
     (case v of
        Monostate \<Rightarrow> False
      | Boolean _ \<Rightarrow> k = boolean_kind
      | Number _ \<Rightarrow> k = number_kind
      | String _ \<Rightarrow> k = string_kind
      | Array _ \<Rightarrow> k = array_kind
      | Dictionary _ \<Rightarrow> k = dictionary_kind
      | Timestamp _ \<Rightarrow> k = timestamp_kind
      | Data _ \<Rightarrow> k = data_kind)"

definition default_of :: "kind \<Rightarrow> val" where
  "default_of k =
     (case k of
        boolean_kind \<Rightarrow> Boolean boolean_default
      | number_kind \<Rightarrow> Number storage_default
      | string_kind \<Rightarrow> String string_default
      | array_kind \<Rightarrow> Array []
      | dictionary_kind \<Rightarrow> Dictionary []
      | timestamp_kind \<Rightarrow> Timestamp timestamp_default
      | data_kind \<Rightarrow> Data data_default)"

definition val_get_if :: "kind \<Rightarrow> val \<Rightarrow> val option" where
  "val_get_if k v = (if val_is k v then Some v else None)"

definition value_cast :: "kind \<Rightarrow> val \<Rightarrow> val" where
  "value_cast k original = (if val_is k original then original else default_of k)"

section \<open>array\<close>

definition array_empty :: "val list \<Rightarrow> bool" where
  "array_empty a = (a = [])"

definition array_length :: "val list \<Rightarrow> nat" where
  "array_length a = length a"

text \<open>\<open>-1\<close> as a \<open>size_t\<close> when nothing is found: here \<^const>\<open>None\<close>.\<close>

definition array_index_of :: "val list \<Rightarrow> val \<Rightarrow> nat option" where
  "array_index_of a v = find_pos (\<lambda>x. val_equals x v) a"

text \<open>\<open>vector::at\<close>, whose \<open>std::out_of_range\<close> is a value here, and the store through the
  reference it returns.\<close>

definition array_value_at :: "val list \<Rightarrow> nat \<Rightarrow> errc + val" where
  "array_value_at a i = (if i < length a then Inr (a ! i) else Inl result_out_of_range)"

definition array_set_at :: "val list \<Rightarrow> nat \<Rightarrow> val \<Rightarrow> errc + val list" where
  "array_set_at a i v = (if i < length a then Inr (a[i := v]) else Inl result_out_of_range)"

definition array_append :: "val list \<Rightarrow> val \<Rightarrow> val list" where
  "array_append a v = a @ [v]"

definition array_append_move :: "val list \<Rightarrow> val \<Rightarrow> val list \<times> val" where
  "array_append_move a v = (let (w, v) = val_move v in (a @ [w], v))"

text \<open>The range between two iterators of another array.\<close>

definition array_append_range :: "val list \<Rightarrow> val list \<Rightarrow> nat \<Rightarrow> nat \<Rightarrow> val list" where
  "array_append_range a b from to = foldl array_append a (take (to - from) (drop from b))"

text \<open>The operand of \<open>remove\<close> is a reference: to a value apart, or to an element of the array
  itself. \<open>std::erase\<close> reads it at every comparison, while it moves the elements that stay.\<close>

datatype operand = Separate val | Element nat

definition operand_value :: "val list \<Rightarrow> operand \<Rightarrow> val" where
  "operand_value a v = (case v of Separate u \<Rightarrow> u | Element k \<Rightarrow> a ! k)"

function remove_loop :: "operand \<Rightarrow> val list \<Rightarrow> nat \<Rightarrow> nat \<Rightarrow> val list" where
  "remove_loop v a result it =
     (if it \<ge> length a then take result a
      else if val_equals (a ! it) (operand_value a v) then remove_loop v a result (it + 1)
      else let (moved, left) = val_move_assign (a ! result) (a ! it)
           in remove_loop v (a[result := moved, it := left]) (result + 1) (it + 1))"
  by pat_completeness auto
termination
  by (relation "measure (\<lambda>(v, a, result, it). length a - it)") auto

declare remove_loop.simps [simp del]

definition array_remove :: "val list \<Rightarrow> operand \<Rightarrow> val list" where
  "array_remove a v =
     (case find_pos (\<lambda>x. val_equals x (operand_value a v)) a of
        None \<Rightarrow> a
      | Some result \<Rightarrow> remove_loop v a result (result + 1))"

definition array_equals :: "val list \<Rightarrow> val list \<Rightarrow> bool" where
  "array_equals a a' = contents_equal a a'"

definition array_assign :: "val list \<Rightarrow> val list \<Rightarrow> val list" where
  "array_assign this a = a"

definition array_move_assign :: "val list \<Rightarrow> val list \<Rightarrow> val list \<times> val list" where
  "array_move_assign this a = (let (this, a) = (a, this) in (this, []))"

text \<open>Iterators: the begin, the end, the two increments, the element and the comparison.\<close>

record iterator =
  it_cursor :: nat

definition array_begin :: "val list \<Rightarrow> iterator" where
  "array_begin a = \<lparr>it_cursor = 0\<rparr>"

definition array_end :: "val list \<Rightarrow> iterator" where
  "array_end a = \<lparr>it_cursor = length a\<rparr>"

definition iterator_increment :: "iterator \<Rightarrow> iterator" where
  "iterator_increment i = i\<lparr>it_cursor := it_cursor i + 1\<rparr>"

definition iterator_post_increment :: "iterator \<Rightarrow> iterator \<times> iterator" where
  "iterator_post_increment i = (let previous = i; i = iterator_increment i in (previous, i))"

definition array_deref :: "val list \<Rightarrow> iterator \<Rightarrow> val option" where
  "array_deref a i = (if it_cursor i < length a then Some (a ! it_cursor i) else None)"

definition iterator_equals :: "iterator \<Rightarrow> iterator \<Rightarrow> bool" where
  "iterator_equals lhs rhs = (it_cursor lhs = it_cursor rhs)"

section \<open>dictionary\<close>

definition dictionary_contains :: "entries \<Rightarrow> string \<Rightarrow> bool" where
  "dictionary_contains d key = (key \<in> set (map fst d))"

definition dictionary_empty :: "entries \<Rightarrow> bool" where
  "dictionary_empty d = (d = [])"

definition dictionary_size :: "entries \<Rightarrow> nat" where
  "dictionary_size d = length d"

definition dictionary_equals :: "entries \<Rightarrow> entries \<Rightarrow> bool" where
  "dictionary_equals d d' = entries_equal d d'"

definition dictionary_assign :: "entries \<Rightarrow> entries \<Rightarrow> entries" where
  "dictionary_assign this d = d"

definition dictionary_move_assign :: "entries \<Rightarrow> entries \<Rightarrow> entries \<times> entries" where
  "dictionary_move_assign this d = (let (this, d) = (d, this) in (this, []))"

text \<open>The insertion of an entry at its place in the order of the keys, over one with its key.\<close>

fun entry_insert :: "string \<Rightarrow> 'a \<Rightarrow> (string \<times> 'a) list \<Rightarrow> (string \<times> 'a) list" where
  "entry_insert key v [] = [(key, v)]"
| "entry_insert key v ((k, u) # d) =
     (if key < k then (key, v) # (k, u) # d
      else if key = k then (key, v) # d
      else (k, u) # entry_insert key v d)"

text \<open>\<open>operator[]\<close> of a dictionary that can change makes an entry when there is none; what it
  returns is a reference, and \<open>dictionary_store\<close> is an assignment through it.\<close>

definition dictionary_index :: "entries \<Rightarrow> string \<Rightarrow> entries \<times> val" where
  "dictionary_index d key =
     (case map_of d key of
        Some v \<Rightarrow> (d, v)
      | None \<Rightarrow> (entry_insert key val_default d, val_default))"

definition dictionary_store :: "entries \<Rightarrow> string \<Rightarrow> val \<Rightarrow> entries" where
  "dictionary_store d key v = (let (d, old) = dictionary_index d key in entry_insert key (val_assign old v) d)"

definition dictionary_at :: "entries \<Rightarrow> string \<Rightarrow> errc + val" where
  "dictionary_at d key = (case map_of d key of Some v \<Rightarrow> Inr v | None \<Rightarrow> Inl result_out_of_range)"

definition dictionary_begin :: "entries \<Rightarrow> iterator" where
  "dictionary_begin d = \<lparr>it_cursor = 0\<rparr>"

definition dictionary_end :: "entries \<Rightarrow> iterator" where
  "dictionary_end d = \<lparr>it_cursor = length d\<rparr>"

definition dictionary_deref :: "entries \<Rightarrow> iterator \<Rightarrow> (string \<times> val) option" where
  "dictionary_deref d i = (if it_cursor i < length d then Some (d ! it_cursor i) else None)"

end
