(* ===== verification/Value_Laws.thy ===== *)
theory Value_Laws
  imports Values Timestamp_Laws "HOL-Library.Sublist"
begin

text \<open>
  What the containers promise: values compare by an equivalence relation that looks through
  arrays and dictionaries, a dictionary is a finite map whose entries are in the order of their
  keys, and an array keeps the order of what it holds. The map is an interface of its own, which
  the dictionary implements.
\<close>

section \<open>Maps from keys to values\<close>

locale key_value =
  fixes invar :: "'m \<Rightarrow> bool" and empty :: "'m"
    and find :: "'m \<Rightarrow> 'k \<Rightarrow> 'v option" and store :: "'m \<Rightarrow> 'k \<Rightarrow> 'v \<Rightarrow> 'm"
  assumes empty_ok: "invar empty"
    and find_empty: "find empty k = None"
    and store_ok: "invar m \<Longrightarrow> invar (store m k v)"
    and find_store: "invar m \<Longrightarrow> find (store m k v) = (find m)(k \<mapsto> v)"
    and find_inject: "invar m \<Longrightarrow> invar m' \<Longrightarrow> find m = find m' \<Longrightarrow> m = m'"
begin

definition stores :: "'m \<Rightarrow> ('k \<times> 'v) list \<Rightarrow> 'm" where
  "stores m kvs = foldl (\<lambda>m (k, v). store m k v) m kvs"

lemma stores_ok: "invar m \<Longrightarrow> invar (stores m kvs)"
  by (induction kvs arbitrary: m) (auto simp: stores_def store_ok)

lemma find_stores: "invar m \<Longrightarrow> find (stores m kvs) = find m ++ map_of (rev kvs)"
  by (induction kvs rule: rev_induct) (auto simp: stores_def find_store stores_ok [unfolded stores_def])

lemma store_twice: "invar m \<Longrightarrow> store (store m k v) k w = store m k w"
  by (intro find_inject store_ok) (simp_all add: find_store store_ok)

lemma store_commute: "invar m \<Longrightarrow> k \<noteq> j \<Longrightarrow> store (store m k v) j w = store (store m j w) k v"
  by (intro find_inject store_ok) (auto simp: find_store store_ok)

text \<open>The order in which distinct keys are stored does not show.\<close>

lemma stores_permute:
  assumes "invar m" "distinct (map fst kvs)" "distinct (map fst kvs')" "set kvs = set kvs'"
  shows "stores m kvs = stores m kvs'"
proof (rule find_inject)
  have "map_of (rev kvs) = map_of (rev kvs')"
    using assms(2-4) map_of_inject_set [of "rev kvs" "rev kvs'"] by (simp add: rev_map [symmetric])
  then show "find (stores m kvs) = find (stores m kvs')" using assms(1) by (simp add: find_stores)
qed (simp_all add: stores_ok assms(1))

end

section \<open>Well-formed values\<close>

definition entries_sorted :: "entries \<Rightarrow> bool" where
  "entries_sorted d = sorted_wrt (<) (map fst d)"

fun val_ok :: "val \<Rightarrow> bool" and contents_ok :: "val list \<Rightarrow> bool" and entries_ok :: "entries \<Rightarrow> bool" where
  "val_ok (Number n) = number_ok n"
| "val_ok (Timestamp t) = timestamp_ok t"
| "val_ok (Array a) = contents_ok a"
| "val_ok (Dictionary d) = (entries_sorted d \<and> entries_ok d)"
| "val_ok _ = True"
| "contents_ok [] = True"
| "contents_ok (x # xs) = (val_ok x \<and> contents_ok xs)"
| "entries_ok [] = True"
| "entries_ok ((k, x) # xs) = (val_ok x \<and> entries_ok xs)"

lemma contents_ok_iff: "contents_ok xs \<longleftrightarrow> (\<forall>x \<in> set xs. val_ok x)"
  by (induction xs) auto

lemma entries_ok_iff: "entries_ok d \<longleftrightarrow> (\<forall>(k, v) \<in> set d. val_ok v)"
  by (induction d) auto

lemma default_of_ok: "val_ok (default_of k)"
  by (cases k) (simp_all add: default_of_def storage_default_ok timestamp_default_ok entries_sorted_def)

section \<open>The dictionary is a map\<close>

lemma map_of_entry_insert [simp]:
  "sorted_wrt (<) (map fst d) \<Longrightarrow> map_of (entry_insert key v d) = (map_of d)(key \<mapsto> v)"
  by (induction key v d rule: entry_insert.induct) (auto simp: fun_eq_iff)

lemma keys_entry_insert: "fst ` set (entry_insert key v d) = insert key (fst ` set d)"
  by (induction key v d rule: entry_insert.induct) auto

lemma sorted_entry_insert:
  "sorted_wrt (<) (map fst d) \<Longrightarrow> sorted_wrt (<) (map fst (entry_insert key v d))"
proof (induction key v d rule: entry_insert.induct)
  case (2 key v k u d)
  have "\<forall>j \<in> fst ` set (entry_insert key v d). k < j" if "\<not> key < k" "key \<noteq> k"
    using that 2(2) unfolding keys_entry_insert by auto
  with 2 show ?case by auto
qed simp

lemma entry_insert_ok: "entries_ok d \<Longrightarrow> val_ok v \<Longrightarrow> entries_ok (entry_insert key v d)"
  by (induction key v d rule: entry_insert.induct) auto

lemma dictionary_store_insert: "entries_sorted d \<Longrightarrow> dictionary_store d key v = entry_insert key v d"
proof -
  assume s: "entries_sorted d"
  have "entry_insert key v (entry_insert key u d) = entry_insert key v d" for u
    by (induction key u d rule: entry_insert.induct) auto
  then show ?thesis by (simp add: dictionary_store_def dictionary_index_def val_assign_def split: option.split)
qed

lemma sorted_distinct_keys: "sorted_wrt (<) (map fst d) \<Longrightarrow> distinct (map fst (d :: entries))"
  using strict_sorted_iff by blast

lemma entries_eqI:
  assumes "entries_sorted d" "entries_sorted d'" "map_of d = map_of d'"
  shows "d = d'"
proof -
  have s: "sorted (map fst d)" "distinct (map fst d)" "sorted (map fst d')" "distinct (map fst d')"
    using assms(1,2) by (simp_all add: entries_sorted_def strict_sorted_iff)
  have e: "set d = set d'" using s assms(3) by (metis map_of_inject_set)
  then have "inj_on fst (set d \<union> set d')" using s(2) by (simp add: distinct_map)
  then show ?thesis using map_sorted_distinct_set_unique [OF _ s e] by blast
qed

interpretation dictionary: key_value entries_sorted "[]" map_of dictionary_store
  by unfold_locales
    (simp_all add: dictionary_store_insert, simp_all add: entries_sorted_def sorted_entry_insert entries_eqI)

section \<open>Equality\<close>

lemma number_equals_value: "number_ok n \<Longrightarrow> number_ok m \<Longrightarrow> number_equals n m \<longleftrightarrow> number_value n = number_value m"
  by (simp add: number_equals_def number_order.compare_equivalent)

lemma equals_refl:
  "val_ok v \<Longrightarrow> val_equals v v"
  "contents_ok a \<Longrightarrow> contents_equal a a"
  "entries_ok d \<Longrightarrow> entries_equal d d"
  by (induction v and a and d rule: val_ok_contents_ok_entries_ok.induct)
    (auto simp: number_equals_value boolean_equals_def string_equals_def timestamp_equals_def data_equals_def)

lemma equals_sym:
  "val_ok v \<Longrightarrow> val_ok w \<Longrightarrow> val_equals v w \<Longrightarrow> val_equals w v"
  "contents_ok a \<Longrightarrow> contents_ok b \<Longrightarrow> contents_equal a b \<Longrightarrow> contents_equal b a"
  "entries_ok d \<Longrightarrow> entries_ok e \<Longrightarrow> entries_equal d e \<Longrightarrow> entries_equal e d"
  by (induction v w and a b and d e rule: val_equals_contents_equal_entries_equal.induct)
    (auto simp: number_equals_value boolean_equals_def string_equals_def timestamp_equals_def data_equals_def)

lemma equals_trans:
  "val_equals v w \<Longrightarrow> val_ok v \<Longrightarrow> val_ok w \<Longrightarrow> val_ok x \<Longrightarrow> val_equals w x \<Longrightarrow> val_equals v x"
  "contents_equal a b \<Longrightarrow> contents_ok a \<Longrightarrow> contents_ok b \<Longrightarrow> contents_ok c \<Longrightarrow> contents_equal b c \<Longrightarrow> contents_equal a c"
  "entries_equal d e \<Longrightarrow> entries_ok d \<Longrightarrow> entries_ok e \<Longrightarrow> entries_ok f \<Longrightarrow> entries_equal e f \<Longrightarrow> entries_equal d f"
proof (induction v w and a b and d e arbitrary: x and c and f rule: val_equals_contents_equal_entries_equal.induct)
qed (auto simp: number_equals_value boolean_equals_def string_equals_def timestamp_equals_def data_equals_def
  elim: val_equals.elims contents_equal.elims entries_equal.elims)

text \<open>Equality of arrays is that of their elements, place by place; equality of dictionaries in order is
  that of what they hold under each key.\<close>

lemma contents_equal_iff: "contents_equal a b \<longleftrightarrow> list_all2 val_equals a b"
  by (induction a b rule: list_induct2') simp_all

lemma entries_equal_iff: "entries_equal d e \<longleftrightarrow> list_all2 (rel_prod (=) val_equals) d e"
  by (induction d e rule: list_induct2') auto

lemma map_of_sorted_nth:
  "entries_sorted d \<Longrightarrow> i < length d \<Longrightarrow> map_of d (fst (d ! i)) = Some (snd (d ! i))"
  by (simp add: entries_sorted_def sorted_distinct_keys)

lemma entries_equal_map_of:
  assumes "entries_sorted d" "entries_sorted e"
  shows "entries_equal d e \<longleftrightarrow> (\<forall>k. rel_option val_equals (map_of d k) (map_of e k))"
proof
  assume "entries_equal d e"
  then have l: "list_all2 (rel_prod (=) val_equals) d e" by (simp add: entries_equal_iff)
  then show "\<forall>k. rel_option val_equals (map_of d k) (map_of e k)"
    by (induction rule: list_all2_induct) auto
next
  assume r: "\<forall>k. rel_option val_equals (map_of d k) (map_of e k)"
  have "map_of d k = None \<longleftrightarrow> map_of e k = None" for k
    using r [THEN spec, of k] by (auto simp: option.rel_sel)
  then have "fst ` set d = fst ` set e" by (auto simp: map_of_eq_None_iff)
  then have k: "map fst d = map fst e"
    using assms unfolding entries_sorted_def
    by (intro strict_sorted_equal) (simp_all add: strict_sorted_iff)
  then have n: "length d = length e" by (metis length_map)
  have "rel_prod (=) val_equals (d ! i) (e ! i)" if i: "i < length d" for i
  proof -
    have f: "fst (d ! i) = fst (e ! i)" using k i n by (metis nth_map)
    have "rel_option val_equals (map_of d (fst (d ! i))) (map_of e (fst (e ! i)))" using r f by metis
    then have "val_equals (snd (d ! i)) (snd (e ! i))"
      unfolding map_of_sorted_nth [OF assms(1) i] map_of_sorted_nth [OF assms(2) i [unfolded n]] by simp
    then show ?thesis using f by (simp add: rel_prod_sel)
  qed
  then show "entries_equal d e" using n by (simp add: entries_equal_iff list_all2_conv_all_nth)
qed

section \<open>Removing from an array\<close>

lemma remove_loop_separate:
  "result < it \<Longrightarrow> it \<le> length a \<Longrightarrow>
    remove_loop (Separate u) a result it = take result a @ filter (\<lambda>x. \<not> val_equals x u) (drop it a)"
proof (induction "Separate u" a result it rule: remove_loop.induct)
  case (1 a result it)
  show ?case
  proof (cases "it = length a")
    case True
    then show ?thesis by (subst remove_loop.simps) simp
  next
    case False
    then have it: "it < length a" using 1(4) by simp
    then have d: "drop it a = a ! it # drop (it + 1) a" by (simp add: Cons_nth_drop_Suc)
    show ?thesis
    proof (cases "val_equals (a ! it) u")
      case True
      then show ?thesis using it 1(1) 1(3) d
        by (subst remove_loop.simps) (simp add: operand_value_def)
    next
      case False
      define b where "b = a[result := a ! it, it := Monostate]"
      have b: "length b = length a" "take (result + 1) b = take result a @ [a ! it]" "drop (it + 1) b = drop (it + 1) a"
        using it 1(3) by (simp_all add: b_def take_update_cancel take_Suc_conv_app_nth del: take_update_swap)
      have "remove_loop (Separate u) b (result + 1) (it + 1) =
          take (result + 1) b @ filter (\<lambda>x. \<not> val_equals x u) (drop (it + 1) b)"
        using 1(2) it False 1(3) by (simp add: operand_value_def val_move_assign_def b_def)
      then show ?thesis using it False d b
        by (subst remove_loop.simps) (simp add: operand_value_def val_move_assign_def b_def)
    qed
  qed
qed

lemma array_remove_separate: "array_remove a (Separate u) = filter (\<lambda>x. \<not> val_equals x u) a"
proof (cases "find_pos (\<lambda>x. val_equals x u) a")
  case None
  then have "\<forall>x \<in> set a. \<not> val_equals x u" by (simp add: find_pos_None)
  with None show ?thesis by (simp add: array_remove_def operand_value_def)
next
  case (Some k)
  then have k: "k < length a" "val_equals (a ! k) u" "\<forall>j < k. \<not> val_equals (a ! j) u"
    by (simp_all add: find_pos_Some)
  then have "filter (\<lambda>x. \<not> val_equals x u) (take k a) = take k a"
    by (auto simp: filter_id_conv in_set_conv_nth)
  moreover have "filter (\<lambda>x. \<not> val_equals x u) (drop k a) = filter (\<lambda>x. \<not> val_equals x u) (drop (k + 1) a)"
    using k(1,2) by (simp add: Cons_nth_drop_Suc [symmetric])
  moreover have "filter (\<lambda>x. \<not> val_equals x u) a =
      filter (\<lambda>x. \<not> val_equals x u) (take k a) @ filter (\<lambda>x. \<not> val_equals x u) (drop k a)"
    by (metis append_take_drop_id filter_append)
  ultimately show ?thesis
    using Some k(1) remove_loop_separate [of k "k + 1" a u] by (simp add: array_remove_def operand_value_def)
qed

text \<open>By a reference to an element of the array: once what is moved has passed the element, what took its
  place is a value apart.\<close>

lemma remove_loop_past:
  "k < result \<Longrightarrow> result < it \<Longrightarrow> remove_loop (Element k) a result it = remove_loop (Separate (a ! k)) a result it"
proof (induction "Element k" a result it rule: remove_loop.induct)
  case (1 a result it)
  define b where "b = a[result := a ! it, it := Monostate]"
  have "b ! k = a ! k" using 1(3,4) by (simp add: b_def)
  moreover have "length b = length a" by (simp add: b_def)
  ultimately show ?case
    using 1 by (subst (1 2) remove_loop.simps) (auto simp: operand_value_def val_move_assign_def b_def [symmetric])
qed

lemma remove_loop_kept:
  assumes "val_equals u u"
  shows "result < it \<Longrightarrow> it \<le> length a \<Longrightarrow> k < length a \<Longrightarrow> a ! k = u \<Longrightarrow>
    result + length (filter (\<lambda>x. \<not> val_equals x u) (drop it a)) \<le> k \<Longrightarrow>
    remove_loop (Element k) a result it = take result a @ filter (\<lambda>x. \<not> val_equals x u) (drop it a)"
proof (induction "Element k" a result it rule: remove_loop.induct)
  case (1 a result it)
  show ?case
  proof (cases "it = length a")
    case True
    then show ?thesis by (subst remove_loop.simps) simp
  next
    case False
    then have it: "it < length a" using 1(4) by simp
    then have d: "drop it a = a ! it # drop (it + 1) a" by (simp add: Cons_nth_drop_Suc)
    show ?thesis
    proof (cases "val_equals (a ! it) u")
      case True
      then show ?thesis using it 1(1) 1(3-7) d by (subst remove_loop.simps) (simp add: operand_value_def)
    next
      case False
      then have k: "it \<noteq> k" "result < k" using assms 1(6,7) d by auto
      define b where "b = a[result := a ! it, it := Monostate]"
      have b: "length b = length a" "take (result + 1) b = take result a @ [a ! it]" "drop (it + 1) b = drop (it + 1) a" "b ! k = u"
        using it 1(3,6) k by (simp_all add: b_def take_update_cancel take_Suc_conv_app_nth del: take_update_swap)
      have "remove_loop (Element k) b (result + 1) (it + 1) =
          take (result + 1) b @ filter (\<lambda>x. \<not> val_equals x u) (drop (it + 1) b)"
        using 1(2) it False 1(3-7) b d by (simp add: operand_value_def val_move_assign_def b_def)
      then show ?thesis using it False d b 1(6)
        by (subst remove_loop.simps) (simp add: operand_value_def val_move_assign_def b_def)
    qed
  qed
qed

lemma remove_loop_replaced:
  assumes "val_equals u u"
  shows "result < it \<Longrightarrow> it \<le> length a \<Longrightarrow> k < length a \<Longrightarrow> a ! k = u \<Longrightarrow> drop it a = before @ w # after \<Longrightarrow>
    \<not> val_equals w u \<Longrightarrow> result + length (filter (\<lambda>x. \<not> val_equals x u) before) = k \<Longrightarrow>
    remove_loop (Element k) a result it =
      take result a @ filter (\<lambda>x. \<not> val_equals x u) before @ w # filter (\<lambda>x. \<not> val_equals x w) after"
proof (induction before arbitrary: a result it)
  case Nil
  define b where "b = a[result := a ! it, it := Monostate]"
  have it: "it < length a" "a ! it = w" "drop (it + 1) a = after"
    using Nil(5) by (metis append_Nil drop_all linorder_not_le list.distinct(1),
      metis append_Nil hd_drop_conv_nth drop_all linorder_not_le list.distinct(1) list.sel(1),
      metis append_Nil drop_Suc tl_drop list.sel(3) Suc_eq_plus1)
  have b: "length b = length a" "take (result + 1) b = take result a @ [w]" "drop (it + 1) b = after" "b ! k = w"
    using it Nil(1,7) by (simp_all add: b_def take_update_cancel take_Suc_conv_app_nth del: take_update_swap)
  have "remove_loop (Element k) b (result + 1) (it + 1) = take (result + 1) b @ filter (\<lambda>x. \<not> val_equals x w) (drop (it + 1) b)"
    using remove_loop_past [of k "result + 1" "it + 1" b] remove_loop_separate [of "result + 1" "it + 1" b w] Nil(1,7) it(1) b(1,4) by simp
  then show ?case using it b Nil(4,6)
    by (subst remove_loop.simps) (simp add: operand_value_def val_move_assign_def b_def)
next
  case (Cons x before)
  have it: "it < length a" using Cons(6) by (metis append_Cons drop_all linorder_not_le list.distinct(1))
  then have d: "a ! it = x" "drop (it + 1) a = before @ w # after"
    using Cons(6) by (simp_all add: Cons_nth_drop_Suc [symmetric])
  show ?case
  proof (cases "val_equals x u")
    case True
    then show ?thesis using it d Cons.IH [of result "it + 1" a] Cons.prems by (subst remove_loop.simps) (simp add: operand_value_def)
  next
    case False
    then have k: "it \<noteq> k" "result < k" using assms Cons.prems d by auto
    define b where "b = a[result := a ! it, it := Monostate]"
    have b: "length b = length a" "take (result + 1) b = take result a @ [x]" "drop (it + 1) b = drop (it + 1) a" "b ! k = u"
      using it d Cons.prems(1,4) k by (simp_all add: b_def take_update_cancel take_Suc_conv_app_nth del: take_update_swap)
    have "remove_loop (Element k) b (result + 1) (it + 1) =
        take (result + 1) b @ filter (\<lambda>x. \<not> val_equals x u) before @ w # filter (\<lambda>x. \<not> val_equals x w) after"
      using Cons.IH [of "result + 1" "it + 1" b] Cons.prems False it b d by simp
    then show ?thesis using it False d b Cons.prems(4)
      by (subst remove_loop.simps) (simp add: operand_value_def val_move_assign_def b_def)
  qed
qed

lemma remove_element_first:
  assumes "contents_ok a" "k < length a"
  obtains j where "j \<le> k" "val_equals (a ! j) (a ! k)" "find_pos (\<lambda>x. val_equals x (a ! k)) a = Some j"
    "filter (\<lambda>x. \<not> val_equals x (a ! k)) (take j a) = take j a"
proof -
  have r: "val_equals (a ! k) (a ! k)" using assms equals_refl(1) by (simp add: contents_ok_iff)
  then obtain j where j: "find_pos (\<lambda>x. val_equals x (a ! k)) a = Some j"
    using assms(2) by (cases "find_pos (\<lambda>x. val_equals x (a ! k)) a") (auto simp: find_pos_None)
  then have s: "j < length a" "val_equals (a ! j) (a ! k)" "\<forall>i < j. \<not> val_equals (a ! i) (a ! k)" by (simp_all add: find_pos_Some)
  then have "j \<le> k" using r by (metis linorder_not_le)
  moreover have "filter (\<lambda>x. \<not> val_equals x (a ! k)) (take j a) = take j a"
    using s by (auto simp: filter_id_conv in_set_conv_nth)
  ultimately show thesis using that j s(2) by blast
qed

lemma remove_element_kept:
  assumes "contents_ok a" "k < length a" "length (filter (\<lambda>x. \<not> val_equals x (a ! k)) a) \<le> k"
  shows "array_remove a (Element k) = filter (\<lambda>x. \<not> val_equals x (a ! k)) a"
proof -
  obtain j where j: "j \<le> k" "val_equals (a ! j) (a ! k)" "find_pos (\<lambda>x. val_equals x (a ! k)) a = Some j"
    "filter (\<lambda>x. \<not> val_equals x (a ! k)) (take j a) = take j a"
    by (rule remove_element_first [OF assms(1,2)])
  have "a = take j a @ a ! j # drop (j + 1) a" using j(1) assms(2) by (simp add: id_take_nth_drop)
  then have f: "filter (\<lambda>x. \<not> val_equals x (a ! k)) a =
      take j a @ filter (\<lambda>x. \<not> val_equals x (a ! k)) (drop (j + 1) a)"
    using j(2,4) by (metis (no_types, lifting) filter.simps(2) filter_append)
  have "val_equals (a ! k) (a ! k)" using assms(1,2) equals_refl(1) by (simp add: contents_ok_iff)
  then have "remove_loop (Element k) a j (j + 1) = take j a @ filter (\<lambda>x. \<not> val_equals x (a ! k)) (drop (j + 1) a)"
    using assms(2,3) j(1) arg_cong [OF f, of length] by (intro remove_loop_kept) simp_all
  then show ?thesis using j(3) by (simp add: f array_remove_def operand_value_def)
qed

lemma remove_element_replaced:
  assumes "contents_ok a" "k < length a" "a = before @ w # after" "\<not> val_equals w (a ! k)"
    "length (filter (\<lambda>x. \<not> val_equals x (a ! k)) before) = k"
  shows "array_remove a (Element k) =
    filter (\<lambda>x. \<not> val_equals x (a ! k)) before @ w # filter (\<lambda>x. \<not> val_equals x w) after"
proof -
  let ?P = "\<lambda>x. \<not> val_equals x (a ! k)"
  obtain j where j: "j \<le> k" "val_equals (a ! j) (a ! k)" "find_pos (\<lambda>x. val_equals x (a ! k)) a = Some j"
    "filter ?P (take j a) = take j a"
    by (rule remove_element_first [OF assms(1,2)])
  have r: "val_equals (a ! k) (a ! k)" using assms(1,2) equals_refl(1) by (simp add: contents_ok_iff)
  have "k \<le> length before" using assms(5) length_filter_le [of ?P before] by simp
  moreover have "a ! length before = w" by (subst assms(3)) simp
  ultimately have l: "j < length before" using j(1,2) assms(4) by (metis le_eq_less_or_eq order_trans)
  then have b: "take j a = take j before" "a ! j = before ! j" "drop (j + 1) a = drop (j + 1) before @ w # after"
    using arg_cong [OF assms(3), of "take j"] arg_cong [OF assms(3), of "\<lambda>b. b ! j"] arg_cong [OF assms(3), of "drop (j + 1)"]
    by (simp_all add: nth_append)
  have d: "before = take j before @ before ! j # drop (j + 1) before" using l by (simp add: id_take_nth_drop)
  have f: "filter ?P before = take j a @ filter ?P (drop (j + 1) before)"
    using arg_cong [OF d, of "filter ?P"] j(2,4) b(1,2) by simp
  have "remove_loop (Element k) a j (j + 1) =
      take j a @ filter ?P (drop (j + 1) before) @ w # filter (\<lambda>x. \<not> val_equals x w) after"
    using assms(2,4,5) j(1) b(3) arg_cong [OF f, of length] by (intro remove_loop_replaced [OF r]) simp_all
  then show ?thesis using j(3) by (simp add: f array_remove_def operand_value_def)
qed

text \<open>Either way what is left are elements of the array, in their order.\<close>

lemma remove_element_cases:
  assumes "k < length a"
  obtains "length (filter (\<lambda>x. \<not> val_equals x (a ! k)) a) \<le> k"
  | before w after where "a = before @ w # after" "\<not> val_equals w (a ! k)"
      "length (filter (\<lambda>x. \<not> val_equals x (a ! k)) before) = k"
proof -
  let ?P = "\<lambda>x. \<not> val_equals x (a ! k)"
  have "length (filter ?P b) \<le> n \<or> (\<exists>before w after. b = before @ w # after \<and> ?P w \<and> length (filter ?P before) = n)" for b n
  proof (induction b rule: rev_induct)
    case (snoc x b)
    show ?case
    proof (cases "\<exists>before w after. b = before @ w # after \<and> ?P w \<and> length (filter ?P before) = n")
      case True
      then obtain before w after where "b = before @ w # after" "?P w" "length (filter ?P before) = n" by blast
      then have "b @ [x] = before @ w # (after @ [x]) \<and> ?P w \<and> length (filter ?P before) = n" by simp
      then show ?thesis by blast
    next
      case False
      then have "length (filter ?P b) \<le> n" using snoc by blast
      then consider "length (filter ?P (b @ [x])) \<le> n" | "?P x" "length (filter ?P b) = n"
        by (cases "?P x"; cases "length (filter ?P b) = n") auto
      then show ?thesis by cases blast+
    qed
  qed simp
  then show thesis using that by blast
qed

lemma array_remove_subseq:
  assumes "contents_ok a" "case v of Separate u \<Rightarrow> True | Element k \<Rightarrow> k < length a"
  shows "subseq (array_remove a v) a"
proof (cases v)
  case (Separate u)
  then show ?thesis by (simp add: array_remove_separate subseq_filter_left)
next
  case (Element k)
  then have k: "k < length a" using assms(2) by simp
  show ?thesis
  proof (cases rule: remove_element_cases [OF k])
    case 1
    then show ?thesis using remove_element_kept [OF assms(1) k] Element by (simp add: subseq_filter_left)
  next
    case (2 before w after)
    have "subseq (filter (\<lambda>x. \<not> val_equals x (a ! k)) before @ w # filter (\<lambda>x. \<not> val_equals x w) after) (before @ w # after)"
      by (intro list_emb_append_mono subseq_Cons2 subseq_filter_left)
    then show ?thesis using remove_element_replaced [OF assms(1) k 2] Element 2(1) by simp
  qed
qed

lemma array_append_range_contents: "array_append_range a b from to = a @ take (to - from) (drop from b)"
proof -
  have "foldl array_append a c = a @ c" for c by (induction c arbitrary: a) (simp_all add: array_append_def)
  then show ?thesis by (simp add: array_append_range_def)
qed

lemma cursor_increments: "it_cursor ((iterator_increment ^^ n) i) = it_cursor i + n"
  by (induction n) (simp_all add: iterator_increment_def)

section \<open>Properties\<close>

text \<open>C19: Equality of values is an equivalence relation. It holds between different alternatives never,
  and within one exactly when the booleans, the texts, the bytes, the values of the numbers or the instants
  of the timestamps are the same, however they were written; for arrays when they have as many elements, equal
  place by place, and for dictionaries when they have the same keys with equal values, at any depth.\<close>

theorem value_equality:
  assumes "val_ok u" "val_ok v" "val_ok w"
  shows "val_equals v v \<and> (val_equals u v \<longleftrightarrow> val_equals v u) \<and>
    (val_equals u v \<and> val_equals v w \<longrightarrow> val_equals u w) \<and>
    (val_equals u v \<longleftrightarrow>
      (case (u, v) of
         (Monostate, Monostate) \<Rightarrow> True
       | (Boolean b, Boolean c) \<Rightarrow> bs_value b = bs_value c
       | (Number n, Number m) \<Rightarrow> number_value n = number_value m
       | (String s, String t) \<Rightarrow> ss_buffer s = ss_buffer t
       | (Array a, Array b) \<Rightarrow> list_all2 val_equals a b
       | (Dictionary d, Dictionary e) \<Rightarrow> (\<forall>k. rel_option val_equals (map_of d k) (map_of e k))
       | (Timestamp t, Timestamp t') \<Rightarrow> instant_ns t = instant_ns t'
       | (Data d, Data e) \<Rightarrow> ds_bytes d = ds_bytes e
       | _ \<Rightarrow> False))"
proof (intro conjI impI)
  show "val_equals v v" by (rule equals_refl(1) [OF assms(2)])
  show "val_equals u v \<longleftrightarrow> val_equals v u" using equals_sym(1) assms by blast
  show "val_equals u v \<and> val_equals v w \<Longrightarrow> val_equals u w" using equals_trans(1) assms by blast
qed (use assms(1,2) in \<open>cases u; cases v; simp add: boolean_equals_def number_equals_value string_equals_def
  contents_equal_iff entries_equal_map_of timestamp_equals_def instant_ns_inject data_equals_def\<close>)

lemma value_equality_witness:
  "val_equals (Array [Boolean boolean_default, Monostate]) (Array [Boolean boolean_default, Monostate]) \<and>
    \<not> val_equals (Array [Monostate]) (Array [Boolean boolean_default])"
  using value_equality [of Monostate "Array [Boolean boolean_default, Monostate]" Monostate]
    value_equality [of "Array [Monostate]" "Array [Boolean boolean_default]" Monostate] by simp

text \<open>C17: A dictionary implements a finite map from keys to values: every operation keeps the entries in
  the order of the keys, and does to the map what the operation says. Reading a key that is
  absent makes an entry that is null when the dictionary can change, and is an error when it
  cannot. Two dictionaries with the same map are the same, and two are equal when they have the same keys,
  with equal values.\<close>

theorem dictionary_refines_map:
  assumes "entries_sorted d" "entries_sorted e"
  shows "entries_sorted (dictionary_store d key v) \<and>
    map_of (dictionary_store d key v) = (map_of d)(key \<mapsto> v) \<and>
    entries_sorted (fst (dictionary_index d key)) \<and>
    map_of (fst (dictionary_index d key)) = (if key \<in> dom (map_of d) then map_of d else (map_of d)(key \<mapsto> Monostate)) \<and>
    map_of (fst (dictionary_index d key)) key = Some (snd (dictionary_index d key)) \<and>
    (dictionary_contains d key \<longleftrightarrow> key \<in> dom (map_of d)) \<and>
    dictionary_size d = card (dom (map_of d)) \<and>
    (dictionary_empty d \<longleftrightarrow> map_of d = Map.empty) \<and>
    (map_of d = map_of e \<longrightarrow> d = e) \<and>
    (dictionary_equals d e \<longleftrightarrow> (\<forall>k. rel_option val_equals (map_of d k) (map_of e k))) \<and>
    dictionary_at d key = (case map_of d key of None \<Rightarrow> Inl result_out_of_range | Some v \<Rightarrow> Inr v)"
proof (intro conjI impI)
  show "entries_sorted (dictionary_store d key v)" by (rule dictionary.store_ok [OF assms(1)])
  show "map_of (dictionary_store d key v) = (map_of d)(key \<mapsto> v)" by (rule dictionary.find_store [OF assms(1)])
  have s: "sorted_wrt (<) (map fst d)" using assms(1) by (simp add: entries_sorted_def)
  show "entries_sorted (fst (dictionary_index d key))"
    using sorted_entry_insert [OF s] assms(1) by (auto simp: dictionary_index_def entries_sorted_def split: option.split)
  show "map_of (fst (dictionary_index d key)) =
      (if key \<in> dom (map_of d) then map_of d else (map_of d)(key \<mapsto> Monostate))"
    using s by (auto simp: dictionary_index_def val_default_def split: option.split)
  show "map_of (fst (dictionary_index d key)) key = Some (snd (dictionary_index d key))"
    using s by (auto simp: dictionary_index_def split: option.split)
  show "dictionary_contains d key \<longleftrightarrow> key \<in> dom (map_of d)"
    by (simp add: dictionary_contains_def dom_map_of_conv_image_fst)
  show "dictionary_size d = card (dom (map_of d))"
    using sorted_distinct_keys [OF s] by (metis dictionary_size_def distinct_card dom_map_of_conv_image_fst length_map list.set_map)
  show "dictionary_empty d \<longleftrightarrow> map_of d = Map.empty" by (cases d) (auto simp: dictionary_empty_def)
  show "map_of d = map_of e \<Longrightarrow> d = e" by (rule entries_eqI [OF assms])
  show "dictionary_equals d e \<longleftrightarrow> (\<forall>k. rel_option val_equals (map_of d k) (map_of e k))"
    by (simp add: dictionary_equals_def entries_equal_map_of [OF assms])
  show "dictionary_at d key = (case map_of d key of None \<Rightarrow> Inl result_out_of_range | Some v \<Rightarrow> Inr v)"
    by (simp add: dictionary_at_def)
qed

lemma dictionary_refines_map_witness:
  "map_of (dictionary_store [(''a'', Monostate)] ''b'' (Boolean boolean_default)) =
    (map_of [(''a'', Monostate)])(''b'' \<mapsto> Boolean boolean_default)"
  using dictionary_refines_map [of "[(''a'', Monostate)]" "[]" "''b''"] by (simp add: entries_sorted_def)



text \<open>Removing a value that is not an element of the array takes out every element equal to it, and
  only those, and keeps the order of the others; the search then finds none. Iteration from the
  begin visits each position once and reaches the end after the last.\<close>

theorem array_remove_filter:
  "array_remove a (Separate v) = filter (\<lambda>x. \<not> val_equals x v) a \<and>
    array_index_of (array_remove a (Separate v)) v = None \<and>
    array_index_of a v = (if \<exists>x \<in> set a. val_equals x v
      then Some (LEAST i. i < length a \<and> val_equals (a ! i) v) else None) \<and>
    array_deref a ((iterator_increment ^^ n) (array_begin a)) = (if n < length a then Some (a ! n) else None) \<and>
    (iterator_equals ((iterator_increment ^^ n) (array_begin a)) (array_end a) \<longleftrightarrow> n = length a)"
proof (intro conjI)
  show "array_remove a (Separate v) = filter (\<lambda>x. \<not> val_equals x v) a" by (rule array_remove_separate)
  show "array_index_of (array_remove a (Separate v)) v = None"
    by (simp add: array_index_of_def array_remove_separate find_pos_None)
  show "array_index_of a v = (if \<exists>x \<in> set a. val_equals x v
      then Some (LEAST i. i < length a \<and> val_equals (a ! i) v) else None)"
  proof (cases "find_pos (\<lambda>x. val_equals x v) a")
    case None
    then show ?thesis by (auto simp: array_index_of_def find_pos_None)
  next
    case (Some k)
    then have k: "k < length a" "val_equals (a ! k) v" "\<forall>j < k. \<not> val_equals (a ! j) v" by (simp_all add: find_pos_Some)
    then have "(LEAST i. i < length a \<and> val_equals (a ! i) v) = k"
      by (intro Least_equality) (auto simp: not_less [symmetric])
    then show ?thesis using k(1,2) Some by (auto simp: array_index_of_def)
  qed
  show "array_deref a ((iterator_increment ^^ n) (array_begin a)) = (if n < length a then Some (a ! n) else None)"
    by (simp add: array_deref_def cursor_increments array_begin_def)
  show "iterator_equals ((iterator_increment ^^ n) (array_begin a)) (array_end a) \<longleftrightarrow> n = length a"
    by (simp add: iterator_equals_def cursor_increments array_begin_def array_end_def)
qed

text \<open>C20: Removing by a reference to an element of the array itself compares with that element as long as
  nothing is moved over it. When at most as many elements as stand before it stay, none is, and every
  element equal to it goes. Otherwise one that stays, \<open>w\<close>, takes its place, and what comes after \<open>w\<close> is
  compared with \<open>w\<close>: elements equal to the one given stay there, and elements equal to \<open>w\<close> go.\<close>

theorem array_remove_own_element:
  assumes "contents_ok a" "k < length a"
  shows "(length (filter (\<lambda>x. \<not> val_equals x (a ! k)) a) \<le> k \<longrightarrow>
      array_remove a (Element k) = filter (\<lambda>x. \<not> val_equals x (a ! k)) a) \<and>
    (\<forall>before w after. a = before @ w # after \<and> \<not> val_equals w (a ! k) \<and>
      length (filter (\<lambda>x. \<not> val_equals x (a ! k)) before) = k \<longrightarrow>
      array_remove a (Element k) =
        filter (\<lambda>x. \<not> val_equals x (a ! k)) before @ w # filter (\<lambda>x. \<not> val_equals x w) after)"
proof (intro conjI impI allI)
  fix before w after
  assume "a = before @ w # after \<and> \<not> val_equals w (a ! k) \<and>
    length (filter (\<lambda>x. \<not> val_equals x (a ! k)) before) = k"
  then show "array_remove a (Element k) =
      filter (\<lambda>x. \<not> val_equals x (a ! k)) before @ w # filter (\<lambda>x. \<not> val_equals x w) after"
    by (elim conjE) (rule remove_element_replaced [OF assms])
qed (rule remove_element_kept [OF assms])

lemma array_remove_own_element_witness:
  "array_remove [Array [], Monostate, Array [], Monostate] (Element 0) = [Monostate, Array []]"
  using array_remove_own_element [of "[Array [], Monostate, Array [], Monostate]" 0]
  by (auto dest: spec [of _ "[Array []]"])

end
