(* ===== verification/Value_Access.thy ===== *)
theory Value_Access
  imports Value_Laws Number_Operators
begin

text \<open>
  The ways into the containers that the proofs of \<open>Value_Laws\<close> do not need: a value made of, or set to,
  each alternative (\<open>src/type/value.cpp\<close>, \<open>src/include/dross/type/value.h\<close>), the iterators over contents
  that do not change (\<open>src/type/array.cpp\<close>, \<open>src/type/dictionary.cpp\<close>), and \<open>concat\<close>
  (\<open>src/include/dross/type.h\<close>).
\<close>

section \<open>Values of each alternative\<close>

definition val_of_boolean :: "boolean_storage \<Rightarrow> val" where "val_of_boolean b = Boolean b"
definition val_of_number :: "number_storage \<Rightarrow> val" where "val_of_number n = Number n"
definition val_of_string :: "string_storage \<Rightarrow> val" where "val_of_string s = String s"
definition val_of_array :: "val list \<Rightarrow> val" where "val_of_array a = Array a"
definition val_of_dictionary :: "entries \<Rightarrow> val" where "val_of_dictionary d = Dictionary d"
definition val_of_timestamp :: "timestamp \<Rightarrow> val" where "val_of_timestamp ts = Timestamp ts"
definition val_of_data :: "data_storage \<Rightarrow> val" where "val_of_data d = Data d"

definition val_of_arithmetic :: "('f \<Rightarrow> string option) \<Rightarrow> 'f arithmetic \<Rightarrow> val" where
  "val_of_arithmetic to_chars n = val_of_number (number_of_arithmetic to_chars n)"

definition val_of_bool :: "bool \<Rightarrow> val" where "val_of_bool b = val_of_boolean (boolean_of_bool b)"
definition val_of_text :: "string \<Rightarrow> val" where "val_of_text s = val_of_string (string_of s)"

text \<open>Assignments change the alternative and what it holds; one that moves leaves the source as a moved
  one is left.\<close>

definition val_assign_boolean :: "val \<Rightarrow> boolean_storage \<Rightarrow> val" where "val_assign_boolean this b = Boolean b"
definition val_assign_number :: "val \<Rightarrow> number_storage \<Rightarrow> val" where "val_assign_number this n = Number n"
definition val_assign_string :: "val \<Rightarrow> string_storage \<Rightarrow> val" where "val_assign_string this s = String s"
definition val_assign_array :: "val \<Rightarrow> val list \<Rightarrow> val" where "val_assign_array this a = Array a"
definition val_assign_dictionary :: "val \<Rightarrow> entries \<Rightarrow> val" where "val_assign_dictionary this d = Dictionary d"
definition val_assign_timestamp :: "val \<Rightarrow> timestamp \<Rightarrow> val" where "val_assign_timestamp this ts = Timestamp ts"
definition val_assign_data :: "val \<Rightarrow> data_storage \<Rightarrow> val" where "val_assign_data this d = Data d"

definition val_assign_string_move :: "val \<Rightarrow> string_storage \<Rightarrow> val \<times> string_storage" where
  "val_assign_string_move this s =
     (case this of
        String held \<Rightarrow> (let (held, s) = string_move_assign held s in (String held, s))
      | _ \<Rightarrow> (let (held, s) = string_move s in (String held, s)))"

definition val_assign_array_move :: "val \<Rightarrow> val list \<Rightarrow> val \<times> val list" where
  "val_assign_array_move this a =
     (case this of
        Array held \<Rightarrow> (let (held, a) = array_move_assign held a in (Array held, a))
      | _ \<Rightarrow> (let (held, a) = array_move a in (Array held, a)))"

definition val_assign_dictionary_move :: "val \<Rightarrow> entries \<Rightarrow> val \<times> entries" where
  "val_assign_dictionary_move this d =
     (case this of
        Dictionary held \<Rightarrow> (let (held, d) = dictionary_move_assign held d in (Dictionary held, d))
      | _ \<Rightarrow> (let (held, d) = dictionary_move d in (Dictionary held, d)))"

definition val_assign_data_move :: "val \<Rightarrow> data_storage \<Rightarrow> val \<times> data_storage" where
  "val_assign_data_move this d =
     (case this of
        Data held \<Rightarrow> (let (held, d) = data_move_assign held d in (Data held, d))
      | _ \<Rightarrow> (let (held, d) = data_move d in (Data held, d)))"

definition val_assign_arithmetic :: "('f \<Rightarrow> string option) \<Rightarrow> val \<Rightarrow> 'f arithmetic \<Rightarrow> val" where
  "val_assign_arithmetic to_chars this n = val_assign_number this (number_of_arithmetic to_chars n)"

definition val_assign_bool :: "val \<Rightarrow> bool \<Rightarrow> val" where "val_assign_bool this b = val_assign_boolean this (boolean_of_bool b)"

definition val_assign_text :: "val \<Rightarrow> string \<Rightarrow> val" where "val_assign_text this s = fst (val_assign_string_move this (string_of s))"

definition val_as :: "kind \<Rightarrow> val \<Rightarrow> val" where "val_as k v = value_cast k v"

text \<open>Whatever the value held, a move gives it what the source held and leaves the source empty.\<close>

lemma moves_leave_empty:
  "val_assign_string_move this s = (String s, string_default)" "val_assign_array_move this a = (Array a, [])"
  "val_assign_dictionary_move this d = (Dictionary d, [])" "val_assign_data_move this b = (Data b, data_default)"
  by (cases this; simp add: val_assign_string_move_def string_move_assign_def string_move_def string_default_def)
    (cases this; simp add: val_assign_array_move_def array_move_assign_def array_move_def val_assign_dictionary_move_def
      dictionary_move_assign_def dictionary_move_def val_assign_data_move_def data_move_assign_def data_move_def data_default_def)+

text \<open>A value keeps what it was made of, and gives it back as that kind and as no other.\<close>

lemma val_of_arithmetic_ok: "val_ok (val_of_arithmetic to_chars (Integral k))"
  by (simp add: val_of_arithmetic_def val_of_number_def number_of_integral_value(1))

lemma val_as_given:
  "val_as boolean_kind (val_of_bool b) = Boolean (boolean_of_bool b)" "val_as string_kind (val_of_text s) = String (string_of s)"
  "val_as number_kind (val_of_number n) = Number n" "val_as array_kind (val_of_array a) = Array a"
  "val_as dictionary_kind (val_of_dictionary d) = Dictionary d" "val_as timestamp_kind (val_of_timestamp ts) = Timestamp ts"
  "val_as data_kind (val_of_data x) = Data x"
  by (simp_all add: val_as_def value_cast_def val_is_def val_of_bool_def val_of_boolean_def val_of_text_def val_of_string_def
      val_of_number_def val_of_array_def val_of_dictionary_def val_of_timestamp_def val_of_data_def)

section \<open>Iterators over what does not change\<close>

record const_iterator =
  ci_cursor :: nat

definition const_of_iterator :: "iterator \<Rightarrow> const_iterator" where
  "const_of_iterator i = \<lparr>ci_cursor = it_cursor i\<rparr>"

definition array_cbegin :: "val list \<Rightarrow> const_iterator" where "array_cbegin a = \<lparr>ci_cursor = 0\<rparr>"
definition array_cend :: "val list \<Rightarrow> const_iterator" where "array_cend a = \<lparr>ci_cursor = length a\<rparr>"

definition const_increment :: "const_iterator \<Rightarrow> const_iterator" where
  "const_increment i = i\<lparr>ci_cursor := ci_cursor i + 1\<rparr>"

definition const_post_increment :: "const_iterator \<Rightarrow> const_iterator \<times> const_iterator" where
  "const_post_increment i = (let previous = i; i = const_increment i in (previous, i))"

definition array_const_deref :: "val list \<Rightarrow> const_iterator \<Rightarrow> val option" where
  "array_const_deref a i = (if ci_cursor i < length a then Some (a ! ci_cursor i) else None)"

definition const_equals :: "const_iterator \<Rightarrow> const_iterator \<Rightarrow> bool" where
  "const_equals lhs rhs = (ci_cursor lhs = ci_cursor rhs)"

definition dictionary_cbegin :: "entries \<Rightarrow> const_iterator" where "dictionary_cbegin d = \<lparr>ci_cursor = 0\<rparr>"
definition dictionary_cend :: "entries \<Rightarrow> const_iterator" where "dictionary_cend d = \<lparr>ci_cursor = length d\<rparr>"

definition dictionary_increment :: "iterator \<Rightarrow> iterator" where
  "dictionary_increment i = i\<lparr>it_cursor := it_cursor i + 1\<rparr>"

definition dictionary_post_increment :: "iterator \<Rightarrow> iterator \<times> iterator" where
  "dictionary_post_increment i = (let previous = i; i = dictionary_increment i in (previous, i))"

definition dictionary_iterator_equals :: "iterator \<Rightarrow> iterator \<Rightarrow> bool" where
  "dictionary_iterator_equals lhs rhs = (it_cursor lhs = it_cursor rhs)"

definition dictionary_const_increment :: "const_iterator \<Rightarrow> const_iterator" where
  "dictionary_const_increment i = i\<lparr>ci_cursor := ci_cursor i + 1\<rparr>"

definition dictionary_const_post_increment :: "const_iterator \<Rightarrow> const_iterator \<times> const_iterator" where
  "dictionary_const_post_increment i = (let previous = i; i = dictionary_const_increment i in (previous, i))"

definition dictionary_const_deref :: "entries \<Rightarrow> const_iterator \<Rightarrow> (string \<times> val) option" where
  "dictionary_const_deref d i = (if ci_cursor i < length d then Some (d ! ci_cursor i) else None)"

definition dictionary_const_equals :: "const_iterator \<Rightarrow> const_iterator \<Rightarrow> bool" where
  "dictionary_const_equals lhs rhs = (ci_cursor lhs = ci_cursor rhs)"

text \<open>The elements between two iterators into another array are appended in order.\<close>

definition array_append_const :: "val list \<Rightarrow> val list \<Rightarrow> const_iterator \<Rightarrow> const_iterator \<Rightarrow> val list" where
  "array_append_const a b from to = foldl array_append a (take (ci_cursor to - ci_cursor from) (drop (ci_cursor from) b))"

definition array_index :: "val list \<Rightarrow> nat \<Rightarrow> errc + val" where "array_index a i = array_value_at a i"

section \<open>A loop over a container\<close>

text \<open>The loop of a range-based \<open>for\<close>, over either container: what it sees, or nothing where it reads
  beyond the end. It takes a step for each element.\<close>

fun walk :: "nat \<Rightarrow> ('c \<Rightarrow> const_iterator \<Rightarrow> 'e option) \<Rightarrow> 'c \<Rightarrow> const_iterator \<Rightarrow> const_iterator \<Rightarrow> 'e list option" where
  "walk 0 deref c i finish = (if const_equals i finish then Some [] else None)"
| "walk (Suc steps) deref c i finish =
     (if const_equals i finish then Some []
      else case deref c i of
          None \<Rightarrow> None
        | Some x \<Rightarrow> map_option ((#) x) (walk steps deref c (const_increment i) finish))"

lemma walk_from:
  assumes "\<And>i. i < length xs \<Longrightarrow> deref c \<lparr>ci_cursor = i\<rparr> = Some (xs ! i)"
  shows "n \<le> length xs \<Longrightarrow> length xs - n \<le> steps \<Longrightarrow> walk steps deref c \<lparr>ci_cursor = n\<rparr> \<lparr>ci_cursor = length xs\<rparr> = Some (drop n xs)"
proof (induction steps arbitrary: n)
  case (Suc steps)
  show ?case
  proof (cases "n = length xs")
    case False
    then have n: "n < length xs" using Suc.prems by simp
    then have "walk steps deref c \<lparr>ci_cursor = Suc n\<rparr> \<lparr>ci_cursor = length xs\<rparr> = Some (drop (Suc n) xs)"
      using Suc.prems by (intro Suc.IH) auto
    then show ?thesis using n assms [OF n] Cons_nth_drop_Suc [OF n] by (simp add: const_equals_def const_increment_def)
  qed (simp add: const_equals_def)
qed (simp add: const_equals_def)

text \<open>The loop sees the contents of an array in order, and the entries of a dictionary, which are in the
  order of their keys; appending an array's whole range appends its contents.\<close>

lemma walk_array: "walk (array_length a) array_const_deref a (array_cbegin a) (array_cend a) = Some a"
  using walk_from [of a array_const_deref a 0 "array_length a"]
  by (simp add: array_const_deref_def array_cbegin_def array_cend_def array_length_def)

lemma walk_dictionary:
  "walk (dictionary_size d) dictionary_const_deref d (dictionary_cbegin d) (dictionary_cend d) = Some d"
  using walk_from [of d dictionary_const_deref d 0 "dictionary_size d"]
  by (simp add: dictionary_const_deref_def dictionary_cbegin_def dictionary_cend_def dictionary_size_def)

lemma append_whole: "array_append_const a b (array_cbegin b) (array_cend b) = a @ b"
proof -
  have "foldl array_append a xs = a @ xs" for a xs by (induction xs arbitrary: a) (simp_all add: array_append_def)
  then show ?thesis by (simp add: array_append_const_def array_cbegin_def array_cend_def)
qed

text \<open>The iterators over contents that may change see the same.\<close>

lemma const_iterators:
  "const_of_iterator (array_begin a) = array_cbegin a" "const_of_iterator (array_end a) = array_cend a"
  "const_of_iterator (iterator_increment i) = const_increment (const_of_iterator i)"
  "const_equals (const_of_iterator i) (const_of_iterator j) \<longleftrightarrow> iterator_equals i j"
  "array_const_deref a (const_of_iterator i) = array_deref a i" "dictionary_const_deref d (const_of_iterator i) = dictionary_deref d i"
  by (simp_all add: const_of_iterator_def array_begin_def array_cbegin_def array_end_def array_cend_def iterator_increment_def
      const_increment_def const_equals_def iterator_equals_def array_const_deref_def array_deref_def dictionary_const_deref_def dictionary_deref_def)

section \<open>concat\<close>

text \<open>Each of the other containers is inserted at the end.\<close>

definition concat_containers :: "'a list \<Rightarrow> 'a list list \<Rightarrow> 'a list" where
  "concat_containers first rest = foldl (\<lambda>result c. result @ c) first rest"

lemma concat_containers: "concat_containers first rest = first @ concat rest"
  unfolding concat_containers_def by (induction rest arbitrary: first) simp_all

end
