(* ===== verification/Toml_Text.thy ===== *)
theory Toml_Text
  imports Decimal
begin

text \<open>
  The characters of TOML (\<open>src/format/toml.cpp\<close>, the functions before \<open>class parser\<close>, and the
  escapes of \<open>class serializer\<close>): UTF-8, the classes of characters, the digits of a base. A byte
  is a \<^typ>\<open>char\<close>, a \<open>char32_t\<close> a natural number on which the shifts and masks are written as in
  the code.
\<close>

unbundle bit_operations_syntax

abbreviation byte :: "char \<Rightarrow> nat" where "byte c \<equiv> of_char c"

abbreviation NUL :: char where "NUL \<equiv> CHR 0x00"
abbreviation TAB :: char where "TAB \<equiv> CHR 0x09"
abbreviation LF :: char where "LF \<equiv> CHR 0x0A"
abbreviation CR :: char where "CR \<equiv> CHR 0x0D"
abbreviation QUOTE :: char where "QUOTE \<equiv> CHR 0x22"
abbreviation APOSTROPHE :: char where "APOSTROPHE \<equiv> CHR 0x27"
abbreviation BACKSLASH :: char where "BACKSLASH \<equiv> CHR 0x5C"

section \<open>UTF-8\<close>

text \<open>The length of the sequence a lead byte starts, and the bounds of its second byte.\<close>

definition utf8_lead :: "nat \<Rightarrow> (nat \<times> nat \<times> nat) option" where
  "utf8_lead lead =
     (let low = 0x80; high = 0xBF
      in if lead \<le> 0x7F then Some (1, low, high)
         else if lead \<ge> 0xC2 \<and> lead \<le> 0xDF then Some (2, low, high)
         else if lead = 0xE0 then Some (3, 0xA0, high)
         else if lead = 0xED then Some (3, low, 0x9F)
         else if lead \<ge> 0xE1 \<and> lead \<le> 0xEF then Some (3, low, high)
         else if lead = 0xF0 then Some (4, 0x90, high)
         else if lead = 0xF4 then Some (4, low, 0x8F)
         else if lead \<ge> 0xF1 \<and> lead \<le> 0xF3 then Some (4, low, high)
         else None)"

fun continuation_bytes :: "nat \<Rightarrow> nat \<Rightarrow> string \<Rightarrow> bool" where
  "continuation_bytes low high [] = True"
| "continuation_bytes low high (c # s) =
     (if byte c < low \<or> byte c > high then False else continuation_bytes 0x80 0xBF s)"

function is_valid_utf8 :: "string \<Rightarrow> bool" where
  "is_valid_utf8 text =
     (case text of
        [] \<Rightarrow> True
      | c # rest \<Rightarrow>
          (case utf8_lead (byte c) of
             None \<Rightarrow> False
           | Some (len, low, high) \<Rightarrow>
               if len = 1 then is_valid_utf8 rest
               else if length text < len then False
               else if \<not> continuation_bytes low high (take (len - 1) rest) then False
               else is_valid_utf8 (drop (len - 1) rest)))"
  by pat_completeness auto
termination by (relation "measure length") auto

declare is_valid_utf8.simps [simp del]

definition append_utf8 :: "string \<Rightarrow> nat \<Rightarrow> string" where
  "append_utf8 text code_point =
     (if code_point \<le> 0x7F then text @ [char_of code_point]
      else if code_point \<le> 0x7FF then
        text @ [char_of (0xC0 OR drop_bit 6 code_point), char_of (0x80 OR (code_point AND 0x3F))]
      else if code_point \<le> 0xFFFF then
        text @ [char_of (0xE0 OR drop_bit 12 code_point), char_of (0x80 OR (drop_bit 6 code_point AND 0x3F)),
          char_of (0x80 OR (code_point AND 0x3F))]
      else
        text @ [char_of (0xF0 OR drop_bit 18 code_point), char_of (0x80 OR (drop_bit 12 code_point AND 0x3F)),
          char_of (0x80 OR (drop_bit 6 code_point AND 0x3F)), char_of (0x80 OR (code_point AND 0x3F))])"

section \<open>Classes of characters\<close>

definition is_forbidden_control :: "char \<Rightarrow> bool" where
  "is_forbidden_control c = ((byte c < 0x20 \<and> c \<noteq> TAB) \<or> byte c = 0x7F)"

definition is_ascii_digit :: "char \<Rightarrow> bool" where
  "is_ascii_digit c = (byte (CHR ''0'') \<le> byte c \<and> byte c \<le> byte (CHR ''9''))"

definition is_ascii_alpha :: "char \<Rightarrow> bool" where
  "is_ascii_alpha c = ((byte (CHR ''a'') \<le> byte c \<and> byte c \<le> byte (CHR ''z'')) \<or>
     (byte (CHR ''A'') \<le> byte c \<and> byte c \<le> byte (CHR ''Z'')))"

definition is_ascii_alnum :: "char \<Rightarrow> bool" where
  "is_ascii_alnum c = (is_ascii_alpha c \<or> is_ascii_digit c)"

definition is_ascii_xdigit :: "char \<Rightarrow> bool" where
  "is_ascii_xdigit c = (is_ascii_digit c \<or> (byte (CHR ''a'') \<le> byte c \<and> byte c \<le> byte (CHR ''f'')) \<or>
     (byte (CHR ''A'') \<le> byte c \<and> byte c \<le> byte (CHR ''F'')))"

definition digit_value :: "char \<Rightarrow> int \<Rightarrow> int" where
  "digit_value c base =
     (let digit = (if is_ascii_digit c then int (byte c) - int (byte (CHR ''0''))
          else if byte (CHR ''a'') \<le> byte c \<and> byte c \<le> byte (CHR ''f'') then int (byte c) - int (byte (CHR ''a'')) + 10
          else if byte (CHR ''A'') \<le> byte c \<and> byte c \<le> byte (CHR ''F'') then int (byte c) - int (byte (CHR ''A'')) + 10
          else - 1)
      in if digit < base then digit else - 1)"

definition is_bare_key_char :: "char \<Rightarrow> bool" where
  "is_bare_key_char c = (is_ascii_alnum c \<or> c = CHR ''_'' \<or> c = CHR ''-'')"

section \<open>Escapes\<close>

definition hex_digit :: "nat \<Rightarrow> char" where
  "hex_digit n = ''0123456789ABCDEF'' ! n"

definition escape_char :: "char \<Rightarrow> string" where
  "escape_char ch =
     (if ch = QUOTE then [BACKSLASH, QUOTE]
      else if ch = BACKSLASH then [BACKSLASH, BACKSLASH]
      else if ch = LF then [BACKSLASH, CHR ''n'']
      else if ch = TAB then [BACKSLASH, CHR ''t'']
      else if ch = CR then [BACKSLASH, CHR ''r'']
      else if ch = CHR 0x08 then [BACKSLASH, CHR ''b'']
      else if ch = CHR 0x0C then [BACKSLASH, CHR ''f'']
      else if is_forbidden_control ch
      then [BACKSLASH, CHR ''u'', CHR ''0'', CHR ''0'', hex_digit (drop_bit 4 (byte ch)), hex_digit (byte ch AND 0x0F)]
      else [ch])"

definition escape_string :: "string \<Rightarrow> string" where
  "escape_string str = foldl (\<lambda>result ch. result @ escape_char ch) [] str"

definition escape_key :: "string \<Rightarrow> string" where
  "escape_key key =
     (let needs_quotes = (key = [] \<or> find_pos (\<lambda>ch. \<not> is_bare_key_char ch) key \<noteq> None)
      in if needs_quotes then [QUOTE] @ escape_string key @ [QUOTE] else key)"

lemma escape_string_concat: "escape_string s = concat (map escape_char s)"
proof -
  have "foldl (\<lambda>result ch. result @ escape_char ch) r s = r @ concat (map escape_char s)" for r
    by (induction s arbitrary: r) simp_all
  then show ?thesis by (simp add: escape_string_def)
qed

lemma is_ascii_digit_iff [simp]: "is_ascii_digit c = is_digit c"
  by (auto simp: is_ascii_digit_def is_digit_def)

section \<open>UTF-8 is what the encoder writes\<close>

text \<open>A Unicode scalar value: no surrogate, at most U+10FFFF.\<close>

definition scalar_value :: "nat \<Rightarrow> bool" where
  "scalar_value cp \<longleftrightarrow> cp \<le> 0x10FFFF \<and> \<not> (0xD800 \<le> cp \<and> cp \<le> 0xDFFF)"

abbreviation encode_utf8 :: "nat \<Rightarrow> string" where
  "encode_utf8 cp \<equiv> append_utf8 [] cp"

lemma or_low_bits: "b < 2 ^ k \<Longrightarrow> (m * 2 ^ k) OR b = m * 2 ^ k + (b :: nat)"
proof -
  assume "b < 2 ^ k"
  then have t: "take_bit k b = b" by (simp add: take_bit_nat_eq_self)
  have "push_bit k m AND take_bit k b = 0"
    by (rule bit_eqI) (auto simp: bit_and_iff bit_push_bit_iff bit_take_bit_iff)
  then have "push_bit k m AND b = 0" unfolding t .
  then show ?thesis by (simp add: disjunctive_add_eq_or push_bit_eq_mult)
qed

lemma or_leads:
  "b < 32 \<Longrightarrow> 0xC0 OR b = 0xC0 + (b :: nat)" "b < 16 \<Longrightarrow> 0xE0 OR b = 0xE0 + (b :: nat)"
  "b < 8 \<Longrightarrow> 0xF0 OR b = 0xF0 + (b :: nat)" "b < 64 \<Longrightarrow> 0x80 OR b = 0x80 + (b :: nat)"
  using or_low_bits [of b 6 3] or_low_bits [of b 5 7] or_low_bits [of b 4 15] or_low_bits [of b 6 2] by simp_all

lemma and_3F: "(n :: nat) AND 0x3F = n mod 64"
  using take_bit_eq_mask [of 6 n] by (simp add: mask_eq_exp_minus_1 take_bit_eq_mod)

lemma encode_utf8_bytes:
  "cp \<le> 0x7F \<Longrightarrow> encode_utf8 cp = [char_of cp]"
  "0x7F < cp \<Longrightarrow> cp \<le> 0x7FF \<Longrightarrow> encode_utf8 cp = [char_of (0xC0 + cp div 64), char_of (0x80 + cp mod 64)]"
  "0x7FF < cp \<Longrightarrow> cp \<le> 0xFFFF \<Longrightarrow>
    encode_utf8 cp = [char_of (0xE0 + cp div 4096), char_of (0x80 + cp div 64 mod 64), char_of (0x80 + cp mod 64)]"
  "0xFFFF < cp \<Longrightarrow> cp \<le> 0x10FFFF \<Longrightarrow>
    encode_utf8 cp = [char_of (0xF0 + cp div 262144), char_of (0x80 + cp div 4096 mod 64),
      char_of (0x80 + cp div 64 mod 64), char_of (0x80 + cp mod 64)]"
proof -
  have d: "drop_bit 6 n = n div 64" "drop_bit 12 n = n div 4096" "drop_bit 18 n = n div 262144" for n :: nat
    by (simp_all add: drop_bit_eq_div)
  have m: "n mod 64 < 64" for n :: nat by simp
  have l: "cp \<le> 0x7FF \<Longrightarrow> cp div 64 < 32" "cp \<le> 0xFFFF \<Longrightarrow> cp div 4096 < 16" "cp \<le> 0x10FFFF \<Longrightarrow> cp div 262144 < 8"
    by (auto simp: div_less_iff_less_mult)
  show "cp \<le> 0x7F \<Longrightarrow> encode_utf8 cp = [char_of cp]" by (simp add: append_utf8_def)
  show "0x7F < cp \<Longrightarrow> cp \<le> 0x7FF \<Longrightarrow> encode_utf8 cp = [char_of (0xC0 + cp div 64), char_of (0x80 + cp mod 64)]"
    using l(1) by (simp only: append_utf8_def d and_3F or_leads m if_True if_False not_le [symmetric] simp_thms append_Nil)
  show "0x7FF < cp \<Longrightarrow> cp \<le> 0xFFFF \<Longrightarrow>
    encode_utf8 cp = [char_of (0xE0 + cp div 4096), char_of (0x80 + cp div 64 mod 64), char_of (0x80 + cp mod 64)]"
    using l(2) unfolding append_utf8_def d and_3F by (simp add: or_leads)
  show "0xFFFF < cp \<Longrightarrow> cp \<le> 0x10FFFF \<Longrightarrow>
    encode_utf8 cp = [char_of (0xF0 + cp div 262144), char_of (0x80 + cp div 4096 mod 64),
      char_of (0x80 + cp div 64 mod 64), char_of (0x80 + cp mod 64)]"
    using l(3) unfolding append_utf8_def d and_3F by (simp add: or_leads)
qed

text \<open>A code point by its groups of six bits.\<close>

lemma sextets:
  "y < 64 \<Longrightarrow> (a * 64 + y) div 64 = a \<and> (a * 64 + y) mod 64 = (y :: nat)"
  "x < 64 \<Longrightarrow> y < 64 \<Longrightarrow> ((a * 64 + x) * 64 + y) div 4096 = a \<and> ((a * 64 + x) * 64 + y) div 64 mod 64 = x"
  "w < 64 \<Longrightarrow> x < 64 \<Longrightarrow> y < 64 \<Longrightarrow> (((a * 64 + w) * 64 + x) * 64 + y) div 262144 = a \<and>
    (((a * 64 + w) * 64 + x) * 64 + y) div 4096 mod 64 = w"
proof -
  have d: "n div 4096 = n div 64 div 64" "n div 262144 = n div 64 div 64 div 64" for n :: nat
    by (simp_all add: div_mult2_eq [symmetric])
  have q: "y < 64 \<Longrightarrow> (a * 64 + y) div 64 = a" "y < 64 \<Longrightarrow> (a * 64 + y) mod 64 = y" for a y :: nat by simp_all
  show "y < 64 \<Longrightarrow> (a * 64 + y) div 64 = a \<and> (a * 64 + y) mod 64 = (y :: nat)" by (simp only: q)
  show "x < 64 \<Longrightarrow> y < 64 \<Longrightarrow> ((a * 64 + x) * 64 + y) div 4096 = a \<and> ((a * 64 + x) * 64 + y) div 64 mod 64 = x"
    by (simp only: d q)
  show "w < 64 \<Longrightarrow> x < 64 \<Longrightarrow> y < 64 \<Longrightarrow> (((a * 64 + w) * 64 + x) * 64 + y) div 262144 = a \<and>
    (((a * 64 + w) * 64 + x) * 64 + y) div 4096 mod 64 = w"
    by (simp only: d q)
qed

lemma sextet_split: "\<exists>a y. n = a * 64 + y \<and> y < (64 :: nat)"
  by (rule exI [of _ "n div 64"], rule exI [of _ "n mod 64"]) simp

lemma byte_char_of: "n < 256 \<Longrightarrow> byte (char_of n) = n"
  by (simp add: of_char_of)

lemma char_of_byte_eq: "n = byte c \<Longrightarrow> char_of n = c"
  by simp

text \<open>Validity of a text that starts with a sequence of each length.\<close>

lemma valid_utf8_1: "byte c \<le> 0x7F \<Longrightarrow> is_valid_utf8 (c # r) = is_valid_utf8 r"
  by (subst is_valid_utf8.simps) (simp add: utf8_lead_def Let_def)

lemma valid_utf8_2:
  "0xC2 \<le> byte c \<Longrightarrow> byte c \<le> 0xDF \<Longrightarrow> is_valid_utf8 (c # x # r) \<longleftrightarrow>
    0x80 \<le> byte x \<and> byte x \<le> 0xBF \<and> is_valid_utf8 r"
  by (subst is_valid_utf8.simps) (simp add: utf8_lead_def Let_def not_less)

lemma valid_utf8_3:
  "0xE0 \<le> byte c \<Longrightarrow> byte c \<le> 0xEF \<Longrightarrow> is_valid_utf8 (c # x # y # r) \<longleftrightarrow>
    (if byte c = 0xE0 then 0xA0 else 0x80) \<le> byte x \<and> byte x \<le> (if byte c = 0xED then 0x9F else 0xBF) \<and>
    0x80 \<le> byte y \<and> byte y \<le> 0xBF \<and> is_valid_utf8 r"
  by (subst is_valid_utf8.simps) (auto simp: utf8_lead_def Let_def not_less eval_nat_numeral)

lemma valid_utf8_4:
  "0xF0 \<le> byte c \<Longrightarrow> byte c \<le> 0xF4 \<Longrightarrow> is_valid_utf8 (c # x # y # z # r) \<longleftrightarrow>
    (if byte c = 0xF0 then 0x90 else 0x80) \<le> byte x \<and> byte x \<le> (if byte c = 0xF4 then 0x8F else 0xBF) \<and>
    0x80 \<le> byte y \<and> byte y \<le> 0xBF \<and> 0x80 \<le> byte z \<and> byte z \<le> 0xBF \<and> is_valid_utf8 r"
  by (subst is_valid_utf8.simps) (auto simp: utf8_lead_def Let_def not_less eval_nat_numeral)

lemma valid_encode_utf8:
  assumes "scalar_value cp"
  shows "is_valid_utf8 (encode_utf8 cp @ r) = is_valid_utf8 r"
proof -
  obtain n1 y where y: "cp = n1 * 64 + y" "y < 64" using sextet_split by blast
  obtain n2 x where x: "n1 = n2 * 64 + x" "x < 64" using sextet_split by blast
  obtain n3 w where w: "n2 = n3 * 64 + w" "w < 64" using sextet_split by blast
  have b: "byte (char_of (0x80 + u)) = 0x80 + u" if "u < 64" for u using that by (simp add: byte_char_of)
  consider "cp \<le> 0x7F" | "0x7F < cp" "cp \<le> 0x7FF" | "0x7FF < cp" "cp \<le> 0xFFFF" | "0xFFFF < cp" by linarith
  then show ?thesis
  proof cases
    case 1
    then show ?thesis by (simp add: encode_utf8_bytes valid_utf8_1 byte_char_of)
  next
    case 2
    then have n: "0xC2 \<le> 0xC0 + n1" "0xC0 + n1 \<le> 0xDF" using y by linarith+
    then have "byte (char_of (0xC0 + n1)) = 0xC0 + n1" by (intro byte_char_of) linarith
    moreover have "encode_utf8 cp = [char_of (0xC0 + n1), char_of (0x80 + y)]"
      using encode_utf8_bytes(2) [OF 2] unfolding y(1) by (simp only: sextets(1) [OF y(2)])
    ultimately show ?thesis using n y(2) by (simp add: valid_utf8_2 b)
  next
    case 3
    then have n: "0xE0 + n2 \<le> 0xEF" using x y by linarith
    then have l: "byte (char_of (0xE0 + n2)) = 0xE0 + n2" by (intro byte_char_of) linarith
    have e: "encode_utf8 cp = [char_of (0xE0 + n2), char_of (0x80 + x), char_of (0x80 + y)]"
      using encode_utf8_bytes(3) [OF 3] unfolding y(1) x(1)
      by (simp only: sextets(1) [OF y(2)] sextets(1) [OF x(2)] sextets(2) [OF x(2) y(2)])
    have "n2 = 0 \<Longrightarrow> 0x20 \<le> x" using 3(1) unfolding y(1) x(1) using y(2) by auto
    moreover have "n2 = 0xD \<Longrightarrow> x \<le> 0x1F"
      using assms unfolding scalar_value_def y(1) x(1) using y(2) x(2) by auto
    ultimately show ?thesis unfolding e using n y(2) x(2) l by (simp add: valid_utf8_3 b)
  next
    case 4
    then have c: "cp \<le> 0x10FFFF" using assms by (simp add: scalar_value_def)
    then have n: "0xF0 + n3 \<le> 0xF4" using w x y by linarith
    then have l: "byte (char_of (0xF0 + n3)) = 0xF0 + n3" by (intro byte_char_of) linarith
    have e: "encode_utf8 cp = [char_of (0xF0 + n3), char_of (0x80 + w), char_of (0x80 + x), char_of (0x80 + y)]"
      using encode_utf8_bytes(4) [OF 4 c] unfolding y(1) x(1) w(1)
      by (simp only: sextets(1) [OF y(2)] sextets(1) [OF x(2)] sextets(1) [OF w(2)]
          sextets(2) [OF x(2) y(2)] sextets(3) [OF w(2) x(2) y(2)])
    have "n3 = 0 \<Longrightarrow> 0x10 \<le> w" using 4 unfolding y(1) x(1) w(1) using y(2) x(2) by auto
    moreover have "n3 = 4 \<Longrightarrow> w \<le> 0xF" using c unfolding y(1) x(1) w(1) using y(2) x(2) by auto
    ultimately show ?thesis unfolding e using n y(2) x(2) w(2) l by (simp add: valid_utf8_4 b)
  qed
qed

lemma decode_2:
  assumes "0xC2 \<le> byte c" "byte c \<le> 0xDF" "0x80 \<le> byte x" "byte x \<le> 0xBF"
  shows "\<exists>cp. scalar_value cp \<and> encode_utf8 cp = [c, x]"
proof -
  define a where "a = byte c - 0xC0"
  define y where "y = byte x - 0x80"
  have y: "y < 64" "0x80 + y = byte x" and a: "0xC0 + a = byte c" "2 \<le> a" "a < 32"
    using assms by (simp_all add: y_def a_def)
  have "encode_utf8 (a * 64 + y) = [c, x]"
    using encode_utf8_bytes(2) [of "a * 64 + y"] a y sextets(1) [OF y(1), of a] by (simp add: char_of_byte_eq)
  moreover have "scalar_value (a * 64 + y)" using a y by (simp add: scalar_value_def)
  ultimately show ?thesis by blast
qed

lemma decode_3:
  assumes "0xE0 \<le> byte c" "byte c \<le> 0xEF"
    "(if byte c = 0xE0 then 0xA0 else 0x80) \<le> byte x" "byte x \<le> (if byte c = 0xED then 0x9F else 0xBF)"
    "0x80 \<le> byte z" "byte z \<le> 0xBF"
  shows "\<exists>cp. scalar_value cp \<and> encode_utf8 cp = [c, x, z]"
proof -
  define a where "a = byte c - 0xE0"
  define w where "w = byte x - 0x80"
  define y where "y = byte z - 0x80"
  have y: "y < 64" "0x80 + y = byte z" and w: "w < 64" "0x80 + w = byte x" and a: "0xE0 + a = byte c" "a < 16"
    using assms by (auto simp: y_def w_def a_def split: if_splits)
  have g: "a = 0 \<Longrightarrow> 32 \<le> w" "a = 13 \<Longrightarrow> w < 32" using assms(1-4) by (auto simp: a_def w_def split: if_splits)
  define cp where "cp = (a * 64 + w) * 64 + y"
  have "a = 0 \<and> 32 \<le> w \<or> 1 \<le> a" "a < 13 \<or> a = 13 \<and> w < 32 \<or> 13 < a" using g by linarith+
  then have r: "0x7FF < cp" "cp \<le> 0xFFFF" "\<not> (0xD800 \<le> cp \<and> cp \<le> 0xDFFF)"
    unfolding cp_def using a(2) w(1) y(1) by auto
  have "encode_utf8 cp = [c, x, z]"
    using encode_utf8_bytes(3) [OF r(1,2)] sextets(1) [OF y(1), of "a * 64 + w"] sextets(2) [OF w(1) y(1), of a] a(1) w(2) y(2)
    by (simp only: cp_def char_of_byte_eq)
  moreover have "scalar_value cp" using r by (simp add: scalar_value_def)
  ultimately show ?thesis by blast
qed

lemma decode_4:
  assumes "0xF0 \<le> byte c" "byte c \<le> 0xF4"
    "(if byte c = 0xF0 then 0x90 else 0x80) \<le> byte x" "byte x \<le> (if byte c = 0xF4 then 0x8F else 0xBF)"
    "0x80 \<le> byte z" "byte z \<le> 0xBF" "0x80 \<le> byte u" "byte u \<le> 0xBF"
  shows "\<exists>cp. scalar_value cp \<and> encode_utf8 cp = [c, x, z, u]"
proof -
  define a where "a = byte c - 0xF0"
  define t where "t = byte x - 0x80"
  define w where "w = byte z - 0x80"
  define y where "y = byte u - 0x80"
  have y: "y < 64" "0x80 + y = byte u" and w: "w < 64" "0x80 + w = byte z" and t: "t < 64" "0x80 + t = byte x"
    and a: "0xF0 + a = byte c" "a \<le> 4"
    using assms by (auto simp: y_def w_def t_def a_def split: if_splits)
  have g: "a = 0 \<Longrightarrow> 16 \<le> t" "a = 4 \<Longrightarrow> t < 16" using assms(1-4) by (auto simp: a_def t_def split: if_splits)
  define cp where "cp = ((a * 64 + t) * 64 + w) * 64 + y"
  have "a = 0 \<and> 16 \<le> t \<or> 1 \<le> a" "a < 4 \<or> a = 4 \<and> t < 16" using g a(2) by linarith+
  then have r: "0xFFFF < cp" "cp \<le> 0x10FFFF"
    unfolding cp_def using a(2) t(1) w(1) y(1) by auto
  have "encode_utf8 cp = [c, x, z, u]"
    using encode_utf8_bytes(4) [OF r] sextets(1) [OF y(1), of "(a * 64 + t) * 64 + w"]
      sextets(2) [OF w(1) y(1), of "a * 64 + t"] sextets(3) [OF t(1) w(1) y(1), of a] a(1) t(2) w(2) y(2)
    by (simp only: cp_def char_of_byte_eq)
  moreover have "scalar_value cp" using r by (simp add: scalar_value_def)
  ultimately show ?thesis by blast
qed

lemma valid_utf8_decode:
  assumes "is_valid_utf8 (c # s)"
  shows "\<exists>cp r. scalar_value cp \<and> c # s = encode_utf8 cp @ r \<and> is_valid_utf8 r"
proof -
  define n where "n = byte c"
  obtain len low high where l: "utf8_lead n = Some (len, low, high)"
    using assms by (subst (asm) is_valid_utf8.simps) (auto simp: n_def split: option.splits)
  have sz: "len = 1 \<or> length (c # s) \<ge> len"
    using assms l by (subst (asm) is_valid_utf8.simps) (auto simp: n_def split: if_splits)
  consider "n \<le> 0x7F" | "0xC2 \<le> n" "n \<le> 0xDF" "len = 2" | "0xE0 \<le> n" "n \<le> 0xEF" "len = 3" | "0xF0 \<le> n" "n \<le> 0xF4" "len = 4"
    using l by (auto simp: utf8_lead_def Let_def split: if_splits)
  then show ?thesis
  proof cases
    case 1
    then have "encode_utf8 n = [c]" "scalar_value n" by (simp_all add: encode_utf8_bytes n_def scalar_value_def)
    then show ?thesis using assms 1 valid_utf8_1 [of c s] by (intro exI [of _ n] exI [of _ s]) (simp add: n_def)
  next
    case 2
    then obtain x r where s: "s = x # r" using sz by (cases s) auto
    then have "0x80 \<le> byte x" "byte x \<le> 0xBF" "is_valid_utf8 r"
      using assms 2 valid_utf8_2 [of c x r] by (simp_all add: n_def)
    then show ?thesis using decode_2 [of c x] 2 s unfolding n_def by fastforce
  next
    case 3
    then obtain x z r where s: "s = x # z # r" using sz by (cases s; cases "tl s") auto
    have v: "(if n = 0xE0 then 0xA0 else 0x80) \<le> byte x" "byte x \<le> (if n = 0xED then 0x9F else 0xBF)"
      "0x80 \<le> byte z" "byte z \<le> 0xBF" "is_valid_utf8 r"
      using assms 3 valid_utf8_3 [of c x z r] unfolding s n_def by blast+
    obtain cp where "scalar_value cp" "encode_utf8 cp = [c, x, z]" using decode_3 [of c x z] 3(1,2) v(1-4) unfolding n_def by blast
    then show ?thesis using v(5) s by (intro exI [of _ cp] exI [of _ r]) simp
  next
    case 4
    then obtain x z u r where s: "s = x # z # u # r" using sz by (cases s; cases "tl s"; cases "tl (tl s)") auto
    have v: "(if n = 0xF0 then 0x90 else 0x80) \<le> byte x" "byte x \<le> (if n = 0xF4 then 0x8F else 0xBF)"
      "0x80 \<le> byte z" "byte z \<le> 0xBF" "0x80 \<le> byte u" "byte u \<le> 0xBF" "is_valid_utf8 r"
      using assms 4 valid_utf8_4 [of c x z u r] unfolding s n_def by blast+
    obtain cp where "scalar_value cp" "encode_utf8 cp = [c, x, z, u]"
      using decode_4 [of c x z u] 4(1,2) v(1-6) unfolding n_def by blast
    then show ?thesis using v(7) s by (intro exI [of _ cp] exI [of _ r]) simp
  qed
qed

lemma append_utf8_append: "append_utf8 text cp = text @ encode_utf8 cp"
  by (simp add: append_utf8_def)

lemma encode_utf8_not_Nil: "encode_utf8 cp \<noteq> []"
  by (simp add: append_utf8_def)

lemma valid_concat: "list_all scalar_value cps \<Longrightarrow> is_valid_utf8 (concat (map encode_utf8 cps) @ r) = is_valid_utf8 r"
  by (induction cps) (simp_all add: valid_encode_utf8)

text \<open>C25: \<open>is_valid_utf8\<close> accepts exactly the texts that are Unicode scalar values encoded one
  after the other by \<open>append_utf8\<close>: no overlong form, no surrogate, nothing beyond U+10FFFF and no
  sequence that is cut off passes, and nothing else is refused.\<close>

theorem valid_utf8_iff_encoded:
  "is_valid_utf8 s \<longleftrightarrow> (\<exists>cps. list_all scalar_value cps \<and> s = concat (map (append_utf8 []) cps))"
proof
  assume "is_valid_utf8 s"
  then show "\<exists>cps. list_all scalar_value cps \<and> s = concat (map encode_utf8 cps)"
  proof (induction "length s" arbitrary: s rule: less_induct)
    case less
    show ?case
    proof (cases s)
      case Nil
      then show ?thesis by (intro exI [of _ "[]"]) simp
    next
      case (Cons c cs)
      then obtain cp r where r: "scalar_value cp" "s = encode_utf8 cp @ r" "is_valid_utf8 r"
        using less(2) valid_utf8_decode by blast
      then have "length r < length s" using encode_utf8_not_Nil by simp
      then obtain cps where "list_all scalar_value cps" "r = concat (map encode_utf8 cps)" using less(1) r(3) by blast
      then show ?thesis using r by (intro exI [of _ "cp # cps"]) simp
    qed
  qed
next
  assume "\<exists>cps. list_all scalar_value cps \<and> s = concat (map encode_utf8 cps)"
  moreover have "is_valid_utf8 []" by (simp add: is_valid_utf8.simps)
  ultimately show "is_valid_utf8 s" using valid_concat [of _ "[]"] by auto
qed

end
