(* ===== verification/Toml_Parser.thy ===== *)
theory Toml_Parser
  imports Toml_Text Values
begin

text \<open>
  \<open>class parser\<close> of \<open>src/format/toml.cpp\<close>. The parser's position is the input that is left, so
  \<open>_pos < _input.size()\<close> is that it is not empty, with the line and the column. A step returns a
  value and the parser after it, or a failure; the outer option is that it does not return, which
  the fuel of the recursive functions stands for.
\<close>

section \<open>The state and its errors\<close>

record parser =
  ps_rest :: string
  ps_line :: nat
  ps_column :: nat

record position =
  at_line :: nat
  at_column :: nat

type_synonym failure = "errc \<times> string"
type_synonym 'a parse = "(failure + 'a \<times> parser) option"

definition parser_of :: "string \<Rightarrow> parser" where
  "parser_of input = \<lparr>ps_rest = input, ps_line = 1, ps_column = 1\<rparr>"

definition current_position :: "parser \<Rightarrow> position" where
  "current_position st = \<lparr>at_line = ps_line st, at_column = ps_column st\<rparr>"

definition create_error_at :: "string \<Rightarrow> position \<Rightarrow> failure" where
  "create_error_at message pos =
     (invalid_argument, ''line '' @ digits_of (at_line pos) @ '', column '' @ digits_of (at_column pos) @ '': '' @ message)"

definition create_error :: "parser \<Rightarrow> string \<Rightarrow> failure" where
  "create_error st message = create_error_at message (current_position st)"

definition ok :: "'a \<Rightarrow> parser \<Rightarrow> 'a parse" where
  "ok x st = Some (Inr (x, st))"

definition fail :: "parser \<Rightarrow> string \<Rightarrow> 'a parse" where
  "fail st message = Some (Inl (create_error st message))"

definition fail_at :: "position \<Rightarrow> string \<Rightarrow> 'a parse" where
  "fail_at pos message = Some (Inl (create_error_at message pos))"

definition then_do :: "'a parse \<Rightarrow> ('a \<Rightarrow> parser \<Rightarrow> 'b parse) \<Rightarrow> 'b parse" where
  "then_do p f = (case p of None \<Rightarrow> None | Some (Inl e) \<Rightarrow> Some (Inl e) | Some (Inr (x, st)) \<Rightarrow> f x st)"

lemma then_do_cong [fundef_cong]:
  "p = p' \<Longrightarrow> (\<And>x st. p' = Some (Inr (x, st)) \<Longrightarrow> f x st = f' x st) \<Longrightarrow> then_do p f = then_do p' f'"
  by (auto simp: then_do_def split: option.split sum.split)

lemma then_do_simps [simp]:
  "then_do (ok x st) f = f x st" "then_do (fail st m) f = fail st m" "then_do None f = None"
  "then_do (fail_at pos m) f = fail_at pos m" "then_do (Some (Inl e)) f = Some (Inl e)"
  "then_do (Some (Inr (x, st))) f = f x st"
  by (simp_all add: then_do_def ok_def fail_def fail_at_def)

lemma ok_inject [simp]: "ok x st = ok y u \<longleftrightarrow> x = y \<and> st = u" "ok x st = Some (Inr (y, u)) \<longleftrightarrow> x = y \<and> st = u"
  "ok x st \<noteq> fail u m" "fail u m \<noteq> ok x st" "fail u m \<noteq> Some (Inr z)" "Some (Inr z) \<noteq> fail u m" "Some (Inr z) \<noteq> fail_at pos m" "fail_at pos m \<noteq> Some (Inr z)"
  "fail u m \<noteq> None" "fail_at pos m \<noteq> None" "ok x st \<noteq> None"
  by (simp_all add: ok_def fail_def fail_at_def)

lemma then_do_Some:
  "then_do p f = Some (Inr z) \<longleftrightarrow> (\<exists>x st. p = Some (Inr (x, st)) \<and> f x st = Some (Inr z))"
  by (auto simp: then_do_def split: option.splits sum.splits)

lemma then_do_None: "then_do p f = None \<longleftrightarrow> p = None \<or> (\<exists>x st. p = Some (Inr (x, st)) \<and> f x st = None)"
  by (auto simp: then_do_def split: option.splits sum.splits)

section \<open>Characters\<close>

definition current_char :: "parser \<Rightarrow> char" where
  "current_char st = char_at (ps_rest st) 0"

definition peek_char :: "parser \<Rightarrow> nat \<Rightarrow> char" where
  "peek_char st offset = char_at (ps_rest st) offset"

definition advance :: "parser \<Rightarrow> parser" where
  "advance st =
     (case ps_rest st of
        [] \<Rightarrow> st
      | c # rest \<Rightarrow>
          if c = LF then st\<lparr>ps_rest := rest, ps_line := ps_line st + 1, ps_column := 1\<rparr>
          else st\<lparr>ps_rest := rest, ps_column := ps_column st + 1\<rparr>)"

abbreviation left :: "parser \<Rightarrow> nat" where
  "left st \<equiv> length (ps_rest st)"

lemma rest_advance [simp]: "ps_rest (advance st) = tl (ps_rest st)"
  by (simp add: advance_def split: list.split)

lemma rest_advances [simp]: "ps_rest ((advance ^^ n) st) = drop n (ps_rest st)"
  by (induction n) (simp_all add: drop_Suc tl_drop)

lemma current_not_NUL: "current_char st \<noteq> NUL \<Longrightarrow> ps_rest st \<noteq> []"
  by (auto simp: current_char_def)

lemma left_pos: "current_char st \<noteq> NUL \<Longrightarrow> 0 < left st"
  using current_not_NUL by simp

lemma char_left: "current_char st = c \<Longrightarrow> c \<noteq> NUL \<Longrightarrow> left st - Suc 0 < left st"
  using left_pos [of st] by auto

definition is_blank :: "char \<Rightarrow> bool" where
  "is_blank c = (c = CHR '' '' \<or> c = TAB)"

function skip_whitespace :: "parser \<Rightarrow> parser" where
  "skip_whitespace st =
     (if is_blank (current_char st) \<or> (current_char st = CR \<and> peek_char st 1 = LF)
      then skip_whitespace (advance st) else st)"
  by pat_completeness auto
termination
  by (relation "measure left") (auto simp: is_blank_def intro: char_left)

function skip_comment :: "parser \<Rightarrow> parser" where
  "skip_comment st =
     (if ps_rest st \<noteq> [] \<and> current_char st \<noteq> LF \<and>
         \<not> (is_forbidden_control (current_char st) \<and> \<not> (current_char st = CR \<and> peek_char st 1 = LF))
      then skip_comment (advance st) else st)"
  by pat_completeness auto
termination by (relation "measure left") auto

declare skip_whitespace.simps [simp del] skip_comment.simps [simp del]

lemma left_skip_whitespace: "left (skip_whitespace st) \<le> left st"
proof (induction st rule: skip_whitespace.induct)
  case (1 st)
  then show ?case by (subst skip_whitespace.simps) (auto intro: le_trans)
qed

lemma left_skip_comment: "left (skip_comment st) \<le> left st"
proof (induction st rule: skip_comment.induct)
  case (1 st)
  then show ?case by (subst skip_comment.simps) (auto intro: le_trans)
qed

text \<open>A line of whitespace and a comment, as \<open>skip_whitespace_and_comments\<close> skips one after the other.\<close>

definition skip_line :: "parser \<Rightarrow> parser" where
  "skip_line st =
     (let st = skip_whitespace st in if current_char st = CHR ''#'' then skip_comment st else st)"

lemma left_skip_line: "left (skip_line st) \<le> left st"
  using left_skip_whitespace [of st] left_skip_comment [of "skip_whitespace st"]
  by (simp add: skip_line_def Let_def)

function skip_whitespace_and_comments :: "parser \<Rightarrow> parser" where
  "skip_whitespace_and_comments st =
     (if ps_rest st \<noteq> []
      then let st = skip_line st
           in if current_char st = LF then skip_whitespace_and_comments (advance st) else st
      else st)"
  by pat_completeness auto
termination
proof (relation "measure left", goal_cases)
  case (2 st st')
  then have "0 < left st'" by (intro left_pos) simp
  moreover have "left st' \<le> left st" using 2 left_skip_line by simp
  ultimately show ?case by (simp only: in_measure rest_advance length_tl)
qed simp

declare skip_whitespace_and_comments.simps [simp del]

lemma left_skip_all: "left (skip_whitespace_and_comments st) \<le> left st"
proof (induction st rule: skip_whitespace_and_comments.induct)
  case (1 st)
  have "left (advance (skip_line st)) \<le> left st" using left_skip_line [of st] by simp
  then show ?case using 1 left_skip_line [of st]
    by (subst skip_whitespace_and_comments.simps) (auto simp: Let_def intro: le_trans)
qed

definition expect_line_end :: "parser \<Rightarrow> unit parse" where
  "expect_line_end st =
     (let st = skip_whitespace st
      in if ps_rest st \<noteq> [] \<and> current_char st \<noteq> LF \<and> current_char st \<noteq> CHR ''#''
         then fail st ''Expected a newline'' else ok () st)"

section \<open>Keys and strings\<close>

function bare_key_loop :: "string \<Rightarrow> parser \<Rightarrow> string \<times> parser" where
  "bare_key_loop result st =
     (if ps_rest st \<noteq> [] \<and> is_bare_key_char (current_char st)
      then bare_key_loop (result @ [current_char st]) (advance st) else (result, st))"
  by pat_completeness auto
termination by (relation "measure (\<lambda>(r, st). left st)") auto

definition parse_bare_key :: "parser \<Rightarrow> string parse" where
  "parse_bare_key st = (let (result, st) = bare_key_loop [] st in ok result st)"

definition escape_code_point :: "parser \<Rightarrow> nat \<Rightarrow> nat" where
  "escape_code_point st digits =
     nat (foldl (\<lambda>v c. v * 16 + digit_value c 16) 0 (substr 1 digits (ps_rest st)))"

definition append_unicode :: "string \<Rightarrow> parser \<Rightarrow> string parse" where
  "append_unicode result st =
     (let digits = (if current_char st = CHR ''u'' then 4 else 8)
      in if \<not> list_all (\<lambda>k. is_ascii_xdigit (peek_char st k)) [1..<digits + 1] then fail st ''Invalid unicode escape''
         else let code_point = escape_code_point st digits
              in if (0xD800 \<le> code_point \<and> code_point \<le> 0xDFFF) \<or> code_point > 0x10FFFF
                 then fail st ''Invalid unicode escape''
                 else ok (append_utf8 result code_point) ((advance ^^ digits) st))"

definition append_escape :: "string \<Rightarrow> parser \<Rightarrow> string parse" where
  "append_escape result st =
     (let c = current_char st
      in if c = QUOTE then ok (result @ [QUOTE]) st
         else if c = BACKSLASH then ok (result @ [BACKSLASH]) st
         else if c = CHR ''n'' then ok (result @ [LF]) st
         else if c = CHR ''t'' then ok (result @ [TAB]) st
         else if c = CHR ''r'' then ok (result @ [CR]) st
         else if c = CHR ''b'' then ok (result @ [CHR 0x08]) st
         else if c = CHR ''f'' then ok (result @ [CHR 0x0C]) st
         else if c = CHR ''u'' \<or> c = CHR ''U'' then append_unicode result st
         else fail st ''Invalid escape sequence'')"

lemma left_append_escape: "append_escape result st = Some (Inr (r, st')) \<Longrightarrow> left st' \<le> left st"
  by (auto simp: append_escape_def append_unicode_def Let_def split: if_splits)

function basic_string_loop :: "string \<Rightarrow> string \<Rightarrow> parser \<Rightarrow> string parse" where
  "basic_string_loop kind result st =
     (if ps_rest st \<noteq> [] \<and> current_char st \<noteq> QUOTE
      then (if current_char st = BACKSLASH
            then let st = advance st
                 in if ps_rest st = [] then fail st (''Unterminated '' @ kind)
                    else then_do (append_escape result st) (\<lambda>result st. basic_string_loop kind result (advance st))
            else if is_forbidden_control (current_char st) then fail st (''Control character in '' @ kind)
            else basic_string_loop kind (result @ [current_char st]) (advance st))
      else if current_char st \<noteq> QUOTE then fail st (''Unterminated '' @ kind)
      else ok result (advance st))"
  by pat_completeness auto
termination
proof (relation "measure (\<lambda>(kind, r, st). left st)", goal_cases)
  case (2 kind result st u r v)
  then have "left v \<le> left u" by (intro left_append_escape) auto
  with 2 show ?case by (cases "ps_rest st") auto
qed auto

definition parse_basic_string :: "string \<Rightarrow> parser \<Rightarrow> string parse" where
  "parse_basic_string kind st =
     (if current_char st \<noteq> QUOTE
      then fail st (''Expected '' @ [APOSTROPHE, QUOTE, APOSTROPHE])
      else basic_string_loop kind [] (advance st))"

definition parse_quoted_key :: "parser \<Rightarrow> string parse" where
  "parse_quoted_key st = parse_basic_string ''quoted key'' st"

function literal_string_loop :: "string \<Rightarrow> string \<Rightarrow> parser \<Rightarrow> string parse" where
  "literal_string_loop kind result st =
     (if ps_rest st \<noteq> [] \<and> current_char st \<noteq> APOSTROPHE
      then (if is_forbidden_control (current_char st) then fail st (''Control character in '' @ kind)
            else literal_string_loop kind (result @ [current_char st]) (advance st))
      else if current_char st \<noteq> APOSTROPHE then fail st (''Unterminated '' @ kind)
      else ok result (advance st))"
  by pat_completeness auto
termination by (relation "measure (\<lambda>(kind, r, st). left st)") auto

definition parse_literal_string :: "string \<Rightarrow> parser \<Rightarrow> string parse" where
  "parse_literal_string kind st = literal_string_loop kind [] (advance st)"

definition parse_key :: "parser \<Rightarrow> string parse" where
  "parse_key st =
     (if current_char st = QUOTE then parse_quoted_key st
      else if current_char st = APOSTROPHE then parse_literal_string ''literal key'' st
      else if is_bare_key_char (current_char st) then parse_bare_key st
      else fail st ''Invalid key format'')"

declare bare_key_loop.simps [simp del] basic_string_loop.simps [simp del] literal_string_loop.simps [simp del]

lemma left_bare_key_loop: "bare_key_loop result st = (r, st') \<Longrightarrow> left st' \<le> left st"
proof (induction result st rule: bare_key_loop.induct)
  case (1 result st)
  show ?case
  proof (cases "ps_rest st \<noteq> [] \<and> is_bare_key_char (current_char st)")
    case True
    then have "left st' \<le> left (advance st)"
      using 1 by (subst (asm) (2) bare_key_loop.simps) simp
    then show ?thesis by simp
  next
    case False
    then show ?thesis using 1(2) by (subst (asm) bare_key_loop.simps) auto
  qed
qed

lemma left_basic_string_loop: "basic_string_loop kind result st = Some (Inr (r, st')) \<Longrightarrow> left st' \<le> left st"
proof (induction kind result st rule: basic_string_loop.induct)
  case (1 kind result st)
  show ?case
  proof (cases "ps_rest st \<noteq> [] \<and> current_char st \<noteq> QUOTE")
    case False
    then show ?thesis using 1(3) by (subst (asm) basic_string_loop.simps) (auto split: if_splits)
  next
    case True
    show ?thesis
    proof (cases "current_char st = BACKSLASH")
      case b: True
      define u where "u = advance st"
      have e: "basic_string_loop kind result st = (if ps_rest u = [] then fail u (''Unterminated '' @ kind)
          else then_do (append_escape result u) (\<lambda>result st. basic_string_loop kind result (advance st)))"
        using True b by (subst basic_string_loop.simps) (simp add: Let_def u_def)
      then have ne: "ps_rest u \<noteq> []" using 1(3) by auto
      then obtain x v where v: "append_escape result u = Some (Inr (x, v))"
        "basic_string_loop kind x (advance v) = Some (Inr (r, st'))" using 1(3) e by (auto simp: then_do_Some)
      have "left st' \<le> left (advance v)" by (rule 1(1) [OF True b u_def ne v(1) v(2)])
      then show ?thesis using left_append_escape [OF v(1)] by (simp add: u_def)
    next
      case b: False
      have "\<not> is_forbidden_control (current_char st)"
        using 1(3) True b by (subst (asm) basic_string_loop.simps) auto
      moreover from this have "basic_string_loop kind (result @ [current_char st]) (advance st) = Some (Inr (r, st'))"
        using 1(3) True b by (subst (asm) basic_string_loop.simps) auto
      ultimately have "left st' \<le> left (advance st)" using 1(2) True b by blast
      then show ?thesis by simp
    qed
  qed
qed

lemma left_literal_string_loop: "literal_string_loop kind result st = Some (Inr (r, st')) \<Longrightarrow> left st' \<le> left st"
proof (induction kind result st rule: literal_string_loop.induct)
  case (1 kind result st)
  show ?case
  proof (cases "ps_rest st \<noteq> [] \<and> current_char st \<noteq> APOSTROPHE \<and> \<not> is_forbidden_control (current_char st)")
    case True
    then have "literal_string_loop kind (result @ [current_char st]) (advance st) = Some (Inr (r, st'))"
      using 1(2) by (subst (asm) literal_string_loop.simps) auto
    then have "left st' \<le> left (advance st)" using 1(1) True by blast
    then show ?thesis by simp
  next
    case False
    then show ?thesis using 1(2) by (subst (asm) literal_string_loop.simps) (auto split: if_splits)
  qed
qed

lemma left_parse_key: "parse_key st = Some (Inr (k, st')) \<Longrightarrow> left st' < left st"
proof -
  assume k: "parse_key st = Some (Inr (k, st'))"
  have n: "current_char st \<noteq> NUL"
    using k by (auto simp: parse_key_def is_bare_key_char_def is_ascii_alnum_def is_ascii_alpha_def is_digit_def split: if_splits)
  then have pos: "0 < left st" "left (advance st) < left st" using left_pos [of st] by simp_all
  consider "current_char st = QUOTE" "basic_string_loop ''quoted key'' [] (advance st) = Some (Inr (k, st'))"
    | "literal_string_loop ''literal key'' [] (advance st) = Some (Inr (k, st'))"
    | "is_bare_key_char (current_char st)" "bare_key_loop [] st = (k, st')"
    using k by (auto simp: parse_key_def parse_quoted_key_def parse_basic_string_def parse_literal_string_def
        parse_bare_key_def split: if_splits prod.splits)
  then show ?thesis
  proof cases
    case 1
    then show ?thesis using left_basic_string_loop [OF 1(2)] pos by linarith
  next
    case 2
    then show ?thesis using left_literal_string_loop [OF 2] pos by linarith
  next
    case 3
    then have "bare_key_loop [current_char st] (advance st) = (k, st')"
      using pos(1) by (subst (asm) bare_key_loop.simps) (simp add: n)
    then show ?thesis using left_bare_key_loop [of "[current_char st]" "advance st" k st'] pos by linarith
  qed
qed

end
