(* ===== verification/Toml_Scalars.thy ===== *)
theory Toml_Scalars
  imports Toml_Parser "HOL-Library.Word"
begin

text \<open>
  The values of TOML that contain no other (\<open>class parser\<close> of \<open>src/format/toml.cpp\<close>):
  multi-line strings, booleans, datetimes and numbers.
\<close>

section \<open>Multi-line strings\<close>

definition at_line_end :: "parser \<Rightarrow> nat \<Rightarrow> bool" where
  "at_line_end st offset =
     (peek_char st offset = LF \<or> (peek_char st offset = CR \<and> peek_char st (offset + 1) = LF))"

definition skip_line_end :: "parser \<Rightarrow> parser" where
  "skip_line_end st = (let st = (if current_char st = CR then advance st else st) in advance st)"

lemma current_peek: "peek_char st 0 = current_char st"
  by (simp add: peek_char_def current_char_def)

lemma left_skip_line_end: "left (skip_line_end st) \<le> left st - 1"
  by (auto simp: skip_line_end_def Let_def)

lemma at_line_end_pos: "at_line_end st 0 \<Longrightarrow> 0 < left st"
  by (rule left_pos) (auto simp: at_line_end_def current_peek)

text \<open>The whitespace after the backslash at the current position.\<close>

definition blanks_after_backslash :: "parser \<Rightarrow> nat" where
  "blanks_after_backslash st = 1 + length (takeWhile is_blank (drop 1 (ps_rest st)))"

function skip_blank_lines :: "parser \<Rightarrow> parser" where
  "skip_blank_lines st =
     (if is_blank (current_char st) \<or> at_line_end st 0
      then skip_blank_lines (if at_line_end st 0 then skip_line_end st else advance st) else st)"
  by pat_completeness auto
termination
proof (relation "measure left", goal_cases)
  case (2 st)
  then have p: "0 < left st" using at_line_end_pos left_pos [of st] by (auto simp: is_blank_def)
  with left_skip_line_end [of st] have "left (skip_line_end st) < left st" by linarith
  with p show ?case by simp
qed simp

declare skip_blank_lines.simps [simp del]

lemma left_skip_blank_lines: "left (skip_blank_lines st) \<le> left st"
proof (induction st rule: skip_blank_lines.induct)
  case (1 st)
  show ?case
    using 1 left_skip_line_end [of st] by (subst skip_blank_lines.simps) (auto split: if_splits intro: le_trans)
qed

definition extra_quotes :: "char \<Rightarrow> parser \<Rightarrow> nat" where
  "extra_quotes quote st = (if peek_char st 3 = quote then if peek_char st 4 = quote then 2 else 1 else 0)"

function multi_line_loop :: "char \<Rightarrow> string \<Rightarrow> string \<Rightarrow> parser \<Rightarrow> string parse" where
  "multi_line_loop quote kind result st =
     (if ps_rest st = [] then fail st (''Unterminated '' @ kind)
      else let ch = current_char st
      in if ch = quote \<and> peek_char st 1 = quote \<and> peek_char st 2 = quote
      then let extra = extra_quotes quote st
           in ok (result @ replicate extra quote) ((advance ^^ (3 + extra)) st)
      else if quote = QUOTE \<and> ch = BACKSLASH
      then let k = blanks_after_backslash st
           in if at_line_end st k \<or> k \<ge> left st
              then multi_line_loop quote kind result (skip_blank_lines (advance st))
              else then_do (append_escape result (advance st))
                (\<lambda>result st. multi_line_loop quote kind result (advance st))
      else if at_line_end st 0
      then multi_line_loop quote kind (result @ (if ch = CR then [CR] else []) @ [LF]) (skip_line_end st)
      else if is_forbidden_control ch then fail st (''Control character in '' @ kind)
      else multi_line_loop quote kind (result @ [ch]) (advance st))"
  by pat_completeness auto
termination
proof (relation "measure (\<lambda>(q, kind, r, st). left st)", goal_cases)
  case (2 quote kind result st ch k)
  then show ?case using left_skip_blank_lines [of "advance st"] by (cases "ps_rest st") auto
next
  case (3 quote kind result st ch k r u)
  then have "left u \<le> left (advance st)" by (intro left_append_escape) auto
  with 3 show ?case by (cases "ps_rest st") auto
next
  case (4 quote kind result st ch)
  then show ?case using left_skip_line_end [of st] by (cases "ps_rest st") auto
qed auto

declare multi_line_loop.simps [simp del]

definition parse_multi_line_string :: "char \<Rightarrow> string \<Rightarrow> parser \<Rightarrow> string parse" where
  "parse_multi_line_string quote kind st =
     (let st = (advance ^^ 3) st;
          st = (if at_line_end st 0 then skip_line_end st else st)
      in multi_line_loop quote kind [] st)"

lemma left_multi_line_loop:
  "multi_line_loop quote kind result st = Some (Inr (r, st')) \<Longrightarrow> left st' \<le> left st"
proof (induction quote kind result st rule: multi_line_loop.induct)
  case (1 quote kind result st)
  have a: "left (advance st) \<le> left st" by simp
  note prem = 1(5) [unfolded multi_line_loop.simps [of quote kind result st] Let_def]
  have ne: "ps_rest st \<noteq> []" using prem by auto
  show ?case
  proof (cases "current_char st = quote \<and> peek_char st 1 = quote \<and> peek_char st 2 = quote")
    case True
    then show ?thesis using prem ne by auto
  next
    case q: False
    show ?thesis
    proof (cases "quote = QUOTE \<and> current_char st = BACKSLASH")
      case b: True
      show ?thesis
      proof (cases "at_line_end st (blanks_after_backslash st) \<or> blanks_after_backslash st \<ge> left st")
        case True
        then have "multi_line_loop quote kind result (skip_blank_lines (advance st)) = Some (Inr (r, st'))"
          using prem ne q b by auto
        then show ?thesis using 1(1) [OF ne refl q b refl True] left_skip_blank_lines [of "advance st"] a by linarith
      next
        case False
        then obtain x v where v: "append_escape result (advance st) = Some (Inr (x, v))"
          "multi_line_loop quote kind x (advance v) = Some (Inr (r, st'))"
          using prem ne q b by (auto simp: then_do_Some)
        have "left st' \<le> left (advance v)" by (rule 1(2) [OF ne refl q b refl False v(1) v(2)])
        moreover have "left (advance v) \<le> left v" by simp
        ultimately show ?thesis using left_append_escape [OF v(1)] a by linarith
      qed
    next
      case b: False
      show ?thesis
      proof (cases "at_line_end st 0")
        case True
        then have "left st' \<le> left (skip_line_end st)"
          using prem ne q b by (intro 1(3) [OF ne refl q b True]) auto
        then show ?thesis using left_skip_line_end [of st] by linarith
      next
        case False
        then have "left st' \<le> left (advance st)"
          using prem ne q b by (intro 1(4) [OF ne refl q b False]) (auto split: if_splits)
        then show ?thesis using a by linarith
      qed
    qed
  qed
qed

section \<open>Booleans\<close>

definition move_by :: "nat \<Rightarrow> parser \<Rightarrow> parser" where
  "move_by n st = st\<lparr>ps_rest := drop n (ps_rest st), ps_column := ps_column st + n\<rparr>"

definition parse_boolean :: "parser \<Rightarrow> val parse" where
  "parse_boolean st =
     (if 4 \<le> left st \<and> substr 0 4 (ps_rest st) = ''true'' then ok (Boolean (boolean_of_bool True)) (move_by 4 st)
      else if 5 \<le> left st \<and> substr 0 5 (ps_rest st) = ''false'' then ok (Boolean (boolean_of_bool False)) (move_by 5 st)
      else fail st ''Invalid boolean value'')"

section \<open>Datetimes\<close>

definition digits_ahead :: "parser \<Rightarrow> nat \<Rightarrow> nat \<Rightarrow> bool" where
  "digits_ahead st offset count = list_all (\<lambda>k. is_ascii_digit (peek_char st (offset + k))) [0..<count]"

definition at_date :: "parser \<Rightarrow> bool" where
  "at_date st = (digits_ahead st 0 4 \<and> peek_char st 4 = CHR ''-'')"

definition at_time :: "parser \<Rightarrow> bool" where
  "at_time st = (digits_ahead st 0 2 \<and> peek_char st 2 = CHR '':'')"

text \<open>\<open>take_digits\<close> and \<open>take\<close> add to the text what they read; the datetime is invalid when they
  do not find it.\<close>

definition take_digits :: "nat \<Rightarrow> string \<times> parser \<Rightarrow> (string \<times> parser) option" where
  "take_digits count state =
     (let (text, st) = state
      in if \<not> digits_ahead st 0 count then None
         else Some (((\<lambda>(text, st). (text @ [current_char st], advance st)) ^^ count) (text, st)))"

definition take_char :: "char \<Rightarrow> string \<times> parser \<Rightarrow> (string \<times> parser) option" where
  "take_char c state =
     (let (text, st) = state in if current_char st \<noteq> c then None else Some (text @ [c], advance st))"

function take_fraction :: "string \<times> parser \<Rightarrow> string \<times> parser" where
  "take_fraction (text, st) =
     (if is_ascii_digit (current_char st) then take_fraction (text @ [current_char st], advance st) else (text, st))"
  by pat_completeness auto
termination
  by (relation "measure (\<lambda>(text, st). left st)") (auto simp: is_digit_def dest: current_not_NUL [rotated] intro!: char_left)

declare take_fraction.simps [simp del]

definition then_take :: "(string \<times> parser) option \<Rightarrow> (string \<times> parser \<Rightarrow> (string \<times> parser) option) \<Rightarrow> (string \<times> parser) option" where
  "then_take state f = (case state of None \<Rightarrow> None | Some s \<Rightarrow> f s)"

definition take_date :: "string \<times> parser \<Rightarrow> (string \<times> parser) option" where
  "take_date s =
     then_take (then_take (then_take (then_take (take_digits 4 s) (take_char (CHR ''-''))) (take_digits 2))
       (take_char (CHR ''-''))) (take_digits 2)"

definition take_time :: "string \<times> parser \<Rightarrow> (string \<times> parser) option" where
  "take_time s =
     then_take (then_take (then_take (then_take (take_digits 2 s) (take_char (CHR '':''))) (take_digits 2))
       (take_char (CHR '':''))) (take_digits 2)"

definition take_offset :: "string \<times> parser \<Rightarrow> (string \<times> parser) option" where
  "take_offset s =
     then_take (then_take (then_take (take_char (current_char (snd s)) s) (take_digits 2)) (take_char (CHR '':'')))
       (take_digits 2)"

definition time_follows :: "parser \<Rightarrow> bool" where
  "time_follows st =
     (current_char st = CHR ''T'' \<or> current_char st = CHR ''t'' \<or>
      (current_char st = CHR '' '' \<and> digits_ahead st 1 2 \<and> peek_char st 3 = CHR '':''))"

definition parse_datetime :: "parser \<Rightarrow> val parse" where
  "parse_datetime st =
     (let start = current_position st;
          invalid = fail_at start ''Invalid datetime'';
          without_offset = fail_at start ''timestamp cannot hold a datetime without an offset''
      in if at_time st then without_offset
      else case take_date ([], st) of None \<Rightarrow> invalid
      | Some (text, st) \<Rightarrow>
          if \<not> time_follows st then without_offset
          else case take_time (text @ ''T'', advance st) of None \<Rightarrow> invalid
          | Some (text, st) \<Rightarrow>
              let (text, st) = (case take_char (CHR ''.'') (text, st) of Some s \<Rightarrow> take_fraction s | None \<Rightarrow> (text, st));
                  finish = (\<lambda>(text, st). case from_string text of None \<Rightarrow> invalid | Some parsed \<Rightarrow> ok (Timestamp parsed) st)
              in if current_char st = CHR ''Z'' \<or> current_char st = CHR ''z'' then finish (text @ ''Z'', advance st)
                 else if current_char st = CHR ''+'' \<or> current_char st = CHR ''-''
                 then (case take_offset (text, st) of None \<Rightarrow> invalid | Some s \<Rightarrow> finish s)
                 else without_offset)"

section \<open>Numbers\<close>

text \<open>\<open>read_digits\<close> returns the text with the digits it adds, and their count.\<close>

function read_digits_loop :: "string \<Rightarrow> int \<Rightarrow> nat \<Rightarrow> parser \<Rightarrow> (string \<times> nat) parse" where
  "read_digits_loop text base count st =
     (if current_char st = CHR ''_'' \<and> (count = 0 \<or> digit_value (peek_char st 1) base < 0)
      then fail st ''An underscore must be between digits''
      else let st = (if current_char st = CHR ''_'' then advance st else st)
           in if digit_value (current_char st) base < 0 then ok (text, count) st
              else read_digits_loop (text @ [current_char st]) base (count + 1) (advance st))"
  by pat_completeness auto
termination
proof (relation "measure (\<lambda>(text, base, count, st). left st)", goal_cases)
  case (2 t base count st st')
  have "digit_value NUL base < 0" by (simp add: digit_value_def is_digit_def)
  then have "current_char st' \<noteq> NUL" using 2(3) by metis
  then have "0 < left st'" by (rule left_pos)
  moreover have "left st' \<le> left st" by (simp add: 2(2))
  ultimately show ?case by (cases "ps_rest st'") auto
qed simp

declare read_digits_loop.simps [simp del]

definition read_digits :: "string \<Rightarrow> int \<Rightarrow> parser \<Rightarrow> (string \<times> nat) parse" where
  "read_digits text base st = read_digits_loop text base 0 st"

definition at_integer_prefix :: "parser \<Rightarrow> bool" where
  "at_integer_prefix st =
     (current_char st = CHR ''0'' \<and>
      (peek_char st 1 = CHR ''x'' \<or> peek_char st 1 = CHR ''o'' \<or> peek_char st 1 = CHR ''b''))"

definition number_of_uint64 :: "64 word \<Rightarrow> number_storage" where
  "number_of_uint64 n = storage_with (digits_of (unat n)) False"

definition chunk_part :: "nat \<Rightarrow> int \<Rightarrow> string \<Rightarrow> 64 word" where
  "chunk_part bits base digits =
     foldl (\<lambda>part d. push_bit bits part OR word_of_int (digit_value d base)) 0 digits"

partial_function (option) prefixed_loop :: "nat \<Rightarrow> int \<Rightarrow> nat \<Rightarrow> string \<Rightarrow> number_storage \<Rightarrow> number_storage option" where
  "prefixed_loop bits base chunk digits result =
     (if digits = [] then Some result
      else let len = min chunk (length digits);
               part = chunk_part bits base (take len digits)
           in Option.bind (calculate result (number_of_uint64 (push_bit (bits * len) 1)) (CHR ''*''))
             (\<lambda>product. Option.bind (calculate product (number_of_uint64 part) (CHR ''+''))
               (\<lambda>result. prefixed_loop bits base chunk (drop len digits) result)))"

definition parse_prefixed_integer :: "parser \<Rightarrow> val parse" where
  "parse_prefixed_integer st =
     (let prefix = peek_char st 1;
          base = (if prefix = CHR ''x'' then 16 else if prefix = CHR ''o'' then 8 else 2);
          st = advance (advance st)
      in then_do (read_digits [] base st) (\<lambda>(digits, count) st.
           if count = 0 then fail st (''Expected a digit after '' @ [APOSTROPHE] @ ''0'' @ [prefix, APOSTROPHE])
           else let bits = (if base = 16 then 4 else if base = 8 then 3 else 1);
                    chunk = 63 div bits
                in case prefixed_loop bits base chunk digits (number_of_uint64 0) of
                     None \<Rightarrow> None
                   | Some result \<Rightarrow> ok (Number result) st))"

text \<open>The fraction and the exponent, when there is one: the text with them.\<close>

definition parse_fraction :: "string \<Rightarrow> parser \<Rightarrow> string parse" where
  "parse_fraction num_str st =
     (if current_char st = CHR ''.''
      then then_do (read_digits (num_str @ [current_char st]) 10 (advance st)) (\<lambda>(num_str, fraction_digits) st.
        if fraction_digits = 0 then fail st (''Expected a digit after '' @ [APOSTROPHE] @ ''.'' @ [APOSTROPHE])
        else ok num_str st)
      else ok num_str st)"

definition parse_exponent :: "string \<Rightarrow> parser \<Rightarrow> string parse" where
  "parse_exponent num_str st =
     (if current_char st = CHR ''e'' \<or> current_char st = CHR ''E''
      then let num_str = num_str @ [current_char st];
               st = advance st;
               (num_str, st) = (if current_char st = CHR ''+'' \<or> current_char st = CHR ''-''
                 then (num_str @ [current_char st], advance st) else (num_str, st))
           in then_do (read_digits num_str 10 st) (\<lambda>(num_str, exponent_digits) st.
             if exponent_digits = 0 then fail st ''Expected a digit in the exponent'' else ok num_str st)
      else ok num_str st)"

definition parse_decimal :: "string \<Rightarrow> parser \<Rightarrow> val parse" where
  "parse_decimal num_str st =
     (let leading_zero = (current_char st = CHR ''0'')
      in then_do (read_digits num_str 10 st) (\<lambda>(num_str, integer_digits) st.
           if integer_digits = 0 then fail st ''Invalid number format''
           else if leading_zero \<and> integer_digits > 1 then fail st ''Leading zero in a number''
           else then_do (parse_fraction num_str st) (\<lambda>num_str st.
             then_do (parse_exponent num_str st) (\<lambda>num_str st.
               let n = storage_of num_str
               in if is_nan n then fail st ''Invalid number format'' else ok (Number n) st))))"

definition parse_number :: "parser \<Rightarrow> val parse" where
  "parse_number st =
     (if at_integer_prefix st then parse_prefixed_integer st
      else if current_char st = CHR ''+'' \<or> current_char st = CHR ''-''
      then let num_str = [current_char st]; st = advance st
           in if at_integer_prefix st then fail st ''An integer with a prefix has no sign''
              else parse_decimal num_str st
      else parse_decimal [] st)"

definition at_inf_or_nan :: "parser \<Rightarrow> bool" where
  "at_inf_or_nan st =
     (let start = (if current_char st = CHR ''+'' \<or> current_char st = CHR ''-'' then 1 else 0);
          is_word = (\<lambda>word. str_compare (substr start 3 (ps_rest st)) word = 0 \<and> \<not> is_bare_key_char (peek_char st (start + 3)))
      in is_word ''inf'' \<or> is_word ''nan'')"

end
