(* ===== verification/Toml_Reader.thy ===== *)
theory Toml_Reader
  imports Toml_Scalars
begin

text \<open>
  The tables, the recursive values and the document of \<open>class parser\<close>
  (\<open>src/format/toml.cpp\<close>), and \<open>deserialize\<close>. A pointer into the tree of tables is the path of
  keys that leads to it, which goes to the last element of each array of tables on its way.
\<close>

section \<open>The tree of tables\<close>

datatype table_node = Table_Node
  (node_pairs: entries)
  (node_tables: "(string \<times> table_node) list")
  (node_named: bool)
  (node_dotted: bool)
  (node_array: bool)
  (node_elements: "table_node list")

definition new_node :: "bool \<Rightarrow> bool \<Rightarrow> table_node" where
  "new_node dotted array = Table_Node [] [] False dotted array []"

definition set_pairs :: "entries \<Rightarrow> table_node \<Rightarrow> table_node" where
  "set_pairs pairs node = (case node of Table_Node p t n d a e \<Rightarrow> Table_Node pairs t n d a e)"

definition set_table :: "string \<Rightarrow> table_node \<Rightarrow> table_node \<Rightarrow> table_node" where
  "set_table key child node =
     (case node of Table_Node p t n d a e \<Rightarrow> Table_Node p (entry_insert key child t) n d a e)"

definition set_named :: "table_node \<Rightarrow> table_node" where
  "set_named node = (case node of Table_Node p t n d a e \<Rightarrow> Table_Node p t True d a e)"

definition set_elements :: "table_node list \<Rightarrow> table_node \<Rightarrow> table_node" where
  "set_elements elements node = (case node of Table_Node p t n d a e \<Rightarrow> Table_Node p t n d a elements)"

lemma node_simps [simp]:
  "node_pairs (set_pairs q node) = q" "node_tables (set_pairs q node) = node_tables node"
  "node_pairs (set_table k c node) = node_pairs node" "node_tables (set_table k c node) = entry_insert k c (node_tables node)"
  "node_pairs (set_named node) = node_pairs node" "node_tables (set_named node) = node_tables node"
  "node_pairs (set_elements es node) = node_pairs node" "node_tables (set_elements es node) = node_tables node"
  "node_array (set_pairs q node) = node_array node" "node_array (set_table k c node) = node_array node"
  "node_array (set_named node) = node_array node" "node_array (set_elements es node) = node_array node"
  "node_elements (set_pairs q node) = node_elements node" "node_elements (set_table k c node) = node_elements node"
  "node_elements (set_named node) = node_elements node" "node_elements (set_elements es node) = es"
  "node_dotted (set_pairs q node) = node_dotted node" "node_dotted (set_table k c node) = node_dotted node"
  "node_dotted (set_named node) = node_dotted node" "node_dotted (set_elements es node) = node_dotted node"
  "node_pairs (new_node b g) = []" "node_tables (new_node b g) = []" "node_array (new_node b g) = g"
  "node_elements (new_node b g) = []" "node_dotted (new_node b g) = b" "\<not> node_named (new_node b g)"
  by (cases node; simp add: set_pairs_def set_table_def set_named_def set_elements_def new_node_def)+

text \<open>What the code leaves undefined: the back of an empty vector.\<close>

definition undefined_back :: failure where
  "undefined_back = (result_out_of_range, ''back of an empty vector'')"

text \<open>\<open>merge_tables\<close>: the pairs of a node with each of its tables stored under its key.\<close>

fun merge_into :: "entries \<Rightarrow> (string \<times> table_node) list \<Rightarrow> entries"
  and merge_elements :: "table_node list \<Rightarrow> val list" where
  "merge_into pairs [] = pairs"
| "merge_into pairs ((key, Table_Node p t n d a e) # tables) =
     merge_into (dictionary_store pairs key
       (if a then Array (merge_elements e) else Dictionary (merge_into p t))) tables"
| "merge_elements [] = []"
| "merge_elements (Table_Node p t n d a e # elements) = Dictionary (merge_into p t) # merge_elements elements"

definition merge_tables :: "table_node \<Rightarrow> entries" where
  "merge_tables node = merge_into (node_pairs node) (node_tables node)"

definition add_key_pairs :: "entries \<Rightarrow> string \<Rightarrow> val \<Rightarrow> position \<Rightarrow> failure + entries" where
  "add_key_pairs table key v pos =
     (if dictionary_contains table key then Inl (create_error_at ''Key defined twice'' pos)
      else Inr (dictionary_store table key v))"

definition add_key :: "table_node \<Rightarrow> string \<Rightarrow> val \<Rightarrow> position \<Rightarrow> failure + table_node" where
  "add_key table key v pos =
     (if key \<in> set (map fst (node_tables table)) then Inl (create_error_at ''Key defined twice'' pos)
      else case add_key_pairs (node_pairs table) key v pos of
        Inl e \<Rightarrow> Inl e
      | Inr pairs \<Rightarrow> Inr (set_pairs pairs table))"

text \<open>The loop over all keys but the last; a key path is never empty.\<close>

fun add_pair :: "table_node \<Rightarrow> string list \<Rightarrow> val \<Rightarrow> position \<Rightarrow> failure + table_node" where
  "add_pair node [] v pos = Inl undefined_back"
| "add_pair node [key] v pos = add_key node key v pos"
| "add_pair node (key # k # ks) v pos =
     (if dictionary_contains (node_pairs node) key then Inl (create_error_at ''Key defined twice'' pos)
      else case map_of (node_tables node) key of
        None \<Rightarrow>
          (case add_pair (new_node True False) (k # ks) v pos of
             Inl e \<Rightarrow> Inl e
           | Inr child \<Rightarrow> Inr (set_table key child node))
      | Some child \<Rightarrow>
          if \<not> node_dotted child then Inl (create_error_at ''Key defined twice'' pos)
          else (case add_pair child (k # ks) v pos of
             Inl e \<Rightarrow> Inl e
           | Inr child \<Rightarrow> Inr (set_table key child node)))"

text \<open>What the code does to the back of a vector of elements.\<close>

definition update_back :: "(table_node \<Rightarrow> failure + table_node) \<Rightarrow> table_node list \<Rightarrow> failure + table_node list" where
  "update_back f elements =
     (case rev elements of
        [] \<Rightarrow> Inl undefined_back
      | back # before \<Rightarrow> (case f back of Inl e \<Rightarrow> Inl e | Inr back \<Rightarrow> Inr (rev (back # before))))"

lemma update_back_cong [fundef_cong]:
  "elements = elements' \<Longrightarrow> (\<And>e. e \<in> set elements' \<Longrightarrow> f e = g e) \<Longrightarrow> update_back f elements = update_back g elements'"
  by (cases elements' rule: rev_cases) (auto simp: update_back_def)

definition name_table :: "bool \<Rightarrow> position \<Rightarrow> table_node \<Rightarrow> failure + table_node" where
  "name_table array header_start table =
     (if array
      then (if \<not> node_array table then Inl (create_error_at ''Table defined twice'' header_start)
            else Inr (set_elements (node_elements table @ [new_node False False]) table))
      else if node_named table \<or> node_dotted table \<or> node_array table
      then Inl (create_error_at ''Table defined twice'' header_start)
      else Inr (set_named table))"

fun open_table :: "table_node \<Rightarrow> bool \<Rightarrow> string list \<Rightarrow> position \<Rightarrow> failure + table_node" where
  "open_table table array [] header_start = name_table array header_start table"
| "open_table table array (key # keys) header_start =
     (let last = (keys = [])
      in if dictionary_contains (node_pairs table) key
         then Inl (create_error_at ''Table header names a key that is not a table'' header_start)
         else let child = (case map_of (node_tables table) key of
                None \<Rightarrow> new_node False (array \<and> last)
              | Some child \<Rightarrow> child)
              in if node_array child \<and> \<not> last
                 then (case update_back (\<lambda>back. open_table back array keys header_start) (node_elements child) of
                     Inl e \<Rightarrow> Inl e
                   | Inr elements \<Rightarrow> Inr (set_table key (set_elements elements child) table))
                 else (case open_table child array keys header_start of
                     Inl e \<Rightarrow> Inl e
                   | Inr child \<Rightarrow> Inr (set_table key child table)))"

text \<open>A change to the table that the path of the last header leads to.\<close>

fun update_at :: "table_node \<Rightarrow> string list \<Rightarrow> (table_node \<Rightarrow> failure + table_node) \<Rightarrow> failure + table_node" where
  "update_at node [] f = f node"
| "update_at node (key # keys) f =
     (case map_of (node_tables node) key of
        None \<Rightarrow> Inl undefined_back
      | Some child \<Rightarrow>
          if node_array child
          then (case update_back (\<lambda>back. update_at back keys f) (node_elements child) of
              Inl e \<Rightarrow> Inl e
            | Inr elements \<Rightarrow> Inr (set_table key (set_elements elements child) node))
          else (case update_at child keys f of
              Inl e \<Rightarrow> Inl e
            | Inr child \<Rightarrow> Inr (set_table key child node)))"

section \<open>Headers and key paths\<close>

function header_keys :: "string list \<Rightarrow> parser \<Rightarrow> (string list) parse" where
  "header_keys key_path st =
     then_do (parse_key (skip_whitespace st)) (\<lambda>key st.
       let key_path = key_path @ [key];
           st = skip_whitespace st
       in if current_char st = CHR ''.'' then header_keys key_path (advance st)
          else if current_char st = CHR '']'' then ok key_path (advance st)
          else fail st (''Expected '' @ [APOSTROPHE] @ ''.'' @ [APOSTROPHE] @ '' or '' @ [APOSTROPHE] @ '']'' @ [APOSTROPHE]))"
  by pat_completeness auto
termination
proof (relation "measure (\<lambda>(p, st). left st)", goal_cases)
  case (2 p st key u q v)
  have "left v \<le> left u" "left u < left (skip_whitespace st)"
    using 2 left_skip_whitespace [of u] left_parse_key by blast+
  moreover have "left (skip_whitespace st) \<le> left st" by (rule left_skip_whitespace)
  ultimately show ?case by simp
qed simp

function pair_keys :: "string list \<Rightarrow> parser \<Rightarrow> (string list) parse" where
  "pair_keys key_path st =
     then_do (parse_key st) (\<lambda>key st.
       let key_path = key_path @ [key];
           st = skip_whitespace st
       in if current_char st \<noteq> CHR ''.'' then ok key_path st
          else pair_keys key_path (skip_whitespace (advance st)))"
  by pat_completeness auto
termination
proof (relation "measure (\<lambda>(p, st). left st)", goal_cases)
  case (2 p st key u q v)
  have "left v \<le> left u" "left u < left st"
    using 2 left_skip_whitespace [of u] left_parse_key by blast+
  moreover have "left (skip_whitespace (advance v)) \<le> left v" using left_skip_whitespace [of "advance v"] by simp
  ultimately show ?case by simp
qed simp

declare header_keys.simps [simp del] pair_keys.simps [simp del]

definition parse_table_header :: "parser \<Rightarrow> (string list \<times> bool) parse" where
  "parse_table_header st =
     (if current_char st \<noteq> CHR ''['' then fail st (''Expected '' @ [APOSTROPHE] @ ''['' @ [APOSTROPHE])
      else let st = advance st;
               array = (current_char st = CHR ''['');
               st = (if array then advance st else st)
           in then_do (header_keys [] st) (\<lambda>key_path st.
                if array
                then (if current_char st \<noteq> CHR '']'' then fail st (''Expected '' @ [APOSTROPHE] @ '']]'' @ [APOSTROPHE])
                      else ok (key_path, array) (advance st))
                else ok (key_path, array) st))"

section \<open>Values\<close>

definition to_text_value :: "string parse \<Rightarrow> val parse" where
  "to_text_value p = then_do p (\<lambda>s st. ok (String (string_of s)) st)"

fun parse_value :: "nat \<Rightarrow> parser \<Rightarrow> val parse"
  and parse_array :: "nat \<Rightarrow> parser \<Rightarrow> val parse"
  and array_loop :: "nat \<Rightarrow> val list \<Rightarrow> parser \<Rightarrow> val parse"
  and parse_inline_table :: "nat \<Rightarrow> parser \<Rightarrow> val parse"
  and inline_table_loop :: "nat \<Rightarrow> table_node \<Rightarrow> parser \<Rightarrow> val parse"
  and parse_key_value :: "nat \<Rightarrow> parser \<Rightarrow> (string list \<times> val) parse" where
  "parse_value 0 st = None"
| "parse_value (Suc fuel) st =
     (let st = skip_whitespace st; ch = current_char st
      in if at_inf_or_nan st then fail st ''number has no infinity and keeps nan for errors''
         else if (ch = QUOTE \<or> ch = APOSTROPHE) \<and> peek_char st 1 = ch \<and> peek_char st 2 = ch
         then to_text_value (parse_multi_line_string ch
           (if ch = QUOTE then ''multi-line string'' else ''multi-line literal string'') st)
         else if ch = QUOTE then to_text_value (parse_basic_string ''string'' st)
         else if ch = APOSTROPHE then to_text_value (parse_literal_string ''literal string'' st)
         else if ch = CHR ''['' then parse_array fuel st
         else if ch = CHR ''{'' then parse_inline_table fuel st
         else if ch = CHR ''t'' \<or> ch = CHR ''f'' then parse_boolean st
         else if at_date st \<or> at_time st then parse_datetime st
         else if is_ascii_digit ch \<or> ch = CHR ''-'' \<or> ch = CHR ''+'' then parse_number st
         else fail st ''Invalid value format'')"
| "parse_array 0 st = None"
| "parse_array (Suc fuel) st =
     (if current_char st \<noteq> CHR ''['' then fail st (''Expected '' @ [APOSTROPHE] @ ''['' @ [APOSTROPHE])
      else let st = skip_whitespace_and_comments (advance st)
           in if current_char st = CHR '']'' then ok (Array []) (advance st) else array_loop fuel [] st)"
| "array_loop 0 result st = None"
| "array_loop (Suc fuel) result st =
     then_do (parse_value fuel st) (\<lambda>v st.
       let result = array_append result v;
           st = skip_whitespace_and_comments st
       in if current_char st = CHR '',''
          then (let st = skip_whitespace_and_comments (advance st)
                in if current_char st = CHR '']'' then ok (Array result) (advance st)
                   else array_loop fuel result st)
          else if current_char st = CHR '']'' then ok (Array result) (advance st)
          else fail st (''Expected '' @ [APOSTROPHE] @ '','' @ [APOSTROPHE] @ '' or '' @ [APOSTROPHE] @ '']'' @ [APOSTROPHE]))"
| "parse_inline_table 0 st = None"
| "parse_inline_table (Suc fuel) st =
     (if current_char st \<noteq> CHR ''{'' then fail st (''Expected '' @ [APOSTROPHE] @ ''{'' @ [APOSTROPHE])
      else let st = skip_whitespace (advance st)
           in if current_char st = CHR ''}'' then ok (Dictionary []) (advance st)
              else inline_table_loop fuel (new_node False False) st)"
| "inline_table_loop 0 result st = None"
| "inline_table_loop (Suc fuel) result st =
     (let pair_start = current_position st
      in then_do (parse_key_value fuel st) (\<lambda>(key_path, v) st.
           case add_pair result key_path v pair_start of
             Inl e \<Rightarrow> Some (Inl e)
           | Inr result \<Rightarrow>
               let st = skip_whitespace st
               in if current_char st = LF \<or> current_char st = CHR ''#''
                  then fail st ''An inline table must stay on one line''
                  else if current_char st = CHR '',''
                  then inline_table_loop fuel result (skip_whitespace (advance st))
                  else if current_char st = CHR ''}''
                  then ok (Dictionary (merge_tables result)) (advance st)
                  else fail st (''Expected '' @ [APOSTROPHE] @ '','' @ [APOSTROPHE] @ '' or '' @ [APOSTROPHE] @ ''}'' @ [APOSTROPHE])))"
| "parse_key_value 0 st = None"
| "parse_key_value (Suc fuel) st =
     then_do (pair_keys [] st) (\<lambda>key_path st.
       if current_char st \<noteq> CHR ''='' then fail st (''Expected '' @ [APOSTROPHE] @ ''='' @ [APOSTROPHE])
       else then_do (parse_value fuel (skip_whitespace (advance st))) (\<lambda>v st. ok (key_path, v) st))"

section \<open>No step goes back\<close>

text \<open>What a step that succeeds leaves is at most \<open>n\<close> characters.\<close>

named_theorems leaves_rules \<open>rules for what steps leave\<close>

definition leaves :: "nat \<Rightarrow> 'a parse \<Rightarrow> bool" where
  "leaves n p \<longleftrightarrow> (\<forall>x st. p = Some (Inr (x, st)) \<longrightarrow> left st \<le> n)"

lemma leaves_basic [leaves_rules]:
  "left st \<le> n \<Longrightarrow> leaves n (ok x st)" "leaves n (fail st m)" "leaves n (fail_at pos m)" "leaves n None"
  "leaves n (Some (Inl e))"
  by (simp_all add: leaves_def)

lemma leaves_then:
  "leaves m p \<Longrightarrow> (\<And>x st. p = Some (Inr (x, st)) \<Longrightarrow> left st \<le> m \<Longrightarrow> leaves n (f x st)) \<Longrightarrow> leaves n (then_do p f)"
  by (fastforce simp: leaves_def then_do_Some)

lemma leaves_if [leaves_rules]: "(b \<Longrightarrow> leaves n p) \<Longrightarrow> (\<not> b \<Longrightarrow> leaves n q) \<Longrightarrow> leaves n (if b then p else q)"
  by simp

lemma leaves_mono: "leaves m p \<Longrightarrow> m \<le> n \<Longrightarrow> leaves n p"
  by (auto simp: leaves_def)

lemma leaves_strings [leaves_rules]:
  "leaves (left st) (multi_line_loop q k r st)" "leaves (left st) (basic_string_loop k r st)"
  "leaves (left st) (literal_string_loop k r st)"
  using left_multi_line_loop left_basic_string_loop left_literal_string_loop by (auto simp: leaves_def)

lemma left_advance: "left (advance st) \<le> left st"
  by simp

lemmas left_steps = left_advance left_skip_whitespace left_skip_all left_skip_line_end

lemma leaves_text_values:
  "leaves (left st) (parse_multi_line_string q k st)" "leaves (left st) (parse_basic_string k st)"
  "leaves (left st) (parse_literal_string k st)"
proof -
  have "left (if at_line_end u 0 then skip_line_end u else u) \<le> left u" for u
    using left_skip_line_end [of u] by auto
  from this [of "(advance ^^ 3) st"]
  have "left (let st = (advance ^^ 3) st in if at_line_end st 0 then skip_line_end st else st) \<le> left st"
    by (simp add: Let_def)
  then show "leaves (left st) (parse_multi_line_string q k st)"
    unfolding parse_multi_line_string_def Let_def by (rule leaves_mono [OF leaves_strings(1)])
  show "leaves (left st) (parse_basic_string k st)" "leaves (left st) (parse_literal_string k st)"
    unfolding parse_basic_string_def parse_literal_string_def
    by (auto intro!: leaves_rules intro: leaves_mono [OF leaves_strings(2) left_advance] leaves_mono [OF leaves_strings(3) left_advance])
qed

lemma leaves_read_digits: "leaves (left st) (read_digits_loop t base count st)"
proof (induction t base count st rule: read_digits_loop.induct)
  case (1 t base count st)
  define u where "u = (if current_char st = CHR ''_'' then advance st else st)"
  have u: "left u \<le> left st" by (simp add: u_def)
  show ?case
  proof (cases "current_char st = CHR ''_'' \<and> (count = 0 \<or> digit_value (peek_char st 1) base < 0)")
    case True
    then show ?thesis by (subst read_digits_loop.simps) (simp add: leaves_rules)
  next
    case False
    show ?thesis
    proof (cases "digit_value (current_char u) base < 0")
      case True
      then show ?thesis using False u
        by (subst read_digits_loop.simps) (simp add: Let_def u_def [symmetric] leaves_rules)
    next
      case d: False
      have "leaves (left (advance u)) (read_digits_loop (t @ [current_char u]) base (count + 1) (advance u))"
        using 1 [OF False u_def d] .
      then have "leaves (left st) (read_digits_loop (t @ [current_char u]) base (count + 1) (advance u))"
        by (rule leaves_mono) (use u left_advance [of u] in linarith)
      then show ?thesis using False d
        by (subst read_digits_loop.simps) (simp add: Let_def u_def [symmetric] leaves_basic)
    qed
  qed
qed

lemma left_read_digits: "read_digits t base st = Some (Inr (x, st')) \<Longrightarrow> left st' \<le> left st"
  using leaves_read_digits [of st t base 0] by (auto simp: read_digits_def leaves_def)

lemma left_fraction: "parse_fraction t st = Some (Inr (x, st')) \<Longrightarrow> left st' \<le> left st"
  by (auto simp: parse_fraction_def then_do_Some split: if_splits prod.splits dest!: left_read_digits)

lemma left_exponent: "parse_exponent t st = Some (Inr (x, st')) \<Longrightarrow> left st' \<le> left st"
  by (auto simp: parse_exponent_def Let_def then_do_Some split: if_splits prod.splits dest!: left_read_digits)

lemma left_decimal: "parse_decimal t st = Some (Inr (x, st')) \<Longrightarrow> left st' \<le> left st"
  unfolding parse_decimal_def Let_def
  by (auto simp: then_do_Some split: if_splits prod.splits dest!: left_read_digits left_fraction left_exponent)

lemma left_prefixed: "parse_prefixed_integer st = Some (Inr (x, st')) \<Longrightarrow> left st' \<le> left st"
proof -
  assume "parse_prefixed_integer st = Some (Inr (x, st'))"
  then obtain base y where "read_digits [] base (advance (advance st)) = Some (Inr (y, st'))"
    unfolding parse_prefixed_integer_def Let_def by (fastforce simp: then_do_Some split: if_splits prod.splits option.splits)
  then show ?thesis by (auto dest!: left_read_digits)
qed

lemma leaves_number: "leaves (left st) (parse_number st)"
proof -
  have "left u \<le> left st" if "parse_decimal t (advance st) = Some (Inr (x, u))" for t x u
    using left_decimal [OF that] by simp
  then show ?thesis using left_decimal left_prefixed
    by (auto simp: leaves_def parse_number_def Let_def split: if_splits)
qed

lemma left_takes:
  "take_digits n (t, st) = Some (t', st') \<Longrightarrow> left st' \<le> left st"
  "take_char c (t, st) = Some (t', st') \<Longrightarrow> left st' \<le> left st"
proof -
  define g where "g = (\<lambda>(t, st). (t @ [current_char st], advance st))"
  have "left (snd ((g ^^ n) (t, st))) \<le> left st"
  proof (induction n)
    case (Suc n)
    have "left (snd (g s)) \<le> left (snd s)" for s by (cases s) (simp add: g_def)
    from this [of "(g ^^ n) (t, st)"] Suc show ?case by simp
  qed simp
  moreover assume "take_digits n (t, st) = Some (t', st')"
  then have "(g ^^ n) (t, st) = (t', st')" by (simp add: take_digits_def g_def split: if_splits)
  ultimately show "left st' \<le> left st" by simp
next
  show "take_char c (t, st) = Some (t', st') \<Longrightarrow> left st' \<le> left st"
    by (auto simp: take_char_def Let_def split: if_splits)
qed

lemma then_take_Some: "then_take s f = Some z \<longleftrightarrow> (\<exists>t st. s = Some (t, st) \<and> f (t, st) = Some z)"
  by (auto simp: then_take_def split: option.splits)

lemma left_take_parts:
  "take_date (t, st) = Some (t', st') \<Longrightarrow> left st' \<le> left st"
  "take_time (t, st) = Some (t', st') \<Longrightarrow> left st' \<le> left st"
  "take_offset (t, st) = Some (t', st') \<Longrightarrow> left st' \<le> left st"
  unfolding take_date_def take_time_def take_offset_def
  by (auto simp only: then_take_Some snd_conv dest!: left_takes intro: le_trans)

lemma left_take_fraction: "take_fraction (t, st) = (t', st') \<Longrightarrow> left st' \<le> left st"
proof (induction "(t, st)" arbitrary: t st rule: take_fraction.induct)
  case (1 t st)
  show ?case
  proof (cases "is_ascii_digit (current_char st)")
    case True
    then have "left st' \<le> left (advance st)" using 1 by (subst (asm) (2) take_fraction.simps) simp
    then show ?thesis by simp
  next
    case False
    then show ?thesis using 1(2) by (subst (asm) take_fraction.simps) simp
  qed
qed

lemma leaves_datetime: "leaves (left st) (parse_datetime st)"
proof -
  have fraction: "left v \<le> left u"
    if "(case take_char c (t, u) of None \<Rightarrow> (t, u) | Some s \<Rightarrow> take_fraction s) = (z, v)" for c t u z v
  proof (cases "take_char c (t, u)")
    case None
    then show ?thesis using that by simp
  next
    case (Some s)
    obtain a b where s: "s = (a, b)" by (cases s)
    have "left v \<le> left b" using that Some by (intro left_take_fraction [of a b z]) (simp add: s)
    then show ?thesis using left_takes(2) [of c t u a b] Some s by simp
  qed
  have finish: "leaves n (case from_string t of None \<Rightarrow> fail_at pos m | Some parsed \<Rightarrow> ok (Timestamp parsed) u)"
    if "left u \<le> n" for t pos m u n using that by (simp add: leaves_basic split: option.split)
  show ?thesis
  proof (cases "at_time st \<or> take_date ([], st) = None")
    case True
    then show ?thesis by (auto simp: parse_datetime_def Let_def leaves_basic)
  next
    case False
    then obtain a u where u: "\<not> at_time st" "take_date ([], st) = Some (a, u)" by auto
    show ?thesis
    proof (cases "time_follows u \<and> take_time (a @ ''T'', advance u) \<noteq> None")
      case False
      then have "\<not> time_follows u \<or> take_time (a @ ''T'', advance u) = None" by blast
      then show ?thesis using u unfolding parse_datetime_def
        by (elim disjE) (simp_all add: Let_def leaves_basic)
    next
      case True
      then obtain b v where v: "time_follows u" "take_time (a @ ''T'', advance u) = Some (b, v)" by auto
      obtain x w where w: "(case take_char (CHR ''.'') (b, v) of None \<Rightarrow> (b, v) | Some s \<Rightarrow> take_fraction s) = (x, w)"
        by fastforce
      have l: "left w \<le> left st"
        using left_take_parts(1) [OF u(2)] left_advance [of u] left_take_parts(2) [OF v(2)] fraction [OF w] by linarith
      have o: "left z \<le> left st" if "take_offset (x, w) = Some (y, z)" for y z
        using left_take_parts(3) [OF that] l by linarith
      have m: "left (advance w) \<le> left st" using l left_advance [of w] by linarith
      show ?thesis
        unfolding parse_datetime_def Let_def u(2) option.case prod.case v(2) w
        using u(1) v(1) o m by (simp add: leaves_basic finish split: option.split)
    qed
  qed
qed

lemma left_keys:
  "header_keys path st = Some (Inr (x, st')) \<Longrightarrow> left st' < left st"
  "pair_keys path st = Some (Inr (x, st')) \<Longrightarrow> left st' < left st"
proof -
  show "header_keys path st = Some (Inr (x, st')) \<Longrightarrow> left st' < left st"
  proof (induction path st rule: header_keys.induct)
    case (1 path st)
    obtain k u where u: "parse_key (skip_whitespace st) = Some (Inr (k, u))"
      using 1(2) by (subst (asm) header_keys.simps) (auto simp: then_do_Some)
    define v where "v = skip_whitespace u"
    have l: "left v < left st"
      using left_parse_key [OF u] left_skip_whitespace [of u] left_skip_whitespace [of st] unfolding v_def by linarith
    show ?case
    proof (cases "current_char v = CHR ''.''")
      case True
      then have "header_keys (path @ [k]) (advance v) = Some (Inr (x, st'))"
        using 1(2) u by (subst (asm) header_keys.simps) (simp add: v_def Let_def)
      then have "left st' < left (advance v)" using 1(1) [OF u refl v_def True] by blast
      then show ?thesis using l by simp
    next
      case False
      then have "ok (path @ [k]) (advance v) = Some (Inr (x, st'))"
        using 1(2) u by (subst (asm) header_keys.simps) (auto simp: v_def Let_def split: if_splits)
      then show ?thesis using l by auto
    qed
  qed
  show "pair_keys path st = Some (Inr (x, st')) \<Longrightarrow> left st' < left st"
  proof (induction path st rule: pair_keys.induct)
    case (1 path st)
    obtain k u where u: "parse_key st = Some (Inr (k, u))"
      using 1(2) by (subst (asm) pair_keys.simps) (auto simp: then_do_Some)
    define v where "v = skip_whitespace u"
    have l: "left v < left st"
      using left_parse_key [OF u] left_skip_whitespace [of u] unfolding v_def by linarith
    show ?case
    proof (cases "current_char v = CHR ''.''")
      case False
      then have "ok (path @ [k]) v = Some (Inr (x, st'))"
        using 1(2) u by (subst (asm) pair_keys.simps) (simp add: v_def Let_def)
      then show ?thesis using l by simp
    next
      case True
      then have "pair_keys (path @ [k]) (skip_whitespace (advance v)) = Some (Inr (x, st'))"
        using 1(2) u by (subst (asm) pair_keys.simps) (simp add: v_def Let_def)
      then have "left st' < left (skip_whitespace (advance v))" using 1(1) [OF u refl v_def] True by blast
      then show ?thesis using l left_skip_whitespace [of "advance v"] left_advance [of v] by linarith
    qed
  qed
qed

lemma leaves_value:
  assumes "\<And>u. leaves (left u) (parse_array n u)" "\<And>u. leaves (left u) (parse_inline_table n u)"
  shows "leaves (left st) (parse_value (Suc n) st)"
proof -
  define u where "u = skip_whitespace st"
  have l: "left u \<le> left st" by (simp add: u_def left_skip_whitespace)
  have t: "leaves (left u) p \<Longrightarrow> leaves (left u) (to_text_value p)" for p
    by (auto simp: to_text_value_def leaves_def then_do_Some)
  have b: "leaves (left u) (parse_boolean u)"
    by (auto simp: parse_boolean_def move_by_def leaves_def)
  have "leaves (left u) (parse_value (Suc n) st)"
    unfolding parse_value.simps Let_def u_def [symmetric]
    by (intro leaves_if leaves_basic t b leaves_text_values leaves_number leaves_datetime assms)
  then show ?thesis using l leaves_mono by blast
qed

lemma leaves_array:
  assumes "\<And>u. leaves (left u) (array_loop n [] u)"
  shows "leaves (left st) (parse_array (Suc n) st)"
proof -
  define u where "u = skip_whitespace_and_comments (advance st)"
  have l: "left u \<le> left st" using left_skip_all [of "advance st"] left_advance [of st] unfolding u_def by linarith
  show ?thesis
    unfolding parse_array.simps Let_def u_def [symmetric]
    using l by (intro leaves_if leaves_basic leaves_mono [OF assms]) auto
qed

lemma leaves_array_loop:
  assumes "\<And>u. leaves (left u) (parse_value n u)" "\<And>r u. leaves (left u) (array_loop n r u)"
  shows "leaves (left st) (array_loop (Suc n) result st)"
  unfolding array_loop.simps Let_def
proof (rule leaves_then [OF assms(1)], goal_cases)
  case (1 v u)
  have "left (skip_whitespace_and_comments u) \<le> left st"
    "left (skip_whitespace_and_comments (advance (skip_whitespace_and_comments u))) \<le> left st"
    using 1(2) left_skip_all [of u] left_skip_all [of "advance (skip_whitespace_and_comments u)"]
      left_advance [of "skip_whitespace_and_comments u"] by linarith+
  then show ?case by (intro leaves_if leaves_basic leaves_mono [OF assms(2)]) auto
qed

lemma leaves_inline_table:
  assumes "\<And>node u. leaves (left u) (inline_table_loop n node u)"
  shows "leaves (left st) (parse_inline_table (Suc n) st)"
proof -
  define u where "u = skip_whitespace (advance st)"
  have l: "left u \<le> left st" using left_skip_whitespace [of "advance st"] left_advance [of st] unfolding u_def by linarith
  show ?thesis
    unfolding parse_inline_table.simps Let_def u_def [symmetric]
    using l by (intro leaves_if leaves_basic leaves_mono [OF assms]) auto
qed

lemma leaves_inline_table_loop:
  assumes "\<And>u. leaves (left u) (parse_key_value n u)" "\<And>node u. leaves (left u) (inline_table_loop n node u)"
  shows "leaves (left st) (inline_table_loop (Suc n) node st)"
  unfolding inline_table_loop.simps Let_def
proof (rule leaves_then [OF assms(1)], goal_cases)
  case (1 y u)
  have "left (skip_whitespace u) \<le> left st" "left (skip_whitespace (advance (skip_whitespace u))) \<le> left st"
    using 1(2) left_skip_whitespace [of u] left_skip_whitespace [of "advance (skip_whitespace u)"]
      left_advance [of "skip_whitespace u"] by linarith+
  then show ?case
    by (cases y) (auto intro!: leaves_if leaves_basic leaves_mono [OF assms(2)] split: sum.split)
qed

lemma leaves_key_value:
  assumes "\<And>u. leaves (left u) (parse_value n u)"
  shows "leaves (left st) (parse_key_value (Suc n) st)"
proof -
  have "leaves (left st) (pair_keys [] st)" using left_keys(2) by (fastforce simp: leaves_def)
  then show ?thesis
    unfolding parse_key_value.simps
  proof (rule leaves_then, goal_cases)
    case (1 path u)
    have "left (skip_whitespace (advance u)) \<le> left st"
      using 1(2) left_skip_whitespace [of "advance u"] left_advance [of u] by linarith
    then show ?case
      by (intro leaves_if leaves_basic leaves_then [OF leaves_mono [OF assms]]) auto
  qed
qed

lemma leaves_values:
  "leaves (left st) (parse_value n st)"
  "leaves (left st) (parse_array n st)"
  "leaves (left st) (array_loop n result st)"
  "leaves (left st) (parse_inline_table n st)"
  "leaves (left st) (inline_table_loop n node st)"
  "leaves (left st) (parse_key_value n st)"
proof (induction n arbitrary: st result node)
  case (Suc n)
  {
    case 1
    show ?case by (intro leaves_value Suc)
  next
    case 2
    show ?case by (intro leaves_array Suc)
  next
    case 3
    show ?case by (intro leaves_array_loop Suc)
  next
    case 4
    show ?case by (intro leaves_inline_table Suc)
  next
    case 5
    show ?case by (intro leaves_inline_table_loop Suc)
  next
    case 6
    show ?case by (intro leaves_key_value Suc)
  }
qed (simp_all add: leaves_basic)

lemma left_key_value: "parse_key_value n st = Some (Inr (x, st')) \<Longrightarrow> left st' < left st"
proof (cases n)
  case (Suc m)
  assume "parse_key_value n st = Some (Inr (x, st'))"
  then obtain path u v where u: "pair_keys [] st = Some (Inr (path, u))"
    "parse_value m (skip_whitespace (advance u)) = Some (Inr (v, st'))"
    by (auto simp: Suc then_do_Some split: if_splits)
  have "left st' \<le> left (skip_whitespace (advance u))" using leaves_values(1) u(2) by (auto simp: leaves_def)
  then show ?thesis
    using left_keys(2) [OF u(1)] left_skip_whitespace [of "advance u"] left_advance [of u] by linarith
qed simp

lemma left_header: "parse_table_header st = Some (Inr (x, st')) \<Longrightarrow> left st' < left st"
proof -
  assume h: "parse_table_header st = Some (Inr (x, st'))"
  define u where "u = (if current_char (advance st) = CHR ''['' then advance (advance st) else advance st)"
  have l: "left u \<le> left st" by (simp add: u_def)
  obtain path v where v: "header_keys [] u = Some (Inr (path, v))" "left st' \<le> left v"
    using h by (auto simp: parse_table_header_def Let_def then_do_Some u_def split: if_splits)
  then show ?thesis using left_keys(1) [OF v(1)] l by linarith
qed

lemma left_line_end: "expect_line_end st = Some (Inr (x, st')) \<Longrightarrow> left st' \<le> left st"
  using left_skip_whitespace [of st] by (auto simp: expect_line_end_def Let_def split: if_splits)

section \<open>The document\<close>

text \<open>The loop over the lines, with the tree read so far and the path of the table the pairs go to.\<close>

function document_loop :: "nat \<Rightarrow> table_node \<Rightarrow> string list \<Rightarrow> parser \<Rightarrow> table_node parse" where
  "document_loop fuel result current st =
     (if ps_rest st = [] then ok result st
      else let st = skip_whitespace_and_comments st
      in if ps_rest st = [] then ok result st
      else if current_char st = CHR ''[''
      then let header_start = current_position st
           in then_do (parse_table_header st) (\<lambda>table_result st.
                then_do (expect_line_end st) (\<lambda>_ st.
                  case open_table result (snd table_result) (fst table_result) header_start of
                    Inl e \<Rightarrow> Some (Inl e)
                  | Inr result \<Rightarrow> document_loop fuel result (fst table_result) st))
      else let pair_start = current_position st
           in then_do (parse_key_value fuel st) (\<lambda>kv_result st.
                then_do (expect_line_end st) (\<lambda>_ st.
                  case update_at result current
                      (\<lambda>table. add_pair table (fst kv_result) (snd kv_result) pair_start) of
                    Inl e \<Rightarrow> Some (Inl e)
                  | Inr result \<Rightarrow> document_loop fuel result current st)))"
  by pat_completeness auto
termination
proof (relation "measure (\<lambda>(fuel, r, c, st). left st)", goal_cases)
  case (2 fuel result current st u pos x v y w r)
  then have "left v < left u" "left w \<le> left v" using left_header left_line_end by blast+
  moreover have "left u \<le> left st" using 2(2) left_skip_all by simp
  ultimately show ?case by simp
next
  case (3 fuel result current st u pos x v y w r)
  then have "left v < left u" "left w \<le> left v" using left_key_value left_line_end by blast+
  moreover have "left u \<le> left st" using 3(2) left_skip_all by simp
  ultimately show ?case by simp
qed simp

declare document_loop.simps [simp del]

definition parse_document :: "nat \<Rightarrow> parser \<Rightarrow> entries parse" where
  "parse_document fuel st = then_do (document_loop fuel (new_node False False) [] st) (\<lambda>result st. ok (merge_tables result) st)"

definition parse :: "nat \<Rightarrow> string \<Rightarrow> (failure + entries) option" where
  "parse fuel input =
     (case then_do (parse_document fuel (parser_of input)) (\<lambda>result st.
        let st = skip_whitespace_and_comments st
        in if ps_rest st \<noteq> [] then fail st ''Unexpected content after document end'' else ok result st) of
        None \<Rightarrow> None
      | Some (Inl e) \<Rightarrow> Some (Inl e)
      | Some (Inr (result, st)) \<Rightarrow> Some (Inr result))"

text \<open>The fuel is enough for the nesting that an input of its length can have.\<close>

definition enough_fuel :: "string \<Rightarrow> nat" where
  "enough_fuel input = 3 * length input + 5"

definition deserialize :: "data_storage \<Rightarrow> (failure + entries) option" where
  "deserialize input =
     (if data_empty input then Some (Inr [])
      else let toml_string = data_text input
           in if \<not> is_valid_utf8 toml_string then Some (Inl (invalid_argument, ''Input is not valid UTF-8''))
              else parse (enough_fuel toml_string) toml_string)"

end
