(* ===== verification/Toml_Tables.thy ===== *)
theory Toml_Tables
  imports Toml_Reader Value_Laws "HOL-Library.Sublist"
begin

text \<open>
  The tree of tables that headers and dotted keys build: its invariant, that the parser never
  asks for the back of an empty vector, and that adding a pair to the tree inserts it at its
  path in the dictionary that the tree stands for.
\<close>

section \<open>The invariant of the tree\<close>

fun node_ok :: "table_node \<Rightarrow> bool" and children_ok :: "(string \<times> table_node) list \<Rightarrow> bool"
  and elements_ok :: "table_node list \<Rightarrow> bool" where
  "node_ok (Table_Node p t n d a e) \<longleftrightarrow>
     entries_sorted p \<and> entries_ok p \<and> sorted_wrt (<) (map fst t) \<and> fst ` set p \<inter> fst ` set t = {} \<and>
     children_ok t \<and> (a \<longrightarrow> e \<noteq> []) \<and> (d \<longrightarrow> \<not> a) \<and> elements_ok e"
| "children_ok [] \<longleftrightarrow> True"
| "children_ok ((k, c) # t) \<longleftrightarrow> node_ok c \<and> children_ok t"
| "elements_ok [] \<longleftrightarrow> True"
| "elements_ok (c # e) \<longleftrightarrow> node_ok c \<and> elements_ok e"

lemma children_ok_iff: "children_ok t \<longleftrightarrow> (\<forall>(k, c) \<in> set t. node_ok c)"
  by (induction t) auto

lemma elements_ok_iff: "elements_ok e \<longleftrightarrow> (\<forall>c \<in> set e. node_ok c)"
  by (induction e) auto

lemma node_ok_iff:
  "node_ok c \<longleftrightarrow> entries_sorted (node_pairs c) \<and> entries_ok (node_pairs c) \<and>
     sorted_wrt (<) (map fst (node_tables c)) \<and> dom (map_of (node_pairs c)) \<inter> dom (map_of (node_tables c)) = {} \<and>
     children_ok (node_tables c) \<and> (node_array c \<longrightarrow> node_elements c \<noteq> []) \<and>
     (node_dotted c \<longrightarrow> \<not> node_array c) \<and> elements_ok (node_elements c)"
  by (cases c) (simp add: dom_map_of_conv_image_fst)

lemma new_node_ok [simp]: "node_ok (new_node d False)"
  by (simp add: new_node_def entries_sorted_def)

lemma children_ok_insert: "children_ok t \<Longrightarrow> node_ok c \<Longrightarrow> children_ok (entry_insert k c t)"
  by (induction k c t rule: entry_insert.induct) auto

lemma children_ok_map_of: "children_ok t \<Longrightarrow> map_of t k = Some c \<Longrightarrow> node_ok c"
  by (auto simp: children_ok_iff dest: map_of_SomeD)

lemma child_ok:
  assumes "node_ok node" "map_of (node_tables node) k = Some c"
  shows "node_ok c" "k \<notin> dom (map_of (node_pairs node))"
  using assms children_ok_map_of [of "node_tables node" k c] by (auto simp: node_ok_iff [of node])

lemma array_ok: "node_ok c \<Longrightarrow> node_array c \<Longrightarrow> node_elements c \<noteq> []"
  and node_elements_ok: "node_ok c \<Longrightarrow> elements_ok (node_elements c)"
  by (simp_all add: node_ok_iff)

lemma set_table_ok:
  assumes "node_ok node" "node_ok child" "k \<notin> dom (map_of (node_pairs node))"
  shows "node_ok (set_table k child node)"
  using assms sorted_entry_insert [of "node_tables node" k child] children_ok_insert [of "node_tables node" child k]
  by (auto simp: node_ok_iff)

lemma not_contains: "\<not> dictionary_contains d k \<longleftrightarrow> k \<notin> dom (map_of d)"
  by (simp add: dictionary_contains_def dom_map_of_conv_image_fst)

text \<open>An outcome that is an error of the document, or a tree as good as the one it came from.\<close>

definition outcome :: "('a \<Rightarrow> bool) \<Rightarrow> failure + 'a \<Rightarrow> bool" where
  "outcome P r \<longleftrightarrow> (case r of Inl e \<Rightarrow> fst e = invalid_argument | Inr x \<Rightarrow> P x)"

lemma outcome_simps [simp]:
  "outcome P (Inr x) \<longleftrightarrow> P x" "fst (create_error_at m pos) = invalid_argument" "outcome P (Inl e) \<longleftrightarrow> fst e = invalid_argument"
  by (simp_all add: outcome_def create_error_at_def)

lemma outcome_bind:
  "outcome Q r \<Longrightarrow> (\<And>x. Q x \<Longrightarrow> r = Inr x \<Longrightarrow> outcome P (f x)) \<Longrightarrow>
    outcome P (case r of Inl e \<Rightarrow> Inl e | Inr x \<Rightarrow> f x)"
  by (cases r) (simp_all add: outcome_def)

lemma outcome_mono: "outcome P r \<Longrightarrow> (\<And>x. P x \<Longrightarrow> Q x) \<Longrightarrow> outcome Q r"
  by (cases r) simp_all

lemma add_key_ok:
  assumes "node_ok node" "val_ok v"
  shows "outcome (\<lambda>r. node_ok r \<and> node_array r = node_array node) (add_key node key v pos)"
proof (cases "key \<in> set (map fst (node_tables node)) \<or> dictionary_contains (node_pairs node) key")
  case True
  then show ?thesis by (auto simp: add_key_def add_key_pairs_def)
next
  case False
  have s: "entries_sorted (node_pairs node)" "entries_ok (node_pairs node)" using assms(1) by (simp_all add: node_ok_iff)
  then have s': "sorted_wrt (<) (map fst (node_pairs node))" by (simp add: entries_sorted_def)
  have "key \<notin> dom (map_of (node_tables node))" using False by (simp add: dom_map_of_conv_image_fst)
  then have "node_ok (set_pairs (entry_insert key v (node_pairs node)) node)"
    using assms(1) sorted_entry_insert [OF s'] entry_insert_ok [OF s(2) assms(2)] s'
    by (auto simp: node_ok_iff entries_sorted_def)
  then show ?thesis using False
    by (simp add: add_key_def add_key_pairs_def dictionary_store_insert [OF s(1)] del: set_map)
qed

lemma add_pair_ok:
  "node_ok node \<Longrightarrow> path \<noteq> [] \<Longrightarrow> val_ok v \<Longrightarrow>
    outcome (\<lambda>r. node_ok r \<and> node_array r = node_array node) (add_pair node path v pos)"
proof (induction node path v pos rule: add_pair.induct)
  case (2 node key v pos)
  then show ?case unfolding add_pair.simps by (intro add_key_ok)
next
  case (3 node key k ks v pos)
  show ?case
  proof (cases "dictionary_contains (node_pairs node) key")
    case True
    then show ?thesis by simp
  next
    case False
    then have d: "key \<notin> dom (map_of (node_pairs node))" by (simp add: not_contains)
    have set: "outcome (\<lambda>r. node_ok r \<and> node_array r = node_array node) (Inr (set_table key c node))" if "node_ok c" for c
      using set_table_ok [OF 3(3) that d] by simp
    show ?thesis
    proof (cases "map_of (node_tables node) key")
      case None
      have "outcome (\<lambda>r. node_ok r \<and> node_array r = node_array (new_node True False)) (add_pair (new_node True False) (k # ks) v pos)"
        using 3(1) [OF False None] 3(5) by simp
      then show ?thesis
        unfolding add_pair.simps None option.case if_not_P [OF False] by (rule outcome_bind) (intro set, simp)
    next
      case (Some c)
      then have c: "node_ok c" using 3(3) child_ok by blast
      show ?thesis
      proof (cases "node_dotted c")
        case False
        then show ?thesis using Some by simp
      next
        case True
        have "outcome (\<lambda>r. node_ok r \<and> node_array r = node_array c) (add_pair c (k # ks) v pos)"
          using 3(2) [OF False Some] True c 3(5) by simp
        then show ?thesis
          unfolding add_pair.simps Some option.case if_not_P [OF False] using True
          by (simp del: outcome_simps add_pair.simps) (rule outcome_bind, assumption, rule set, simp)
      qed
    qed
  qed
qed simp

lemma update_back_ok:
  assumes "elements \<noteq> []" "elements_ok elements" "outcome P (f (last elements))" "\<And>x. P x \<Longrightarrow> node_ok x"
  shows "outcome (\<lambda>es. elements_ok es \<and> es \<noteq> [] \<and> P (last es) \<and> butlast es = butlast elements) (update_back f elements)"
proof -
  obtain front final where e: "elements = front @ [final]" using assms(1) by (metis rev_exhaust)
  then have b: "elements_ok front" using assms(2) by (simp add: elements_ok_iff)
  show ?thesis
  proof (cases "f final")
    case (Inl err)
    then show ?thesis using assms(3) e by (simp add: update_back_def)
  next
    case (Inr x)
    then show ?thesis using assms(3,4) e b by (simp add: update_back_def elements_ok_iff)
  qed
qed

lemma set_elements_ok:
  "node_ok c \<Longrightarrow> elements_ok es \<Longrightarrow> es \<noteq> [] \<Longrightarrow> node_ok (set_elements es c)"
  by (simp add: node_ok_iff)

lemma name_table_ok:
  assumes "node_ok table \<or> table = new_node False array"
  shows "outcome (\<lambda>r. node_ok r \<and> node_array r = node_array table \<and> node_array r = array) (name_table array pos table)"
proof (cases array)
  case True
  show ?thesis
  proof (cases "node_array table")
    case False
    then show ?thesis using True by (simp add: name_table_def)
  next
    case na: True
    define es where "es = node_elements table @ [new_node False False]"
    have es: "elements_ok es" "es \<noteq> []" using assms
      by (auto simp: elements_ok_iff es_def dest: node_elements_ok)
    have "node_ok (set_elements es table)"
    proof (cases "node_ok table")
      case True
      then show ?thesis using es by (simp add: node_ok_iff)
    next
      case False
      then have "table = new_node False array" using assms by blast
      then show ?thesis using es by (simp add: node_ok_iff entries_sorted_def)
    qed
    then show ?thesis using True na by (simp add: name_table_def es_def)
  qed
next
  case False
  then have "node_ok table" using assms by auto
  then have "node_ok (set_named table)" by (simp add: node_ok_iff)
  then show ?thesis using False by (simp add: name_table_def)
qed

text \<open>The table that a path of keys leads to, when there is one.\<close>

definition enter :: "table_node \<Rightarrow> table_node" where
  "enter c = (if node_array c then last (node_elements c) else c)"

fun path_ok :: "table_node \<Rightarrow> string list \<Rightarrow> bool" where
  "path_ok node [] = True"
| "path_ok node (key # keys) =
     (case map_of (node_tables node) key of None \<Rightarrow> False | Some c \<Rightarrow> path_ok (enter c) keys)"

lemma enter_ok: "node_ok c \<Longrightarrow> node_ok (enter c)"
  using array_ok [of c] node_elements_ok [of c] by (simp add: enter_def elements_ok_iff)

lemma set_table_path:
  assumes "sorted_wrt (<) (map fst (node_tables node))"
  shows "path_ok (set_table key c node) (key # keys) = path_ok (enter c) keys"
  using map_of_entry_insert [OF assms, of key c] by simp

lemma tables_sorted: "node_ok node \<Longrightarrow> sorted_wrt (<) (map fst (node_tables node))"
  by (simp add: node_ok_iff)

text \<open>Both ways into a child lead to a good table again: into the last element of an array of tables, and into
  the child itself.\<close>

lemma into_elements:
  assumes t: "node_ok node" "node_ok c" "key \<notin> dom (map_of (node_pairs node))" and a: "node_array c" "node_elements c \<noteq> []"
    and f: "outcome (\<lambda>r. node_ok r \<and> path_ok r keys) (f (last (node_elements c)))"
  shows "outcome (\<lambda>r. node_ok r \<and> node_array r = node_array node \<and> path_ok r (key # keys))
    (case update_back f (node_elements c) of
       Inl e \<Rightarrow> Inl e | Inr elements \<Rightarrow> Inr (set_table key (set_elements elements c) node))"
proof -
  have "outcome (\<lambda>es. elements_ok es \<and> es \<noteq> [] \<and> (node_ok (last es) \<and> path_ok (last es) keys) \<and>
      butlast es = butlast (node_elements c)) (update_back f (node_elements c))"
    using f by (intro update_back_ok a(2) node_elements_ok t(2)) auto
  then show ?thesis
  proof (rule outcome_bind, goal_cases)
    case (1 es)
    then show ?case
      using set_table_ok [OF t(1) set_elements_ok [OF t(2), of es] t(3)] a(1) set_table_path [OF tables_sorted [OF t(1)]]
      by (simp add: enter_def del: path_ok.simps)
  qed
qed

lemma into_child:
  assumes t: "node_ok node" "key \<notin> dom (map_of (node_pairs node))" and na: "keys \<noteq> [] \<Longrightarrow> \<not> node_array c"
    and p: "outcome (\<lambda>r. node_ok r \<and> node_array r = node_array c \<and> (keys \<noteq> [] \<longrightarrow> path_ok r keys)) p"
  shows "outcome (\<lambda>r. node_ok r \<and> node_array r = node_array node \<and> path_ok r (key # keys))
    (case p of Inl e \<Rightarrow> Inl e | Inr child \<Rightarrow> Inr (set_table key child node))"
  using p
proof (rule outcome_bind, goal_cases)
  case (1 r)
  then show ?case
    using set_table_ok [OF t(1) _ t(2), of r] na set_table_path [OF tables_sorted [OF t(1)]]
    by (cases "keys = []") (auto simp: enter_def simp del: path_ok.simps(2))
qed

lemma open_table_ok:
  "node_ok table \<or> (keys = [] \<and> table = new_node False array) \<Longrightarrow>
    outcome (\<lambda>r. node_ok r \<and> node_array r = node_array table \<and>
      (keys \<noteq> [] \<longrightarrow> path_ok r keys) \<and> (keys = [] \<longrightarrow> node_array r = array)) (open_table table array keys pos)"
proof (induction table array keys pos rule: open_table.induct)
  case (1 table array pos)
  then have "node_ok table \<or> table = new_node False array" by simp
  then show ?case using name_table_ok by simp
next
  case (2 table array key keys pos)
  then have t: "node_ok table" by simp
  define child where "child = (case map_of (node_tables table) key of
      None \<Rightarrow> new_node False (array \<and> keys = []) | Some c \<Rightarrow> c)"
  have c: "node_ok child \<or> (keys = [] \<and> child = new_node False array)"
    by (cases "keys = []") (auto simp: child_def dest: child_ok(1) [OF t] split: option.split)
  show ?case
  proof (cases "dictionary_contains (node_pairs table) key")
    case False
    then have d: "key \<notin> dom (map_of (node_pairs table))" by (simp add: not_contains)
    have "outcome (\<lambda>r. node_ok r \<and> node_array r = node_array table \<and> path_ok r (key # keys))
        (open_table table array (key # keys) pos)"
    proof (cases "node_array child \<and> keys \<noteq> []")
      case True
      then have co: "node_ok child" "node_elements child \<noteq> []" using c array_ok by auto
      then have "node_ok (last (node_elements child))" using node_elements_ok [OF co(1)] by (simp add: elements_ok_iff)
      then have "outcome (\<lambda>r. node_ok r \<and> path_ok r keys) (open_table (last (node_elements child)) array keys pos)"
        using 2(1) [OF refl False child_def] True co(2) by (intro outcome_mono [OF 2(1) [OF refl False child_def]]) auto
      then show ?thesis
        using into_elements [OF t co(1) d _ co(2)] True False
        unfolding open_table.simps Let_def child_def [symmetric] by simp
    next
      case na: False
      then have "outcome (\<lambda>r. node_ok r \<and> node_array r = node_array child \<and> (keys \<noteq> [] \<longrightarrow> path_ok r keys))
          (open_table child array keys pos)"
        using c by (intro outcome_mono [OF 2(2) [OF refl False child_def]]) auto
      then show ?thesis
        using into_child [OF t d] na False unfolding open_table.simps Let_def child_def [symmetric] by auto
    qed
    then show ?thesis by (rule outcome_mono) simp
  qed (simp add: Let_def)
qed

lemma update_at_ok:
  assumes "\<And>x. node_ok x \<Longrightarrow> outcome (\<lambda>r. node_ok r \<and> node_array r = node_array x) (f x)"
  shows "node_ok node \<Longrightarrow> path_ok node keys \<Longrightarrow>
    outcome (\<lambda>r. node_ok r \<and> node_array r = node_array node \<and> path_ok r keys) (update_at node keys f)"
  using assms
proof (induction node keys f rule: update_at.induct)
  case (1 node f)
  then have "outcome (\<lambda>r. node_ok r \<and> node_array r = node_array node) (f node)" by blast
  then show ?case unfolding update_at.simps by (rule outcome_mono) simp
next
  case (2 node key keys f)
  obtain c where c: "map_of (node_tables node) key = Some c" "path_ok (enter c) keys"
    using 2(4) by (auto split: option.splits)
  note co = child_ok [OF 2(3) c(1)]
  show ?case
  proof (cases "node_array c")
    case True
    then have ne: "node_elements c \<noteq> []" using co(1) array_ok by blast
    then have "node_ok (last (node_elements c))" using node_elements_ok [OF co(1)] by (simp add: elements_ok_iff)
    moreover have "path_ok (last (node_elements c)) keys" using c(2) True by (simp add: enter_def)
    ultimately have "outcome (\<lambda>r. node_ok r \<and> path_ok r keys) (update_at (last (node_elements c)) keys f)"
      using ne 2(5) by (intro outcome_mono [OF 2(1) [OF c(1) True, of "last (node_elements c)"]]) auto
    then show ?thesis using into_elements [OF 2(3) co True ne] True c(1) by (simp del: path_ok.simps)
  next
    case False
    then have "outcome (\<lambda>r. node_ok r \<and> node_array r = node_array c \<and> (keys \<noteq> [] \<longrightarrow> path_ok r keys)) (update_at c keys f)"
      using c(2) 2(5) by (intro outcome_mono [OF 2(2) [OF c(1) False co(1)]]) (auto simp: enter_def)
    then show ?thesis using into_child [OF 2(3) co(2)] False c(1) by (simp del: path_ok.simps)
  qed
qed

section \<open>The dictionary that a tree stands for\<close>

definition table_value :: "table_node \<Rightarrow> val" where
  "table_value c = (if node_array c then Array (merge_elements (node_elements c)) else Dictionary (merge_tables c))"

lemma merge_into_Cons: "merge_into p ((k, c) # t) = merge_into (dictionary_store p k (table_value c)) t"
  by (cases c) (simp add: table_value_def merge_tables_def)

lemma merge_elements_map: "merge_elements es = map (\<lambda>c. Dictionary (merge_tables c)) es"
proof (induction es)
  case (Cons c es)
  then show ?case by (cases c) (simp add: merge_tables_def)
qed simp

lemma merge_into_props:
  "entries_sorted p \<Longrightarrow> distinct (map fst t) \<Longrightarrow> entries_sorted (merge_into p t) \<and>
     map_of (merge_into p t) k = (case map_of t k of Some c \<Rightarrow> Some (table_value c) | None \<Rightarrow> map_of p k)"
proof (induction t arbitrary: p)
  case (Cons e t)
  obtain j c where e: "e = (j, c)" by (cases e)
  have s: "entries_sorted (dictionary_store p j (table_value c))" using Cons(2) by (rule dictionary.store_ok)
  have "map_of t j = None" using Cons(3) by (simp add: e map_of_eq_None_iff)
  then show ?case
    using Cons(1) [OF s] Cons(2,3)
    by (auto simp: e merge_into_Cons dictionary.find_store simp del: merge_into.simps split: option.split)
qed simp

lemmas merge_into_sorted = merge_into_props [THEN conjunct1]
lemmas map_of_merge_into = merge_into_props [THEN conjunct2]

lemma tables_distinct: "node_ok node \<Longrightarrow> distinct (map fst (node_tables node))"
  using tables_sorted strict_sorted_iff by blast

lemma merge_tables_props:
  assumes "node_ok node"
  shows "entries_sorted (merge_tables node)"
    and "map_of (merge_tables node) k =
      (case map_of (node_tables node) k of Some c \<Rightarrow> Some (table_value c) | None \<Rightarrow> map_of (node_pairs node) k)"
  using assms merge_into_sorted map_of_merge_into tables_distinct [OF assms]
  by (simp_all add: merge_tables_def node_ok_iff)

lemma merge_tables_set_table:
  assumes "node_ok node" "node_ok child" "k \<notin> dom (map_of (node_pairs node))"
  shows "merge_tables (set_table k child node) = entry_insert k (table_value child) (merge_tables node)"
proof -
  note ok = merge_tables_props [OF set_table_ok [OF assms]] merge_tables_props [OF assms(1)]
  have s: "sorted_wrt (<) (map fst (merge_tables node))" using ok(3) by (simp add: entries_sorted_def)
  show ?thesis
    by (rule entries_eqI) (auto simp: ok entries_sorted_def [of "entry_insert _ _ _"] s sorted_entry_insert
        map_of_entry_insert [OF tables_sorted [OF assms(1)]] fun_eq_iff split: option.split)
qed

lemma merge_tables_set_pairs:
  assumes "node_ok node" "k \<notin> dom (map_of (node_tables node))" "k \<notin> dom (map_of (node_pairs node))"
    "node_ok (set_pairs (entry_insert k v (node_pairs node)) node)"
  shows "merge_tables (set_pairs (entry_insert k v (node_pairs node)) node) = entry_insert k v (merge_tables node)"
proof -
  note ok = merge_tables_props [OF assms(4)] merge_tables_props [OF assms(1)]
  have s: "sorted_wrt (<) (map fst (merge_tables node))" "sorted_wrt (<) (map fst (node_pairs node))"
    using ok(3) assms(1) by (simp_all add: entries_sorted_def node_ok_iff)
  show ?thesis
    using assms(2,3)
    by (intro entries_eqI) (auto simp: ok entries_sorted_def [of "entry_insert _ _ _"] s sorted_entry_insert fun_eq_iff split: option.split)
qed

lemma merge_ok:
  "entries_ok p \<Longrightarrow> entries_sorted p \<Longrightarrow> children_ok t \<Longrightarrow> entries_ok (merge_into p t)"
  "elements_ok e \<Longrightarrow> contents_ok (merge_elements e)"
proof (induction p t and e rule: merge_into_merge_elements.induct)
  case (2 pairs key p t n d a e tables)
  have c: "entries_ok p" "entries_sorted p" "children_ok t" "elements_ok e" "distinct (map fst t)"
    using 2(6) by (auto simp: strict_sorted_iff)
  have "val_ok (if a then Array (merge_elements e) else Dictionary (merge_into p t))"
    using 2(1,2) c merge_into_sorted [OF c(2,5)] by simp
  then show ?case
    using 2(3-6) dictionary.store_ok [OF 2(5)]
    by (simp add: entry_insert_ok dictionary_store_insert [OF 2(5)])
next
  case (4 p t n d a e es)
  have c: "entries_ok p" "entries_sorted p" "children_ok t" "distinct (map fst t)"
    using 4(3) by (auto simp: strict_sorted_iff)
  then show ?case using 4 merge_into_sorted [OF c(2,4)] by simp
qed simp_all

lemma merge_tables_ok: "node_ok node \<Longrightarrow> val_ok (Dictionary (merge_tables node))"
  using merge_ok(1) [of "node_pairs node" "node_tables node"] merge_tables_props(1) [of node]
  by (simp add: merge_tables_def node_ok_iff)

section \<open>Pairs and paths\<close>

text \<open>What a document means by a pair: the value is at its path in nested dictionaries.\<close>

fun lookup_path :: "entries \<Rightarrow> string list \<Rightarrow> val option" where
  "lookup_path d [] = Some (Dictionary d)"
| "lookup_path d (k # ks) =
     (case map_of d k of
        None \<Rightarrow> None
      | Some v \<Rightarrow> if ks = [] then Some v else (case v of Dictionary e \<Rightarrow> lookup_path e ks | _ \<Rightarrow> None))"

definition nested :: "entries \<Rightarrow> string \<Rightarrow> entries" where
  "nested d k = (case map_of d k of Some (Dictionary e) \<Rightarrow> e | _ \<Rightarrow> [])"

fun insert_path :: "entries \<Rightarrow> string list \<Rightarrow> val \<Rightarrow> entries" where
  "insert_path d [] v = d"
| "insert_path d (k # ks) v =
     entry_insert k (if ks = [] then v else Dictionary (insert_path (nested d k) ks v)) d"

lemma nested_ok:
  assumes "val_ok (Dictionary d)"
  shows "val_ok (Dictionary (nested d k))"
proof (cases "map_of d k")
  case None
  then show ?thesis by (simp add: nested_def entries_sorted_def)
next
  case (Some v)
  then have "val_ok v" using assms by (auto simp: entries_ok_iff dest: map_of_SomeD)
  then show ?thesis using Some by (cases v) (simp_all add: nested_def entries_sorted_def)
qed

lemma lookup_nested:
  "ks \<noteq> [] \<Longrightarrow> lookup_path d (k # ks) = lookup_path (nested d k) ks"
  by (cases ks) (auto simp: nested_def split: option.split val.split)

lemma map_of_insert: "val_ok (Dictionary d) \<Longrightarrow> map_of (entry_insert k v d) = (map_of d)(k \<mapsto> v)"
  by (simp add: entries_sorted_def)

lemma lookup_insert_same:
  "val_ok (Dictionary d) \<Longrightarrow> path \<noteq> [] \<Longrightarrow> lookup_path (insert_path d path v) path = Some v"
proof (induction path arbitrary: d)
  case (Cons k ks)
  show ?case
  proof (cases "ks = []")
    case True
    then show ?thesis using map_of_insert [OF Cons(2)] by simp
  next
    case False
    then show ?thesis using map_of_insert [OF Cons(2)] Cons(1) [OF nested_ok [OF Cons(2)]] by simp
  qed
qed simp

lemma lookup_insert_other:
  "val_ok (Dictionary d) \<Longrightarrow> \<not> prefix path q \<Longrightarrow> \<not> prefix q path \<Longrightarrow>
    lookup_path (insert_path d path v) q = lookup_path d q"
proof (induction path arbitrary: d q)
  case (Cons k ks)
  obtain j js where q: "q = j # js" using Cons(4) by (cases q) auto
  show ?case
  proof (cases "j = k")
    case False
    then show ?thesis using map_of_insert [OF Cons(2)] by (simp add: q)
  next
    case True
    then have p: "\<not> prefix ks js" "\<not> prefix js ks" using Cons(3,4) by (simp_all add: q)
    then have ne: "ks \<noteq> []" "js \<noteq> []" by auto
    have "lookup_path (insert_path (nested d k) ks v) js = lookup_path (nested d k) js"
      by (rule Cons(1) [OF nested_ok [OF Cons(2)] p])
    then show ?thesis
      using map_of_insert [OF Cons(2)] lookup_nested [OF ne(2), of d k] ne True by (simp add: q del: lookup_path.simps(2))
         (simp add: map_of_insert [OF Cons(2)])
  qed
qed simp

lemma dotted_value: "node_ok c \<Longrightarrow> node_dotted c \<Longrightarrow> table_value c = Dictionary (merge_tables c)"
  by (simp add: node_ok_iff table_value_def)

lemma add_pair_dotted: "add_pair node path v pos = Inr r \<Longrightarrow> node_dotted r = node_dotted node"
  by (induction node path v pos arbitrary: r rule: add_pair.induct)
    (auto simp: add_key_def split: if_splits sum.splits option.splits)

lemma add_pair_insert:
  "node_ok node \<Longrightarrow> path \<noteq> [] \<Longrightarrow> val_ok v \<Longrightarrow> add_pair node path v pos = Inr r \<Longrightarrow>
    lookup_path (merge_tables node) path = None \<and> merge_tables r = insert_path (merge_tables node) path v"
proof (induction node path v pos arbitrary: r rule: add_pair.induct)
  case (2 node key v pos)
  then have k: "key \<notin> dom (map_of (node_tables node))" "key \<notin> dom (map_of (node_pairs node))"
    and r: "r = set_pairs (dictionary_store (node_pairs node) key v) node"
    by (auto simp: add_key_def add_key_pairs_def not_contains dom_map_of_conv_image_fst dictionary_contains_def split: if_splits)
  have s: "entries_sorted (node_pairs node)" using 2(1) by (simp add: node_ok_iff)
  have "outcome (\<lambda>r. node_ok r \<and> node_array r = node_array node) (add_key node key v pos)" by (rule add_key_ok [OF 2(1,3)])
  then have "node_ok r" using 2(4) by simp
  then show ?case
    using merge_tables_set_pairs [OF 2(1) k] k merge_tables_props(2) [OF 2(1), of key]
    by (auto simp: r dictionary_store_insert [OF s] domIff)
next
  case (3 node key k ks v pos)
  have d: "key \<notin> dom (map_of (node_pairs node))" using 3(6) by (auto simp: not_contains [symmetric])
  then have nc: "\<not> dictionary_contains (node_pairs node) key" by (simp add: not_contains)
  define child where "child = (case map_of (node_tables node) key of None \<Rightarrow> new_node True False | Some c \<Rightarrow> c)"
  have c: "node_ok child" "node_dotted child"
    using 3(3,6) nc child_ok(1) by (auto simp: child_def split: option.splits if_splits)
  have n: "nested (merge_tables node) key = merge_tables child"
    using d merge_tables_props(2) [OF 3(3), of key] dotted_value [OF c]
    by (auto simp: nested_def child_def domIff merge_tables_def split: option.splits)
  obtain x where x: "add_pair child (k # ks) v pos = Inr x" and r: "r = set_table key x node"
    using 3(6) nc by (auto simp: child_def split: option.splits if_splits sum.splits)
  have i: "lookup_path (merge_tables child) (k # ks) = None \<and> merge_tables x = insert_path (merge_tables child) (k # ks) v"
  proof (cases "map_of (node_tables node) key")
    case None
    show ?thesis
      using 3(1) [OF nc None _ _ 3(5), of x] c(1) x unfolding child_def None option.case by blast
  next
    case (Some u)
    have "\<not> \<not> node_dotted u" using c(2) Some by (simp add: child_def)
    then show ?thesis
      using 3(2) [OF nc Some _ _ _ 3(5), of x] c(1) x unfolding child_def Some option.case by blast
  qed
  have ok: "node_ok x" "node_dotted x"
    using add_pair_ok [OF c(1) _ 3(5), of "k # ks" pos] x c(2) add_pair_dotted [OF x] by (auto simp: outcome_def)
  have "lookup_path (merge_tables node) (key # k # ks) = None" using i by (subst lookup_nested) (simp_all add: n)
  moreover have "merge_tables r = insert_path (merge_tables node) (key # k # ks) v"
    using merge_tables_set_table [OF 3(3) ok(1) d] dotted_value [OF ok] i by (simp add: r n)
  ultimately show ?case ..
qed simp

lemma add_pair_new: "path \<noteq> [] \<Longrightarrow> \<exists>r. add_pair (new_node b False) path v pos = Inr r"
proof (induction path arbitrary: b)
  case (Cons k ks)
  obtain r where "ks \<noteq> [] \<longrightarrow> add_pair (new_node True False) ks v pos = Inr r" using Cons(1) by blast
  then show ?case
    by (cases ks) (auto simp: add_key_def add_key_pairs_def dictionary_contains_def)
qed simp

lemma add_pair_refused:
  assumes "node_ok node" "path \<noteq> []" "add_pair node path v pos = Inl e"
  shows "lookup_path (merge_tables node) [hd path] \<noteq> None"
proof (rule ccontr)
  obtain k ks where p: "path = k # ks" using assms(2) by (cases path) auto
  assume "\<not> ?thesis"
  then have "map_of (merge_tables node) k = None" by (simp add: p split: option.splits)
  then have k: "k \<notin> dom (map_of (node_pairs node))" "map_of (node_tables node) k = None"
    using merge_tables_props(2) [OF assms(1), of k] by (auto simp: domIff split: option.splits)
  then have c: "\<not> dictionary_contains (node_pairs node) k" by (simp add: not_contains)
  have t: "k \<notin> fst ` set (node_tables node)" using k(2) by (simp add: map_of_eq_None_iff)
  show False
  proof (cases ks)
    case Nil
    then show False using assms(3) c t by (simp add: p add_key_def add_key_pairs_def)
  next
    case (Cons j js)
    then show False using assms(3) c k(2) add_pair_new [of "j # js" True v pos] by (auto simp: p)
  qed
qed

text \<open>C22: The tree of tables refines nested dictionaries: with \<open>merge_tables\<close> as the
  abstraction, adding a pair inserts its value at its path, which held nothing before, holds it
  after, and no other path changes. A pair is refused, with the error at its position, only when
  its first key is taken, and never makes the tree ill-formed.\<close>

theorem add_pair_refines:
  assumes "node_ok node" "path \<noteq> []" "val_ok v"
  shows "case add_pair node path v pos of
      Inl e \<Rightarrow> fst e = invalid_argument \<and> lookup_path (merge_tables node) [hd path] \<noteq> None
    | Inr r \<Rightarrow> node_ok r \<and> merge_tables r = insert_path (merge_tables node) path v \<and>
        lookup_path (merge_tables node) path = None \<and> lookup_path (merge_tables r) path = Some v \<and>
        (prefix path q \<or> prefix q path \<or>
           lookup_path (merge_tables r) q = lookup_path (merge_tables node) q)"
proof (cases "add_pair node path v pos")
  case (Inl e)
  then show ?thesis using add_pair_ok [OF assms, of pos] add_pair_refused [OF assms(1,2) Inl] by simp
next
  case (Inr r)
  have d: "val_ok (Dictionary (merge_tables node))" by (rule merge_tables_ok [OF assms(1)])
  show ?thesis
    using add_pair_ok [OF assms, of pos] add_pair_insert [OF assms Inr] lookup_insert_same [OF d assms(2)]
      lookup_insert_other [OF d, of path q v]
    by (auto simp: Inr)
qed

lemma add_pair_refines_witness:
  "case add_pair (new_node False False) [''a'', ''b''] (Array []) \<lparr>at_line = 1, at_column = 1\<rparr> of
      Inl e \<Rightarrow> fst e = invalid_argument \<and> lookup_path (merge_tables (new_node False False)) [hd [''a'', ''b'']] \<noteq> None
    | Inr r \<Rightarrow> node_ok r \<and> merge_tables r = insert_path (merge_tables (new_node False False)) [''a'', ''b''] (Array []) \<and>
        lookup_path (merge_tables (new_node False False)) [''a'', ''b''] = None \<and>
        lookup_path (merge_tables r) [''a'', ''b''] = Some (Array []) \<and>
        (prefix [''a'', ''b''] [''c''] \<or> prefix [''c''] [''a'', ''b''] \<or>
           lookup_path (merge_tables r) [''c''] = lookup_path (merge_tables (new_node False False)) [''c''])"
  by (rule add_pair_refines) simp_all

end
