(* ===== verification/Toml_Termination.thy ===== *)
theory Toml_Termination
  imports Toml_Reader Number_Laws
begin

text \<open>
  Reading returns: every loop of the parser ends, the arithmetic of the prefixed integers
  returns, and the fuel of \<^const>\<open>enough_fuel\<close> covers every nesting of values an input can have.
\<close>

section \<open>Integers with a prefix\<close>

lemma number_of_digits:
  "number_ok (storage_with (digits_of n) False)"
  "number_value (storage_with (digits_of n) False) = Some (of_nat n)"
  "\<not> st_floating_point (storage_with (digits_of n) False)"
proof -
  have c: "canonical (digits_of n)" "num_value (digits_of n) = of_nat n" "CHR ''.'' \<notin> set (digits_of n)"
    using int_text_canonical [of "int n"] by (simp_all add: int_text_def)
  then have "storage_with (digits_of n) False = \<lparr>st_number = digits_of n, st_floating_point = False\<rparr>"
    by (simp add: storage_with_def canonical_text_stored)
  then show "number_ok (storage_with (digits_of n) False)"
    "number_value (storage_with (digits_of n) False) = Some (of_nat n)"
    "\<not> st_floating_point (storage_with (digits_of n) False)"
    using c number_value_canonical [of "\<lparr>st_number = digits_of n, st_floating_point = False\<rparr>"] by (simp_all add: number_ok_def)
qed

text \<open>What a chunk adds: the result so far shifted by the chunk, and the chunk.\<close>

lemma prefixed_step:
  assumes "number_ok x" "number_value x = Some (of_nat v)" "\<not> st_floating_point x"
  shows "\<exists>y z. calculate x (number_of_uint64 a) (CHR ''*'') = Some y \<and>
    calculate y (number_of_uint64 b) (CHR ''+'') = Some z \<and> number_ok z \<and>
    number_value z = Some (of_nat (v * unat a + unat b)) \<and> \<not> st_floating_point z"
proof -
  note a = number_of_digits [of "unat a"] and b = number_of_digits [of "unat b"]
  obtain y where y: "calculate x (number_of_uint64 a) (CHR ''*'') = Some y" "number_ok y"
    "number_value y = lift2 (*) (number_value x) (Some (of_nat (unat a)))" "\<not> st_floating_point y"
    using calculate_ring(3) [OF assms(1) a(1)] assms(3) a(2,3) by (auto simp: number_of_uint64_def)
  obtain z where z: "calculate y (number_of_uint64 b) (CHR ''+'') = Some z" "number_ok z"
    "number_value z = lift2 (+) (number_value y) (Some (of_nat (unat b)))" "\<not> st_floating_point z"
    using calculate_ring(1) [OF y(2) b(1)] y(4) b(2,3) by (auto simp: number_of_uint64_def)
  have "number_value z = Some (of_nat (v * unat a + unat b))" using y(3) z(3) assms(2) by (simp add: lift2_def)
  then show ?thesis using y(1) z by blast
qed

text \<open>The value of the chunks, from the most significant.\<close>

function chunks_value :: "nat \<Rightarrow> int \<Rightarrow> nat \<Rightarrow> string \<Rightarrow> nat \<Rightarrow> nat" where
  "chunks_value bits base chunk digits v =
     (if digits = [] \<or> chunk = 0 then v
      else let len = min chunk (length digits)
           in chunks_value bits base chunk (drop len digits)
                (v * unat (push_bit (bits * len) 1 :: 64 word) + unat (chunk_part bits base (take len digits))))"
  by pat_completeness auto
termination
  by (relation "measure (\<lambda>(bits, base, chunk, digits, v). length digits)") (auto simp: neq_Nil_conv)

declare chunks_value.simps [simp del]

lemma prefixed_loop_returns:
  assumes "0 < chunk"
  shows "number_ok x \<Longrightarrow> number_value x = Some (of_nat v) \<Longrightarrow> \<not> st_floating_point x \<Longrightarrow>
    \<exists>z. prefixed_loop bits base chunk digits x = Some z \<and> number_ok z \<and>
      number_value z = Some (of_nat (chunks_value bits base chunk digits v)) \<and> \<not> st_floating_point z"
proof (induction "length digits" arbitrary: digits x v rule: less_induct)
  case less
  show ?case
  proof (cases "digits = []")
    case True
    then show ?thesis using less.prems by (subst prefixed_loop.simps, subst chunks_value.simps) simp
  next
    case False
    define len where "len = min chunk (length digits)"
    obtain y z where z: "calculate x (number_of_uint64 (push_bit (bits * len) 1)) (CHR ''*'') = Some y"
      "calculate y (number_of_uint64 (chunk_part bits base (take len digits))) (CHR ''+'') = Some z" "number_ok z"
      "number_value z = Some (of_nat (v * unat (push_bit (bits * len) 1 :: 64 word) + unat (chunk_part bits base (take len digits))))"
      "\<not> st_floating_point z"
      using prefixed_step [OF less.prems] by blast
    have "length (drop len digits) < length digits" using False assms by (simp add: len_def)
    then obtain w where "prefixed_loop bits base chunk (drop len digits) z = Some w" "number_ok w"
      "number_value w = Some (of_nat (chunks_value bits base chunk (drop len digits)
        (v * unat (push_bit (bits * len) 1 :: 64 word) + unat (chunk_part bits base (take len digits)))))" "\<not> st_floating_point w"
      using less.hyps [of "drop len digits", OF _ z(3-5)] by blast
    then show ?thesis
      using False assms z(1,2)
      by (subst prefixed_loop.simps, subst chunks_value.simps) (simp add: Let_def len_def [symmetric])
  qed
qed

section \<open>Scalars\<close>

definition returns :: "'a parse \<Rightarrow> bool" where
  "returns p \<longleftrightarrow> p \<noteq> None"

lemma returns_simps [simp]:
  "returns (ok x st)" "returns (fail st m)" "returns (fail_at pos m)" "returns (Some z)" "\<not> returns None"
  "returns (then_do p f) \<longleftrightarrow> returns p \<and> (\<forall>x st. p = Some (Inr (x, st)) \<longrightarrow> returns (f x st))"
proof -
  show "returns (then_do p f) \<longleftrightarrow> returns p \<and> (\<forall>x st. p = Some (Inr (x, st)) \<longrightarrow> returns (f x st))"
    by (cases p) (auto simp: returns_def then_do_def split: sum.split)
qed (simp_all add: returns_def ok_def fail_def fail_at_def)

lemma append_escape_returns [simp]: "returns (append_escape r st)"
  by (simp add: append_escape_def append_unicode_def Let_def)

lemma strings_return [simp]:
  "returns (basic_string_loop kind r st)" "returns (literal_string_loop kind r st)" "returns (multi_line_loop q kind r st)"
proof -
  show "returns (basic_string_loop kind r st)"
  proof (induction kind r st rule: basic_string_loop.induct)
    case (1 kind r st)
    then show ?case by (subst basic_string_loop.simps) (simp add: Let_def)
  qed
  show "returns (literal_string_loop kind r st)"
  proof (induction kind r st rule: literal_string_loop.induct)
    case (1 kind r st)
    then show ?case by (subst literal_string_loop.simps) simp
  qed
  show "returns (multi_line_loop q kind r st)"
  proof (induction q kind r st rule: multi_line_loop.induct)
    case (1 q kind r st)
    then show ?case by (subst multi_line_loop.simps) (simp add: Let_def)
  qed
qed

lemma string_values_return [simp]:
  "returns (parse_basic_string kind st)" "returns (parse_literal_string kind st)"
  "returns (parse_multi_line_string q kind st)" "returns p \<Longrightarrow> returns (to_text_value p)"
  by (simp_all add: parse_basic_string_def parse_literal_string_def parse_multi_line_string_def Let_def to_text_value_def)

lemma parse_key_returns [simp]: "returns (parse_key st)"
  by (simp add: parse_key_def parse_quoted_key_def parse_bare_key_def split: prod.split)

lemma read_digits_returns [simp]: "returns (read_digits t base st)"
proof -
  have "returns (read_digits_loop t base count st)" for count
  proof (induction t base count st rule: read_digits_loop.induct)
    case (1 t base count st)
    then show ?case by (subst read_digits_loop.simps) (simp add: Let_def)
  qed
  then show ?thesis by (simp add: read_digits_def)
qed

lemma parse_number_returns [simp]: "returns (parse_number st)"
proof -
  have f: "returns (parse_fraction t u)" "returns (parse_exponent t u)" for t u
    by (simp_all add: parse_fraction_def parse_exponent_def Let_def split: prod.split)
  have d: "returns (parse_decimal t u)" for t u
    using f unfolding parse_decimal_def Let_def by (simp split: prod.split)
  have p: "prefixed_loop bits base chunk digits (number_of_uint64 0) = None \<longleftrightarrow> False" if "0 < chunk" for bits base chunk digits
    using prefixed_loop_returns [OF that, of "number_of_uint64 0" 0 bits base digits] number_of_digits [of 0]
    by (auto simp: number_of_uint64_def)
  have "returns (parse_prefixed_integer u)" for u
    unfolding parse_prefixed_integer_def Let_def
    by (auto simp del: One_nat_def simp: p split: prod.split option.split)
  then show ?thesis using d by (simp add: parse_number_def Let_def)
qed

lemma parse_boolean_returns [simp]: "returns (parse_boolean st)"
  by (simp add: parse_boolean_def)

lemma returns_intros:
  "returns p \<Longrightarrow> (\<And>y. returns (f y)) \<Longrightarrow> returns (case x of None \<Rightarrow> p | Some y \<Rightarrow> f y)"
  "(\<And>a b. returns (g a b)) \<Longrightarrow> returns (case z of (a, b) \<Rightarrow> g a b)"
  "returns p \<Longrightarrow> returns q \<Longrightarrow> returns (if b then p else q)"
  by (simp_all split: option.split prod.split)

lemma parse_datetime_returns [simp]: "returns (parse_datetime st)"
  unfolding parse_datetime_def Let_def by (intro returns_intros returns_simps)

lemma keys_return [simp]: "returns (header_keys path st)" "returns (pair_keys path st)"
proof -
  show "returns (header_keys path st)"
  proof (induction path st rule: header_keys.induct)
    case (1 path st)
    then show ?case by (subst header_keys.simps) (simp add: Let_def)
  qed
  show "returns (pair_keys path st)"
  proof (induction path st rule: pair_keys.induct)
    case (1 path st)
    then show ?case by (subst pair_keys.simps) (simp add: Let_def)
  qed
qed

section \<open>Values\<close>

lemmas left_ends = left_skip_whitespace left_skip_all left_advance

lemma left_bracket: "current_char st = c \<Longrightarrow> c \<noteq> NUL \<Longrightarrow> Suc (left (advance st)) = left st"
  using left_pos [of st] by auto

lemma value_returns:
  assumes "\<And>u. 3 * left u + 2 \<le> n \<Longrightarrow> returns (parse_array n u)" "\<And>u. 3 * left u + 2 \<le> n \<Longrightarrow> returns (parse_inline_table n u)"
    and "3 * left st + 3 \<le> Suc n"
  shows "returns (parse_value (Suc n) st)"
proof -
  define u where "u = skip_whitespace st"
  have "3 * left u + 2 \<le> n" using assms(3) left_skip_whitespace [of st] by (simp add: u_def)
  then have "returns (parse_array n u)" "returns (parse_inline_table n u)" by (simp_all add: assms(1,2))
  then show ?thesis unfolding parse_value.simps Let_def u_def [symmetric] by simp
qed

lemma array_returns:
  assumes "\<And>u. 3 * left u + 4 \<le> n \<Longrightarrow> returns (array_loop n [] u)" and "3 * left st + 2 \<le> Suc n"
  shows "returns (parse_array (Suc n) st)"
proof -
  have "3 * left (skip_whitespace_and_comments (advance st)) + 4 \<le> n" if "current_char st = CHR ''[''"
    using assms(2) left_bracket [OF that] left_skip_all [of "advance st"] by simp
  then show ?thesis unfolding parse_array.simps Let_def by (simp add: assms(1))
qed

lemma array_loop_returns:
  assumes "\<And>u. 3 * left u + 3 \<le> n \<Longrightarrow> returns (parse_value n u)" "\<And>r u. 3 * left u + 4 \<le> n \<Longrightarrow> returns (array_loop n r u)"
    and "3 * left st + 4 \<le> Suc n"
  shows "returns (array_loop (Suc n) result st)"
proof -
  have "returns (array_loop n r (skip_whitespace_and_comments (advance w)))"
    if p: "parse_value n st = Some (Inr (v, u))" and w: "w = skip_whitespace_and_comments u" "current_char w = CHR '',''" for v u w r
  proof (rule assms(2))
    have "left u \<le> left st" using leaves_values(1) [of st n] p by (simp add: leaves_def)
    then show "3 * left (skip_whitespace_and_comments (advance w)) + 4 \<le> n"
      using assms(3) left_bracket [OF w(2)] left_skip_all [of "advance w"] left_skip_all [of u] w(1) by simp
  qed
  moreover have "returns (parse_value n st)" using assms(1,3) by simp
  ultimately show ?thesis unfolding array_loop.simps Let_def by simp
qed

lemma inline_table_returns:
  assumes "\<And>node u. 3 * left u + 4 \<le> n \<Longrightarrow> returns (inline_table_loop n node u)" and "3 * left st + 2 \<le> Suc n"
  shows "returns (parse_inline_table (Suc n) st)"
proof -
  have "3 * left (skip_whitespace (advance st)) + 4 \<le> n" if "current_char st = CHR ''{''"
    using assms(2) left_bracket [OF that] left_skip_whitespace [of "advance st"] by simp
  then show ?thesis unfolding parse_inline_table.simps Let_def by (simp add: assms(1))
qed

lemma inline_table_loop_returns:
  assumes "\<And>u. 3 * left u + 1 \<le> n \<Longrightarrow> returns (parse_key_value n u)"
    "\<And>node u. 3 * left u + 4 \<le> n \<Longrightarrow> returns (inline_table_loop n node u)" and "3 * left st + 4 \<le> Suc n"
  shows "returns (inline_table_loop (Suc n) node st)"
proof -
  have "returns (inline_table_loop n r (skip_whitespace (advance w)))"
    if p: "parse_key_value n st = Some (Inr ((path, v), u))" and w: "w = skip_whitespace u" "current_char w = CHR '',''"
    for path v u w r
  proof (rule assms(2))
    have "left u \<le> left st" using left_key_value [OF p] by simp
    then show "3 * left (skip_whitespace (advance w)) + 4 \<le> n"
      using assms(3) left_bracket [OF w(2)] left_skip_whitespace [of "advance w"] left_skip_whitespace [of u] w(1) by simp
  qed
  moreover have "returns (parse_key_value n st)" using assms(1,3) by simp
  ultimately show ?thesis unfolding inline_table_loop.simps Let_def by (simp split: sum.split)
qed

lemma key_value_returns:
  assumes "\<And>u. 3 * left u + 3 \<le> n \<Longrightarrow> returns (parse_value n u)" and "3 * left st + 1 \<le> Suc n"
  shows "returns (parse_key_value (Suc n) st)"
proof -
  have "3 * left (skip_whitespace (advance u)) + 3 \<le> n" if "pair_keys [] st = Some (Inr (path, u))" for path u
    using assms(2) left_keys(2) [OF that] left_skip_whitespace [of "advance u"] left_advance [of u] by linarith
  then show ?thesis unfolding parse_key_value.simps by (simp add: assms(1))
qed

lemma values_return:
  "3 * left st + 3 \<le> n \<Longrightarrow> returns (parse_value n st)"
  "3 * left st + 2 \<le> n \<Longrightarrow> returns (parse_array n st)"
  "3 * left st + 4 \<le> n \<Longrightarrow> returns (array_loop n result st)"
  "3 * left st + 2 \<le> n \<Longrightarrow> returns (parse_inline_table n st)"
  "3 * left st + 4 \<le> n \<Longrightarrow> returns (inline_table_loop n node st)"
  "3 * left st + 1 \<le> n \<Longrightarrow> returns (parse_key_value n st)"
proof (induction n arbitrary: st result node)
  case (Suc n)
  {
    case 1
    then show ?case by (intro value_returns Suc)
  next
    case 2
    then show ?case by (intro array_returns Suc)
  next
    case 3
    then show ?case by (intro array_loop_returns Suc)
  next
    case 4
    then show ?case by (intro inline_table_returns Suc)
  next
    case 5
    then show ?case by (intro inline_table_loop_returns Suc)
  next
    case 6
    then show ?case by (intro key_value_returns Suc)
  }
qed simp_all

section \<open>More fuel gives the same\<close>

definition agrees :: "'a option \<Rightarrow> 'a option \<Rightarrow> bool" where
  "agrees p q \<longleftrightarrow> p = None \<or> p = q"

lemma agrees_basic: "agrees p p" "agrees None p"
  by (simp_all add: agrees_def)

lemma agrees_then:
  "agrees p q \<Longrightarrow> (\<And>x st. p = Some (Inr (x, st)) \<Longrightarrow> agrees (f x st) (g x st)) \<Longrightarrow> agrees (then_do p f) (then_do q g)"
  by (auto simp: agrees_def then_do_def split: option.splits sum.splits)

lemma agrees_if: "(b \<Longrightarrow> agrees p q) \<Longrightarrow> (\<not> b \<Longrightarrow> agrees p' q') \<Longrightarrow> agrees (if b then p else p') (if b then q else q')"
  by simp

lemma values_agree:
  "agrees (parse_value n st) (parse_value (Suc n) st)"
  "agrees (parse_array n st) (parse_array (Suc n) st)"
  "agrees (array_loop n result st) (array_loop (Suc n) result st)"
  "agrees (parse_inline_table n st) (parse_inline_table (Suc n) st)"
  "agrees (inline_table_loop n node st) (inline_table_loop (Suc n) node st)"
  "agrees (parse_key_value n st) (parse_key_value (Suc n) st)"
proof (induction n st and n st and n result st and n st and n node st and n st
    rule: parse_value_parse_array_array_loop_parse_inline_table_inline_table_loop_parse_key_value.induct)
  case (2 n st)
  show ?case unfolding parse_value.simps(2) [of n] parse_value.simps(2) [of "Suc n"] Let_def
    by (intro agrees_if agrees_basic 2 refl) simp_all
next
  case (4 n st)
  show ?case unfolding parse_array.simps(2) [of n] parse_array.simps(2) [of "Suc n"] Let_def
    by (intro agrees_if agrees_basic 4 refl)
next
  case (6 n result st)
  show ?case unfolding array_loop.simps(2) [of n result st] array_loop.simps(2) [of "Suc n" result st] Let_def
    by (intro agrees_then agrees_if agrees_basic 6 refl) simp_all
next
  case (8 n st)
  show ?case unfolding parse_inline_table.simps(2) [of n] parse_inline_table.simps(2) [of "Suc n"] Let_def
    by (intro agrees_if agrees_basic 8 refl)
next
  case (10 n node st)
  have "agrees (inline_table_loop n r x) (inline_table_loop (Suc n) r x)"
    if "parse_key_value n st = Some (Inr ((path, v), u))" "add_pair node path v (current_position st) = Inr r"
      "w = skip_whitespace u" "\<not> (current_char w = LF \<or> current_char w = CHR ''#'')" "current_char w = CHR '',''"
      "x = skip_whitespace (advance w)" for path v u w x r
    using 10(2) [OF refl that(1) refl that(2-5)] that(6) by blast
  then show ?case unfolding inline_table_loop.simps(2) [of n node st] inline_table_loop.simps(2) [of "Suc n" node st] Let_def
    by (intro agrees_then 10(1) refl) (auto simp: agrees_basic split: sum.split)
next
  case (12 n st)
  show ?case unfolding parse_key_value.simps(2) [of n] parse_key_value.simps(2) [of "Suc n"]
    by (intro agrees_then agrees_if agrees_basic 12)
qed (simp_all add: agrees_basic)

lemma agrees_mono:
  assumes "\<And>n. agrees (F n) (F (Suc n))" "F n = Some r" "n \<le> m"
  shows "F m = Some r"
  using assms(3,2)
proof (induction rule: dec_induct)
  case (step k)
  then show ?case using assms(1) [of k] by (simp add: agrees_def)
qed simp

section \<open>Documents\<close>

lemma line_end_returns [simp]: "returns (expect_line_end st)"
  by (simp add: expect_line_end_def Let_def)

lemma header_returns [simp]: "returns (parse_table_header st)"
  by (simp add: parse_table_header_def Let_def)

lemma document_returns: "3 * left st + 1 \<le> n \<Longrightarrow> returns (document_loop n node path st)"
proof (induction n node path st rule: document_loop.induct)
  case (1 n node path st)
  define u where "u = skip_whitespace_and_comments st"
  have u: "left u \<le> left st" by (simp add: u_def left_skip_all)
  then have kv: "returns (parse_key_value n u)" using 1(3) by (intro values_return) simp
  have f: "3 * left w + 1 \<le> n" if "left v < left u" "expect_line_end v = Some (Inr (x, w))" for v x w
    using left_line_end [OF that(2)] that(1) u 1(3) by simp
  show ?case
  proof (cases "ps_rest st = [] \<or> ps_rest u = []")
    case True
    then show ?thesis by (subst document_loop.simps) (auto simp: Let_def u_def)
  next
    case False
    then have ne: "ps_rest st \<noteq> []" "ps_rest u \<noteq> []" by simp_all
    show ?thesis
    proof (cases "current_char u = CHR ''[''")
      case True
      have "returns (document_loop n r a w)"
        if "parse_table_header u = Some (Inr ((a, b), v))" "expect_line_end v = Some (Inr ((), w))"
          "open_table node b a (current_position u) = Inr r" for a b v w r
        using 1(1) [OF ne(1) u_def ne(2) True refl that(1,2) _ f [OF left_header [OF that(1)] that(2)]] that(3) by simp
      then show ?thesis using True ne
        by (subst document_loop.simps) (simp add: Let_def u_def [symmetric] split: sum.split)
    next
      case False
      have "returns (document_loop n r path w)"
        if "parse_key_value n u = Some (Inr ((a, b), v))" "expect_line_end v = Some (Inr ((), w))"
          "update_at node path (\<lambda>table. add_pair table a b (current_position u)) = Inr r" for a b v w r
        using 1(2) [OF ne(1) u_def ne(2) False refl that(1,2) _ f [OF left_key_value [OF that(1)] that(2)]] that(3) by simp
      then show ?thesis using False ne kv
        by (subst document_loop.simps) (simp add: Let_def u_def [symmetric] split: sum.split)
    qed
  qed
qed

lemma parse_returns: "3 * length input + 1 \<le> n \<Longrightarrow> parse n input \<noteq> None"
proof -
  assume "3 * length input + 1 \<le> n"
  then have "returns (document_loop n (new_node False False) [] (parser_of input))"
    by (intro document_returns) (simp add: parser_of_def)
  then have "returns (then_do (parse_document n (parser_of input)) (\<lambda>result st.
        let st = skip_whitespace_and_comments st
        in if ps_rest st \<noteq> [] then fail st ''Unexpected content after document end'' else ok result st))"
    by (simp add: parse_document_def Let_def)
  then show ?thesis by (auto simp: parse_def returns_def split: option.splits sum.splits)
qed

lemma document_agrees: "agrees (document_loop n node path st) (document_loop (Suc n) node path st)"
proof (induction n node path st rule: document_loop.induct)
  case (1 n node path st)
  define u where "u = skip_whitespace_and_comments st"
  have h: "agrees (document_loop n r (fst y) w) (document_loop (Suc n) r (fst y) w)"
    if "ps_rest st \<noteq> []" "ps_rest u \<noteq> []" "current_char u = CHR ''[''" "parse_table_header u = Some (Inr (y, v))"
      "expect_line_end v = Some (Inr (x, w))" "open_table node (snd y) (fst y) (current_position u) = Inr r" for y v x w r
    using 1(1) [OF that(1) u_def that(2,3) refl that(4-6)] .
  have k: "agrees (document_loop n r path w) (document_loop (Suc n) r path w)"
    if "ps_rest st \<noteq> []" "ps_rest u \<noteq> []" "current_char u \<noteq> CHR ''[''" "parse_key_value n u = Some (Inr (y, v))"
      "expect_line_end v = Some (Inr (x, w))"
      "update_at node path (\<lambda>table. add_pair table (fst y) (snd y) (current_position u)) = Inr r" for y v x w r
    using 1(2) [OF that(1) u_def that(2,3) refl that(4-6)] .
  show ?case
    unfolding document_loop.simps [of n node path st] document_loop.simps [of "Suc n" node path st] Let_def u_def [symmetric]
    by (intro agrees_if agrees_basic agrees_then values_agree(6)) (auto simp: agrees_basic split: sum.split intro: h k)
qed

lemma parse_fuel: "parse n input = Some r \<Longrightarrow> n \<le> m \<Longrightarrow> parse m input = Some r"
proof (rule agrees_mono [of "\<lambda>n. parse n input"])
  fix n
  have "agrees (then_do (parse_document n (parser_of input)) f) (then_do (parse_document (Suc n) (parser_of input)) f)"
    for f :: "entries \<Rightarrow> parser \<Rightarrow> entries parse"
    unfolding parse_document_def by (intro agrees_then agrees_basic document_agrees)
  from this [of "\<lambda>result st. let st = skip_whitespace_and_comments st
      in if ps_rest st \<noteq> [] then fail st ''Unexpected content after document end'' else ok result st"]
  show "agrees (parse n input) (parse (Suc n) input)" by (auto simp: agrees_def parse_def)
qed

end
