(* ===== verification/Toml_Safety.thy ===== *)
theory Toml_Safety
  imports Toml_Tables Toml_Termination Timestamp_Laws
begin

text \<open>
  What every run of the parser keeps: a failure is one that the code creates, with a message and a
  position, never the undefined back of an empty vector; and a value that is read is well formed.
\<close>

section \<open>Sound steps\<close>

definition sound :: "('a \<Rightarrow> bool) \<Rightarrow> 'a parse \<Rightarrow> bool" where
  "sound P p \<longleftrightarrow>
     (case p of None \<Rightarrow> True | Some (Inl e) \<Rightarrow> fst e = invalid_argument | Some (Inr (x, st)) \<Rightarrow> P x)"

abbreviation fails_well :: "'a parse \<Rightarrow> bool" where
  "fails_well p \<equiv> sound (\<lambda>_. True) p"

lemma sound_simps [simp]:
  "sound P (ok x st) \<longleftrightarrow> P x" "sound P (fail st m)" "sound P (fail_at pos m)" "sound P None"
  "sound P (Some (Inl e)) \<longleftrightarrow> fst e = invalid_argument"
  by (simp_all add: sound_def ok_def fail_def fail_at_def create_error_def)

lemma sound_then_iff [simp]:
  "sound P (then_do p f) \<longleftrightarrow> fails_well p \<and> (\<forall>x st. p = Some (Inr (x, st)) \<longrightarrow> sound P (f x st))"
  by (cases p) (auto simp: sound_def then_do_def split: sum.splits)

lemma sound_then:
  "sound Q p \<Longrightarrow> (\<And>x st. Q x \<Longrightarrow> p = Some (Inr (x, st)) \<Longrightarrow> sound P (f x st)) \<Longrightarrow> sound P (then_do p f)"
  by (cases p) (auto simp: sound_def then_do_def split: sum.splits)

lemma sound_if: "(b \<Longrightarrow> sound P p) \<Longrightarrow> (\<not> b \<Longrightarrow> sound P q) \<Longrightarrow> sound P (if b then p else q)"
  by simp

lemma sound_outcome:
  "outcome Q r \<Longrightarrow> (\<And>x. Q x \<Longrightarrow> r = Inr x \<Longrightarrow> sound P (f x)) \<Longrightarrow>
    sound P (case r of Inl e \<Rightarrow> Some (Inl e) | Inr x \<Rightarrow> f x)"
  by (cases r) simp_all

section \<open>Scalars\<close>

lemma escape_sound [simp]: "fails_well (append_escape r st)"
  by (simp add: append_escape_def append_unicode_def Let_def)

lemma strings_sound [simp]:
  "fails_well (basic_string_loop kind r st)" "fails_well (literal_string_loop kind r st)" "fails_well (multi_line_loop q kind r st)"
proof -
  show "fails_well (basic_string_loop kind r st)"
  proof (induction kind r st rule: basic_string_loop.induct)
    case (1 kind r st)
    then show ?case by (subst basic_string_loop.simps) (simp add: Let_def)
  qed
  show "fails_well (literal_string_loop kind r st)"
  proof (induction kind r st rule: literal_string_loop.induct)
    case (1 kind r st)
    then show ?case by (subst literal_string_loop.simps) simp
  qed
  show "fails_well (multi_line_loop q kind r st)"
  proof (induction q kind r st rule: multi_line_loop.induct)
    case (1 q kind r st)
    then show ?case by (subst multi_line_loop.simps) (simp add: Let_def)
  qed
qed

lemma text_values_sound [simp]:
  "sound val_ok (to_text_value (parse_basic_string kind st))" "sound val_ok (to_text_value (parse_literal_string kind st))"
  "sound val_ok (to_text_value (parse_multi_line_string q kind st))"
  by (simp_all add: parse_basic_string_def parse_literal_string_def parse_multi_line_string_def Let_def to_text_value_def)

lemma keys_sound [simp]: "fails_well (parse_key st)" "fails_well (header_keys path st)" "fails_well (pair_keys path st)"
proof -
  show k: "fails_well (parse_key st)" for st
    by (simp add: parse_key_def parse_quoted_key_def parse_basic_string_def parse_literal_string_def parse_bare_key_def split: prod.split)
  show "fails_well (header_keys path st)"
  proof (induction path st rule: header_keys.induct)
    case (1 path st)
    then show ?case by (subst header_keys.simps) (simp add: Let_def k)
  qed
  show "fails_well (pair_keys path st)"
  proof (induction path st rule: pair_keys.induct)
    case (1 path st)
    then show ?case by (subst pair_keys.simps) (simp add: Let_def k)
  qed
qed

lemma read_digits_sound [simp]: "fails_well (read_digits t base st)"
proof -
  have "fails_well (read_digits_loop t base count st)" for count
  proof (induction t base count st rule: read_digits_loop.induct)
    case (1 t base count st)
    then show ?case by (subst read_digits_loop.simps) (simp add: Let_def)
  qed
  then show ?thesis by (simp add: read_digits_def)
qed

lemma number_sound [simp]: "sound val_ok (parse_number st)"
proof -
  have f: "fails_well (parse_fraction t u)" "fails_well (parse_exponent t u)" for t u
    by (simp_all add: parse_fraction_def parse_exponent_def Let_def split: prod.split)
  have d: "sound val_ok (parse_decimal t u)" for t u
    using f unfolding parse_decimal_def Let_def by (simp add: storage_of_ok split: prod.split)
  have p: "number_ok z" if "0 < chunk" "prefixed_loop bits base chunk digits (number_of_uint64 0) = Some z" for bits base chunk digits z
    using prefixed_loop_returns [OF that(1), of "number_of_uint64 0" 0 bits base digits] number_of_digits [of 0] that(2)
    by (auto simp: number_of_uint64_def)
  have "sound val_ok (parse_prefixed_integer u)" for u
    unfolding parse_prefixed_integer_def Let_def
    by (auto simp del: One_nat_def intro: p [rotated] split: prod.split option.split)
  then show ?thesis using d by (simp add: parse_number_def Let_def)
qed

lemma boolean_sound [simp]: "sound val_ok (parse_boolean st)"
  by (simp add: parse_boolean_def)

lemma sound_cases:
  "sound P p \<Longrightarrow> (\<And>y. x = Some y \<Longrightarrow> sound P (f y)) \<Longrightarrow> sound P (case x of None \<Rightarrow> p | Some y \<Rightarrow> f y)"
  "(\<And>a b. sound P (g a b)) \<Longrightarrow> sound P (case z of (a, b) \<Rightarrow> g a b)"
  by (simp_all split: option.split prod.split)

lemma datetime_sound [simp]: "sound val_ok (parse_datetime st)"
  unfolding parse_datetime_def Let_def
  by (intro sound_cases sound_if sound_simps) (simp_all add: from_string_ok)

section \<open>Values\<close>

lemma contents_append: "contents_ok a \<Longrightarrow> val_ok v \<Longrightarrow> contents_ok (array_append a v)"
  by (auto simp: contents_ok_iff array_append_def)

lemma pair_keys_not_empty: "pair_keys ks st = Some (Inr (path, u)) \<Longrightarrow> path \<noteq> []"
proof (induction ks st rule: pair_keys.induct)
  case (1 ks st)
  then show ?case by (subst (asm) (2) pair_keys.simps) (auto simp: then_do_Some Let_def split: if_splits)
qed

lemma inline_table_loop_sound:
  assumes "\<And>u. sound (\<lambda>(path, v). path \<noteq> [] \<and> val_ok v) (parse_key_value n u)"
    and "\<And>r u. node_ok r \<Longrightarrow> sound val_ok (inline_table_loop n r u)" and "node_ok node"
  shows "sound val_ok (inline_table_loop (Suc n) node st)"
  unfolding inline_table_loop.simps Let_def
proof (rule sound_then [OF assms(1)], goal_cases)
  case (1 y u)
  obtain path v where e: "y = (path, v)" by (cases y)
  have a: "outcome (\<lambda>r. node_ok r \<and> node_array r = node_array node) (add_pair node path v (current_position st))"
    using add_pair_ok [OF assms(3)] 1 by (simp add: e)
  show ?case
    unfolding e prod.case
    by (intro sound_outcome [OF a] sound_if assms(2) sound_simps sound_simps(1) [THEN iffD2] merge_tables_ok) auto
qed

lemma values_sound:
  "sound val_ok (parse_value n st)"
  "sound val_ok (parse_array n st)"
  "contents_ok result \<Longrightarrow> sound val_ok (array_loop n result st)"
  "sound val_ok (parse_inline_table n st)"
  "node_ok node \<Longrightarrow> sound val_ok (inline_table_loop n node st)"
  "sound (\<lambda>(path, v). path \<noteq> [] \<and> val_ok v) (parse_key_value n st)"
proof (induction n arbitrary: st result node)
  case (Suc n)
  {
    case 1
    show ?case unfolding parse_value.simps Let_def
      by (intro sound_if Suc text_values_sound sound_simps number_sound boolean_sound datetime_sound)
  next
    case 2
    show ?case unfolding parse_array.simps Let_def by (intro sound_if Suc sound_simps) simp_all
  next
    case 3
    then show ?case unfolding array_loop.simps Let_def
      by (intro sound_then [OF Suc(1)] sound_if Suc(3) sound_simps) (simp_all add: contents_append)
  next
    case 4
    show ?case unfolding parse_inline_table.simps Let_def
      by (intro sound_if Suc sound_simps) (simp_all add: entries_sorted_def)
  next
    case 5
    then show ?case by (intro inline_table_loop_sound Suc)
  next
    case 6
    show ?case unfolding parse_key_value.simps
      by (intro sound_then [OF keys_sound(3)] sound_if sound_then [OF Suc(1)] sound_simps) (simp_all add: pair_keys_not_empty)
  }
qed simp_all

section \<open>The document\<close>

lemma header_sound: "sound (\<lambda>(path, array). path \<noteq> []) (parse_table_header st)"
proof -
  have ne: "path \<noteq> []" if "header_keys ks st' = Some (Inr (path, u))" for ks st' path u
    using that
  proof (induction ks st' rule: header_keys.induct)
    case (1 ks st')
    then show ?case by (subst (asm) (2) header_keys.simps) (auto simp: then_do_Some Let_def split: if_splits)
  qed
  show ?thesis unfolding parse_table_header_def Let_def
    by (intro sound_if sound_then [OF keys_sound(2)] sound_simps) (simp_all add: ne)
qed

lemma line_end_sound: "fails_well (expect_line_end st)"
  by (simp add: expect_line_end_def Let_def)

lemma document_sound:
  "node_ok result \<Longrightarrow> path_ok result current \<Longrightarrow> sound node_ok (document_loop n result current st)"
proof (induction n result current st rule: document_loop.induct)
  case (1 n result current st)
  define u where "u = skip_whitespace_and_comments st"
  have h: "sound node_ok (document_loop n r (fst y) w)"
    if "ps_rest st \<noteq> []" "ps_rest u \<noteq> []" "current_char u = CHR ''[''" "parse_table_header u = Some (Inr (y, v))"
      "expect_line_end v = Some (Inr (x, w))" "open_table result (snd y) (fst y) (current_position u) = Inr r"
      "node_ok r" "path_ok r (fst y)" for y v x w r
    using 1(1) [OF that(1) u_def that(2,3) refl that(4,5,6,7,8)] .
  have k: "sound node_ok (document_loop n r current w)"
    if "ps_rest st \<noteq> []" "ps_rest u \<noteq> []" "current_char u \<noteq> CHR ''[''" "parse_key_value n u = Some (Inr (y, v))"
      "expect_line_end v = Some (Inr (x, w))"
      "update_at result current (\<lambda>table. add_pair table (fst y) (snd y) (current_position u)) = Inr r"
      "node_ok r" "path_ok r current" for y v x w r
    using 1(2) [OF that(1) u_def that(2,3) refl that(4,5,6,7,8)] .
  have o: "outcome (\<lambda>r. node_ok r \<and> path_ok r (fst y)) (open_table result (snd y) (fst y) (current_position u))"
    if "case y of (path, array) \<Rightarrow> path \<noteq> []" for y
    by (rule outcome_mono, rule open_table_ok) (use that 1(3) in auto)
  have a: "outcome (\<lambda>r. node_ok r \<and> path_ok r current)
      (update_at result current (\<lambda>table. add_pair table (fst y) (snd y) (current_position u)))"
    if "case y of (path, v) \<Rightarrow> path \<noteq> [] \<and> val_ok v" for y
    by (rule outcome_mono, rule update_at_ok [OF _ 1(3,4)]) (use add_pair_ok that in auto)
  show ?case
    unfolding document_loop.simps [of n result current st] Let_def u_def [symmetric]
    by (intro sound_if sound_then [OF header_sound] sound_then [OF values_sound(6)] sound_then [OF line_end_sound]
        sound_outcome [OF o] sound_outcome [OF a] h k sound_simps)
      (simp_all add: 1(3))
qed

lemma parse_document_sound: "sound (\<lambda>d. val_ok (Dictionary d)) (parse_document n st)"
  unfolding parse_document_def
  by (intro sound_then [OF document_sound] sound_simps(1) [THEN iffD2] merge_tables_ok) simp_all

text \<open>C21: Reading a configuration is safe: for every input \<open>deserialize\<close> returns a dictionary that
  is well formed, with its keys in order and every number, timestamp and table in it valid, or the
  error \<open>invalid_argument\<close>. The parser never takes the back of an empty vector of elements, which
  would be undefined: that failure of the model has another code.\<close>

theorem deserialize_safe:
  "case deserialize input of
     None \<Rightarrow> False
   | Some (Inl e) \<Rightarrow> fst e = invalid_argument \<and> e \<noteq> undefined_back
   | Some (Inr d) \<Rightarrow> val_ok (Dictionary d)"
proof (cases "data_empty input \<or> \<not> is_valid_utf8 (data_text input)")
  case True
  then show ?thesis by (auto simp: deserialize_def Let_def undefined_back_def entries_sorted_def)
next
  case False
  define s where "s = data_text input"
  have "sound (\<lambda>d. val_ok (Dictionary d)) (then_do (parse_document (enough_fuel s) (parser_of s)) (\<lambda>result st.
        let st = skip_whitespace_and_comments st
        in if ps_rest st \<noteq> [] then fail st ''Unexpected content after document end'' else ok result st))" (is "sound _ ?p")
    by (intro sound_then [OF parse_document_sound]) (simp add: Let_def)
  moreover have "parse (enough_fuel s) s \<noteq> None" by (rule parse_returns) (simp add: enough_fuel_def)
  moreover have "deserialize input = parse (enough_fuel s) s" using False by (simp add: deserialize_def Let_def s_def)
  ultimately show ?thesis
    by (cases ?p) (auto simp: parse_def sound_def undefined_back_def split: sum.splits prod.splits)
qed

text \<open>C23: Reading terminates: with fuel for the nesting an input of its length can have, three for
  each character, the parser returns, and what it returns does not depend on the fuel. So
  \<open>enough_fuel\<close> is enough for every input.\<close>

theorem parse_terminates:
  assumes "3 * length input + 1 \<le> n"
  shows "\<exists>r. parse n input = Some r \<and> parse (enough_fuel input) input = Some r"
proof -
  obtain r where r: "parse (3 * length input + 1) input = Some r" using parse_returns [of input "3 * length input + 1"] by auto
  show ?thesis
    using parse_fuel [OF r assms] parse_fuel [OF r, of "enough_fuel input"] by (simp add: enough_fuel_def)
qed

lemma parse_terminates_witness:
  "\<exists>r. parse 10 ''a=1'' = Some r \<and> parse (enough_fuel ''a=1'') ''a=1'' = Some r"
  by (rule parse_terminates) simp

end
