(* ===== verification/Toml_Writer.thy ===== *)
theory Toml_Writer
  imports Toml_Text Values
begin

text \<open>
  \<open>class serializer\<close> of \<open>src/format/toml.cpp\<close>, and \<open>serialize\<close>. A function that adds to
  \<open>_output\<close> returns what it adds; what it throws is a message, the left of a sum.
\<close>

type_synonym written = "string + string"

definition emit :: "string \<Rightarrow> written" where
  "emit s = Inr s"

definition append_output :: "written \<Rightarrow> written \<Rightarrow> written" where
  "append_output a b = (case a of Inl e \<Rightarrow> Inl e | Inr s \<Rightarrow> (case b of Inl e \<Rightarrow> Inl e | Inr t \<Rightarrow> Inr (s @ t)))"

lemma append_output_simps [simp]:
  "append_output (Inr s) (Inr t) = Inr (s @ t)" "append_output (Inl e) b = Inl e" "append_output (Inr s) (Inl e) = Inl e"
  by (simp_all add: append_output_def)

lemma append_output_Inr: "append_output a b = Inr z \<longleftrightarrow> (\<exists>s t. a = Inr s \<and> b = Inr t \<and> z = s @ t)"
  by (auto simp: append_output_def split: sum.splits)

lemma append_output_Inl: "append_output a b = Inl e \<longleftrightarrow> a = Inl e \<or> ((\<exists>s. a = Inr s) \<and> b = Inl e)"
  by (auto simp: append_output_def split: sum.splits)

definition is_array_of_tables :: "val \<Rightarrow> bool" where
  "is_array_of_tables v =
     (case v of Array arr \<Rightarrow> arr \<noteq> [] \<and> list_all (val_is dictionary_kind) arr | _ \<Rightarrow> False)"

definition is_written_as_table :: "val \<Rightarrow> bool" where
  "is_written_as_table v = (val_is dictionary_kind v \<or> is_array_of_tables v)"

definition int64_max :: number_storage where
  "int64_max = storage_of ''9223372036854775807''"

definition int64_min :: number_storage where
  "int64_min = storage_of ''-9223372036854775808''"

definition number_output :: "number_storage \<Rightarrow> written" where
  "number_output n =
     (if is_nan n then Inl ''NaN cannot be written as a TOML value''
      else append_output (emit (number_text n))
        (if is_integer n \<and> (is_floating_point n \<or> number_compare n int64_max = Greater \<or> number_compare n int64_min = Less)
         then emit ''.0'' else emit []))"

fun serialize_value :: "val \<Rightarrow> written"
  and serialize_array :: "bool \<Rightarrow> val list \<Rightarrow> written"
  and serialize_inline_table :: "bool \<Rightarrow> entries \<Rightarrow> written" where
  "serialize_value (String s) = emit ([QUOTE] @ escape_string (ss_buffer s) @ [QUOTE])"
| "serialize_value (Number n) = number_output n"
| "serialize_value (Boolean b) = emit (if bs_value b then ''true'' else ''false'')"
| "serialize_value (Timestamp ts) = emit (format_iso8601 ts)"
| "serialize_value (Array arr) = append_output (emit ''['') (append_output (serialize_array True arr) (emit '']''))"
| "serialize_value (Dictionary table) =
     append_output (emit ''{'') (append_output (serialize_inline_table True table) (emit ''}''))"
| "serialize_value _ = Inl ''Unsupported value type for TOML serialization''"
| "serialize_array first [] = emit []"
| "serialize_array first (v # arr) =
     append_output (emit (if first then [] else '', '')) (append_output (serialize_value v) (serialize_array False arr))"
| "serialize_inline_table first [] = emit []"
| "serialize_inline_table first ((key, v) # dict) =
     append_output (emit ((if first then [] else '', '') @ escape_key key @ '' = ''))
       (append_output (serialize_value v) (serialize_inline_table False dict))"

definition serialize_key_value :: "string \<Rightarrow> val \<Rightarrow> written" where
  "serialize_key_value key v =
     append_output (emit (escape_key key @ '' = '')) (append_output (serialize_value v) (emit [LF]))"

fun join_path :: "string list \<Rightarrow> string" where
  "join_path [] = []"
| "join_path [key] = escape_key key"
| "join_path (key # k # path) = escape_key key @ ''.'' @ join_path (k # path)"

text \<open>The two loops of \<open>serialize_dictionary\<close>: the pairs, and then the tables and arrays of
  tables under their headers.\<close>

fun serialize_pairs :: "entries \<Rightarrow> written" where
  "serialize_pairs [] = emit []"
| "serialize_pairs ((key, v) # dict) =
     (if \<not> is_written_as_table v then append_output (serialize_key_value key v) (serialize_pairs dict)
      else serialize_pairs dict)"

fun serialize_tables :: "string list \<Rightarrow> entries \<Rightarrow> written"
  and serialize_elements :: "string list \<Rightarrow> val list \<Rightarrow> written" where
  "serialize_tables path [] = emit []"
| "serialize_tables path ((key, v) # dict) =
     (if \<not> is_written_as_table v then serialize_tables path dict
      else let nested_path = path @ [key]
      in append_output
        (case v of
           Dictionary table \<Rightarrow>
             append_output (emit ([LF] @ ''['' @ join_path nested_path @ '']'' @ [LF]))
               (append_output (serialize_pairs table) (serialize_tables nested_path table))
         | Array arr \<Rightarrow> serialize_elements nested_path arr
         | _ \<Rightarrow> emit [])
        (serialize_tables path dict))"
| "serialize_elements nested_path [] = emit []"
| "serialize_elements nested_path (v # arr) =
     append_output (emit ([LF] @ ''[['' @ join_path nested_path @ '']]'' @ [LF]))
       (append_output
         (case v of Dictionary table \<Rightarrow> append_output (serialize_pairs table) (serialize_tables nested_path table) | _ \<Rightarrow> emit [])
         (serialize_elements nested_path arr))"

definition serialize_dictionary :: "entries \<Rightarrow> string list \<Rightarrow> written" where
  "serialize_dictionary dict path = append_output (serialize_pairs dict) (serialize_tables path dict)"

definition has_non_dict_values :: "entries \<Rightarrow> bool" where
  "has_non_dict_values dict = list_ex (\<lambda>(key, v). \<not> val_is dictionary_kind v) dict"

definition serialize :: "entries \<Rightarrow> (errc \<times> string) + data_storage" where
  "serialize input =
     (case serialize_dictionary input [] of
        Inl message \<Rightarrow> Inl (operation_not_supported, message)
      | Inr text \<Rightarrow>
          if \<not> is_valid_utf8 text then Inl (operation_not_supported, ''A string or key is not valid UTF-8'')
          else Inr (data_of_string text))"

end
