(* ===== verification/Toml_Reads.thy ===== *)
theory Toml_Reads
  imports Toml_Safety Toml_Writer
begin

text \<open>
  The parser reads back what the serializer writes for the scalars and keys: strings with their
  escapes, bare and quoted keys, numbers and timestamps, whatever text follows that cannot
  continue them.
\<close>

section \<open>Reading a text\<close>

text \<open>\<open>reads f s r P\<close>: with \<open>s\<close> before \<open>r\<close> the step \<open>f\<close> succeeds, stops before \<open>r\<close>, and its result
  satisfies \<open>P\<close>.\<close>

definition reads :: "(parser \<Rightarrow> 'a parse) \<Rightarrow> string \<Rightarrow> string \<Rightarrow> ('a \<Rightarrow> bool) \<Rightarrow> bool" where
  "reads f s r P \<longleftrightarrow>
     (\<forall>st. ps_rest st = s @ r \<longrightarrow> (\<exists>x st'. f st = Some (Inr (x, st')) \<and> ps_rest st' = r \<and> P x))"

lemma readsI:
  "(\<And>st. ps_rest st = s @ r \<Longrightarrow> \<exists>x st'. f st = Some (Inr (x, st')) \<and> ps_rest st' = r \<and> P x) \<Longrightarrow> reads f s r P"
  by (simp add: reads_def)

lemma readsE:
  assumes "reads f s r P" "ps_rest st = s @ r"
  obtains x st' where "f st = Some (Inr (x, st'))" "ps_rest st' = r" "P x"
  using assms by (auto simp: reads_def)

lemma reads_mono: "reads f s r P \<Longrightarrow> (\<And>x. P x \<Longrightarrow> Q x) \<Longrightarrow> reads f s r Q"
  by (fastforce simp: reads_def)

lemma current_rest: "ps_rest st = c # s \<Longrightarrow> current_char st = c"
  by (simp add: current_char_def)

lemma current_append: "ps_rest st = s @ r \<Longrightarrow> current_char st = (if s = [] then char_at r 0 else hd s)"
  by (cases s) (simp_all add: current_char_def)

lemma peek_rest: "ps_rest st = s \<Longrightarrow> peek_char st k = char_at s k"
  by (simp add: peek_char_def)

section \<open>Strings and keys\<close>

lemma byte_less_32: "byte c < 0x20 \<Longrightarrow> byte c < 256" by simp

lemma hex_digits:
  assumes "byte c < 0x20 \<or> byte c = 0x7F"
  shows "is_ascii_xdigit (hex_digit (drop_bit 4 (byte c)))" "is_ascii_xdigit (hex_digit (byte c AND 0x0F))"
    and "digit_value (hex_digit (drop_bit 4 (byte c))) 16 * 16 + digit_value (hex_digit (byte c AND 0x0F)) 16 = int (byte c)"
proof -
  have "list_all (\<lambda>n. is_ascii_xdigit (hex_digit n) \<and> digit_value (hex_digit n) 16 = int n) [0..<16]"
    by (simp add: upt_rec hex_digit_def is_ascii_xdigit_def digit_value_def is_digit_def)
  then have x: "is_ascii_xdigit (hex_digit n) \<and> digit_value (hex_digit n) 16 = int n" if "n < 16" for n
    using that by (simp add: list_all_iff del: upt_Suc)
  define n where "n = byte c"
  have n: "n < 256" using assms by (auto simp: n_def)
  have d: "drop_bit 4 n = n div 16" by (simp add: drop_bit_eq_div)
  have m: "n AND 0x0F = n mod 16" using take_bit_eq_mask [of 4 n] by (simp add: mask_eq_exp_minus_1 take_bit_eq_mod)
  have b: "n div 16 < 16" "n mod 16 < 16" using n by auto
  show "is_ascii_xdigit (hex_digit (drop_bit 4 (byte c)))" "is_ascii_xdigit (hex_digit (byte c AND 0x0F))"
    using x [OF b(1)] x [OF b(2)] by (simp_all add: n_def [symmetric] d m)
  show "digit_value (hex_digit (drop_bit 4 (byte c))) 16 * 16 + digit_value (hex_digit (byte c AND 0x0F)) 16 = int (byte c)"
    using x [OF b(1)] x [OF b(2)] by (simp only: n_def [symmetric] d m) (simp add: zdiv_int zmod_int)
qed

lemma append_unicode_control:
  assumes "byte c < 0x20 \<or> byte c = 0x7F"
    "ps_rest st = CHR ''u'' # CHR ''0'' # CHR ''0'' # hex_digit (drop_bit 4 (byte c)) # hex_digit (byte c AND 0x0F) # r"
  shows "\<exists>st'. append_unicode result st = Some (Inr (result @ [c], st')) \<and>
    ps_rest st' = hex_digit (byte c AND 0x0F) # r"
proof -
  define a b where "a = hex_digit (drop_bit 4 (byte c))" and "b = hex_digit (byte c AND 0x0F)"
  note h = hex_digits [OF assms(1), folded a_def b_def]
  have z: "is_ascii_xdigit (CHR ''0'')" "digit_value (CHR ''0'') 16 = 0"
    by (simp_all add: is_ascii_xdigit_def digit_value_def is_ascii_digit_def Let_def is_digit_def)
  have s: "ps_rest st = [CHR ''u'', CHR ''0'', CHR ''0'', a, b] @ r" using assms(2) by (simp add: a_def b_def)
  have c: "current_char st = CHR ''u''" using s by (simp add: current_char_def)
  have k: "escape_code_point st 4 = byte c"
    using h(3) by (simp add: escape_code_point_def s substr_def z(2))
  have x: "list_all (\<lambda>k. is_ascii_xdigit (peek_char st k)) [1..<4 + 1]"
    using h(1,2) z(1) by (simp add: peek_char_def s char_at_def upt_rec)
  have "append_unicode result st =
      (if (0xD800 \<le> byte c \<and> byte c \<le> 0xDFFF) \<or> byte c > 0x10FFFF then fail st ''Invalid unicode escape''
       else ok (append_utf8 result (byte c)) ((advance ^^ 4) st))"
    by (simp only: append_unicode_def c Let_def if_True x k not_True_eq_False if_False simp_thms)
  then have "append_unicode result st = ok (append_utf8 result (byte c)) ((advance ^^ 4) st)" using assms(1) by auto
  moreover have "append_utf8 result (byte c) = result @ [c]"
    using assms(1) by (auto simp: append_utf8_def)
  moreover have "ps_rest ((advance ^^ 4) st) = b # r" by (simp only: rest_advances s) simp
  ultimately show ?thesis by (simp add: b_def)
qed

lemma escape_char_not_quote: "escape_char c = x # s \<Longrightarrow> x \<noteq> QUOTE"
  by (auto simp: escape_char_def split: if_splits)

lemma escaped_step:
  assumes "ps_rest st = escape_char c @ t"
  shows "\<exists>st'. basic_string_loop kind result st = basic_string_loop kind (result @ [c]) st' \<and> ps_rest st' = t"
proof (cases "c = QUOTE \<or> c = BACKSLASH \<or> c = LF \<or> c = TAB \<or> c = CR \<or> c = CHR 0x08 \<or> c = CHR 0x0C \<or> is_forbidden_control c")
  case False
  then have "ps_rest st = c # t" using assms by (simp add: escape_char_def)
  then show ?thesis using False
    by (subst basic_string_loop.simps) (auto simp: current_char_def intro!: exI [of _ "advance st"])
next
  case True
  have "\<exists>x u. escape_char c = BACKSLASH # x # u"
    using True unfolding escape_char_def by (auto split: if_split)
  then obtain x u where e: "escape_char c = BACKSLASH # x # u" by blast
  define v where "v = advance st"
  have v: "ps_rest v = x # u @ t" using assms e by (simp add: v_def)
  have l: "basic_string_loop kind result st =
      then_do (append_escape result v) (\<lambda>result st. basic_string_loop kind result (advance st))"
    using assms e v by (subst basic_string_loop.simps) (simp add: current_char_def v_def Let_def)
  have "\<exists>st'. append_escape result v = Some (Inr (result @ [c], st')) \<and> tl (ps_rest st') = t"
  proof (cases "c = QUOTE \<or> c = BACKSLASH \<or> c = LF \<or> c = TAB \<or> c = CR \<or> c = CHR 0x08 \<or> c = CHR 0x0C")
    case True
    then show ?thesis using v e
      by (auto simp: escape_char_def append_escape_def current_char_def split: if_splits)
  next
    case False
    then have f: "is_forbidden_control c" using True by blast
    then have u: "x = CHR ''u''" "u = [CHR ''0'', CHR ''0'', hex_digit (drop_bit 4 (byte c)), hex_digit (byte c AND 0x0F)]"
      using False e by (auto simp: escape_char_def)
    obtain w where "append_unicode result v = Some (Inr (result @ [c], w))" "ps_rest w = hex_digit (byte c AND 0x0F) # t"
      using append_unicode_control [of c v t result] f v u by (auto simp: is_forbidden_control_def)
    then show ?thesis using v u(1) by (auto simp: append_escape_def current_char_def)
  qed
  then obtain w where w: "append_escape result v = Some (Inr (result @ [c], w))" "tl (ps_rest w) = t" by blast
  then show ?thesis unfolding l by (intro exI [of _ "advance w"]) simp
qed

lemma basic_string_escaped:
  "ps_rest st = escape_string s @ QUOTE # r \<Longrightarrow>
    \<exists>st'. basic_string_loop kind result st = Some (Inr (result @ s, st')) \<and> ps_rest st' = r"
proof (induction s arbitrary: result st)
  case Nil
  then show ?case
    by (subst basic_string_loop.simps) (auto simp: escape_string_concat current_char_def intro!: exI [of _ "advance st"])
next
  case (Cons c s)
  then obtain u where u: "basic_string_loop kind result st = basic_string_loop kind (result @ [c]) u"
    "ps_rest u = escape_string s @ QUOTE # r"
    using escaped_step [of st c "escape_string s @ QUOTE # r" kind result] by (auto simp: escape_string_concat)
  then show ?case using Cons(1) [OF u(2), of "result @ [c]"] by simp
qed

lemma reads_basic_string:
  "reads (parse_basic_string kind) (QUOTE # escape_string s @ [QUOTE]) r (\<lambda>x. x = s)"
proof (rule readsI)
  fix st :: parser
  assume a: "ps_rest st = (QUOTE # escape_string s @ [QUOTE]) @ r"
  then have "ps_rest (advance st) = escape_string s @ QUOTE # r" by simp
  then show "\<exists>x st'. parse_basic_string kind st = Some (Inr (x, st')) \<and> ps_rest st' = r \<and> x = s"
    using basic_string_escaped [of "advance st" s r kind "[]"] a by (auto simp: parse_basic_string_def current_char_def)
qed

lemma bare_key_reads:
  "list_all is_bare_key_char k \<Longrightarrow> ps_rest st = k @ r \<Longrightarrow> \<not> is_bare_key_char (char_at r 0) \<Longrightarrow>
    \<exists>st'. bare_key_loop result st = (result @ k, st') \<and> ps_rest st' = r"
proof (induction k arbitrary: result st)
  case Nil
  then show ?case by (subst bare_key_loop.simps) (auto simp: current_char_def)
next
  case (Cons c k)
  have "ps_rest (advance st) = k @ r" using Cons(3) by simp
  then obtain st' where "bare_key_loop (result @ [c]) (advance st) = ((result @ [c]) @ k, st')" "ps_rest st' = r"
    using Cons(1) [of "advance st" "result @ [c]"] Cons(2,4) by auto
  then show ?case using Cons(2,3) by (subst bare_key_loop.simps) (auto simp: current_char_def)
qed

lemma bare_not_quote: "is_bare_key_char c \<Longrightarrow> c \<noteq> QUOTE \<and> c \<noteq> APOSTROPHE"
  by (auto simp: is_bare_key_char_def is_ascii_alnum_def is_ascii_alpha_def is_digit_def)

lemma reads_key:
  assumes "\<not> is_bare_key_char (char_at r 0)"
  shows "reads parse_key (escape_key k) r (\<lambda>x. x = k)"
proof (cases "k = [] \<or> find_pos (\<lambda>ch. \<not> is_bare_key_char ch) k \<noteq> None")
  case True
  then have e: "escape_key k = QUOTE # escape_string k @ [QUOTE]" by (simp add: escape_key_def)
  show ?thesis
  proof (rule readsI)
    fix st :: parser
    assume a: "ps_rest st = escape_key k @ r"
    then have "parse_key st = parse_basic_string ''quoted key'' st"
      by (simp add: e parse_key_def parse_quoted_key_def current_char_def)
    then show "\<exists>x st'. parse_key st = Some (Inr (x, st')) \<and> ps_rest st' = r \<and> x = k"
      using a reads_basic_string [of "''quoted key''" k r] unfolding e reads_def by metis
  qed
next
  case False
  then have k: "k \<noteq> []" "list_all is_bare_key_char k" by (auto simp: find_pos_None list_all_iff)
  show ?thesis
  proof (rule readsI)
    fix st :: parser
    assume a: "ps_rest st = escape_key k @ r"
    then have s: "ps_rest st = k @ r" using False by (simp add: escape_key_def)
    have c: "is_bare_key_char (current_char st)" using k s by (cases k) (auto simp: current_char_def)
    then have "parse_key st = parse_bare_key st" using bare_not_quote by (auto simp: parse_key_def)
    then show "\<exists>x st'. parse_key st = Some (Inr (x, st')) \<and> ps_rest st' = r \<and> x = k"
      using bare_key_reads [OF k(2) s assms, of "[]"] by (auto simp: parse_bare_key_def)
  qed
qed

section \<open>Scalars\<close>

text \<open>What may come after a value.\<close>

definition delimits :: "string \<Rightarrow> bool" where
  "delimits r \<longleftrightarrow> r = [] \<or> hd r \<in> {CHR '','', CHR '']'', CHR ''}'', LF}"

lemma delimits_char: "delimits r \<Longrightarrow> char_at r 0 \<in> {NUL, CHR '','', CHR '']'', CHR ''}'', LF}"
  by (cases r) (auto simp: delimits_def)

lemma delimits_not:
  assumes "delimits r"
  shows "\<not> is_digit (char_at r 0)" "char_at r 0 \<noteq> CHR ''_''" "char_at r 0 \<noteq> CHR ''.''" "char_at r 0 \<noteq> CHR ''e''"
    "char_at r 0 \<noteq> CHR ''E''" "char_at r 0 \<noteq> CHR ''x''" "char_at r 0 \<noteq> CHR ''o''" "char_at r 0 \<noteq> CHR ''b''"
    "char_at r 0 \<noteq> CHR ''-''" "char_at r 0 \<noteq> CHR '':''" "char_at r 0 \<noteq> QUOTE"
  using delimits_char [OF assms] by (auto simp: is_digit_def)

lemma digit_value_10: "digit_value c 10 < 0 \<longleftrightarrow> \<not> is_digit c"
  by (auto simp: digit_value_def is_digit_def)

lemma read_digits_loop_reads:
  "list_all (\<lambda>d. 0 \<le> digit_value d base) ds \<Longrightarrow> ps_rest st = ds @ r \<Longrightarrow> digit_value (char_at r 0) base < 0 \<Longrightarrow>
    char_at r 0 \<noteq> CHR ''_'' \<Longrightarrow>
    \<exists>st'. read_digits_loop t base count st = Some (Inr ((t @ ds, count + length ds), st')) \<and> ps_rest st' = r"
proof (induction ds arbitrary: t count st)
  case Nil
  then show ?case by (subst read_digits_loop.simps) (simp add: current_char_def Let_def)
next
  case (Cons d ds)
  have u: "d \<noteq> CHR ''_''" using Cons(2) by (auto simp: digit_value_def is_digit_def)
  have c: "current_char st = d" "ps_rest (advance st) = ds @ r" using Cons(3) by (simp_all add: current_char_def)
  have "read_digits_loop t base count st = read_digits_loop (t @ [d]) base (count + 1) (advance st)"
    using u Cons(2) c(1) by (subst read_digits_loop.simps) (simp add: Let_def)
  then show ?case using Cons(1) [OF _ c(2) Cons(4,5), of "t @ [d]" "count + 1"] Cons(2) by simp
qed

lemma read_decimal_digits:
  assumes "all_digits ds" "ps_rest st = ds @ r" "\<not> is_digit (char_at r 0)" "char_at r 0 \<noteq> CHR ''_''"
  obtains st' where "read_digits t 10 st = Some (Inr ((t @ ds, length ds), st'))" "ps_rest st' = r"
proof -
  have "list_all (\<lambda>d. 0 \<le> digit_value d 10) ds" using assms(1) digit_value_10 by (force simp: list_all_iff not_less [symmetric])
  then show thesis
    using read_digits_loop_reads [of 10 ds st r t 0] assms(2-4) that by (auto simp: read_digits_def digit_value_10)
qed

lemma parse_decimal_reads:
  assumes "all_digits i" "no_leading_zero i" "all_digits f" "delimits r" "\<not> is_nan (storage_of (sg @ render i f))"
  shows "reads (parse_decimal sg) (render i f) r (\<lambda>v. v = Number (storage_of (sg @ render i f)))"
proof (rule readsI)
  fix st :: parser
  assume a: "ps_rest st = render i f @ r"
  note d = delimits_not [OF assms(4)]
  have i: "i \<noteq> []" using assms(2) by (simp add: no_leading_zero_def)
  have z: "\<not> (current_char st = CHR ''0'' \<and> 1 < length i)"
    using a i assms(2) by (cases i) (auto simp: current_char_def render_def no_leading_zero_def split: if_splits)
  show "\<exists>x st'. parse_decimal sg st = Some (Inr (x, st')) \<and> ps_rest st' = r \<and> x = Number (storage_of (sg @ render i f))"
  proof (cases "f = []")
    case True
    then have s: "ps_rest st = i @ r" using a by (simp add: render_def)
    obtain u where u: "read_digits sg 10 st = Some (Inr ((sg @ i, length i), u))" "ps_rest u = r"
      by (rule read_decimal_digits [OF assms(1) s d(1,2)])
    have c: "current_char u = char_at r 0" by (simp add: current_char_def u(2))
    show ?thesis using u z i assms(5) True d(3-5)
      by (simp add: parse_decimal_def parse_fraction_def parse_exponent_def c render_def ok_def)
  next
    case False
    then have s: "ps_rest st = i @ CHR ''.'' # f @ r" using a by (simp add: render_def)
    have n: "\<not> is_digit (char_at (CHR ''.'' # f @ r) 0)" "char_at (CHR ''.'' # f @ r) 0 \<noteq> CHR ''_''"
      by (simp_all add: is_digit_def)
    obtain u where u: "read_digits sg 10 st = Some (Inr ((sg @ i, length i), u))" "ps_rest u = CHR ''.'' # f @ r"
      by (rule read_decimal_digits [OF assms(1) s n])
    have v: "ps_rest (advance u) = f @ r" using u(2) by simp
    obtain w where w: "read_digits (sg @ i @ ''.'') 10 (advance u) = Some (Inr (((sg @ i @ ''.'') @ f, length f), w))" "ps_rest w = r"
      by (rule read_decimal_digits [OF assms(3) v d(1,2)])
    have e: "(sg @ i @ ''.'') @ f = sg @ render i f" using False by (simp add: render_def)
    have c: "current_char u = CHR ''.''" "current_char w = char_at r 0" by (simp_all add: current_char_def u(2) w(2))
    show ?thesis using u w [unfolded e] z i assms(5) False d(3-5)
      by (simp add: parse_decimal_def parse_fraction_def parse_exponent_def c ok_def)
  qed
qed

lemma no_integer_prefix:
  assumes "ps_rest st = render i f @ r" "no_leading_zero i" "delimits r"
  shows "\<not> at_integer_prefix st"
proof
  assume p: "at_integer_prefix st"
  then have "hd i = CHR ''0''" using assms(1,2)
    by (cases i) (auto simp: at_integer_prefix_def current_char_def render_def no_leading_zero_def split: if_splits)
  then have "i = ''0''" using assms(2) by (simp add: no_leading_zero_def)
  then show False using p assms(1) delimits_not [OF assms(3)]
    by (auto simp: at_integer_prefix_def peek_char_def render_def split: if_splits)
qed

lemma parse_number_reads:
  assumes "all_digits i" "no_leading_zero i" "all_digits f" "delimits r" "sg = [] \<or> sg = ''-''"
    "\<not> is_nan (storage_of (sg @ render i f))"
  shows "reads parse_number (sg @ render i f) r (\<lambda>v. v = Number (storage_of (sg @ render i f)))"
proof (rule readsI)
  fix st :: parser
  assume a: "ps_rest st = (sg @ render i f) @ r"
  note pd = parse_decimal_reads [OF assms(1-4,6), unfolded reads_def, rule_format]
  show "\<exists>x st'. parse_number st = Some (Inr (x, st')) \<and> ps_rest st' = r \<and> x = Number (storage_of (sg @ render i f))"
  proof (cases "sg = []")
    case True
    then have s: "ps_rest st = render i f @ r" using a by simp
    have "hd i \<noteq> CHR ''+'' \<and> hd i \<noteq> CHR ''-''" using assms(1,2) by (cases i) (auto simp: no_leading_zero_def is_digit_def)
    then have c: "current_char st \<noteq> CHR ''+''" "current_char st \<noteq> CHR ''-''"
      using s assms(2) by (cases i; auto simp: current_char_def render_def no_leading_zero_def split: if_splits)+
    have "parse_number st = parse_decimal sg st"
      using True c no_integer_prefix [OF s assms(2,4)] by (simp add: parse_number_def)
    then show ?thesis using pd [OF s] by simp
  next
    case False
    then have sg: "sg = ''-''" using assms(5) by simp
    have s: "ps_rest (advance st) = render i f @ r" using a by (simp add: sg)
    have c: "current_char st = CHR ''-''" using a by (simp add: current_char_def sg)
    have "parse_number st = parse_decimal sg (advance st)"
      using no_integer_prefix [OF s assms(2,4)] c by (simp add: parse_number_def at_integer_prefix_def [of st] Let_def sg)
    then show ?thesis using pd [OF s] by simp
  qed
qed

lemma number_output_shape:
  assumes "number_output n = Inr s" "number_ok n"
  obtains sg i f where "s = sg @ render i f" "all_digits i" "no_leading_zero i" "all_digits f" "sg = [] \<or> sg = ''-''"
    "st_number (storage_of s) = st_number n" "\<not> is_nan n"
proof -
  have nn: "\<not> is_nan n" using assms(1) by (auto simp: number_output_def)
  then have c: "canonical (st_number n)" using assms(2) by (auto simp: number_ok_def is_nan_def)
  then obtain sg i f where n: "st_number n = sg @ render i f" "canonical_parts i f" "sg = [] \<or> sg = ''-''"
    "sg = ''-'' \<longrightarrow> render i f \<noteq> ''0''" by (elim canonical_textE)
  have p: "all_digits i" "no_leading_zero i" "all_digits f" "i \<noteq> []" using n(2) by (auto simp: canonical_parts_def no_leading_zero_def)
  have s: "s = sg @ render i f \<or> f = [] \<and> s = sg @ render i ''0''"
    using assms(1) nn p(1,3) n(1,3)
    by (auto simp: number_output_def emit_def number_text_def is_integer_def find_pos_None render_def split: if_splits)
  show thesis
  proof (cases "s = sg @ render i f")
    case True
    then show thesis using that [OF _ p(1-3) n(3) _ nn] n(1) storage_of_stored(1) [of s] c by simp
  next
    case False
    then have f: "f = []" "s = sg @ render i ''0''" using s by blast+
    have z: "all_digits ''0''" by (simp add: is_digit_def)
    have "strip_leading i = i" using p(2) n(2) by (simp add: canonical_parts_def strip_leading_id)
    then have "canonical_text s = (if sg = ''-'' \<and> i \<noteq> ''0'' then CHR ''-'' # i else i)"
      using canonical_text_sign [OF p(1,4) z, of sg] n(3) unfolding f(2) by (auto simp: render_def strip_end_def Let_def)
    also have "\<dots> = st_number n" using n(1,3,4) f(1) by (auto simp: render_def)
    finally show thesis using that [OF f(2) p(1,2) z n(3) _ nn] by (simp add: storage_of_def)
  qed
qed

section \<open>Datetimes\<close>

definition takes :: "(string \<times> parser \<Rightarrow> (string \<times> parser) option) \<Rightarrow> string \<Rightarrow> string \<Rightarrow> bool" where
  "takes f s r \<longleftrightarrow> (\<forall>t st. ps_rest st = s @ r \<longrightarrow> (\<exists>st'. f (t, st) = Some (t @ s, st') \<and> ps_rest st' = r))"

lemma takesE:
  assumes "takes f s r" "ps_rest st = s @ r"
  obtains st' where "f (t, st) = Some (t @ s, st')" "ps_rest st' = r"
  using assms by (auto simp: takes_def)

lemma takes_then: "takes f s (s' @ r) \<Longrightarrow> takes g s' r \<Longrightarrow> takes (\<lambda>x. then_take (f x) g) (s @ s') r"
  unfolding takes_def then_take_def by (metis (no_types, lifting) append.assoc option.case(2))

lemma takes_char: "takes (take_char c) [c] r"
  by (auto simp: takes_def take_char_def current_char_def intro!: exI [of _ "advance _"])

lemma digits_ahead_iff: "digits_ahead st k n \<longleftrightarrow> (\<forall>j < n. is_digit (char_at (ps_rest st) (k + j)))"
  by (auto simp: digits_ahead_def list_all_iff peek_char_def)

lemma takes_digits:
  assumes "all_digits ds" "length ds = n"
  shows "takes (take_digits n) ds r"
proof -
  have l: "\<exists>st'. ((\<lambda>(t, st). (t @ [current_char st], advance st)) ^^ length ds) (t, st) = (t @ ds, st') \<and> ps_rest st' = r"
    if "ps_rest st = ds @ r" for t st
    using that
  proof (induction ds arbitrary: t st)
    case (Cons d ds)
    have "ps_rest (advance st) = ds @ r" "current_char st = d" using Cons(2) by (simp_all add: current_char_def)
    then show ?case using Cons(1) [of "advance st" "t @ [d]"] by (auto simp: funpow_swap1)
  qed simp
  have "digits_ahead st 0 n" if "ps_rest st = ds @ r" for st :: parser
    using that assms by (auto simp: digits_ahead_iff char_at_def nth_append)
  then show ?thesis using l assms(2) by (auto simp: takes_def take_digits_def)
qed

lemma take_fraction_reads:
  "all_digits ds \<Longrightarrow> ps_rest st = ds @ r \<Longrightarrow> \<not> is_digit (char_at r 0) \<Longrightarrow>
    \<exists>st'. take_fraction (t, st) = (t @ ds, st') \<and> ps_rest st' = r"
proof (induction ds arbitrary: t st)
  case Nil
  then show ?case by (subst take_fraction.simps) (simp add: current_char_def)
next
  case (Cons d ds)
  have "ps_rest (advance st) = ds @ r" "current_char st = d" using Cons(3) by (simp_all add: current_char_def)
  then show ?case using Cons(1) [of "advance st" "t @ [d]"] Cons(2,4) by (subst take_fraction.simps) auto
qed

lemma takes_date:
  assumes "all_digits [y1, y2, y3, y4, m1, m2, d1, d2]"
  shows "takes take_date [y1, y2, y3, y4, CHR ''-'', m1, m2, CHR ''-'', d1, d2] r"
proof -
  have "takes take_date (((([y1, y2, y3, y4] @ ''-'') @ [m1, m2]) @ ''-'') @ [d1, d2]) r"
    unfolding take_date_def [abs_def]
    by (intro takes_then takes_digits takes_char) (use assms in auto)
  then show ?thesis by simp
qed

lemma takes_time:
  assumes "all_digits [h1, h2, i1, i2, e1, e2]"
  shows "takes take_time [h1, h2, CHR '':'', i1, i2, CHR '':'', e1, e2] r"
proof -
  have "takes take_time (((([h1, h2] @ '':'') @ [i1, i2]) @ '':'') @ [e1, e2]) r"
    unfolding take_time_def [abs_def]
    by (intro takes_then takes_digits takes_char) (use assms in auto)
  then show ?thesis by simp
qed

lemma takes_offset:
  assumes "all_digits [a, b, c, d]"
  shows "takes take_offset [sign, a, b, CHR '':'', c, d] r"
proof -
  have s: "takes (\<lambda>s. take_char (current_char (snd s)) s) [sign] u" for u
    by (auto simp: takes_def take_char_def current_char_def intro!: exI [of _ "advance _"])
  have "takes take_offset ((([sign] @ [a, b]) @ '':'') @ [c, d]) r"
    unfolding take_offset_def [abs_def]
    by (intro takes_then takes_digits takes_char s) (use assms in auto)
  then show ?thesis by simp
qed

text \<open>The shape of a timestamp's text.\<close>

lemma format_iso8601_shape:
  assumes "timestamp_ok t"
  obtains y1 y2 y3 y4 m1 m2 d1 d2 h1 h2 i1 i2 e1 e2 f z where
    "format_iso8601 t = [y1, y2, y3, y4, CHR ''-'', m1, m2, CHR ''-'', d1, d2] @ ''T'' @
       [h1, h2, CHR '':'', i1, i2, CHR '':'', e1, e2] @ f @ z"
    "all_digits [y1, y2, y3, y4, m1, m2, d1, d2]" "all_digits [h1, h2, i1, i2, e1, e2]"
    "f = [] \<or> (\<exists>ds. f = CHR ''.'' # ds \<and> all_digits ds)"
    "z = ''Z'' \<or> (\<exists>sign a b c d. z = [sign, a, b, CHR '':'', c, d] \<and> (sign = CHR ''+'' \<or> sign = CHR ''-'') \<and> all_digits [a, b, c, d])"
proof -
  define s where "s = ts_since_midnight t"
  have o: "civil_ok (ts_date t)" "0 \<le> c_year (ts_date t)" "c_year (ts_date t) \<le> 9999"
    "timezone_ok (ts_timezone t)" "0 \<le> s" "s < 86400 * ns_per_second"
    using assms by (simp_all add: timestamp_ok_def s_def)
  note hms = hms_bounds [OF o(5,6)] and md = civil_ok_ranges [OF o(1)]
  obtain y1 y2 y3 y4 where y: "setw 4 (nat (c_year (ts_date t))) = [y1, y2, y3, y4]" "all_digits [y1, y2, y3, y4]"
    using setw_4_text [of "c_year (ts_date t)"] o(2,3) by auto
  obtain m1 m2 where m: "setw 2 (nat (c_month (ts_date t))) = [m1, m2]" "all_digits [m1, m2]"
    using setw_2_text [of "c_month (ts_date t)"] md by auto
  obtain d1 d2 where d: "setw 2 (nat (c_day (ts_date t))) = [d1, d2]" "all_digits [d1, d2]"
    using setw_2_text [of "c_day (ts_date t)"] md by auto
  obtain h1 h2 where h: "setw 2 (nat (time_hour s)) = [h1, h2]" "all_digits [h1, h2]"
    using setw_2_text [of "time_hour s"] hms(1,2) by auto
  obtain i1 i2 where i: "setw 2 (nat (time_minute s)) = [i1, i2]" "all_digits [i1, i2]"
    using setw_2_text [of "time_minute s"] hms(3,4) by auto
  obtain e1 e2 where e: "setw 2 (nat (time_second s)) = [e1, e2]" "all_digits [e1, e2]"
    using setw_2_text [of "time_second s"] hms(5,6) by auto
  have f: "fraction_text (subseconds t) = [] \<or> (\<exists>ds. fraction_text (subseconds t) = CHR ''.'' # ds \<and> all_digits ds)"
    using fraction_text_digits [of "subseconds t"] subseconds_bounds [of t]
    by (cases "subseconds t = 0") (auto simp: fraction_text_def [of 0])
  have z: "timezone_format (ts_timezone t) = ''Z'' \<or> (\<exists>sign a b c d. timezone_format (ts_timezone t) = [sign, a, b, CHR '':'', c, d] \<and>
      (sign = CHR ''+'' \<or> sign = CHR ''-'') \<and> all_digits [a, b, c, d])"
    using timezone_format_cases [OF o(4)] by blast
  show thesis
    by (rule that [of y1 y2 y3 y4 m1 m2 d1 d2 h1 h2 i1 i2 e1 e2 "fraction_text (subseconds t)" "timezone_format (ts_timezone t)", OF _ _ _ f z])
      (use y(2) m(2) d(2) h(2) i(2) e(2) in
        \<open>simp_all add: format_iso8601_def date_text_def time_text_def year_digits_def s_def [symmetric] y(1) m(1) d(1) h(1) i(1) e(1)\<close>)
qed

lemma datetime_ends:
  assumes "f = [] \<or> (\<exists>ds. f = CHR ''.'' # ds \<and> all_digits ds)" "ps_rest st = f @ z @ r" "z \<noteq> []"
    "\<not> is_digit (hd z)" "hd z \<noteq> CHR ''.''"
  shows "\<exists>st'. (case take_char (CHR ''.'') (t, st) of Some s \<Rightarrow> take_fraction s | None \<Rightarrow> (t, st)) = (t @ f, st') \<and> ps_rest st' = z @ r"
proof (cases "f = []")
  case True
  then show ?thesis using assms(2,3,5) by (cases z) (auto simp: take_char_def current_char_def)
next
  case False
  then obtain ds where f: "f = CHR ''.'' # ds" "all_digits ds" using assms(1) by blast
  have "ps_rest (advance st) = ds @ z @ r" using assms(2) f(1) by simp
  moreover have "\<not> is_digit (char_at (z @ r) 0)" using assms(3,4) by (cases z) auto
  ultimately obtain st' where "take_fraction (t @ ''.'', advance st) = ((t @ ''.'') @ ds, st')" "ps_rest st' = z @ r"
    using take_fraction_reads [OF f(2)] by blast
  then show ?thesis using assms(2) f(1) by (auto simp: take_char_def current_char_def)
qed

lemma reads_datetime:
  assumes "timestamp_ok ts"
  shows "reads parse_datetime (format_iso8601 ts) r (\<lambda>v. v = Timestamp ts)"
proof (rule readsI)
  fix st :: parser
  assume a: "ps_rest st = format_iso8601 ts @ r"
  obtain y1 y2 y3 y4 m1 m2 d1 d2 h1 h2 i1 i2 e1 e2 f z where s:
    "format_iso8601 ts = [y1, y2, y3, y4, CHR ''-'', m1, m2, CHR ''-'', d1, d2] @ ''T'' @
       [h1, h2, CHR '':'', i1, i2, CHR '':'', e1, e2] @ f @ z"
    "all_digits [y1, y2, y3, y4, m1, m2, d1, d2]" "all_digits [h1, h2, i1, i2, e1, e2]"
    "f = [] \<or> (\<exists>ds. f = CHR ''.'' # ds \<and> all_digits ds)"
    "z = ''Z'' \<or> (\<exists>sign a b c d. z = [sign, a, b, CHR '':'', c, d] \<and> (sign = CHR ''+'' \<or> sign = CHR ''-'') \<and> all_digits [a, b, c, d])"
    by (rule format_iso8601_shape [OF assms])
  define D where "D = [y1, y2, y3, y4, CHR ''-'', m1, m2, CHR ''-'', d1, d2]"
  define E where "E = [h1, h2, CHR '':'', i1, i2, CHR '':'', e1, e2]"
  have t: "format_iso8601 ts = D @ ''T'' @ E @ f @ z" using s(1) by (simp add: D_def E_def)
  have ps: "ps_rest st = D @ (''T'' @ E @ f @ z @ r)" using a t by simp
  have at: "\<not> at_time st" using s(2) by (auto simp: at_time_def peek_char_def ps D_def is_digit_def numeral_2_eq_2)
  obtain u where u: "take_date ([], st) = Some ([] @ D, u)" "ps_rest u = ''T'' @ E @ f @ z @ r"
    by (rule takesE [OF takes_date [OF s(2), folded D_def] ps])
  have tf: "time_follows u" using u(2) by (simp add: time_follows_def current_char_def)
  have v0: "ps_rest (advance u) = E @ (f @ z @ r)" using u(2) by simp
  define T where "T = (D @ ''T'') @ E"
  obtain v where v: "take_time (D @ ''T'', advance u) = Some (T, v)" "ps_rest v = f @ z @ r"
    unfolding T_def by (rule takesE [OF takes_time [OF s(3), folded E_def] v0])
  have z: "z \<noteq> []" "\<not> is_digit (hd z)" "hd z \<noteq> CHR ''.''" using s(5) by (auto simp: is_digit_def)
  obtain w where w: "(case take_char (CHR ''.'') (T, v) of Some s \<Rightarrow> take_fraction s | None \<Rightarrow> (T, v)) = (T @ f, w)" "ps_rest w = z @ r"
    using datetime_ends [OF s(4) v(2) z] by blast
  have fs: "from_string (T @ f @ z) = Some ts" using from_string_format [OF assms] by (simp add: t T_def)
  show "\<exists>x st'. parse_datetime st = Some (Inr (x, st')) \<and> ps_rest st' = r \<and> x = Timestamp ts"
  proof (cases "z = ''Z''")
    case True
    then have "current_char w = CHR ''Z''" "ps_rest (advance w) = r" using w(2) by (simp_all add: current_char_def)
    then show ?thesis
      using at u(1) tf v(1) w(1) fs True by (simp add: parse_datetime_def ok_def Let_def)
  next
    case False
    then obtain sign a b c d where o: "z = [sign, a, b, CHR '':'', c, d]" "sign = CHR ''+'' \<or> sign = CHR ''-''" "all_digits [a, b, c, d]"
      using s(5) by blast
    obtain x where x: "take_offset (T @ f, w) = Some ((T @ f) @ z, x)" "ps_rest x = r"
      by (rule takesE [OF takes_offset [OF o(3), of sign, folded o(1)] w(2)])
    have "current_char w = sign" using w(2) o(1) by (simp add: current_char_def)
    then show ?thesis
      using at u(1) tf v(1) w(1) fs x o(2) by (auto simp: parse_datetime_def ok_def Let_def)
  qed
qed

end
