(* ===== verification/Toml_Roundtrip.thy ===== *)
theory Toml_Roundtrip
  imports Toml_Reads
begin

text \<open>
  What the serializer writes for a value, the parser reads as an equal value, and it stops where
  the text of the value ends: the dispatch on the first character, the scalars, and arrays and
  inline tables by induction on the value.
\<close>

section \<open>Blanks\<close>

text \<open>The characters that begin a value, and those that no blank or comment begins with.\<close>

definition begins_value :: "char \<Rightarrow> bool" where
  "begins_value c \<longleftrightarrow> c \<in> {QUOTE, CHR ''['', CHR ''{'', CHR ''t'', CHR ''f'', CHR ''-''} \<or> is_digit c"

definition solid :: "char \<Rightarrow> bool" where
  "solid c \<longleftrightarrow> c \<notin> {CHR '' '', TAB, CR, LF, CHR ''#''}"

lemma solid_simps [simp]:
  "solid (CHR '','')" "solid (CHR '']'')" "solid (CHR ''}'')" "solid (CHR ''='')" "solid (CHR ''['')"
  by (simp_all add: solid_def)

lemma begins_solid: "begins_value c \<Longrightarrow> solid c"
  by (auto simp: begins_value_def solid_def is_digit_def)

lemma begins_not: "begins_value c \<Longrightarrow> c \<noteq> CHR '']'' \<and> c \<noteq> CHR ''}'' \<and> c \<noteq> CHR '',''"
  by (auto simp: begins_value_def is_digit_def)

lemma skip_solid:
  assumes "ps_rest st = c # s" "solid c"
  shows "skip_whitespace st = st" "skip_whitespace_and_comments st = st"
proof -
  have c: "current_char st = c" using assms(1) by (simp add: current_char_def)
  show w: "skip_whitespace st = st"
    using assms(2) by (subst skip_whitespace.simps) (auto simp: c solid_def is_blank_def)
  show "skip_whitespace_and_comments st = st"
    using assms by (subst skip_whitespace_and_comments.simps) (auto simp: skip_line_def w c solid_def)
qed

lemma skip_space:
  assumes "ps_rest st = CHR '' '' # c # s" "solid c"
  shows "skip_whitespace st = advance st" "skip_whitespace_and_comments st = advance st"
proof -
  have a: "ps_rest (advance st) = c # s" using assms(1) by simp
  have c: "current_char st = CHR '' ''" "current_char (advance st) = c" using assms(1) by (simp_all add: current_char_def)
  show w: "skip_whitespace st = advance st"
    using skip_solid(1) [OF a assms(2)] by (subst skip_whitespace.simps) (simp add: c is_blank_def)
  show "skip_whitespace_and_comments st = advance st"
    using assms by (subst skip_whitespace_and_comments.simps) (auto simp: skip_line_def w c solid_def)
qed

section \<open>The dispatch on the first character\<close>

lemma not_inf_or_nan:
  assumes "ps_rest st = c # s" "begins_value c" "c = CHR ''-'' \<longrightarrow> s \<noteq> [] \<and> is_digit (hd s)"
  shows "\<not> at_inf_or_nan st"
proof (cases "c = CHR ''-''")
  case True
  then obtain d u where s: "s = d # u" "is_digit d" using assms(3) by (cases s) auto
  then show ?thesis using True assms(1)
    by (auto simp: at_inf_or_nan_def current_char_def str_compare_eq_0 substr_def is_digit_def)
next
  case False
  then show ?thesis using assms(1,2)
    by (auto simp: at_inf_or_nan_def current_char_def str_compare_eq_0 substr_def begins_value_def is_digit_def)
qed

lemma value_dispatch:
  assumes "ps_rest st = c # s" "begins_value c" "c = CHR ''-'' \<longrightarrow> s \<noteq> [] \<and> is_digit (hd s)"
  shows "c = QUOTE \<Longrightarrow> \<not> (char_at s 0 = QUOTE \<and> char_at s 1 = QUOTE) \<Longrightarrow>
      parse_value (Suc n) st = to_text_value (parse_basic_string ''string'' st)"
    "c = CHR ''['' \<Longrightarrow> parse_value (Suc n) st = parse_array n st"
    "c = CHR ''{'' \<Longrightarrow> parse_value (Suc n) st = parse_inline_table n st"
    "c = CHR ''t'' \<or> c = CHR ''f'' \<Longrightarrow> parse_value (Suc n) st = parse_boolean st"
    "is_digit c \<and> at_date st \<Longrightarrow> parse_value (Suc n) st = parse_datetime st"
    "is_digit c \<or> c = CHR ''-'' \<Longrightarrow> \<not> at_date st \<Longrightarrow> \<not> at_time st \<Longrightarrow> parse_value (Suc n) st = parse_number st"
proof -
  have w: "skip_whitespace st = st" by (rule skip_solid [OF assms(1) begins_solid [OF assms(2)]])
  have c: "current_char st = c" using assms(1) by (simp add: current_char_def)
  have p: "peek_char st 1 = char_at s 0" "peek_char st 2 = char_at s 1" "peek_char st (Suc 0) = char_at s 0"
    using assms(1) by (simp_all add: peek_char_def numeral_2_eq_2)
  note i = not_inf_or_nan [OF assms]
  show "c = QUOTE \<Longrightarrow> \<not> (char_at s 0 = QUOTE \<and> char_at s 1 = QUOTE) \<Longrightarrow>
      parse_value (Suc n) st = to_text_value (parse_basic_string ''string'' st)"
  proof -
    assume q: "c = QUOTE" and n: "\<not> (char_at s 0 = QUOTE \<and> char_at s 1 = QUOTE)"
    then have "\<not> (peek_char st 1 = QUOTE \<and> peek_char st 2 = QUOTE)" by (simp only: p not_False_eq_True)
    then show ?thesis unfolding parse_value.simps Let_def w c q using i by auto
  qed
  have b: "parse_value (Suc n) st =
      (if c = CHR ''['' then parse_array n st
       else if c = CHR ''{'' then parse_inline_table n st
       else if c = CHR ''t'' \<or> c = CHR ''f'' then parse_boolean st
       else if at_date st \<or> at_time st then parse_datetime st
       else if is_ascii_digit c \<or> c = CHR ''-'' \<or> c = CHR ''+'' then parse_number st
       else fail st ''Invalid value format'')" if "c \<noteq> QUOTE" "c \<noteq> APOSTROPHE"
    unfolding parse_value.simps Let_def w c using i that by (simp only: if_False simp_thms)
  show "c = CHR ''['' \<Longrightarrow> parse_value (Suc n) st = parse_array n st"
    "c = CHR ''{'' \<Longrightarrow> parse_value (Suc n) st = parse_inline_table n st"
    "c = CHR ''t'' \<or> c = CHR ''f'' \<Longrightarrow> parse_value (Suc n) st = parse_boolean st"
    by (subst b; force)+
  have d: "c \<notin> {QUOTE, APOSTROPHE, CHR ''['', CHR ''{'', CHR ''t'', CHR ''f''}" if "is_digit c \<or> c = CHR ''-''"
    using that by (auto simp: is_digit_def)
  show "is_digit c \<and> at_date st \<Longrightarrow> parse_value (Suc n) st = parse_datetime st"
    "is_digit c \<or> c = CHR ''-'' \<Longrightarrow> \<not> at_date st \<Longrightarrow> \<not> at_time st \<Longrightarrow> parse_value (Suc n) st = parse_number st"
    using d by (subst b; force)+
qed

section \<open>Scalar values\<close>

definition value_reads :: "val \<Rightarrow> bool" where
  "value_reads v \<longleftrightarrow> (\<forall>s r. val_ok v \<longrightarrow> serialize_value v = Inr s \<longrightarrow> delimits r \<longrightarrow>
     (\<exists>N. \<forall>n \<ge> N. reads (parse_value n) s r (val_equals v)))"

lemma value_readsI:
  assumes "\<And>s r st n. val_ok v \<Longrightarrow> serialize_value v = Inr s \<Longrightarrow> delimits r \<Longrightarrow> ps_rest st = s @ r \<Longrightarrow>
    \<exists>w st'. parse_value (Suc n) st = Some (Inr (w, st')) \<and> ps_rest st' = r \<and> val_equals v w"
  shows "value_reads v"
  unfolding value_reads_def
proof (intro allI impI)
  fix s r
  assume v: "val_ok v" "serialize_value v = Inr s" "delimits r"
  have "reads (parse_value n) s r (val_equals v)" if "Suc 0 \<le> n" for n
    using that assms [OF v] by (cases n) (auto intro: readsI)
  then show "\<exists>N. \<forall>n \<ge> N. reads (parse_value n) s r (val_equals v)" by blast
qed

lemma string_reads: "value_reads (String x)"
proof (rule value_readsI)
  fix s r n and st :: parser
  assume "serialize_value (String x) = Inr s" "delimits r" "ps_rest st = s @ r"
  then have s: "s = QUOTE # escape_string (ss_buffer x) @ [QUOTE]" and r: "char_at r 0 \<noteq> QUOTE"
    and ps: "ps_rest st = QUOTE # (escape_string (ss_buffer x) @ QUOTE # r)"
    by (auto simp: emit_def delimits_not)
  have "\<not> (char_at (escape_string (ss_buffer x) @ QUOTE # r) 0 = QUOTE \<and>
      char_at (escape_string (ss_buffer x) @ QUOTE # r) 1 = QUOTE)"
  proof (cases "ss_buffer x")
    case Nil
    then show ?thesis using r by (simp add: escape_string_concat)
  next
    case (Cons c cs)
    obtain a as where "escape_char c = a # as" by (cases "escape_char c") (auto simp: escape_char_def split: if_splits)
    then show ?thesis using escape_char_not_quote [of c a as] by (simp add: Cons escape_string_concat)
  qed
  then have d: "parse_value (Suc n) st = to_text_value (parse_basic_string ''string'' st)"
    using value_dispatch(1) [OF ps] by (simp add: begins_value_def)
  have "ps_rest st = (QUOTE # escape_string (ss_buffer x) @ [QUOTE]) @ r" using ps by simp
  then obtain st' where "parse_basic_string ''string'' st = Some (Inr (ss_buffer x, st'))" "ps_rest st' = r"
    using reads_basic_string [of "''string''" "ss_buffer x" r] by (auto simp: reads_def)
  then show "\<exists>w st'. parse_value (Suc n) st = Some (Inr (w, st')) \<and> ps_rest st' = r \<and> val_equals (String x) w"
    unfolding d by (cases x) (simp add: to_text_value_def ok_def string_of_def string_equals_def)
qed

lemma boolean_reads: "value_reads (Boolean b)"
proof (rule value_readsI)
  fix s r n and st :: parser
  assume a: "serialize_value (Boolean b) = Inr s" "ps_rest st = s @ r"
  then have s: "s = (if bs_value b then ''true'' else ''false'')" by (simp add: emit_def)
  obtain c u where cu: "s = c # u" "c = CHR ''t'' \<or> c = CHR ''f''" unfolding s by (cases "bs_value b") auto
  have d: "parse_value (Suc n) st = parse_boolean st"
    using value_dispatch(4) [of st c "u @ r"] a(2) cu by (auto simp: begins_value_def)
  show "\<exists>w st'. parse_value (Suc n) st = Some (Inr (w, st')) \<and> ps_rest st' = r \<and> val_equals (Boolean b) w"
    unfolding d using a(2) unfolding s
    by (cases "bs_value b") (simp_all add: parse_boolean_def substr_def move_by_def ok_def boolean_of_bool_def boolean_equals_def)
qed

lemma timestamp_reads: "value_reads (Timestamp t)"
proof (rule value_readsI)
  fix s r n and st :: parser
  assume a: "val_ok (Timestamp t)" "serialize_value (Timestamp t) = Inr s" "ps_rest st = s @ r"
  have ok: "timestamp_ok t" and s: "s = format_iso8601 t" using a(1,2) by (simp_all add: emit_def)
  obtain y1 y2 y3 y4 m1 m2 d1 d2 h1 h2 i1 i2 e1 e2 f z where
    y0: "format_iso8601 t = [y1, y2, y3, y4, CHR ''-'', m1, m2, CHR ''-'', d1, d2] @ ''T'' @
       [h1, h2, CHR '':'', i1, i2, CHR '':'', e1, e2] @ f @ z" "all_digits [y1, y2, y3, y4, m1, m2, d1, d2]"
    by (rule format_iso8601_shape [OF ok])
  define u where "u = tl (tl (tl (tl (tl (format_iso8601 t)))))"
  have y: "format_iso8601 t = [y1, y2, y3, y4, CHR ''-''] @ u" "all_digits [y1, y2, y3, y4]" using y0 by (simp_all add: u_def)
  have "at_date st" using y a(3) by (auto simp: at_date_def digits_ahead_iff peek_char_def s less_Suc_eq numeral_eq_Suc)
  then have d: "parse_value (Suc n) st = parse_datetime st"
    using value_dispatch(5) [of st y1 "y2 # y3 # y4 # CHR ''-'' # u @ r"] a(3) y
    by (auto simp: begins_value_def s is_digit_def)
  show "\<exists>w st'. parse_value (Suc n) st = Some (Inr (w, st')) \<and> ps_rest st' = r \<and> val_equals (Timestamp t) w"
    unfolding d using reads_datetime [OF ok, of r] a(3) equals_refl(1) [OF a(1)] unfolding s reads_def by blast
qed

lemma number_reads: "value_reads (Number x)"
proof (rule value_readsI)
  fix s r n and st :: parser
  assume a: "val_ok (Number x)" "serialize_value (Number x) = Inr s" "delimits r" "ps_rest st = s @ r"
  have ok: "number_ok x" and o: "number_output x = Inr s" using a(1,2) by simp_all
  obtain sg i f where s: "s = sg @ render i f" "all_digits i" "no_leading_zero i" "all_digits f" "sg = [] \<or> sg = ''-''"
    "st_number (storage_of s) = st_number x" "\<not> is_nan x" by (rule number_output_shape [OF o ok])
  have nn: "\<not> is_nan (storage_of (sg @ render i f))" using s(1,6,7) by (simp add: is_nan_def)
  have i: "i \<noteq> []" using s(3) by (simp add: no_leading_zero_def)
  obtain c u where cu: "s = c # u" by (cases s) (use s(1) i in \<open>auto simp: render_def split: if_splits\<close>)
  have b: "begins_value c" "c = CHR ''-'' \<longrightarrow> u @ r \<noteq> [] \<and> is_digit (hd (u @ r))" "is_digit c \<or> c = CHR ''-''"
    using cu s(1,2,5) i by (cases i; auto simp: begins_value_def render_def is_digit_def split: if_splits)+
  have in_s: "\<forall>c \<in> set (tl s). is_digit c \<or> c = CHR ''.''"
    using s(1,2,4,5) by (cases i) (auto simp: render_def i split: if_splits)
  have tail: "char_at (s @ r) k \<noteq> CHR ''-'' \<and> char_at (s @ r) k \<noteq> CHR '':''"
    if "0 < k" "\<forall>j < k. is_digit (char_at (s @ r) j)" for k
  proof -
    have "k \<le> length s"
    proof (rule ccontr)
      assume "\<not> k \<le> length s"
      then have "is_digit (char_at (s @ r) (length s))" using that(2) by simp
      moreover have "char_at (s @ r) (length s) = char_at r 0" by (simp add: char_at_def nth_append)
      ultimately show False using delimits_not(1) [OF a(3)] by simp
    qed
    then consider "k < length s" | "k = length s" by linarith
    then show ?thesis
    proof cases
      case 1
      then have "char_at (s @ r) k = tl s ! (k - 1)" using that(1) by (simp add: char_at_def nth_append nth_tl)
      moreover have "tl s ! (k - 1) \<in> set (tl s)" using 1 that(1) by (intro nth_mem) simp
      ultimately show ?thesis using in_s by (auto simp: is_digit_def)
    next
      case 2
      then have "char_at (s @ r) k = char_at r 0" by (simp add: char_at_def nth_append)
      then show ?thesis using delimits_not [OF a(3)] by simp
    qed
  qed
  have "\<not> at_date st" "\<not> at_time st"
    using tail [of 4] tail [of 2] by (auto simp: at_date_def at_time_def digits_ahead_iff peek_char_def a(4))
  then have d: "parse_value (Suc n) st = parse_number st"
    using value_dispatch(6) [of st c "u @ r"] a(4) b by (simp add: cu)
  obtain st' where p: "parse_number st = Some (Inr (Number (storage_of s), st'))" "ps_rest st' = r"
    using parse_number_reads [OF s(2-4) a(3) s(5) nn] a(4) unfolding s(1) reads_def by blast
  have "number_equals x (storage_of s)"
    using ok s(6) by (simp add: number_equals_value storage_of_ok number_value_inject)
  then show "\<exists>w st'. parse_value (Suc n) st = Some (Inr (w, st')) \<and> ps_rest st' = r \<and> val_equals (Number x) w"
    using d p by simp
qed

section \<open>Arrays\<close>

lemma written_begins:
  assumes "serialize_value v = Inr s" "val_ok v"
  obtains c t where "s = c # t" "begins_value c"
proof (cases v)
  case (Number x)
  have "number_output x = Inr s" "number_ok x" using assms by (simp_all add: Number)
  then obtain sg i f where s: "s = sg @ render i f" "all_digits i" "no_leading_zero i" "sg = [] \<or> sg = ''-''"
    using number_output_shape by metis
  then show thesis
    by (cases i) (auto simp: no_leading_zero_def render_def begins_value_def split: if_splits intro: that)
next
  case (Timestamp t)
  then have ok: "timestamp_ok t" and s: "s = format_iso8601 t" using assms by (simp_all add: emit_def)
  obtain y1 y2 y3 y4 m1 m2 d1 d2 h1 h2 i1 i2 e1 e2 f z where
    y: "format_iso8601 t = [y1, y2, y3, y4, CHR ''-'', m1, m2, CHR ''-'', d1, d2] @ ''T'' @
       [h1, h2, CHR '':'', i1, i2, CHR '':'', e1, e2] @ f @ z" "all_digits [y1, y2, y3, y4, m1, m2, d1, d2]"
    by (rule format_iso8601_shape [OF ok])
  then show thesis using that [of y1 "tl s"] by (simp add: s begins_value_def)
next
  case (Boolean b)
  then have "s = (if bs_value b then ''true'' else ''false'')" using assms by (simp add: emit_def)
  then show thesis using that [of "hd s" "tl s"] by (auto simp: begins_value_def)
next
  case (String x)
  then show thesis using that [of QUOTE "tl s"] assms by (auto simp: emit_def begins_value_def)
next
  case (Array arr)
  then show thesis using that [of "CHR ''[''" "tl s"] assms(1) by (auto simp: append_output_Inr emit_def begins_value_def)
next
  case (Dictionary d)
  then show thesis using that [of "CHR ''{''" "tl s"] assms(1) by (auto simp: append_output_Inr emit_def begins_value_def)
qed (use assms in simp_all)

definition array_tail :: "nat \<Rightarrow> val list \<Rightarrow> parser \<Rightarrow> val parse" where
  "array_tail n result st =
     (let st = skip_whitespace_and_comments st
      in if current_char st = CHR '',''
         then (let st = skip_whitespace_and_comments (advance st)
               in if current_char st = CHR '']'' then ok (Array result) (advance st) else array_loop n result st)
         else if current_char st = CHR '']'' then ok (Array result) (advance st)
         else fail st (''Expected '' @ [APOSTROPHE] @ '','' @ [APOSTROPHE] @ '' or '' @ [APOSTROPHE] @ '']'' @ [APOSTROPHE]))"

lemma array_loop_Suc: "array_loop (Suc n) result st = then_do (parse_value n st) (\<lambda>v. array_tail n (array_append result v))"
  by (simp only: array_loop.simps array_tail_def [abs_def] Let_def)

lemma reads_then:
  assumes "reads f s (t @ r) P" "\<And>x. P x \<Longrightarrow> reads (g x) t r Q"
  shows "reads (\<lambda>st. then_do (f st) g) (s @ t) r Q"
proof (rule readsI)
  fix st :: parser
  assume "ps_rest st = (s @ t) @ r"
  then obtain x st' where x: "f st = Some (Inr (x, st'))" "ps_rest st' = t @ r" "P x" using readsE [OF assms(1)] by auto
  then show "\<exists>y st'. then_do (f st) g = Some (Inr (y, st')) \<and> ps_rest st' = r \<and> Q y"
    by (simp add: x(1)) (rule readsE [OF assms(2) [OF x(3)] x(2)], blast)
qed

lemma array_tail_close: "reads (array_tail n result) '']'' r (\<lambda>w. w = Array result)"
  by (rule readsI) (auto simp: array_tail_def Let_def skip_solid current_char_def ok_def)

lemma array_tail_comma:
  assumes "begins_value c" "reads (array_loop n result) (c # s) r P"
  shows "reads (array_tail n result) ('', '' @ c # s) r P"
proof (rule readsI)
  fix st :: parser
  assume "ps_rest st = ('', '' @ c # s) @ r"
  then have p: "ps_rest st = CHR '','' # CHR '' '' # c # s @ r" "ps_rest (advance st) = CHR '' '' # c # s @ r"
    "ps_rest (advance (advance st)) = (c # s) @ r" by simp_all
  have w: "skip_whitespace_and_comments st = st" "skip_whitespace_and_comments (advance st) = advance (advance st)"
    using skip_solid(2) [OF p(1)] skip_space(2) [OF p(2)] begins_solid [OF assms(1)] by simp_all
  have c: "current_char st = CHR '',''" "current_char (advance (advance st)) = c" using p by (simp_all add: current_char_def)
  have "array_tail n result st = array_loop n result (advance (advance st))"
    using begins_not [OF assms(1)] by (simp add: array_tail_def w c)
  then show "\<exists>x st'. array_tail n result st = Some (Inr (x, st')) \<and> ps_rest st' = r \<and> P x"
    using readsE [OF assms(2) p(3)] by metis
qed

lemma elements_delimit: "serialize_array False arr = Inr t \<Longrightarrow> delimits (t @ CHR '']'' # r)"
  by (cases arr) (auto simp: delimits_def append_output_Inr emit_def)

lemma array_tail_reads:
  "\<forall>v \<in> set arr. value_reads v \<Longrightarrow> contents_ok arr \<Longrightarrow> serialize_array False arr = Inr t \<Longrightarrow>
    \<exists>N. \<forall>n \<ge> N. \<forall>result. reads (array_tail n result) (t @ '']'') r (\<lambda>w. \<exists>ws. w = Array (result @ ws) \<and> contents_equal arr ws)"
proof (induction arr arbitrary: t)
  case Nil
  then have "t = []" by (simp add: emit_def)
  then show ?case using reads_mono [OF array_tail_close] by auto
next
  case (Cons v arr)
  obtain s u where su: "serialize_value v = Inr s" "serialize_array False arr = Inr u" "t = '', '' @ s @ u"
    using Cons(4) by (auto simp: append_output_Inr emit_def)
  have ok: "val_ok v" "contents_ok arr" using Cons(3) by simp_all
  obtain c s' where c: "s = c # s'" "begins_value c" by (rule written_begins [OF su(1) ok(1)])
  obtain N where N: "\<forall>n \<ge> N. \<forall>result. reads (array_tail n result) (u @ '']'') r (\<lambda>w. \<exists>ws. w = Array (result @ ws) \<and> contents_equal arr ws)"
    using Cons(1) [OF _ ok(2) su(2)] Cons(2) by auto
  have "delimits (u @ CHR '']'' # r)" by (rule elements_delimit [OF su(2)])
  then obtain M where M: "\<forall>n \<ge> M. reads (parse_value n) s ((u @ '']'') @ r) (val_equals v)"
    using Cons(2) ok(1) su(1) by (fastforce simp: value_reads_def)
  have "reads (array_tail n result) (t @ '']'') r (\<lambda>w. \<exists>ws. w = Array (result @ ws) \<and> contents_equal (v # arr) ws)"
    if n: "Suc (max M N) \<le> n" for n result
  proof -
    obtain m where m: "n = Suc m" "M \<le> m" "N \<le> m" using n by (cases n) auto
    have "reads (array_loop (Suc m) result) (s @ (u @ '']'')) r (\<lambda>w. \<exists>ws. w = Array (result @ ws) \<and> contents_equal (v # arr) ws)"
      unfolding array_loop_Suc
    proof (rule reads_then)
      show "reads (parse_value m) s ((u @ '']'') @ r) (val_equals v)" using M m(2) by blast
      fix x
      assume "val_equals v x"
      moreover have "reads (array_tail m (array_append result x)) (u @ '']'') r (\<lambda>w. \<exists>ws. w = Array (array_append result x @ ws) \<and> contents_equal arr ws)"
        using N m(3) by blast
      ultimately show "reads (array_tail m (array_append result x)) (u @ '']'') r (\<lambda>w. \<exists>ws. w = Array (result @ ws) \<and> contents_equal (v # arr) ws)"
        by (elim reads_mono) (auto simp: array_append_def)
    qed
    then have "reads (array_tail n result) ('', '' @ c # (s' @ u @ '']'')) r (\<lambda>w. \<exists>ws. w = Array (result @ ws) \<and> contents_equal (v # arr) ws)"
      unfolding m(1) by (intro array_tail_comma c(2)) (simp add: c(1))
    then show ?thesis by (simp add: su(3) c(1))
  qed
  then show ?case by blast
qed

lemma parse_value_bracket:
  assumes "ps_rest st = ''['' @ u"
  shows "parse_value (Suc (Suc n)) st =
    (let st = skip_whitespace_and_comments (advance st)
     in if current_char st = CHR '']'' then ok (Array []) (advance st) else array_loop n [] st)"
proof -
  have "current_char st = CHR ''[''" "ps_rest st = CHR ''['' # u" using assms by (simp_all add: current_char_def)
  then show ?thesis using value_dispatch(2) [of st "CHR ''[''" u "Suc n"] by (simp add: begins_value_def)
qed

lemma empty_array_reads: "reads (parse_value (Suc (Suc n))) ''[]'' r (val_equals (Array []))"
proof (rule readsI)
  fix st :: parser
  assume "ps_rest st = ''[]'' @ r"
  then have p: "ps_rest st = ''['' @ '']'' @ r" "ps_rest (advance st) = CHR '']'' # r" by simp_all
  show "\<exists>x st'. parse_value (Suc (Suc n)) st = Some (Inr (x, st')) \<and> ps_rest st' = r \<and> val_equals (Array []) x"
    unfolding parse_value_bracket [OF p(1)] using skip_solid(2) [OF p(2)] p(2) by (simp add: current_char_def ok_def)
qed

lemma first_element_reads:
  assumes x: "serialize_value v = Inr x" "val_ok v"
    and v: "reads (parse_value n) x ((u @ '']'') @ r) (val_equals v)"
    and vs: "\<And>w. reads (array_tail n [w]) (u @ '']'') r (\<lambda>y. \<exists>ws. y = Array ([w] @ ws) \<and> contents_equal vs ws)"
  shows "reads (parse_value (Suc (Suc (Suc n)))) (''['' @ x @ u @ '']'') r (val_equals (Array (v # vs)))"
proof (rule readsI)
  fix st :: parser
  assume ps: "ps_rest st = (''['' @ x @ u @ '']'') @ r"
  obtain c x' where c: "x = c # x'" "begins_value c" by (rule written_begins [OF x])
  have p: "ps_rest st = ''['' @ c # x' @ u @ '']'' @ r" "ps_rest (advance st) = c # (x' @ u @ '']'' @ r)"
    using ps c(1) by simp_all
  have w: "skip_whitespace_and_comments (advance st) = advance st" by (rule skip_solid(2) [OF p(2) begins_solid [OF c(2)]])
  have "current_char (advance st) \<noteq> CHR '']''" using begins_not [OF c(2)] p(2) by (simp add: current_char_def)
  then have e: "parse_value (Suc (Suc (Suc n))) st = then_do (parse_value n (advance st)) (\<lambda>v. array_tail n (array_append [] v))"
    unfolding parse_value_bracket [OF p(1)] by (simp only: w Let_def if_False array_loop_Suc)
  have "reads (\<lambda>st. then_do (parse_value n st) (\<lambda>v. array_tail n (array_append [] v))) (x @ (u @ '']'')) r (val_equals (Array (v # vs)))"
  proof (rule reads_then [OF v])
    fix y
    assume "val_equals v y"
    then show "reads (array_tail n (array_append [] y)) (u @ '']'') r (val_equals (Array (v # vs)))"
      using vs [of y] by (simp add: array_append_def) (elim reads_mono, auto)
  qed
  then show "\<exists>y st'. parse_value (Suc (Suc (Suc n))) st = Some (Inr (y, st')) \<and> ps_rest st' = r \<and> val_equals (Array (v # vs)) y"
    unfolding e reads_def using p(2) c(1) by simp
qed

lemma array_reads:
  assumes "\<forall>v \<in> set arr. value_reads v"
  shows "value_reads (Array arr)"
  unfolding value_reads_def
proof (intro allI impI)
  fix s r
  assume a: "val_ok (Array arr)" "serialize_value (Array arr) = Inr s" "delimits r"
  obtain t where t: "serialize_array True arr = Inr t" "s = ''['' @ t @ '']''" using a(2) by (auto simp: append_output_Inr emit_def)
  show "\<exists>N. \<forall>n \<ge> N. reads (parse_value n) s r (val_equals (Array arr))"
  proof (cases arr)
    case Nil
    then have "s = ''[]''" using t by (simp add: emit_def)
    then have "reads (parse_value n) s r (val_equals (Array arr))" if "Suc (Suc 0) \<le> n" for n
      using empty_array_reads Nil le_Suc_ex [OF that] by auto
    then show ?thesis by blast
  next
    case (Cons v vs)
    obtain x u where x: "serialize_value v = Inr x" "serialize_array False vs = Inr u" "t = x @ u"
      using t(1) Cons by (auto simp: append_output_Inr emit_def)
    have ok: "val_ok v" "contents_ok vs" using a(1) Cons by simp_all
    have "\<forall>v \<in> set vs. value_reads v" using assms Cons by simp
    then obtain N where N: "\<forall>n \<ge> N. \<forall>result. reads (array_tail n result) (u @ '']'') r (\<lambda>w. \<exists>ws. w = Array (result @ ws) \<and> contents_equal vs ws)"
      using array_tail_reads [OF _ ok(2) x(2)] by blast
    have "delimits (u @ CHR '']'' # r)" by (rule elements_delimit [OF x(2)])
    then obtain M where M: "\<forall>n \<ge> M. reads (parse_value n) x ((u @ '']'') @ r) (val_equals v)"
      using assms Cons ok(1) x(1) by (fastforce simp: value_reads_def)
    have "reads (parse_value n) s r (val_equals (Array arr))" if n: "Suc (Suc (Suc (max M N))) \<le> n" for n
    proof -
      obtain m where m: "n = Suc (Suc (Suc m))" "M \<le> m" "N \<le> m" using le_Suc_ex [OF n] by fastforce
      have "''['' @ t @ '']'' = ''['' @ x @ u @ '']''" by (simp add: x(3))
      then show ?thesis
        unfolding m(1) t(2) Cons by (simp only:) (use M N m(2,3) in \<open>intro first_element_reads [OF x(1) ok(1)], blast+\<close>)
    qed
    then show ?thesis by blast
  qed
qed

section \<open>Inline tables\<close>

lemma key_begins:
  obtains c t where "escape_key k = c # t" "solid c" "c \<noteq> CHR ''}''" "c \<noteq> CHR '']''" "c \<noteq> CHR ''[''"
proof (cases "k = [] \<or> find_pos (\<lambda>ch. \<not> is_bare_key_char ch) k \<noteq> None")
  case True
  then show thesis using that [of QUOTE "escape_string k @ [QUOTE]"] by (simp add: escape_key_def solid_def)
next
  case False
  then obtain c t where "k = c # t" by (cases k) auto
  then have k: "k = c # t" "is_bare_key_char c" using False by (auto split: if_splits)
  then have "solid c \<and> c \<noteq> CHR ''}'' \<and> c \<noteq> CHR '']'' \<and> c \<noteq> CHR ''[''"
    by (auto simp: solid_def is_bare_key_char_def is_ascii_alnum_def is_ascii_alpha_def is_digit_def)
  then show thesis using that [of c t] False k(1) by (simp add: escape_key_def)
qed

lemma space_not_bare: "\<not> is_bare_key_char (CHR '' '')"
  by (simp add: is_bare_key_char_def is_ascii_alnum_def is_ascii_alpha_def is_digit_def)

lemma pair_keys_reads:
  assumes "ps_rest st = escape_key k @ '' = '' @ r"
  shows "\<exists>st'. pair_keys [] st = Some (Inr ([k], st')) \<and> ps_rest st' = CHR ''='' # CHR '' '' # r"
proof -
  have n: "\<not> is_bare_key_char (char_at ('' = '' @ r) 0)" using space_not_bare by simp
  obtain u where u: "parse_key st = Some (Inr (k, u))" "ps_rest u = '' = '' @ r"
    using reads_key [OF n, of k] assms unfolding reads_def by blast
  have v: "ps_rest u = CHR '' '' # CHR ''='' # CHR '' '' # r" using u(2) by simp
  have w: "skip_whitespace u = advance u" by (rule skip_space(1) [OF v]) simp
  have c: "current_char (advance u) = CHR ''=''" using v by (simp add: current_char_def)
  have "pair_keys [] st = ok [k] (advance u)" by (subst pair_keys.simps) (simp add: u(1) w c)
  then show ?thesis using v by (simp add: ok_def)
qed

lemma key_value_reads:
  assumes "reads (parse_value n) s r P" "s = c # t" "solid c"
  shows "reads (parse_key_value (Suc n)) (escape_key k @ '' = '' @ s) r (\<lambda>(path, v). path = [k] \<and> P v)"
proof (rule readsI)
  fix st :: parser
  assume "ps_rest st = (escape_key k @ '' = '' @ s) @ r"
  then obtain u where u: "pair_keys [] st = Some (Inr ([k], u))" "ps_rest u = CHR ''='' # CHR '' '' # s @ r"
    using pair_keys_reads [of st k "s @ r"] by auto
  have p: "ps_rest (advance u) = CHR '' '' # c # t @ r" using u(2) assms(2) by simp
  have w: "skip_whitespace (advance u) = advance (advance u)" by (rule skip_space(1) [OF p assms(3)])
  have "ps_rest (advance (advance u)) = s @ r" using p assms(2) by simp
  then obtain v st' where v: "parse_value n (advance (advance u)) = Some (Inr (v, st'))" "ps_rest st' = r" "P v"
    using readsE [OF assms(1)] by blast
  have "current_char u = CHR ''=''" using u(2) by (simp add: current_char_def)
  then show "\<exists>x st'. parse_key_value (Suc n) st = Some (Inr (x, st')) \<and> ps_rest st' = r \<and> (case x of (path, v) \<Rightarrow> path = [k] \<and> P v)"
    using u(1) v by (simp add: w ok_def)
qed

definition inline_tail :: "nat \<Rightarrow> table_node \<Rightarrow> parser \<Rightarrow> val parse" where
  "inline_tail n result st =
     (let st = skip_whitespace st
      in if current_char st = LF \<or> current_char st = CHR ''#''
         then fail st ''An inline table must stay on one line''
         else if current_char st = CHR '','' then inline_table_loop n result (skip_whitespace (advance st))
         else if current_char st = CHR ''}'' then ok (Dictionary (merge_tables result)) (advance st)
         else fail st (''Expected '' @ [APOSTROPHE] @ '','' @ [APOSTROPHE] @ '' or '' @ [APOSTROPHE] @ ''}'' @ [APOSTROPHE]))"

definition plain :: "entries \<Rightarrow> table_node" where
  "plain p = Table_Node p [] False False False []"

lemma plain_new: "new_node False False = plain []"
  by (simp add: plain_def new_node_def)

lemma merge_plain: "merge_tables (plain p) = p"
  by (simp add: merge_tables_def plain_def)

lemma entry_insert_last: "\<forall>j \<in> fst ` set p. j < k \<Longrightarrow> entry_insert k v p = p @ [(k, v)]"
proof (induction p)
  case (Cons e p)
  then show ?case by (cases e) auto
qed simp

lemma add_pair_plain:
  assumes "sorted_wrt (<) (map fst p)" "\<forall>j \<in> fst ` set p. j < k"
  shows "add_pair (plain p) [k] v pos = Inr (plain (p @ [(k, v)]))"
proof -
  have "k \<notin> set (map fst p)" using assms(2) by auto
  then show ?thesis
    using dictionary_store_insert [of p k v] entry_insert_last [OF assms(2), of v] assms(1)
    by (simp add: add_key_def add_key_pairs_def dictionary_contains_def entries_sorted_def plain_def set_pairs_def)
qed

lemma inline_loop_pair:
  assumes "parse_key_value n st = Some (Inr (([k], v), st'))" "sorted_wrt (<) (map fst p)" "\<forall>j \<in> fst ` set p. j < k"
  shows "inline_table_loop (Suc n) (plain p) st = inline_tail n (plain (p @ [(k, v)])) st'"
  using assms(1) by (simp add: add_pair_plain [OF assms(2,3)] inline_tail_def del: add_pair.simps)

lemma inline_tail_comma:
  assumes "ps_rest st = '', '' @ c # s" "solid c"
  shows "inline_tail n node st = inline_table_loop n node (advance (advance st))"
proof -
  have p: "ps_rest st = CHR '','' # CHR '' '' # c # s" "ps_rest (advance st) = CHR '' '' # c # s" using assms(1) by simp_all
  have w: "skip_whitespace st = st" "skip_whitespace (advance st) = advance (advance st)"
    using skip_solid(1) [OF p(1)] skip_space(1) [OF p(2) assms(2)] by simp_all
  have "current_char st = CHR '',''" using p by (simp add: current_char_def)
  then show ?thesis by (simp add: inline_tail_def w)
qed

lemma entries_delimit: "serialize_inline_table False d = Inr t \<Longrightarrow> delimits (t @ CHR ''}'' # r)"
  by (cases d) (auto simp: delimits_def append_output_Inr emit_def)

text \<open>A pair and what follows it, at the front of the rest of an inline table.\<close>

lemma next_pair_reads:
  assumes c: "s = c # s'" "begins_value c" and v: "reads (parse_value n) s ((u @ ''}'') @ r) (val_equals v)"
    and p: "sorted_wrt (<) (map fst p)" "\<forall>j \<in> fst ` set p. j < k"
    and d: "\<And>x. reads (inline_tail (Suc n) (plain (p @ [(k, x)]))) (u @ ''}'') r
      (\<lambda>w. \<exists>e. w = Dictionary ((p @ [(k, x)]) @ e) \<and> entries_equal d e)"
  shows "reads (inline_tail (Suc (Suc n)) (plain p)) (('', '' @ escape_key k @ '' = '' @ s @ u) @ ''}'') r
    (\<lambda>w. \<exists>e. w = Dictionary (p @ e) \<and> entries_equal ((k, v) # d) e)"
proof (rule readsI)
  fix st :: parser
  assume ps: "ps_rest st = (('', '' @ escape_key k @ '' = '' @ s @ u) @ ''}'') @ r"
  obtain b k' where b: "escape_key k = b # k'" "solid b" by (rule key_begins)
  have q: "ps_rest st = '', '' @ b # (k' @ '' = '' @ s @ u @ ''}'' @ r)"
    "ps_rest (advance (advance st)) = (escape_key k @ '' = '' @ s) @ (u @ ''}'' @ r)" using ps b(1) by simp_all
  have "reads (parse_value n) s (u @ ''}'' @ r) (val_equals v)" using v by simp
  then have "reads (parse_key_value (Suc n)) (escape_key k @ '' = '' @ s) (u @ ''}'' @ r) (\<lambda>(path, x). path = [k] \<and> val_equals v x)"
    by (rule key_value_reads [OF _ c(1) begins_solid [OF c(2)]])
  then obtain x st' where x: "parse_key_value (Suc n) (advance (advance st)) = Some (Inr (([k], x), st'))"
    "ps_rest st' = u @ ''}'' @ r" "val_equals v x"
    using q(2) unfolding reads_def by fastforce
  have "inline_tail (Suc (Suc n)) (plain p) st = inline_tail (Suc n) (plain (p @ [(k, x)])) st'"
    using inline_tail_comma [OF q(1) b(2)] inline_loop_pair [OF x(1) p] by simp
  then show "\<exists>y st''. inline_tail (Suc (Suc n)) (plain p) st = Some (Inr (y, st'')) \<and> ps_rest st'' = r \<and>
      (\<exists>e. y = Dictionary (p @ e) \<and> entries_equal ((k, v) # d) e)"
    using x(2,3) d [of x] by (fastforce simp: reads_def)
qed

lemma inline_pairs_read:
  "\<forall>(k, v) \<in> set d. value_reads v \<Longrightarrow> entries_ok d \<Longrightarrow> serialize_inline_table False d = Inr t \<Longrightarrow>
    \<exists>N. \<forall>n \<ge> N. \<forall>p. sorted_wrt (<) (map fst (p @ d)) \<longrightarrow>
      reads (inline_tail n (plain p)) (t @ ''}'') r (\<lambda>w. \<exists>e. w = Dictionary (p @ e) \<and> entries_equal d e)"
proof (induction d arbitrary: t)
  case Nil
  then have t: "t = []" by (simp add: emit_def)
  have "reads (inline_tail n (plain p)) (t @ ''}'') r (\<lambda>w. \<exists>e. w = Dictionary (p @ e) \<and> entries_equal [] e)" for n p
    by (rule readsI) (auto simp: t inline_tail_def Let_def skip_solid current_char_def ok_def merge_plain)
  then show ?case by blast
next
  case (Cons kv d)
  obtain k v where kv: "kv = (k, v)" by (cases kv)
  obtain s u where su: "serialize_value v = Inr s" "serialize_inline_table False d = Inr u"
    "t = '', '' @ escape_key k @ '' = '' @ s @ u"
    using Cons(4) by (auto simp: kv append_output_Inr emit_def)
  have ok: "val_ok v" "entries_ok d" using Cons(3) by (simp_all add: kv)
  obtain c s' where c: "s = c # s'" "begins_value c" by (rule written_begins [OF su(1) ok(1)])
  obtain N where N: "\<forall>n \<ge> N. \<forall>p. sorted_wrt (<) (map fst (p @ d)) \<longrightarrow>
      reads (inline_tail n (plain p)) (u @ ''}'') r (\<lambda>w. \<exists>e. w = Dictionary (p @ e) \<and> entries_equal d e)"
    using Cons(1) [OF _ ok(2) su(2)] Cons(2) by auto
  have "delimits (u @ CHR ''}'' # r)" by (rule entries_delimit [OF su(2)])
  then obtain M where M: "\<forall>n \<ge> M. reads (parse_value n) s ((u @ ''}'') @ r) (val_equals v)"
    using Cons(2) ok(1) su(1) by (fastforce simp: value_reads_def kv)
  have "reads (inline_tail n (plain p)) (t @ ''}'') r (\<lambda>w. \<exists>e. w = Dictionary (p @ e) \<and> entries_equal (kv # d) e)"
    if n: "Suc (Suc (max M N)) \<le> n" and p: "sorted_wrt (<) (map fst (p @ kv # d))" for n p
  proof -
    obtain m where m: "n = Suc (Suc m)" "M \<le> m" "N \<le> Suc m" using le_Suc_ex [OF n] by fastforce
    have "sorted_wrt (<) (map fst p)" "\<forall>j \<in> fst ` set p. j < k" "sorted_wrt (<) (map fst ((p @ [(k, x)]) @ d))" for x :: val
      using p by (auto simp: kv sorted_wrt_append)
    then show ?thesis unfolding m(1) su(3) kv using M N m(2,3) by (intro next_pair_reads [OF c]) blast+
  qed
  then show ?case by blast
qed

lemma parse_value_brace:
  assumes "ps_rest st = ''{'' @ u"
  shows "parse_value (Suc (Suc n)) st =
    (let st = skip_whitespace (advance st)
     in if current_char st = CHR ''}'' then ok (Dictionary []) (advance st) else inline_table_loop n (plain []) st)"
proof -
  have "current_char st = CHR ''{''" "ps_rest st = CHR ''{'' # u" using assms by (simp_all add: current_char_def)
  then show ?thesis using value_dispatch(3) [of st "CHR ''{''" u "Suc n"]
    by (simp add: begins_value_def plain_new [symmetric] Let_def del: parse_value.simps)
qed

lemma empty_table_reads: "reads (parse_value (Suc (Suc n))) ''{}'' r (val_equals (Dictionary []))"
proof (rule readsI)
  fix st :: parser
  assume "ps_rest st = ''{}'' @ r"
  then have p: "ps_rest st = ''{'' @ ''}'' @ r" "ps_rest (advance st) = CHR ''}'' # r" by simp_all
  show "\<exists>x st'. parse_value (Suc (Suc n)) st = Some (Inr (x, st')) \<and> ps_rest st' = r \<and> val_equals (Dictionary []) x"
    unfolding parse_value_brace [OF p(1)] using skip_solid(1) [OF p(2)] p(2) by (simp add: current_char_def ok_def)
qed

lemma first_pair_reads:
  assumes c: "s = c # s'" "begins_value c" and v: "reads (parse_value n) s ((u @ ''}'') @ r) (val_equals v)"
    and d: "\<And>x. reads (inline_tail (Suc n) (plain [(k, x)])) (u @ ''}'') r (\<lambda>w. \<exists>e. w = Dictionary ([(k, x)] @ e) \<and> entries_equal d e)"
  shows "reads (parse_value (Suc (Suc (Suc (Suc n))))) (''{'' @ (escape_key k @ '' = '' @ s @ u) @ ''}'') r
    (val_equals (Dictionary ((k, v) # d)))"
proof (rule readsI)
  fix st :: parser
  assume ps: "ps_rest st = (''{'' @ (escape_key k @ '' = '' @ s @ u) @ ''}'') @ r"
  obtain b k' where b: "escape_key k = b # k'" "solid b" "b \<noteq> CHR ''}''" by (rule key_begins)
  have p: "ps_rest st = ''{'' @ escape_key k @ '' = '' @ s @ u @ ''}'' @ r"
    "ps_rest (advance st) = b # (k' @ '' = '' @ s @ u @ ''}'' @ r)"
    "ps_rest (advance st) = (escape_key k @ '' = '' @ s) @ (u @ ''}'' @ r)"
    using ps b(1) by simp_all
  have w: "skip_whitespace (advance st) = advance st" by (rule skip_solid(1) [OF p(2) b(2)])
  have cc: "current_char (advance st) \<noteq> CHR ''}''" using b(3) p(2) by (simp add: current_char_def)
  have "reads (parse_value n) s (u @ ''}'' @ r) (val_equals v)" using v by simp
  then have "reads (parse_key_value (Suc n)) (escape_key k @ '' = '' @ s) (u @ ''}'' @ r) (\<lambda>(path, y). path = [k] \<and> val_equals v y)"
    by (rule key_value_reads [OF _ c(1) begins_solid [OF c(2)]])
  then obtain y st' where y: "parse_key_value (Suc n) (advance st) = Some (Inr (([k], y), st'))"
    "ps_rest st' = u @ ''}'' @ r" "val_equals v y"
    using p(3) unfolding reads_def by fastforce
  have "parse_value (Suc (Suc (Suc (Suc n)))) st = inline_tail (Suc n) (plain [(k, y)]) st'"
    using parse_value_brace [OF p(1), of "Suc (Suc n)"] inline_loop_pair [OF y(1), of "[]"]
    by (simp add: w cc del: inline_table_loop.simps parse_value.simps)
  then show "\<exists>w st''. parse_value (Suc (Suc (Suc (Suc n)))) st = Some (Inr (w, st'')) \<and> ps_rest st'' = r \<and>
      val_equals (Dictionary ((k, v) # d)) w"
    using y(2,3) d [of y] by (fastforce simp: reads_def)
qed

lemma dictionary_reads:
  assumes "\<forall>(k, v) \<in> set d. value_reads v"
  shows "value_reads (Dictionary d)"
  unfolding value_reads_def
proof (intro allI impI)
  fix s r
  assume a: "val_ok (Dictionary d)" "serialize_value (Dictionary d) = Inr s" "delimits r"
  obtain t where t: "serialize_inline_table True d = Inr t" "s = ''{'' @ t @ ''}''" using a(2) by (auto simp: append_output_Inr emit_def)
  show "\<exists>N. \<forall>n \<ge> N. reads (parse_value n) s r (val_equals (Dictionary d))"
  proof (cases d)
    case Nil
    then have "s = ''{}''" using t by (simp add: emit_def)
    then have "reads (parse_value n) s r (val_equals (Dictionary d))" if "Suc (Suc 0) \<le> n" for n
      using empty_table_reads Nil le_Suc_ex [OF that] by auto
    then show ?thesis by blast
  next
    case (Cons kv d')
    obtain k v where kv: "kv = (k, v)" by (cases kv)
    obtain x u where x: "serialize_value v = Inr x" "serialize_inline_table False d' = Inr u"
      "t = escape_key k @ '' = '' @ x @ u"
      using t(1) by (auto simp: Cons kv append_output_Inr emit_def)
    have ok: "val_ok v" "entries_ok d'" "sorted_wrt (<) (map fst d)" using a(1) by (simp_all add: Cons kv entries_sorted_def)
    obtain c x' where c: "x = c # x'" "begins_value c" by (rule written_begins [OF x(1) ok(1)])
    have "\<forall>(k, v) \<in> set d'. value_reads v" using assms by (simp add: Cons)
    then obtain N where N: "\<forall>n \<ge> N. \<forall>p. sorted_wrt (<) (map fst (p @ d')) \<longrightarrow>
        reads (inline_tail n (plain p)) (u @ ''}'') r (\<lambda>w. \<exists>e. w = Dictionary (p @ e) \<and> entries_equal d' e)"
      using inline_pairs_read [OF _ ok(2) x(2)] by blast
    have "delimits (u @ CHR ''}'' # r)" by (rule entries_delimit [OF x(2)])
    then obtain M where M: "\<forall>n \<ge> M. reads (parse_value n) x ((u @ ''}'') @ r) (val_equals v)"
      using assms ok(1) x(1) by (fastforce simp: value_reads_def Cons kv)
    have "reads (parse_value n) s r (val_equals (Dictionary d))" if n: "Suc (Suc (Suc (Suc (max M N)))) \<le> n" for n
    proof -
      obtain m where m: "n = Suc (Suc (Suc (Suc m)))" "M \<le> m" "N \<le> Suc m" using le_Suc_ex [OF n] by fastforce
      have "sorted_wrt (<) (map fst ([(k, y)] @ d'))" for y :: val using ok(3) by (simp add: Cons kv)
      then show ?thesis unfolding m(1) t(2) x(3) Cons kv using M N m(2,3) by (intro first_pair_reads [OF c]) blast+
    qed
    then show ?thesis by blast
  qed
qed

lemma all_values_read: "value_reads v"
proof (induction v)
  case (Array arr)
  then show ?case by (intro array_reads) blast
next
  case (Dictionary d)
  then show ?case by (intro dictionary_reads) (force simp: Basic_BNFs.snds.simps)
next
  case Monostate
  show ?case by (simp add: value_reads_def)
next
  case (Data d)
  show ?case by (simp add: value_reads_def)
qed (simp_all add: boolean_reads number_reads string_reads timestamp_reads)

text \<open>The fuel that the length of the text asks for is enough, whatever the value needs.\<close>

lemma value_reads_fuel:
  assumes "val_ok v" "serialize_value v = Inr s" "delimits r" "ps_rest st = s @ r" "3 * left st + 3 \<le> n"
  shows "\<exists>w st'. parse_value n st = Some (Inr (w, st')) \<and> ps_rest st' = r \<and> val_equals v w"
proof -
  obtain N where N: "\<forall>n \<ge> N. reads (parse_value n) s r (val_equals v)"
    using all_values_read assms(1-3) unfolding value_reads_def by blast
  obtain w st' where w: "parse_value (max n N) st = Some (Inr (w, st'))" "ps_rest st' = r" "val_equals v w"
    using readsE [OF N [rule_format] assms(4), of "max n N"] by auto
  obtain x where x: "parse_value n st = Some x" using values_return(1) [OF assms(5)] by (cases "parse_value n st") auto
  have "parse_value (max n N) st = Some x" by (rule agrees_mono [OF values_agree(1) x]) simp
  then show ?thesis using w x by auto
qed

text \<open>C24: A value that is written reads back: when the serializer writes a well-formed value, the
  parser, with fuel for the length of the input, reads from that text a value equal to it and
  stops where the text ends, in front of anything that may come after a value.\<close>

theorem value_roundtrip:
  assumes "val_ok v" "serialize_value v = Inr s" "delimits r" "3 * length (s @ r) + 3 \<le> n"
  shows "\<exists>w st'. parse_value n (parser_of (s @ r)) = Some (Inr (w, st')) \<and> ps_rest st' = r \<and> val_equals v w"
  using assms by (intro value_reads_fuel) (simp_all add: parser_of_def)

lemma value_roundtrip_witness:
  "\<exists>w st'. parse_value 60 (parser_of (''[true, [false]]'' @ [LF])) = Some (Inr (w, st')) \<and> ps_rest st' = [LF] \<and>
    val_equals (Array [Boolean \<lparr>bs_value = True\<rparr>, Array [Boolean \<lparr>bs_value = False\<rparr>]]) w"
  by (rule value_roundtrip) (simp_all add: emit_def delimits_def)

end
