(* ===== verification/Toml_Document.thy ===== *)
theory Toml_Document
  imports Toml_Roundtrip
begin

text \<open>
  Whole documents: a dictionary that the serializer writes, the parser reads as an equal one. The
  tree of tables is seen from the table that pairs go to, which \<open>node_at\<close> finds and \<open>node_put\<close>
  replaces, and the document is read from its end back to its start.
\<close>

section \<open>The table at a path\<close>

definition leave :: "table_node \<Rightarrow> table_node \<Rightarrow> table_node" where
  "leave c y = (if node_array c then set_elements (butlast (node_elements c) @ [y]) c else y)"

fun node_at :: "table_node \<Rightarrow> string list \<Rightarrow> table_node option" where
  "node_at node [] = Some node"
| "node_at node (k # ks) =
     (case map_of (node_tables node) k of
        None \<Rightarrow> None
      | Some c \<Rightarrow> if node_array (enter c) then None else node_at (enter c) ks)"

fun node_put :: "table_node \<Rightarrow> string list \<Rightarrow> table_node \<Rightarrow> table_node" where
  "node_put node [] y = y"
| "node_put node (k # ks) y =
     (case map_of (node_tables node) k of
        None \<Rightarrow> node
      | Some c \<Rightarrow> set_table k (leave c (node_put (enter c) ks y)) node)"

lemma enter_leave [simp]: "\<not> node_array y \<Longrightarrow> enter (leave c y) = y"
  by (simp add: enter_def leave_def)

lemma leave_leave [simp]: "\<not> node_array y \<Longrightarrow> leave (leave c y) z = leave c z"
proof (cases "node_array c")
  case True
  then show ?thesis by (cases c) (simp add: leave_def set_elements_def)
qed (simp add: leave_def)

lemma entry_insert_twice: "entry_insert k v (entry_insert k u d) = entry_insert k v d"
  by (induction k u d rule: entry_insert.induct) auto

lemma set_table_twice [simp]: "set_table k c (set_table k b node) = set_table k c node"
  by (cases node) (simp add: set_table_def entry_insert_twice)

lemma node_at_append: "node_at t (p @ q) = (case node_at t p of None \<Rightarrow> None | Some x \<Rightarrow> node_at x q)"
  by (induction p arbitrary: t) (auto split: option.split)

lemma node_atE:
  assumes "node_at t (k # ks) = Some x"
  obtains c where "map_of (node_tables t) k = Some c" "\<not> node_array (enter c)" "node_at (enter c) ks = Some x"
  using assms by (auto split: option.splits if_splits)

lemma node_at_flat: "node_at t ks = Some x \<Longrightarrow> \<not> node_array t \<Longrightarrow> \<not> node_array x"
  by (induction ks arbitrary: t) (auto elim!: node_atE simp del: node_at.simps(2))

lemma node_put_flat: "\<not> node_array t \<Longrightarrow> \<not> node_array y \<Longrightarrow> \<not> node_array (node_put t ks y)"
  by (cases ks) (auto split: option.split)

lemma node_at_ok: "node_at t ks = Some x \<Longrightarrow> node_ok t \<Longrightarrow> node_ok x"
  by (induction ks arbitrary: t) (auto elim!: node_atE simp del: node_at.simps(2) dest: child_ok intro: enter_ok)

lemma leave_ok: "node_ok c \<Longrightarrow> node_ok y \<Longrightarrow> node_ok (leave c y)"
  using node_elements_ok [of c] in_set_butlastD [of _ "node_elements c"]
  by (auto simp: leave_def elements_ok_iff intro!: set_elements_ok)

lemma node_put_ok: "node_at t ks = Some x \<Longrightarrow> node_ok t \<Longrightarrow> node_ok y \<Longrightarrow> node_ok (node_put t ks y)"
proof (induction ks arbitrary: t)
  case (Cons k ks)
  obtain c where c: "map_of (node_tables t) k = Some c" "node_at (enter c) ks = Some x" using Cons(2) by (rule node_atE)
  note co = child_ok [OF Cons(3) c(1)]
  have "node_ok (leave c (node_put (enter c) ks y))" using Cons(1) [OF c(2) enter_ok [OF co(1)] Cons(4)] leave_ok [OF co(1)] by blast
  then show ?case using set_table_ok [OF Cons(3) _ co(2)] c(1) by simp
qed simp

lemma node_at_put:
  "node_at t ks = Some x \<Longrightarrow> node_ok t \<Longrightarrow> \<not> node_array y \<Longrightarrow> node_at (node_put t ks y) ks = Some y"
proof (induction ks arbitrary: t)
  case (Cons k ks)
  obtain c where c: "map_of (node_tables t) k = Some c" "\<not> node_array (enter c)" "node_at (enter c) ks = Some x"
    using Cons(2) by (rule node_atE)
  have f: "\<not> node_array (node_put (enter c) ks y)" using node_put_flat c(2) Cons(4) by blast
  have "node_ok (enter c)" using enter_ok child_ok(1) [OF Cons(3) c(1)] by blast
  then show ?case using Cons(1) [OF c(3)] Cons(4) c(1) f tables_sorted [OF Cons(3)] by simp
qed simp

lemma node_put_put:
  "node_at t ks = Some x \<Longrightarrow> node_ok t \<Longrightarrow> \<not> node_array y \<Longrightarrow> node_put (node_put t ks y) ks z = node_put t ks z"
proof (induction ks arbitrary: t)
  case (Cons k ks)
  obtain c where c: "map_of (node_tables t) k = Some c" "\<not> node_array (enter c)" "node_at (enter c) ks = Some x"
    using Cons(2) by (rule node_atE)
  have f: "\<not> node_array (node_put (enter c) ks y)" using node_put_flat c(2) Cons(4) by blast
  have "node_ok (enter c)" using enter_ok child_ok(1) [OF Cons(3) c(1)] by blast
  then show ?case using Cons(1) [OF c(3)] Cons(4) c(1) f tables_sorted [OF Cons(3)] by simp
qed simp

lemma node_put_append:
  "node_at t p = Some x \<Longrightarrow> node_put t (p @ q) z = node_put t p (node_put x q z)"
  by (induction p arbitrary: t) (auto elim!: node_atE simp del: node_at.simps(2))

text \<open>What the code does through the path.\<close>

lemma update_back_last:
  "es \<noteq> [] \<Longrightarrow> update_back f es = (case f (last es) of Inl e \<Rightarrow> Inl e | Inr y \<Rightarrow> Inr (butlast es @ [y]))"
  by (cases es rule: rev_cases) (simp_all add: update_back_def split: sum.split)

lemma update_enter:
  assumes "node_ok c"
  shows "(if node_array c
      then (case update_back f (node_elements c) of Inl e \<Rightarrow> Inl e | Inr es \<Rightarrow> Inr (set_table k (set_elements es c) node))
      else (case f c of Inl e \<Rightarrow> Inl e | Inr y \<Rightarrow> Inr (set_table k y node))) =
    (case f (enter c) of Inl e \<Rightarrow> Inl e | Inr y \<Rightarrow> Inr (set_table k (leave c y) node))"
  using array_ok [OF assms] by (auto simp: enter_def leave_def update_back_last split: sum.split)

lemma update_at_put:
  "node_at t ks = Some x \<Longrightarrow> node_ok t \<Longrightarrow>
    update_at t ks f = (case f x of Inl e \<Rightarrow> Inl e | Inr y \<Rightarrow> Inr (node_put t ks y))"
proof (induction ks arbitrary: t)
  case Nil
  then show ?case by (simp split: sum.split)
next
  case (Cons k ks)
  obtain c where c: "map_of (node_tables t) k = Some c" "node_at (enter c) ks = Some x" using Cons(2) by (rule node_atE)
  note co = child_ok(1) [OF Cons(3) c(1)]
  have "update_at t (k # ks) f = (case update_at (enter c) ks f of Inl e \<Rightarrow> Inl e | Inr y \<Rightarrow> Inr (set_table k (leave c y) t))"
    using update_enter [OF co, where f = "\<lambda>node. update_at node ks f" and k = k and node = t] c(1) by simp
  then show ?case using Cons(1) [OF c(2) enter_ok [OF co]] c(1) by (simp split: sum.split)
qed

lemma open_table_put:
  "node_at t ks = Some x \<Longrightarrow> node_ok t \<Longrightarrow>
    open_table t array (ks @ [k]) pos = (case open_table x array [k] pos of Inl e \<Rightarrow> Inl e | Inr y \<Rightarrow> Inr (node_put t ks y))"
proof (induction ks arbitrary: t)
  case Nil
  then show ?case by (simp split: sum.split)
next
  case (Cons j ks)
  obtain c where c: "map_of (node_tables t) j = Some c" "node_at (enter c) ks = Some x" using Cons(2) by (rule node_atE)
  note co = child_ok [OF Cons(3) c(1)]
  have "open_table t array (j # ks @ [k]) pos =
      (case open_table (enter c) array (ks @ [k]) pos of Inl e \<Rightarrow> Inl e | Inr y \<Rightarrow> Inr (set_table j (leave c y) t))"
    using update_enter [OF co(1), where f = "\<lambda>node. open_table node array (ks @ [k]) pos" and k = j and node = t] c(1) co(2) not_contains [of "node_pairs t" j]
    by (simp add: Let_def)
  then show ?case using Cons(1) [OF c(2) enter_ok [OF co(1)]] c(1) by (simp split: sum.split)
qed

section \<open>Reading from the end\<close>

text \<open>\<open>builds n t cur s Q\<close>: from the tree \<open>t\<close> and the path \<open>cur\<close> the loop reads all of \<open>s\<close>, and the
  tree it ends with satisfies \<open>Q\<close>.\<close>

definition builds :: "nat \<Rightarrow> table_node \<Rightarrow> string list \<Rightarrow> string \<Rightarrow> (table_node \<Rightarrow> bool) \<Rightarrow> bool" where
  "builds n t cur s Q \<longleftrightarrow> (\<forall>st. ps_rest st = s \<longrightarrow>
     (\<exists>T st'. document_loop n t cur st = Some (Inr (T, st')) \<and> ps_rest st' = [] \<and> Q T))"

lemma builds_end: "Q t \<Longrightarrow> builds n t cur [] Q"
  by (auto simp: builds_def document_loop.simps ok_def)

lemma skip_newline:
  assumes "ps_rest st = LF # s"
  shows "skip_whitespace_and_comments st = skip_whitespace_and_comments (advance st)"
proof -
  have c: "current_char st = LF" using assms by (simp add: current_char_def)
  then have "skip_whitespace st = st" by (subst skip_whitespace.simps) (simp add: is_blank_def)
  then show ?thesis using assms c by (subst skip_whitespace_and_comments.simps) (simp add: skip_line_def)
qed

lemma builds_newline:
  assumes "builds n t cur s Q"
  shows "builds n t cur (LF # s) Q"
  unfolding builds_def
proof (intro allI impI)
  fix st :: parser
  assume a: "ps_rest st = LF # s"
  have e: "document_loop n t cur st = document_loop n t cur (advance st)"
  proof (cases "s = []")
    case True
    then have r: "ps_rest (advance st) = []" using a by simp
    then have k: "skip_whitespace_and_comments (advance st) = advance st"
      by (subst skip_whitespace_and_comments.simps) simp
    show ?thesis
      using a r by (subst (1 2) document_loop.simps) (simp add: skip_newline [OF a] k)
  next
    case False
    then have "ps_rest st \<noteq> []" "ps_rest (advance st) \<noteq> []" using a by simp_all
    then show ?thesis
      by (subst (1 2) document_loop.simps) (simp only: skip_newline [OF a] if_False)
  qed
  then show "\<exists>T st'. document_loop n t cur st = Some (Inr (T, st')) \<and> ps_rest st' = [] \<and> Q T"
    using assms a by (simp add: builds_def)
qed

lemma line_end_reads:
  assumes "ps_rest st = LF # s"
  shows "expect_line_end st = Some (Inr ((), st))"
proof -
  have c: "current_char st = LF" using assms by (simp add: current_char_def)
  then have "skip_whitespace st = st" by (subst skip_whitespace.simps) (simp add: is_blank_def)
  then show ?thesis by (simp add: expect_line_end_def c ok_def)
qed


text \<open>What is read is well formed, so it can be added.\<close>

lemma read_value_ok: "parse_value n st = Some (Inr (w, st')) \<Longrightarrow> val_ok w"
  using values_sound(1) [of n st] by (simp add: sound_def)

lemma builds_pair:
  assumes "serialize_value v = Inr s" "val_ok v" "3 * length (escape_key k @ '' = '' @ s @ LF # r) + 1 \<le> n"
    "\<And>w. val_equals v w \<Longrightarrow> val_ok w \<Longrightarrow> \<exists>t'. (\<forall>pos. update_at t cur (\<lambda>tb. add_pair tb [k] w pos) = Inr t') \<and> builds n t' cur (LF # r) Q"
  shows "builds n t cur (escape_key k @ '' = '' @ s @ LF # r) Q"
  unfolding builds_def
proof (intro allI impI)
  fix st :: parser
  assume a: "ps_rest st = escape_key k @ '' = '' @ s @ LF # r"
  obtain b k' where b: "escape_key k = b # k'" "solid b" "b \<noteq> CHR ''[''" by (rule key_begins)
  have p: "ps_rest st = b # (k' @ '' = '' @ s @ LF # r)" using a b(1) by simp
  have w: "skip_whitespace_and_comments st = st" by (rule skip_solid(2) [OF p b(2)])
  have ne: "ps_rest st \<noteq> []" using p by simp
  have c: "current_char st \<noteq> CHR ''[''" using p b(3) by (simp add: current_char_def)
  obtain m where m: "n = Suc m" using assms(3) by (cases n) simp_all
  obtain u where u: "pair_keys [] st = Some (Inr ([k], u))" "ps_rest u = CHR ''='' # CHR '' '' # s @ LF # r"
    using pair_keys_reads [OF a] by blast
  obtain d s' where d: "s = d # s'" "begins_value d" by (rule written_begins [OF assms(1,2)])
  have q: "ps_rest (advance u) = CHR '' '' # d # s' @ LF # r" using u(2) d(1) by simp
  have wv: "skip_whitespace (advance u) = advance (advance u)" by (rule skip_space(1) [OF q begins_solid [OF d(2)]])
  have pv: "ps_rest (advance (advance u)) = s @ LF # r" using q d(1) by simp
  have dl: "delimits (LF # r)" by (simp add: delimits_def)
  have "3 * left (advance (advance u)) + 3 \<le> m" using assms(3) unfolding pv m by simp
  then obtain x st' where x: "parse_value m (advance (advance u)) = Some (Inr (x, st'))" "ps_rest st' = LF # r" "val_equals v x"
    using value_reads_fuel [OF assms(2,1) dl pv] by blast
  have "current_char u = CHR ''=''" using u(2) by (simp add: current_char_def)
  then have kv: "parse_key_value n st = Some (Inr (([k], x), st'))" using u(1) x by (simp add: m wv ok_def)
  obtain t' where t: "\<And>pos. update_at t cur (\<lambda>tb. add_pair tb [k] x pos) = Inr t'" "builds n t' cur (LF # r) Q"
    using assms(4) [OF x(3) read_value_ok [OF x(1)]] by blast
  have "document_loop n t cur st = document_loop n t' cur st'"
    using ne c kv line_end_reads [OF x(2)] t(1)
    by (subst document_loop.simps) (simp add: w del: add_pair.simps)
  then show "\<exists>T st'. document_loop n t cur st = Some (Inr (T, st')) \<and> ps_rest st' = [] \<and> Q T"
    using t(2) x(2) by (simp add: builds_def)
qed

section \<open>Headers\<close>

lemma header_keys_read:
  "path \<noteq> [] \<Longrightarrow> ps_rest st = join_path path @ CHR '']'' # r \<Longrightarrow>
    \<exists>st'. header_keys keys st = Some (Inr (keys @ path, st')) \<and> ps_rest st' = r"
proof (induction path arbitrary: keys st rule: join_path.induct)
  case (2 key)
  have n: "\<not> is_bare_key_char (char_at (CHR '']'' # r) 0)"
    by (simp add: is_bare_key_char_def is_ascii_alnum_def is_ascii_alpha_def is_digit_def)
  obtain b k' where b: "escape_key key = b # k'" "solid b" by (rule key_begins)
  have p: "ps_rest st = b # (k' @ CHR '']'' # r)" using 2(2) b(1) by simp
  have w: "skip_whitespace st = st" by (rule skip_solid(1) [OF p b(2)])
  obtain u where u: "parse_key st = Some (Inr (key, u))" "ps_rest u = CHR '']'' # r"
    using reads_key [OF n, of key] 2(2) unfolding reads_def by auto
  have wu: "skip_whitespace u = u" by (rule skip_solid(1) [OF u(2)]) simp
  have "current_char u = CHR '']''" using u(2) by (simp add: current_char_def)
  then have "header_keys keys st = ok (keys @ [key]) (advance u)"
    by (subst header_keys.simps) (simp add: w u(1) wu)
  then show ?case using u(2) by (simp add: ok_def)
next
  case (3 key k path)
  define s where "s = join_path (k # path) @ CHR '']'' # r"
  have n: "\<not> is_bare_key_char (char_at (CHR ''.'' # s) 0)"
    by (simp add: is_bare_key_char_def is_ascii_alnum_def is_ascii_alpha_def is_digit_def)
  obtain b k' where b: "escape_key key = b # k'" "solid b" by (rule key_begins)
  have ps: "ps_rest st = escape_key key @ CHR ''.'' # s" using 3(3) by (simp add: s_def)
  have p: "ps_rest st = b # (k' @ CHR ''.'' # s)" using ps b(1) by simp
  have w: "skip_whitespace st = st" by (rule skip_solid(1) [OF p b(2)])
  obtain u where u: "parse_key st = Some (Inr (key, u))" "ps_rest u = CHR ''.'' # s"
    using reads_key [OF n, of key] ps unfolding reads_def by blast
  have wu: "skip_whitespace u = u" by (rule skip_solid(1) [OF u(2)]) (simp add: solid_def)
  have c: "current_char u = CHR ''.''" using u(2) by (simp add: current_char_def)
  have "ps_rest (advance u) = join_path (k # path) @ CHR '']'' # r" using u(2) by (simp add: s_def)
  then obtain st' where "header_keys (keys @ [key]) (advance u) = Some (Inr ((keys @ [key]) @ k # path, st'))" "ps_rest st' = r"
    using 3(1) by blast
  moreover have "header_keys keys st = header_keys (keys @ [key]) (advance u)"
    by (subst header_keys.simps) (simp add: w u(1) wu c)
  ultimately show ?case by simp
qed simp

lemma join_begins:
  assumes "path \<noteq> []"
  obtains c s where "join_path path = c # s" "solid c" "c \<noteq> CHR ''[''"
proof -
  obtain k ks where p: "path = k # ks" using assms by (cases path) auto
  obtain b k' where b: "escape_key k = b # k'" "solid b" "b \<noteq> CHR ''[''" by (rule key_begins)
  have "join_path path = b # (k' @ (if ks = [] then [] else ''.'' @ join_path ks))" using b(1) by (cases ks) (simp_all add: p)
  then show thesis using that b(2,3) by blast
qed

lemma header_reads:
  assumes "path \<noteq> []"
  shows "ps_rest st = ''['' @ join_path path @ '']'' @ r \<Longrightarrow>
      \<exists>st'. parse_table_header st = Some (Inr ((path, False), st')) \<and> ps_rest st' = r"
    and "ps_rest st = ''[['' @ join_path path @ '']]'' @ r \<Longrightarrow>
      \<exists>st'. parse_table_header st = Some (Inr ((path, True), st')) \<and> ps_rest st' = r"
proof -
  obtain c s where c: "join_path path = c # s" "c \<noteq> CHR ''[''" by (rule join_begins [OF assms])
  {
    assume a: "ps_rest st = ''['' @ join_path path @ '']'' @ r"
    have p: "ps_rest (advance st) = join_path path @ CHR '']'' # r" using a by simp
    obtain st' where h: "header_keys [] (advance st) = Some (Inr (path, st'))" "ps_rest st' = r"
      using header_keys_read [OF assms p, of "[]"] by auto
    have "current_char st = CHR ''[''" "current_char (advance st) = c" using a p c(1) by (simp_all add: current_char_def)
    then show "\<exists>st'. parse_table_header st = Some (Inr ((path, False), st')) \<and> ps_rest st' = r"
      using h c(2) by (simp add: parse_table_header_def ok_def)
  next
    assume a: "ps_rest st = ''[['' @ join_path path @ '']]'' @ r"
    have p: "ps_rest (advance (advance st)) = join_path path @ CHR '']'' # CHR '']'' # r" using a by simp
    obtain st' where h: "header_keys [] (advance (advance st)) = Some (Inr (path, st'))" "ps_rest st' = CHR '']'' # r"
      using header_keys_read [OF assms p, of "[]"] by auto
    have "current_char st = CHR ''[''" "current_char (advance st) = CHR ''[''" "current_char st' = CHR '']''"
      using a h(2) by (simp_all add: current_char_def)
    then show "\<exists>st'. parse_table_header st = Some (Inr ((path, True), st')) \<and> ps_rest st' = r"
      using h by (simp add: parse_table_header_def ok_def)
  }
qed

lemma builds_header:
  assumes "path \<noteq> []" "\<And>pos. open_table t array path pos = Inr t'" "builds n t' path (LF # r) Q"
    "s = (if array then ''[['' @ join_path path @ '']]'' else ''['' @ join_path path @ '']'')"
  shows "builds n t cur (s @ LF # r) Q"
  unfolding builds_def
proof (intro allI impI)
  fix st :: parser
  assume a: "ps_rest st = s @ LF # r"
  obtain s' where p: "ps_rest st = CHR ''['' # s'" using a assms(4) by (cases array) auto
  have w: "skip_whitespace_and_comments st = st" by (rule skip_solid(2) [OF p]) simp
  have ne: "ps_rest st \<noteq> []" and c: "current_char st = CHR ''[''" using p by (simp_all add: current_char_def)
  obtain st' where h: "parse_table_header st = Some (Inr ((path, array), st'))" "ps_rest st' = LF # r"
    using header_reads [OF assms(1), of st "LF # r"] a assms(4) by (cases array) auto
  have "document_loop n t cur st = document_loop n t' path st'"
    using ne c h(1) line_end_reads [OF h(2)] assms(2) by (subst document_loop.simps) (simp add: w)
  then show "\<exists>T st'. document_loop n t cur st = Some (Inr (T, st')) \<and> ps_rest st' = [] \<and> Q T"
    using assms(3) h(2) by (simp add: builds_def)
qed

section \<open>Equal dictionaries\<close>

text \<open>\<open>stage m x\<close>: the table \<open>x\<close> stands for a dictionary that is equal to \<open>m\<close> so far.\<close>

definition stage :: "(string \<Rightarrow> val option) \<Rightarrow> table_node \<Rightarrow> bool" where
  "stage m x \<longleftrightarrow> (\<forall>k. rel_option val_equals (m k) (map_of (merge_tables x) k))"

lemma entries_equal_map:
  "sorted_wrt (<) (map fst d) \<Longrightarrow> sorted_wrt (<) (map fst e) \<Longrightarrow>
    (\<And>k. rel_option val_equals (map_of d k) (map_of e k)) \<Longrightarrow> entries_equal d e"
proof (induction d arbitrary: e)
  case Nil
  then have "map_of e = (\<lambda>k. None)" by (auto simp: fun_eq_iff)
  then show ?case by simp
next
  case (Cons kv d)
  obtain k v where kv: "kv = (k, v)" by (cases kv)
  have "map_of e k \<noteq> None" using Cons(4) [of k] by (cases "map_of e k") (simp_all add: kv)
  then obtain j w e' where e: "e = (j, w) # e'" by (cases e) auto
  have jk: "j = k"
  proof (rule ccontr)
    assume "j \<noteq> k"
    then have "k \<in> fst ` set e'" "j \<in> fst ` set d"
      using Cons(4) [of k] Cons(4) [of j] by (auto simp: kv e map_of_eq_None_iff option_rel_Some1 option_rel_Some2 dest: map_of_SomeD split: if_splits intro!: rev_image_eqI)
    then have "j < k" "k < j" using Cons(2,3) by (auto simp: kv e)
    then show False by simp
  qed
  have "rel_option val_equals (map_of d i) (map_of e' i)" for i
  proof (cases "i = k")
    case True
    then have "map_of d i = None" "map_of e' i = None" using Cons(2,3) jk by (auto simp: kv e map_of_eq_None_iff)
    then show ?thesis by simp
  next
    case False
    then show ?thesis using Cons(4) [of i] jk by (simp add: kv e)
  qed
  then have "entries_equal d e'" using Cons(1) [of e'] Cons(2,3) by (simp add: kv e)
  moreover have "val_equals v w" using Cons(4) [of k] jk by (simp add: kv e)
  ultimately show ?case by (simp add: kv e jk)
qed

lemma stage_equal:
  assumes "stage (map_of d) x" "entries_sorted d" "node_ok x"
  shows "entries_equal d (merge_tables x)"
  using entries_equal_map [of d "merge_tables x"] assms merge_tables_props(1) [OF assms(3)]
  by (simp add: stage_def entries_sorted_def)

lemma stage_fresh:
  assumes "stage m x" "node_ok x" "k \<notin> dom m"
  shows "k \<notin> dom (map_of (node_pairs x))" "k \<notin> dom (map_of (node_tables x))"
proof -
  have "map_of (merge_tables x) k = None" using assms(1,3) unfolding stage_def by (metis domIff option_rel_Some2 not_Some_eq)
  then show "k \<notin> dom (map_of (node_pairs x))" "k \<notin> dom (map_of (node_tables x))"
    using merge_tables_props(2) [OF assms(2), of k] by (auto simp: domIff split: option.splits)
qed

lemma stage_update:
  assumes "stage m x" "node_ok x" "val_equals v w" "merge_tables y = entry_insert k w (merge_tables x)"
  shows "stage (m(k \<mapsto> v)) y"
  using assms merge_tables_props(1) [OF assms(2)] by (simp add: stage_def entries_sorted_def)

section \<open>Pairs\<close>

definition site :: "table_node \<Rightarrow> string list \<Rightarrow> bool" where
  "site t cur \<longleftrightarrow> node_ok t \<and> \<not> node_array t \<and> (\<exists>x. node_at t cur = Some x)"

lemma site_put:
  assumes "site t cur" "node_ok x" "\<not> node_array x"
  shows "node_at (node_put t cur x) cur = Some x" "node_ok (node_put t cur x)"
    "node_put (node_put t cur x) cur y = node_put t cur y" "\<not> node_array (node_put t cur x)"
  using assms node_at_put node_put_ok node_put_put node_put_flat by (auto simp: site_def)

lemma site_child:
  assumes "site t cur" "node_ok x" "\<not> node_array x" "node_ok c" "\<not> node_array (enter c)" "k \<notin> dom (map_of (node_pairs x))"
  shows "site (node_put t cur (set_table k c x)) (cur @ [k])"
    and "node_put (node_put t cur (set_table k c x)) (cur @ [k]) y = node_put t cur (set_table k (leave c y) x)"
proof -
  have ok: "node_ok (set_table k c x)" "\<not> node_array (set_table k c x)"
    using set_table_ok [OF assms(2,4,6)] assms(3) by simp_all
  note p = site_put [OF assms(1) ok]
  have m: "map_of (node_tables (set_table k c x)) k = Some c" using tables_sorted [OF assms(2)] by simp
  have "node_at (node_put t cur (set_table k c x)) (cur @ [k]) = Some (enter c)"
    using p(1) m assms(5) by (simp add: node_at_append del: node_simps)
  then show "site (node_put t cur (set_table k c x)) (cur @ [k])" using p(2,4) by (simp add: site_def)
  show "node_put (node_put t cur (set_table k c x)) (cur @ [k]) y = node_put t cur (set_table k (leave c y) x)"
    using node_put_append [OF p(1), of "[k]" y] p(3) m by simp
qed

lemma add_pair_single:
  assumes "node_ok x" "\<not> node_array x" "k \<notin> dom (map_of (node_pairs x))" "k \<notin> dom (map_of (node_tables x))" "val_ok w"
  obtains y where "\<forall>pos. add_pair x [k] w pos = Inr y" "node_ok y" "\<not> node_array y" "node_tables y = node_tables x"
    "merge_tables y = entry_insert k w (merge_tables x)"
proof -
  define y where "y = set_pairs (dictionary_store (node_pairs x) k w) x"
  have a: "add_pair x [k] w pos = Inr y" for pos
    using assms(3,4) not_contains [of "node_pairs x" k]
    by (auto simp: y_def add_key_def add_key_pairs_def dom_map_of_conv_image_fst)
  have "outcome (\<lambda>r. node_ok r \<and> node_array r = node_array x) (Inr y)"
    using add_pair_ok [OF assms(1) _ assms(5), of "[k]" undefined] by (simp add: a del: add_pair.simps)
  moreover have "merge_tables y = entry_insert k w (merge_tables x)"
    using add_pair_insert [OF assms(1) _ assms(5) a] by simp
  ultimately show thesis using that [of y] a assms(2) by (simp add: y_def del: add_pair.simps)
qed

lemma stage_filter:
  assumes "P (k, v)" "k \<notin> fst ` set d"
  shows "m(k \<mapsto> v) ++ map_of (filter P d) = m ++ map_of (filter P ((k, v) # d))"
proof -
  have "map_of (filter P d) k = None" using assms(2) by (auto simp: map_of_eq_None_iff)
  then show ?thesis using assms(1) by (auto simp: map_add_def fun_eq_iff split: option.split)
qed

lemma builds_one_pair:
  assumes v: "serialize_value v = Inr sv" "val_ok v" "3 * length (escape_key k @ '' = '' @ sv @ LF # r) + 1 \<le> n"
    and x: "site t cur" "node_ok x" "\<not> node_array x" "stage m x" "k \<notin> dom m"
    and go: "\<And>y. node_ok y \<Longrightarrow> \<not> node_array y \<Longrightarrow> stage (m(k \<mapsto> v)) y \<Longrightarrow> builds n (node_put t cur y) cur r Q"
  shows "builds n (node_put t cur x) cur (escape_key k @ '' = '' @ sv @ LF # r) Q"
proof (rule builds_pair [OF v])
  fix w
  assume w: "val_equals v w" "val_ok w"
  obtain y where y: "\<forall>pos. add_pair x [k] w pos = Inr y" "node_ok y" "\<not> node_array y" "node_tables y = node_tables x"
    "merge_tables y = entry_insert k w (merge_tables x)"
    by (rule add_pair_single [OF x(2,3) stage_fresh [OF x(4,2,5)] w(2)])
  note p = site_put [OF x(1-3)]
  have "update_at (node_put t cur x) cur (\<lambda>tb. add_pair tb [k] w pos) = Inr (node_put t cur y)" for pos
    using update_at_put [OF p(1,2)] y(1) p(3) by (simp del: add_pair.simps)
  moreover have "builds n (node_put t cur y) cur r Q"
    by (rule go [OF y(2,3)]) (rule stage_update [OF x(4,2) w(1) y(5)])
  ultimately show "\<exists>t'. (\<forall>pos. update_at (node_put t cur x) cur (\<lambda>tb. add_pair tb [k] w pos) = Inr t') \<and>
      builds n t' cur (LF # r) Q"
    using builds_newline by blast
qed

lemma builds_pairs:
  "serialize_pairs d = Inr s \<Longrightarrow> entries_ok d \<Longrightarrow> distinct (map fst d) \<Longrightarrow> 3 * length (s @ r) + 1 \<le> n \<Longrightarrow>
    site t cur \<Longrightarrow> node_ok x \<Longrightarrow> \<not> node_array x \<Longrightarrow> stage m x \<Longrightarrow> fst ` set d \<inter> dom m = {} \<Longrightarrow>
    (\<And>y. node_ok y \<Longrightarrow> \<not> node_array y \<Longrightarrow>
      stage (m ++ map_of (filter (\<lambda>(k, v). \<not> is_written_as_table v) d)) y \<Longrightarrow> builds n (node_put t cur y) cur r Q) \<Longrightarrow>
    builds n (node_put t cur x) cur (s @ r) Q"
proof (induction d arbitrary: s x m)
  case Nil
  then have "s = []" by (simp add: emit_def)
  then show ?case using Nil.prems(6-8) Nil.prems(10) [of x] by simp
next
  case (Cons kv d)
  obtain k v where kv: "kv = (k, v)" by (cases kv)
  have ok: "val_ok v" "entries_ok d" "distinct (map fst d)" "k \<notin> fst ` set d" using Cons.prems(2,3) by (simp_all add: kv)
  show ?case
  proof (cases "is_written_as_table v")
    case True
    then show ?thesis
      using Cons.IH [of s x m] Cons.prems ok by (simp add: kv)
  next
    case False
    obtain sv u where su: "serialize_value v = Inr sv" "serialize_pairs d = Inr u" "s = escape_key k @ '' = '' @ sv @ LF # u"
      using Cons.prems(1) False by (auto simp: kv serialize_key_value_def append_output_Inr emit_def)
    have km: "k \<notin> dom m" using Cons.prems(9) by (auto simp: kv)
    have "builds n (node_put t cur x) cur (escape_key k @ '' = '' @ sv @ LF # (u @ r)) Q"
    proof (rule builds_one_pair [OF su(1) ok(1) _ Cons.prems(5-8) km])
      show "3 * length (escape_key k @ '' = '' @ sv @ LF # u @ r) + 1 \<le> n" using Cons.prems(4) by (simp add: su(3))
      fix y
      assume y: "node_ok y" "\<not> node_array y" "stage (m(k \<mapsto> v)) y"
      show "builds n (node_put t cur y) cur (u @ r) Q"
      proof (rule Cons.IH [OF su(2) ok(2,3) _ Cons.prems(5) y])
        show "3 * length (u @ r) + 1 \<le> n" using Cons.prems(4) by (simp add: su(3))
        show "fst ` set d \<inter> dom (m(k \<mapsto> v)) = {}" using Cons.prems(9) ok(4) by (auto simp: kv)
        fix z
        assume "node_ok z" "\<not> node_array z" "stage (m(k \<mapsto> v) ++ map_of (filter (\<lambda>(k, v). \<not> is_written_as_table v) d)) z"
        moreover have "m(k \<mapsto> v) ++ map_of (filter (\<lambda>(k, v). \<not> is_written_as_table v) d) = m ++ map_of (filter (\<lambda>(k, v). \<not> is_written_as_table v) (kv # d))"
          unfolding kv by (rule stage_filter) (use False ok(4) in simp_all)
        ultimately show "builds n (node_put t cur z) cur r Q" using Cons.prems(10) by metis
      qed
    qed
    then show ?thesis by (simp add: su(3))
  qed
qed

section \<open>Tables\<close>

text \<open>A dictionary is written at a fresh table of the tree, and read into it.\<close>

definition fills :: "entries \<Rightarrow> bool" where
  "fills d \<longleftrightarrow> (\<forall>n t cur x s r Q. val_ok (Dictionary d) \<longrightarrow> serialize_dictionary d cur = Inr s \<longrightarrow>
     3 * length (s @ r) + 1 \<le> n \<longrightarrow> site t cur \<longrightarrow> node_ok x \<longrightarrow> \<not> node_array x \<longrightarrow> merge_tables x = [] \<longrightarrow>
     (\<forall>y cur'. node_ok y \<longrightarrow> \<not> node_array y \<longrightarrow> entries_equal d (merge_tables y) \<longrightarrow> builds n (node_put t cur y) cur' r Q) \<longrightarrow>
     builds n (node_put t cur x) cur (s @ r) Q)"

fun table_fills :: "val \<Rightarrow> bool" where
  "table_fills (Dictionary d) \<longleftrightarrow> fills d"
| "table_fills (Array arr) \<longleftrightarrow> list_all (\<lambda>e. case e of Dictionary d \<Rightarrow> fills d | _ \<Rightarrow> True) arr"
| "table_fills _ \<longleftrightarrow> True"

definition array_node :: "table_node list \<Rightarrow> table_node" where
  "array_node es = Table_Node [] [] False False True es"

lemma array_node_simps [simp]:
  "node_array (array_node es)" "node_elements (array_node es) = es" "set_elements es' (array_node es) = array_node es'"
  "new_node False True = array_node []" "table_value (array_node es) = Array (map (\<lambda>c. Dictionary (merge_tables c)) es)"
  by (simp_all add: array_node_def set_elements_def new_node_def table_value_def merge_elements_map)

lemma array_node_ok: "elements_ok es \<Longrightarrow> es \<noteq> [] \<Longrightarrow> node_ok (array_node es)"
  by (simp add: array_node_def entries_sorted_def)

lemma merge_new [simp]: "merge_tables (new_node b g) = []" "merge_tables (set_named node) = merge_tables node"
  by (simp_all add: merge_tables_def)

lemma named_ok: "node_ok (set_named (new_node False False))" "\<not> node_array (set_named (new_node False False))"
  by (simp_all add: node_ok_iff entries_sorted_def)

text \<open>The headers at a fresh key.\<close>

lemma open_fresh:
  assumes "k \<notin> dom (map_of (node_pairs x))" "k \<notin> dom (map_of (node_tables x))"
  shows "open_table x False [k] pos = Inr (set_table k (set_named (new_node False False)) x)"
    and "open_table x True [k] pos = Inr (set_table k (array_node [new_node False False]) x)"
  using assms not_contains [of "node_pairs x" k] by (auto simp: domIff name_table_def Let_def)

lemma open_element:
  assumes "node_ok x" "k \<notin> dom (map_of (node_pairs x))"
  shows "open_table (set_table k (array_node es) x) True [k] pos = Inr (set_table k (array_node (es @ [new_node False False])) x)"
  using assms not_contains [of "node_pairs x" k] tables_sorted [OF assms(1)] by (auto simp: name_table_def Let_def)

text \<open>One element: its header opens a table at the end of the array, and its dictionary fills it.\<close>

lemma element_builds:
  assumes d: "fills d" "serialize_dictionary d (cur @ [k]) = Inr sd" "val_ok (Dictionary d)" "3 * length (sd @ r) + 1 \<le> n"
    and x: "site t cur" "node_ok x" "\<not> node_array x" "k \<notin> dom (map_of (node_pairs x))" "k \<notin> dom (map_of (node_tables x))"
    and es: "elements_ok es"
    and go: "\<And>z cur'. node_ok z \<Longrightarrow> \<not> node_array z \<Longrightarrow> entries_equal d (merge_tables z) \<Longrightarrow>
      builds n (node_put t cur (set_table k (array_node (es @ [z])) x)) cur' r Q"
  shows "builds n (node_put t cur (if es = [] then x else set_table k (array_node es) x)) cur0
    (LF # ''[['' @ join_path (cur @ [k]) @ '']]'' @ LF # sd @ r) Q"
proof -
  define new where "new = new_node False False"
  have new: "node_ok new" "\<not> node_array new" "merge_tables new = []" by (simp_all add: new_def)
  define y where "y = set_table k (array_node (es @ [new])) x"
  have yo: "node_ok (array_node (es @ [new]))" "\<not> node_array (enter (array_node (es @ [new])))"
    using es new by (auto simp: elements_ok_iff enter_def intro!: array_node_ok)
  let ?x = "if es = [] then x else set_table k (array_node es) x"
  have xo: "node_ok ?x" "\<not> node_array ?x"
    using set_table_ok [OF x(2) array_node_ok [OF es] x(4)] x(2,3) by auto
  note p = site_put [OF x(1) xo]
  have "open_table ?x True [k] pos = Inr y" for pos
    using open_fresh(2) [OF x(4,5)] open_element [OF x(2,4), of es] by (simp add: y_def new_def del: open_table.simps)
  then have o: "open_table (node_put t cur ?x) True (cur @ [k]) pos = Inr (node_put t cur y)" for pos
    using open_table_put [OF p(1,2), of True k pos] p(3) by (simp del: open_table.simps)
  note c = site_child [OF x(1-3) yo x(4), folded y_def]
  have lv: "leave (array_node (es @ [new])) z = array_node (es @ [z])" for z by (simp add: leave_def)
  have "builds n (node_put (node_put t cur y) (cur @ [k]) new) (cur @ [k]) (sd @ r) Q"
    by (rule d(1) [unfolded fills_def, rule_format, OF d(3,2,4) c(1) new]) (simp add: c(2) lv go)
  moreover have "node_put (node_put t cur y) (cur @ [k]) new = node_put t cur y"
    using c(2) [of new, unfolded lv, folded y_def] .
  ultimately have "builds n (node_put t cur y) (cur @ [k]) (sd @ r) Q" by (simp only:)
  then have "builds n (node_put t cur ?x) cur0 ((''[['' @ join_path (cur @ [k]) @ '']]'') @ LF # sd @ r) Q"
    by (intro builds_header [OF _ o builds_newline]) simp_all
  then show ?thesis using builds_newline by simp
qed

lemma elements_build:
  "serialize_elements (cur @ [k]) arr = Inr s \<Longrightarrow> list_all (\<lambda>e. \<exists>d. e = Dictionary d \<and> fills d) arr \<Longrightarrow> contents_ok arr \<Longrightarrow>
    3 * length (s @ r) + 1 \<le> n \<Longrightarrow> site t cur \<Longrightarrow> node_ok x \<Longrightarrow> \<not> node_array x \<Longrightarrow>
    k \<notin> dom (map_of (node_pairs x)) \<Longrightarrow> k \<notin> dom (map_of (node_tables x)) \<Longrightarrow>
    elements_ok es \<Longrightarrow> arr \<noteq> [] \<or> es \<noteq> [] \<Longrightarrow>
    (\<And>fs cur'. elements_ok fs \<Longrightarrow> es @ fs \<noteq> [] \<Longrightarrow> list_all2 (\<lambda>v e. val_equals v (Dictionary (merge_tables e))) arr fs \<Longrightarrow>
      builds n (node_put t cur (set_table k (array_node (es @ fs)) x)) cur' r Q) \<Longrightarrow>
    builds n (node_put t cur (if es = [] then x else set_table k (array_node es) x)) cur0 (s @ r) Q"
proof (induction arr arbitrary: s es cur0)
  case Nil
  then have "s = []" by (simp add: emit_def)
  then show ?case using Nil.prems(11) Nil.prems(12) [of "[]"] by simp
next
  case (Cons e arr)
  obtain d where d: "e = Dictionary d" "fills d" using Cons.prems(2) by auto
  obtain sd u where su: "serialize_dictionary d (cur @ [k]) = Inr sd" "serialize_elements (cur @ [k]) arr = Inr u"
    "s = LF # ''[['' @ join_path (cur @ [k]) @ '']]'' @ LF # sd @ u"
    using Cons.prems(1) by (auto simp: d append_output_Inr emit_def serialize_dictionary_def)
  have "builds n (node_put t cur (if es = [] then x else set_table k (array_node es) x)) cur0
      (LF # ''[['' @ join_path (cur @ [k]) @ '']]'' @ LF # sd @ (u @ r)) Q"
  proof (rule element_builds [OF d(2) su(1) _ _ Cons.prems(5-10)])
    show "val_ok (Dictionary d)" using Cons.prems(3) by (simp add: d)
    show "3 * length (sd @ u @ r) + 1 \<le> n" using Cons.prems(4) by (simp add: su(3))
    fix z cur'
    assume z: "node_ok z" "\<not> node_array z" "entries_equal d (merge_tables z)"
    have "builds n (node_put t cur (if es @ [z] = [] then x else set_table k (array_node (es @ [z])) x)) cur' (u @ r) Q"
    proof (rule Cons.IH [OF su(2) _ _ _ Cons.prems(5-9)])
      show "list_all (\<lambda>e. \<exists>d. e = Dictionary d \<and> fills d) arr" "contents_ok arr" using Cons.prems(2,3) by simp_all
      show "3 * length (u @ r) + 1 \<le> n" using Cons.prems(4) by (simp add: su(3))
      show "elements_ok (es @ [z])" using Cons.prems(10) z(1) by (auto simp: elements_ok_iff)
      show "arr \<noteq> [] \<or> es @ [z] \<noteq> []" by simp
      fix fs cur''
      assume f: "elements_ok fs" "(es @ [z]) @ fs \<noteq> []" "list_all2 (\<lambda>v e. val_equals v (Dictionary (merge_tables e))) arr fs"
      have "builds n (node_put t cur (set_table k (array_node (es @ (z # fs))) x)) cur'' r Q"
        by (rule Cons.prems(12)) (use f z d in simp_all)
      then show "builds n (node_put t cur (set_table k (array_node ((es @ [z]) @ fs)) x)) cur'' r Q" by simp
    qed
    then show "builds n (node_put t cur (set_table k (array_node (es @ [z])) x)) cur' (u @ r) Q" by simp
  qed
  then show ?case by (simp add: su(3))
qed

lemma contents_equal_list: "contents_equal xs ys \<longleftrightarrow> list_all2 val_equals xs ys"
  by (induction xs ys rule: list_induct2') simp_all

lemma written_as_table:
  assumes "is_written_as_table v"
  obtains d where "v = Dictionary d" | arr where "v = Array arr" "arr \<noteq> []" "list_all (\<lambda>e. \<exists>d. e = Dictionary d) arr"
proof (cases v)
  case (Array arr)
  then have "arr \<noteq> []" "list_all (val_is dictionary_kind) arr"
    using assms by (auto simp: is_written_as_table_def is_array_of_tables_def val_is_def)
  moreover have "\<exists>d. e = Dictionary d" if "val_is dictionary_kind e" for e using that by (cases e) (simp_all add: val_is_def)
  ultimately show thesis using that(2) [OF Array] by (auto simp: list_all_iff)
qed (use assms that(1) in \<open>auto simp: is_written_as_table_def is_array_of_tables_def val_is_def\<close>)

text \<open>One table, or one array of tables, at a fresh key.\<close>

lemma named_table_builds:
  assumes d: "fills d" "serialize_dictionary d (cur @ [k]) = Inr sd" "val_ok (Dictionary d)" "3 * length (sd @ r) + 1 \<le> n"
    and x: "site t cur" "node_ok x" "\<not> node_array x" "k \<notin> dom (map_of (node_pairs x))" "k \<notin> dom (map_of (node_tables x))"
    and go: "\<And>y cur'. node_ok y \<Longrightarrow> \<not> node_array y \<Longrightarrow> entries_equal d (merge_tables y) \<Longrightarrow>
      builds n (node_put t cur (set_table k y x)) cur' r Q"
  shows "builds n (node_put t cur x) cur0 (LF # (''['' @ join_path (cur @ [k]) @ '']'') @ LF # sd @ r) Q"
proof -
  define c where "c = set_named (new_node False False)"
  have c: "node_ok c" "\<not> node_array c" "merge_tables c = []" using named_ok by (simp_all add: c_def)
  have ce: "\<not> node_array (enter c)" and lv: "leave c y = y" for y using c(2) by (simp_all add: enter_def leave_def)
  note p = site_put [OF x(1-3)]
  have o: "open_table (node_put t cur x) False (cur @ [k]) pos = Inr (node_put t cur (set_table k c x))" for pos
    using open_table_put [OF p(1,2), of False k pos] p(3) open_fresh(1) [OF x(4,5)] by (simp add: c_def del: open_table.simps)
  note sc = site_child [OF x(1-3) c(1) ce x(4)]
  have "builds n (node_put (node_put t cur (set_table k c x)) (cur @ [k]) c) (cur @ [k]) (sd @ r) Q"
    by (rule d(1) [unfolded fills_def, rule_format, OF d(3,2,4) sc(1) c]) (simp add: sc(2) lv go)
  then have "builds n (node_put t cur (set_table k c x)) (cur @ [k]) (sd @ r) Q" unfolding sc(2) lv .
  then have "builds n (node_put t cur x) cur0 ((''['' @ join_path (cur @ [k]) @ '']'') @ LF # sd @ r) Q"
    by (intro builds_header [OF _ o builds_newline]) simp_all
  then show ?thesis using builds_newline by simp
qed

lemma table_builds:
  assumes "is_written_as_table v" "table_fills v" "val_ok v" "3 * length (s @ r) + 1 \<le> n"
    "site t cur" "node_ok x" "\<not> node_array x" "k \<notin> dom (map_of (node_pairs x))" "k \<notin> dom (map_of (node_tables x))"
    "(case v of
       Dictionary d \<Rightarrow> append_output (emit ([LF] @ ''['' @ join_path (cur @ [k]) @ '']'' @ [LF])) (serialize_dictionary d (cur @ [k]))
     | Array arr \<Rightarrow> serialize_elements (cur @ [k]) arr | _ \<Rightarrow> emit []) = Inr s"
    "\<And>c w cur'. node_ok c \<Longrightarrow> table_value c = w \<Longrightarrow> val_equals v w \<Longrightarrow> builds n (node_put t cur (set_table k c x)) cur' r Q"
  shows "builds n (node_put t cur x) cur0 (s @ r) Q"
  using assms(1)
proof (cases rule: written_as_table)
  case (1 d)
  then obtain sd where sd: "serialize_dictionary d (cur @ [k]) = Inr sd" "s = LF # (''['' @ join_path (cur @ [k]) @ '']'') @ LF # sd"
    using assms(10) by (auto simp: append_output_Inr emit_def)
  have "builds n (node_put t cur x) cur0 (LF # (''['' @ join_path (cur @ [k]) @ '']'') @ LF # sd @ r) Q"
  proof (rule named_table_builds [OF _ sd(1) _ _ assms(5-9)])
    show "fills d" "val_ok (Dictionary d)" using assms(2,3) by (simp_all add: 1)
    show "3 * length (sd @ r) + 1 \<le> n" using assms(4) by (simp add: sd(2))
    fix y cur'
    assume y: "node_ok y" "\<not> node_array y" "entries_equal d (merge_tables y)"
    show "builds n (node_put t cur (set_table k y x)) cur' r Q"
      by (rule assms(11) [OF y(1) refl]) (simp add: 1 y table_value_def)
  qed
  then show ?thesis by (simp add: sd(2))
next
  case (2 arr)
  have l: "list_all (\<lambda>e. \<exists>d. e = Dictionary d \<and> fills d) arr"
    using 2(3) assms(2) by (fastforce simp: 2(1) list_all_iff)
  have se: "serialize_elements (cur @ [k]) arr = Inr s" using assms(10) by (simp add: 2(1))
  have co: "contents_ok arr" using assms(3) by (simp add: 2(1))
  have "builds n (node_put t cur (if [] = ([] :: table_node list) then x else set_table k (array_node []) x)) cur0 (s @ r) Q"
  proof (rule elements_build [OF se l co assms(4-9)])
    show "elements_ok []" "arr \<noteq> [] \<or> ([] :: table_node list) \<noteq> []" using 2(2) by simp_all
    fix fs cur'
    assume f: "elements_ok fs" "[] @ fs \<noteq> []" "list_all2 (\<lambda>v e. val_equals v (Dictionary (merge_tables e))) arr fs"
    have "val_equals v (Array (map (\<lambda>c. Dictionary (merge_tables c)) fs))"
      using f(3) by (simp add: 2(1) contents_equal_list list_all2_map2)
    then show "builds n (node_put t cur (set_table k (array_node ([] @ fs)) x)) cur' r Q"
      using f(1,2) by (intro assms(11) [OF array_node_ok refl]) simp_all
  qed
  then show ?thesis by simp
qed

lemma tables_build:
  "serialize_tables cur d = Inr s \<Longrightarrow> \<forall>(k, v) \<in> set d. table_fills v \<Longrightarrow> entries_ok d \<Longrightarrow> distinct (map fst d) \<Longrightarrow>
    3 * length (s @ r) + 1 \<le> n \<Longrightarrow> site t cur \<Longrightarrow> node_ok x \<Longrightarrow> \<not> node_array x \<Longrightarrow> stage m x \<Longrightarrow>
    fst ` set (filter (\<lambda>(k, v). is_written_as_table v) d) \<inter> dom m = {} \<Longrightarrow>
    (\<And>y cur'. node_ok y \<Longrightarrow> \<not> node_array y \<Longrightarrow>
      stage (m ++ map_of (filter (\<lambda>(k, v). is_written_as_table v) d)) y \<Longrightarrow> builds n (node_put t cur y) cur' r Q) \<Longrightarrow>
    builds n (node_put t cur x) cur0 (s @ r) Q"
proof (induction d arbitrary: s x m cur0)
  case Nil
  then have "s = []" by (simp add: emit_def)
  then show ?case using Nil.prems(7-9) Nil.prems(11) [of x] by simp
next
  case (Cons kv d)
  obtain k v where kv: "kv = (k, v)" by (cases kv)
  have ok: "val_ok v" "entries_ok d" "distinct (map fst d)" "k \<notin> fst ` set d" using Cons.prems(3,4) by (simp_all add: kv)
  have tf: "table_fills v" "\<forall>(k, v) \<in> set d. table_fills v" using Cons.prems(2) by (simp_all add: kv)
  show ?case
  proof (cases "is_written_as_table v")
    case False
    then show ?thesis using Cons.IH [of s x m] Cons.prems ok tf by (simp add: kv)
  next
    case True
    obtain sv u where su: "(case v of
         Dictionary d \<Rightarrow> append_output (emit ([LF] @ ''['' @ join_path (cur @ [k]) @ '']'' @ [LF])) (serialize_dictionary d (cur @ [k]))
       | Array arr \<Rightarrow> serialize_elements (cur @ [k]) arr | _ \<Rightarrow> emit []) = Inr sv"
      "serialize_tables cur d = Inr u" "s = sv @ u"
      using Cons.prems(1) True unfolding serialize_dictionary_def by (auto simp: kv append_output_Inr Let_def)
    have km: "k \<notin> dom m" using Cons.prems(10) True by (auto simp: kv)
    note fresh = stage_fresh [OF Cons.prems(9,7) km]
    have "builds n (node_put t cur x) cur0 (sv @ (u @ r)) Q"
    proof (rule table_builds [OF True tf(1) ok(1) _ Cons.prems(6-8) fresh su(1)])
      show "3 * length (sv @ u @ r) + 1 \<le> n" using Cons.prems(5) by (simp add: su(3))
      fix c w cur'
      assume c: "node_ok c" "table_value c = w" "val_equals v w"
      show "builds n (node_put t cur (set_table k c x)) cur' (u @ r) Q"
      proof (rule Cons.IH [OF su(2) tf(2) ok(2,3) _ Cons.prems(6)])
        show "3 * length (u @ r) + 1 \<le> n" using Cons.prems(5) by (simp add: su(3))
        show "node_ok (set_table k c x)" by (rule set_table_ok [OF Cons.prems(7) c(1) fresh(1)])
        show "\<not> node_array (set_table k c x)" using Cons.prems(8) by simp
        show "stage (m(k \<mapsto> v)) (set_table k c x)"
          by (rule stage_update [OF Cons.prems(9,7) c(3)]) (simp add: merge_tables_set_table [OF Cons.prems(7) c(1) fresh(1)] c(2))
        show "fst ` set (filter (\<lambda>(k, v). is_written_as_table v) d) \<inter> dom (m(k \<mapsto> v)) = {}"
          using Cons.prems(10) ok(4) True by (auto simp: kv)
        fix z cur''
        assume "node_ok z" "\<not> node_array z" "stage (m(k \<mapsto> v) ++ map_of (filter (\<lambda>(k, v). is_written_as_table v) d)) z"
        moreover have "m(k \<mapsto> v) ++ map_of (filter (\<lambda>(k, v). is_written_as_table v) d) = m ++ map_of (filter (\<lambda>(k, v). is_written_as_table v) (kv # d))"
          unfolding kv by (rule stage_filter) (use True ok(4) in simp_all)
        ultimately show "builds n (node_put t cur z) cur'' r Q" using Cons.prems(11) by metis
      qed
    qed
    then show ?thesis by (simp add: su(3))
  qed
qed

section \<open>Documents\<close>

lemma map_of_partition:
  "distinct (map fst d) \<Longrightarrow> map_of (filter (\<lambda>(k, v). \<not> P v) d) ++ map_of (filter (\<lambda>(k, v). P v) d) = map_of d"
proof (induction d)
  case (Cons kv d)
  obtain k v where kv: "kv = (k, v)" by (cases kv)
  have n: "map_of (filter Q d) k = None" for Q using Cons(2) by (auto simp: kv map_of_eq_None_iff)
  show ?case
  proof (rule ext)
    fix x
    have "(map_of (filter (\<lambda>(k, v). \<not> P v) d) ++ map_of (filter (\<lambda>(k, v). P v) d)) x = map_of d x"
      using Cons by (simp add: kv)
    then show "(map_of (filter (\<lambda>(k, v). \<not> P v) (kv # d)) ++ map_of (filter (\<lambda>(k, v). P v) (kv # d))) x = map_of (kv # d) x"
      using n by (cases "x = k") (auto simp: kv map_add_def split: option.splits)
  qed
qed simp

lemma dictionary_fills:
  assumes "\<forall>(k, v) \<in> set d. table_fills v"
  shows "fills d"
  unfolding fills_def
proof (intro allI impI)
  fix n t cur x s r Q
  assume a: "val_ok (Dictionary d)" "serialize_dictionary d cur = Inr s" "3 * length (s @ r) + 1 \<le> n"
    "site t cur" "node_ok x" "\<not> node_array x" "merge_tables x = []"
  assume q: "\<forall>y cur'. node_ok y \<longrightarrow> \<not> node_array y \<longrightarrow> entries_equal d (merge_tables y) \<longrightarrow> builds n (node_put t cur y) cur' r Q"
  obtain p u where s: "serialize_pairs d = Inr p" "serialize_tables cur d = Inr u" "s = p @ u"
    using a(2) by (auto simp: serialize_dictionary_def append_output_Inr)
  have d: "entries_ok d" "entries_sorted d" "distinct (map fst d)"
    using a(1) sorted_distinct_keys by (auto simp: entries_sorted_def)
  define simple where "simple = map_of (filter (\<lambda>(k, v). \<not> is_written_as_table v) d)"
  have e: "stage Map.empty x" using a(7) by (simp add: stage_def)
  have "builds n (node_put t cur x) cur (p @ (u @ r)) Q"
  proof (rule builds_pairs [OF s(1) d(1,3) _ a(4-6) e])
    show "3 * length (p @ u @ r) + 1 \<le> n" using a(3) by (simp add: s(3))
    show "fst ` set d \<inter> dom Map.empty = {}" by simp
    fix y
    assume y: "node_ok y" "\<not> node_array y" "stage (Map.empty ++ map_of (filter (\<lambda>(k, v). \<not> is_written_as_table v) d)) y"
    show "builds n (node_put t cur y) cur (u @ r) Q"
    proof (rule tables_build [OF s(2) assms d(1,3) _ a(4) y(1,2)])
      show "3 * length (u @ r) + 1 \<le> n" using a(3) by (simp add: s(3))
      show "stage simple y" using y(3) by (simp add: simple_def)
      show "fst ` set (filter (\<lambda>(k, v). is_written_as_table v) d) \<inter> dom simple = {}"
        using d(3) by (auto simp: simple_def dom_map_of_conv_image_fst distinct_map inj_on_def)
      fix z cur'
      assume z: "node_ok z" "\<not> node_array z" "stage (simple ++ map_of (filter (\<lambda>(k, v). is_written_as_table v) d)) z"
      have "stage (map_of d) z" using z(3) map_of_partition [OF d(3)] by (simp add: simple_def)
      then show "builds n (node_put t cur z) cur' r Q" using q z(1,2) stage_equal [OF _ d(2) z(1)] by blast
    qed
  qed
  then show "builds n (node_put t cur x) cur (s @ r) Q" by (simp add: s(3))
qed

lemma all_tables_fill: "table_fills v"
proof (induction v)
  case (Array arr)
  then show ?case by (auto simp: list_all_iff split: val.split) (metis table_fills.simps(1))
next
  case (Dictionary d)
  then show ?case by (simp, intro dictionary_fills) (force simp: Basic_BNFs.snds.simps)
qed simp_all

text \<open>C1: A configuration that is written reads back: when \<open>serialize\<close> accepts a well-formed
  dictionary, \<open>deserialize\<close> reads its bytes as a dictionary that is equal to it. The pairs, the
  tables and arrays of tables under their headers, the inline values, the keys that need quotes
  and the numbers that are written as floats all return, and the empty dictionary does too.\<close>

theorem document_roundtrip:
  assumes "val_ok (Dictionary d)" "serialize d = Inr bytes"
  shows "\<exists>e. deserialize bytes = Some (Inr e) \<and> dictionary_equals d e"
proof -
  obtain s where s: "serialize_dictionary d [] = Inr s" "is_valid_utf8 s" "bytes = data_of_string s"
    using assms(2) by (auto simp: serialize_def split: sum.splits if_splits)
  have tx: "data_text bytes = s" by (simp add: s(3) data_text_roundtrip)
  have f: "fills d" using all_tables_fill [of "Dictionary d"] by simp
  define root where "root = new_node False False"
  have root: "site root []" "node_ok root" "\<not> node_array root" "merge_tables root = []" by (simp_all add: root_def site_def)
  have "builds (enough_fuel s) (node_put root [] root) [] (s @ []) (\<lambda>T. entries_equal d (merge_tables T))"
    by (rule f [unfolded fills_def, rule_format, OF assms(1) s(1) _ root])
      (simp_all add: enough_fuel_def builds_end)
  then have b: "builds (enough_fuel s) root [] s (\<lambda>T. entries_equal d (merge_tables T))" by simp
  have pr: "ps_rest (parser_of s) = s" by (simp add: parser_of_def)
  obtain T st' where T: "document_loop (enough_fuel s) root [] (parser_of s) = Some (Inr (T, st'))" "ps_rest st' = []"
    "entries_equal d (merge_tables T)"
    using b pr unfolding builds_def by blast
  have p: "parse (enough_fuel s) s = Some (Inr (merge_tables T))"
  proof -
    have "skip_whitespace_and_comments st' = st'" using T(2) by (subst skip_whitespace_and_comments.simps) simp
    then show ?thesis using T(1,2) by (simp add: parse_def parse_document_def root_def ok_def)
  qed
  show ?thesis
  proof (cases "data_empty bytes")
    case True
    then have "s = []" by (simp add: s(3) data_empty_def data_of_string_def data_of_bytes_def)
    then have "ps_rest (parser_of s) = []" by (simp add: parser_of_def)
    then have "T = root" using T(1) by (simp add: document_loop.simps ok_def)
    then show ?thesis using T(3) root(4) True by (simp add: deserialize_def dictionary_equals_def)
  next
    case False
    then show ?thesis using p T(3) s(2) tx by (simp add: deserialize_def Let_def dictionary_equals_def)
  qed
qed

lemma document_roundtrip_witness:
  "\<exists>e. deserialize (data_of_string (''t = true'' @ [LF])) = Some (Inr e) \<and>
    dictionary_equals [(''t'', Boolean \<lparr>bs_value = True\<rparr>)] e"
proof (rule document_roundtrip)
  have u: "is_valid_utf8 (''t = true'' @ [LF])"
    by (simp add: valid_utf8_1) (simp add: is_valid_utf8.simps)
  show "serialize [(''t'', Boolean \<lparr>bs_value = True\<rparr>)] = Inr (data_of_string (''t = true'' @ [LF]))"
    using u by (simp add: serialize_def serialize_dictionary_def is_written_as_table_def is_array_of_tables_def val_is_def
        serialize_key_value_def escape_key_def is_bare_key_char_def is_ascii_alnum_def is_ascii_alpha_def emit_def)
qed (simp add: entries_sorted_def)

end
