(* ===== verification/Timer_Schedule.thy ===== *)
theory Timer_Schedule
  imports Prelude
begin

text \<open>
  \<open>deadline::after\<close> of \<open>src/thread/deadline.cpp\<close> and \<open>class timer_schedule\<close> of
  \<open>src/thread/timer_schedule.h\<close>: the timers installed on one loop, each with the deadline it is
  next due at. Every time point comes in as an argument.

  A \<open>steady_clock::time_point\<close> is the number of nanoseconds since the epoch of the clock, an
  \<^typ>\<open>int\<close> within 64 bits, and a \<open>milliseconds\<close> an \<^typ>\<open>int\<close> too. A handle is the part of
  its target that never changes: two handles point at one target exactly when their ids are equal,
  as \<open>next_timer_id\<close> gives every timer its own.
\<close>

section \<open>Deadlines\<close>

type_synonym time_point = int
type_synonym milliseconds = int

definition ns_per_millisecond :: int where
  "ns_per_millisecond = 10 ^ 6"

text \<open>\<open>time_point::max()\<close>, which also stands for no deadline.\<close>

definition kMaxDeadline :: time_point where
  "kMaxDeadline = 2 ^ 63 - 1"

definition deadline_limit :: time_point where
  "deadline_limit = kMaxDeadline - 1"

definition deadline_after :: "time_point \<Rightarrow> milliseconds \<Rightarrow> time_point" where
  "deadline_after base timeout =
     (if timeout \<le> 0 then base
      else let room = tdiv (deadline_limit - base) ns_per_millisecond
           in if timeout < room then base + timeout * ns_per_millisecond else deadline_limit)"

section \<open>The schedule\<close>

record timer_handle =
  th_id :: nat
  th_repeats :: bool
  th_interval :: milliseconds

record slot =
  slot_handle :: timer_handle
  slot_deadline :: time_point

type_synonym timer_schedule = "slot list"

definition schedule_install :: "timer_schedule \<Rightarrow> timer_handle \<Rightarrow> time_point \<Rightarrow> timer_schedule" where
  "schedule_install slots which deadline = slots @ [\<lparr>slot_handle = which, slot_deadline = deadline\<rparr>]"

definition schedule_remove :: "timer_schedule \<Rightarrow> nat \<Rightarrow> timer_handle option \<times> timer_schedule" where
  "schedule_remove slots which =
     (case find_pos (\<lambda>each. th_id (slot_handle each) = which) slots of
        None \<Rightarrow> (None, slots)
      | Some it \<Rightarrow> (Some (slot_handle (slots ! it)), take it slots @ drop (it + 1) slots))"

definition schedule_remove_all :: "timer_schedule \<Rightarrow> timer_handle list \<times> timer_schedule" where
  "schedule_remove_all slots = (map slot_handle slots, [])"

definition schedule_earliest :: "timer_schedule \<Rightarrow> time_point" where
  "schedule_earliest slots = foldl (\<lambda>earliest each. min earliest (slot_deadline each)) kMaxDeadline slots"

text \<open>The loop of \<open>take_due\<close>: \<open>it\<close> counts the slots, and \<open>earliest\<close> is the position of the
  candidate so far and its deadline.\<close>

fun earliest_due :: "time_point \<Rightarrow> nat list \<Rightarrow> nat \<Rightarrow> (nat \<times> time_point) option \<Rightarrow> slot list \<Rightarrow> (nat \<times> time_point) option" where
  "earliest_due boundary handled it earliest [] = earliest"
| "earliest_due boundary handled it earliest (each # slots) =
     earliest_due boundary handled (it + 1)
       (if slot_deadline each > boundary then earliest
        else if th_id (slot_handle each) \<in> set handled then earliest
        else case earliest of
            None \<Rightarrow> Some (it, slot_deadline each)
          | Some (found, deadline) \<Rightarrow>
              if slot_deadline each < deadline then Some (it, slot_deadline each) else earliest)
       slots"

definition take_due ::
  "timer_schedule \<Rightarrow> time_point \<Rightarrow> time_point \<Rightarrow> nat list \<Rightarrow> timer_handle option \<times> timer_schedule \<times> nat list" where
  "take_due slots boundary claimed_at handled =
     (case earliest_due boundary handled 0 None slots of
        None \<Rightarrow> (None, slots, handled)
      | Some (earliest, _) \<Rightarrow>
          let which = slot_handle (slots ! earliest);
              handled' = handled @ [th_id which]
          in if th_repeats which
             then (Some which,
                   slots[earliest := (slots ! earliest)\<lparr>slot_deadline := deadline_after claimed_at (th_interval which)\<rparr>],
                   handled')
             else (Some which, take earliest slots @ drop (earliest + 1) slots, handled'))"

definition schedule_size :: "timer_schedule \<Rightarrow> nat" where
  "schedule_size slots = length slots"

definition schedule_empty :: "timer_schedule \<Rightarrow> bool" where
  "schedule_empty slots = (slots = [])"

section \<open>Deadlines do not overflow\<close>

lemma deadline_after_between:
  assumes "0 \<le> base" "base \<le> deadline_limit"
  shows "base \<le> deadline_after base timeout \<and> deadline_after base timeout \<le> deadline_limit"
proof -
  have "base + timeout * ns_per_millisecond \<le> deadline_limit"
    if "timeout < (deadline_limit - base) div ns_per_millisecond" for timeout
    using that assms by (simp add: ns_per_millisecond_def)
  then show ?thesis
    using assms by (auto simp: deadline_after_def tdiv_def Let_def ns_per_millisecond_def)
qed

text \<open>The deadline of a timeout is exact or clamped: for a base within the clock's range the
  deadline lies between the base and the limit below \<open>time_point::max()\<close>, which means no
  deadline, so it fits in 64 bits and never turns into no deadline; a timeout that is not positive
  gives the base, one that ends at least a millisecond before the limit is kept exactly, and one
  that ends behind the limit is clamped to it.\<close>

theorem deadline_after_bounds:
  assumes "0 \<le> base" "base \<le> deadline_limit"
  shows "base \<le> deadline_after base timeout \<and> deadline_after base timeout \<le> deadline_limit \<and>
    deadline_after base timeout \<noteq> kMaxDeadline \<and>
    (timeout \<le> 0 \<longrightarrow> deadline_after base timeout = base) \<and>
    (0 < timeout \<and> base + (timeout + 1) * ns_per_millisecond \<le> deadline_limit \<longrightarrow>
      deadline_after base timeout = base + timeout * ns_per_millisecond) \<and>
    (0 < timeout \<and> deadline_limit < base + timeout * ns_per_millisecond \<longrightarrow>
      deadline_after base timeout = deadline_limit)"
proof -
  have "deadline_after base timeout = base + timeout * ns_per_millisecond"
    if "0 < timeout" "base + (timeout + 1) * ns_per_millisecond \<le> deadline_limit"
    using that assms by (auto simp: deadline_after_def tdiv_def Let_def ns_per_millisecond_def)
  moreover have "deadline_after base timeout = deadline_limit"
    if "0 < timeout" "base + timeout * ns_per_millisecond > deadline_limit"
    using that assms by (auto simp: deadline_after_def tdiv_def Let_def ns_per_millisecond_def)
  moreover have "deadline_after base timeout = base" if "timeout \<le> 0"
    using that by (simp add: deadline_after_def)
  moreover have "deadline_limit < kMaxDeadline" by (simp add: deadline_limit_def)
  ultimately show ?thesis using deadline_after_between [OF assms, of timeout] by auto
qed

lemma deadline_after_bounds_witness:
  "(5::int) \<le> deadline_after 5 7 \<and> deadline_after 5 7 = 7000005"
  using deadline_after_bounds [of 5 7] by (simp add: ns_per_millisecond_def deadline_limit_def kMaxDeadline_def)

section \<open>The earliest due timer\<close>

abbreviation slot_id :: "slot \<Rightarrow> nat" where
  "slot_id each \<equiv> th_id (slot_handle each)"

definition is_due :: "time_point \<Rightarrow> nat list \<Rightarrow> slot \<Rightarrow> bool" where
  "is_due boundary handled each = (slot_deadline each \<le> boundary \<and> slot_id each \<notin> set handled)"

lemma arg_min_list_Cons:
  "ys \<noteq> [] \<Longrightarrow> arg_min_list f (x # ys) = (if f x \<le> f (arg_min_list f ys) then x else arg_min_list f ys)"
  by (cases ys) (simp_all add: Let_def)

lemma arg_min_list_le: "y \<in> set ys \<Longrightarrow> f (arg_min_list f ys) \<le> (f y :: 'a :: linorder)"
  by (cases "ys = []") (simp_all add: f_arg_min_list_f)

lemma arg_min_list_first:
  "\<forall>y \<in> set ys. f x \<le> (f y :: 'a :: linorder) \<Longrightarrow> arg_min_list f (x # ys) = x"
  by (cases "ys = []") (simp_all add: arg_min_list_Cons arg_min_list_in)

lemma arg_min_list_later:
  assumes "y \<in> set ys" "f y < (f x :: 'a :: linorder)"
  shows "arg_min_list f (x # ys) = arg_min_list f ys"
  using assms arg_min_list_le [OF assms(1), of f] by (cases "ys = []") (auto simp: arg_min_list_Cons)

text \<open>What the loop finds: the candidate so far, unless a later slot is due before it, and then the
  first of the earliest.\<close>

definition finds :: "(nat \<times> time_point) option \<Rightarrow> nat \<Rightarrow> slot list \<Rightarrow> slot list \<Rightarrow> bool" where
  "finds found it slots due =
     (\<exists>i < length slots. found = Some (it + i, slot_deadline (slots ! i)) \<and>
        slots ! i = arg_min_list slot_deadline due)"

lemma finds_here: "arg_min_list slot_deadline due = s \<Longrightarrow> finds (Some (it, slot_deadline s)) it (s # slots) due"
  by (force simp: finds_def)

lemma finds_later: "finds found (it + 1) slots due \<Longrightarrow> arg_min_list slot_deadline due' = arg_min_list slot_deadline due \<Longrightarrow>
    finds found it (s # slots) due'"
  unfolding finds_def by (elim exE conjE, rule_tac x = "Suc i" in exI) simp

lemma earliest_due_candidate:
  "if \<forall>s \<in> set (filter (is_due boundary handled) slots). d \<le> slot_deadline s
   then earliest_due boundary handled it (Some (j, d)) slots = Some (j, d)
   else finds (earliest_due boundary handled it (Some (j, d)) slots) it slots (filter (is_due boundary handled) slots)"
proof (induction slots arbitrary: it j d)
  case Nil
  then show ?case by simp
next
  case (Cons s slots)
  let ?due = "filter (is_due boundary handled) slots"
  consider (no) "\<not> is_due boundary handled s" | (better) "is_due boundary handled s" "slot_deadline s < d"
    | (worse) "is_due boundary handled s" "d \<le> slot_deadline s" by force
  then show ?case
  proof cases
    case no
    then have "earliest_due boundary handled it (Some (j, d)) (s # slots) = earliest_due boundary handled (it + 1) (Some (j, d)) slots"
      by (auto simp: is_due_def)
    then show ?thesis using Cons.IH [of d "it + 1" j] no by (auto simp: finds_later split: if_splits)
  next
    case better
    then have e: "earliest_due boundary handled it (Some (j, d)) (s # slots) =
        earliest_due boundary handled (it + 1) (Some (it, slot_deadline s)) slots"
      by (auto simp: is_due_def)
    show ?thesis
    proof (cases "\<forall>y \<in> set ?due. slot_deadline s \<le> slot_deadline y")
      case True
      then show ?thesis using Cons.IH [of "slot_deadline s" "it + 1" it] e better arg_min_list_first [OF True]
        by (auto intro!: finds_here)
    next
      case False
      then obtain y where "y \<in> set ?due" "slot_deadline y < slot_deadline s" by auto
      then have "arg_min_list slot_deadline (s # ?due) = arg_min_list slot_deadline ?due" by (rule arg_min_list_later)
      moreover have "finds (earliest_due boundary handled (it + 1) (Some (it, slot_deadline s)) slots) (it + 1) slots ?due"
        using Cons.IH [of "slot_deadline s" "it + 1" it] False by (simp only: if_False)
      ultimately show ?thesis using e better by (auto intro: finds_later)
    qed
  next
    case worse
    then have e: "earliest_due boundary handled it (Some (j, d)) (s # slots) = earliest_due boundary handled (it + 1) (Some (j, d)) slots"
      by (auto simp: is_due_def)
    show ?thesis
    proof (cases "\<forall>y \<in> set ?due. d \<le> slot_deadline y")
      case True
      then show ?thesis using Cons.IH [of d "it + 1" j] e worse by simp
    next
      case False
      then obtain y where y: "y \<in> set ?due" "slot_deadline y < slot_deadline s" using worse by force
      then have "arg_min_list slot_deadline (s # ?due) = arg_min_list slot_deadline ?due" by (rule arg_min_list_later)
      moreover have "finds (earliest_due boundary handled (it + 1) (Some (j, d)) slots) (it + 1) slots ?due"
        using Cons.IH [of d "it + 1" j] False by (simp only: if_False)
      ultimately show ?thesis using e worse False by (auto intro: finds_later)
    qed
  qed
qed

lemma earliest_due_finds:
  "if filter (is_due boundary handled) slots = [] then earliest_due boundary handled it None slots = None
   else finds (earliest_due boundary handled it None slots) it slots (filter (is_due boundary handled) slots)"
proof (induction slots arbitrary: it)
  case Nil
  then show ?case by simp
next
  case (Cons s slots)
  let ?due = "filter (is_due boundary handled) slots"
  show ?case
  proof (cases "is_due boundary handled s")
    case False
    then have "earliest_due boundary handled it None (s # slots) = earliest_due boundary handled (it + 1) None slots"
      by (auto simp: is_due_def)
    then show ?thesis using Cons.IH [of "it + 1"] False by (auto simp: finds_later)
  next
    case True
    then have e: "earliest_due boundary handled it None (s # slots) =
        earliest_due boundary handled (it + 1) (Some (it, slot_deadline s)) slots"
      by (auto simp: is_due_def)
    note c = earliest_due_candidate [of boundary handled slots "slot_deadline s" "it + 1" it]
    show ?thesis
    proof (cases "\<forall>y \<in> set ?due. slot_deadline s \<le> slot_deadline y")
      case all: True
      then show ?thesis using c e True arg_min_list_first [OF all] by (auto intro!: finds_here)
    next
      case False
      then obtain y where "y \<in> set ?due" "slot_deadline y < slot_deadline s" by auto
      then have "arg_min_list slot_deadline (s # ?due) = arg_min_list slot_deadline ?due" by (rule arg_min_list_later)
      moreover have "finds (earliest_due boundary handled (it + 1) (Some (it, slot_deadline s)) slots) (it + 1) slots ?due"
        using c False by (simp only: if_False)
      ultimately show ?thesis using e True by (auto intro: finds_later)
    qed
  qed
qed

definition schedule_ok :: "timer_schedule \<Rightarrow> bool" where
  "schedule_ok slots = distinct (map slot_id slots)"

definition installed :: "timer_schedule \<Rightarrow> nat set" where
  "installed slots = slot_id ` set slots"

text \<open>The slots once a timer is claimed: a repeating one has its new deadline, a one-shot is gone.\<close>

definition claimed :: "slot \<Rightarrow> time_point \<Rightarrow> timer_schedule \<Rightarrow> timer_schedule" where
  "claimed s claimed_at slots =
     (if th_repeats (slot_handle s)
      then map (\<lambda>each. if slot_id each = slot_id s
        then s\<lparr>slot_deadline := deadline_after claimed_at (th_interval (slot_handle s))\<rparr> else each) slots
      else filter (\<lambda>each. slot_id each \<noteq> slot_id s) slots)"

lemma nth_id_eq: "schedule_ok slots \<Longrightarrow> i < length slots \<Longrightarrow> j < length slots \<Longrightarrow> slot_id (slots ! i) = slot_id (slots ! j) \<longleftrightarrow> i = j"
  by (simp add: schedule_ok_def distinct_conv_nth) (metis)

lemma remove_at_filter:
  assumes "schedule_ok slots" "i < length slots"
  shows "take i slots @ drop (Suc i) slots = filter (\<lambda>each. slot_id each \<noteq> slot_id (slots ! i)) slots"
proof -
  have "filter (\<lambda>each. slot_id each \<noteq> slot_id (slots ! i)) (take i slots) = take i slots"
    using assms nth_id_eq [OF assms(1)] by (auto simp: filter_id_conv in_set_conv_nth)
  moreover have "filter (\<lambda>each. slot_id each \<noteq> slot_id (slots ! i)) (drop (Suc i) slots) = drop (Suc i) slots"
    using assms nth_id_eq [OF assms(1)] by (auto simp: filter_id_conv in_set_conv_nth)
  moreover have "slots = take i slots @ [slots ! i] @ drop (Suc i) slots" using assms(2) by (simp add: id_take_nth_drop)
  ultimately show ?thesis by (metis (mono_tags, lifting) append_Nil filter.simps filter_append)
qed

lemma update_at_map:
  assumes "schedule_ok slots" "i < length slots"
  shows "slots[i := s] = map (\<lambda>each. if slot_id each = slot_id (slots ! i) then s else each) slots"
  using assms nth_id_eq [OF assms(1)] by (intro nth_equalityI) (auto simp: nth_list_update)

lemma take_due_claims:
  assumes "schedule_ok slots"
  shows "take_due slots boundary claimed_at handled =
    (let due = filter (is_due boundary handled) slots; s = arg_min_list slot_deadline due
     in if due = [] then (None, slots, handled)
        else (Some (slot_handle s), claimed s claimed_at slots, handled @ [slot_id s]))"
proof (cases "filter (is_due boundary handled) slots = []")
  case True
  then show ?thesis using earliest_due_finds [of boundary handled slots 0] by (simp add: take_due_def)
next
  case False
  then obtain i where i: "i < length slots" "slots ! i = arg_min_list slot_deadline (filter (is_due boundary handled) slots)"
    "earliest_due boundary handled 0 None slots = Some (i, slot_deadline (slots ! i))"
    using earliest_due_finds [of boundary handled slots 0] by (auto simp: finds_def)
  show ?thesis
    using False i(1) i(2) [symmetric] i(3)
    by (simp add: take_due_def Let_def claimed_def remove_at_filter [OF assms] update_at_map [OF assms])
qed

text \<open>C38: \<open>take_due\<close> claims the earliest due timer: of the timers due at the boundary that this
  pass has not handled, the first with the least deadline. Its id is recorded, a repeating timer is
  next due its interval after the time of the claim and keeps its place, a one-shot is taken out,
  and every other timer stays as it was. When no timer is due nothing changes.\<close>

theorem take_due_earliest:
  assumes "schedule_ok slots"
  shows "take_due slots boundary claimed_at handled =
    (let due = filter (is_due boundary handled) slots; s = arg_min_list slot_deadline due
     in if due = [] then (None, slots, handled)
        else (Some (slot_handle s), claimed s claimed_at slots, handled @ [slot_id s]))"
  using assms by (rule take_due_claims)

lemma take_due_earliest_witness:
  "take_due [\<lparr>slot_handle = \<lparr>th_id = 0, th_repeats = True, th_interval = 5\<rparr>, slot_deadline = 9\<rparr>,
     \<lparr>slot_handle = \<lparr>th_id = 1, th_repeats = False, th_interval = 5\<rparr>, slot_deadline = 4\<rparr>] 10 10 [] =
   (Some \<lparr>th_id = 1, th_repeats = False, th_interval = 5\<rparr>,
    [\<lparr>slot_handle = \<lparr>th_id = 0, th_repeats = True, th_interval = 5\<rparr>, slot_deadline = 9\<rparr>], [1])"
  by (subst take_due_earliest) (simp_all add: schedule_ok_def is_due_def claimed_def Let_def)

section \<open>What a pass relies on\<close>

text \<open>A pass claims the due timers of a loop one after another. What it relies on: a claim takes
  an installed timer that is due and not handled yet and records it, no timer becomes due at the
  boundary by a claim, and a claim that fails leaves none.\<close>

locale due_timers =
  fixes ok :: "'s \<Rightarrow> bool" and ids :: "'s \<Rightarrow> nat set" and due :: "'s \<Rightarrow> time_point \<Rightarrow> nat set"
    and claim :: "'s \<Rightarrow> time_point \<Rightarrow> time_point \<Rightarrow> nat list \<Rightarrow> timer_handle option \<times> 's \<times> nat list"
  assumes finite_ids: "finite (ids s)"
    and due_installed: "due s boundary \<subseteq> ids s"
    and claim_none: "ok s \<Longrightarrow> claim s boundary now handled = (None, s', handled') \<Longrightarrow>
      s' = s \<and> handled' = handled \<and> due s boundary \<subseteq> set handled"
    and claim_some: "ok s \<Longrightarrow> claim s boundary now handled = (Some w, s', handled') \<Longrightarrow>
      ok s' \<and> handled' = handled @ [th_id w] \<and> th_id w \<in> due s boundary - set handled \<and>
      ids s' = (if th_repeats w then ids s else ids s - {th_id w}) \<and> due s' boundary \<subseteq> due s boundary"
begin

definition left :: "'s \<Rightarrow> time_point \<Rightarrow> nat list \<Rightarrow> nat" where
  "left s boundary handled = card (due s boundary - set handled)"

lemma claim_left:
  assumes "ok s" "claim s boundary now handled = (Some w, s', handled')"
  shows "left s' boundary handled' < left s boundary handled"
proof -
  have c: "handled' = handled @ [th_id w]" "th_id w \<in> due s boundary - set handled" "due s' boundary \<subseteq> due s boundary"
    using claim_some [OF assms] by auto
  have "finite (due s boundary)" using finite_ids due_installed by (rule finite_subset [rotated])
  moreover have "due s' boundary - set handled' \<subset> due s boundary - set handled"
    using c by (simp add: psubset_eq) blast
  ultimately show ?thesis unfolding left_def by (simp add: psubset_card_mono)
qed

lemma left_bound: "left s boundary handled \<le> card (ids s)"
  unfolding left_def using finite_ids due_installed by (meson Diff_subset card_mono order_trans)

lemma claim_distinct:
  "ok s \<Longrightarrow> distinct handled \<Longrightarrow> claim s boundary now handled = (w, s', handled') \<Longrightarrow> distinct handled'"
  using claim_none [of s boundary now handled s' handled'] claim_some [of s boundary now handled "the w" s' handled']
  by (cases w) simp_all

text \<open>The timers a pass claims until none is left, with the time read at each claim.\<close>

inductive claims :: "time_point \<Rightarrow> 's \<Rightarrow> nat list \<Rightarrow> timer_handle list \<Rightarrow> 's \<Rightarrow> nat list \<Rightarrow> bool" for boundary where
  "claim s boundary now handled = (None, s', handled') \<Longrightarrow> claims boundary s handled [] s' handled'"
| "claim s boundary now handled = (Some w, s', handled') \<Longrightarrow> claims boundary s' handled' ws s'' handled'' \<Longrightarrow>
    claims boundary s handled (w # ws) s'' handled''"

lemma claims_once:
  "claims boundary s handled ws s' handled' \<Longrightarrow> ok s \<Longrightarrow> distinct handled \<Longrightarrow>
    ok s' \<and> handled' = handled @ map th_id ws \<and> distinct handled' \<and> length ws \<le> left s boundary handled \<and>
    due s' boundary \<subseteq> set handled'"
proof (induction rule: claims.induct)
  case (1 s now handled s' handled')
  then show ?case using claim_none [OF _ 1(1)] by simp
next
  case (2 s now handled w s' handled' ws s'' handled'')
  have c: "ok s'" "handled' = handled @ [th_id w]" "distinct handled'"
    using claim_some [OF 2(4,1)] claim_distinct [OF 2(4,5,1)] by auto
  have n: "ok s''" "handled'' = handled' @ map th_id ws" "distinct handled''" "length ws \<le> left s' boundary handled'"
    "due s'' boundary \<subseteq> set handled''"
    using 2(3) [OF c(1,3)] by blast+
  have "handled'' = handled @ map th_id (w # ws)" using n(2) c(2) by simp
  moreover have "length (w # ws) \<le> left s boundary handled" using n(4) claim_left [OF 2(4,1)] by simp
  ultimately show ?case using n(1,3,5) by blast
qed

end

definition due_at :: "timer_schedule \<Rightarrow> time_point \<Rightarrow> nat set" where
  "due_at slots boundary = slot_id ` {s \<in> set slots. slot_deadline s \<le> boundary}"

lemma schedule_ok_map:
  "schedule_ok slots \<Longrightarrow> (\<forall>s \<in> set slots. slot_id (f s) = slot_id s) \<Longrightarrow> schedule_ok (map f slots)"
  unfolding schedule_ok_def by (metis (no_types, lifting) comp_apply list.map_comp map_eq_conv)

lemma claimed_ok: "schedule_ok slots \<Longrightarrow> s \<in> set slots \<Longrightarrow> schedule_ok (claimed s now slots)"
  unfolding claimed_def by (auto intro!: schedule_ok_map) (simp add: schedule_ok_def distinct_map_filter)

lemma claimed_installed:
  "s \<in> set slots \<Longrightarrow> installed (claimed s now slots) =
    (if th_repeats (slot_handle s) then installed slots else installed slots - {slot_id s})"
  unfolding claimed_def installed_def by (auto simp only: if_True if_False set_map image_image set_filter intro!: image_cong split: if_splits) auto

lemma claimed_due_at:
  "s \<in> set slots \<Longrightarrow> slot_deadline s \<le> boundary \<Longrightarrow> due_at (claimed s now slots) boundary \<subseteq> due_at slots boundary"
  by (auto simp: claimed_def due_at_def image_iff split: if_splits)

lemma take_due_taken:
  assumes "schedule_ok slots" "take_due slots boundary now handled = (Some w, slots', handled')"
  obtains s where "s \<in> set slots" "is_due boundary handled s" "w = slot_handle s"
    "\<forall>y \<in> set slots. is_due boundary handled y \<longrightarrow> slot_deadline s \<le> slot_deadline y"
    "slots' = claimed s now slots" "handled' = handled @ [slot_id s]"
proof -
  define due where "due = filter (is_due boundary handled) slots"
  have "due \<noteq> []" using assms by (auto simp: take_due_claims due_def Let_def split: if_splits)
  then have "arg_min_list slot_deadline due \<in> set due" by (rule arg_min_list_in)
  moreover have "\<forall>y \<in> set due. slot_deadline (arg_min_list slot_deadline due) \<le> slot_deadline y"
    by (simp add: arg_min_list_le)
  ultimately show thesis
    using assms that [of "arg_min_list slot_deadline due"]
    by (auto simp: take_due_claims due_def Let_def split: if_splits)
qed

lemma take_due_none:
  "schedule_ok slots \<Longrightarrow> take_due slots boundary now handled = (None, slots', handled') \<Longrightarrow>
    slots' = slots \<and> handled' = handled \<and> (\<forall>s \<in> set slots. \<not> is_due boundary handled s)"
  by (auto simp: take_due_claims Let_def filter_empty_conv split: if_splits)

interpretation schedule: due_timers schedule_ok installed due_at take_due
proof
  fix slots :: timer_schedule and slots' boundary now handled handled' w
  show "finite (installed slots)" by (simp add: installed_def)
  show "due_at slots boundary \<subseteq> installed slots" by (auto simp: due_at_def installed_def)
  assume ok: "schedule_ok slots"
  show "slots' = slots \<and> handled' = handled \<and> due_at slots boundary \<subseteq> set handled"
    if "take_due slots boundary now handled = (None, slots', handled')"
    using take_due_none [OF ok that] by (auto simp: due_at_def is_due_def)
  assume t: "take_due slots boundary now handled = (Some w, slots', handled')"
  obtain s where "s \<in> set slots" "is_due boundary handled s" "w = slot_handle s"
    "slots' = claimed s now slots" "handled' = handled @ [slot_id s]"
    using take_due_taken [OF ok t] by blast
  then show "schedule_ok slots' \<and> handled' = handled @ [th_id w] \<and> th_id w \<in> due_at slots boundary - set handled \<and>
      installed slots' = (if th_repeats w then installed slots else installed slots - {th_id w}) \<and>
      due_at slots' boundary \<subseteq> due_at slots boundary"
    using ok claimed_ok claimed_installed claimed_due_at [of s slots boundary now] by (auto simp: is_due_def due_at_def)
qed

end
