(* ===== verification/Operation.thy ===== *)
theory Operation
  imports Timer_Schedule
begin

text \<open>
  \<open>src/thread/operation.cpp\<close>: the ids of operations, the result of one, which whoever holds it
  shares, and the errors of operations. A function that changes a shared result takes its storage
  and returns the new one; the body of each runs under the mutex of the storage, so it is one step.

  The value a task returns is a \<open>std::any\<close>: nothing, or a value under the type it was put in with.
\<close>

section \<open>Waiting with a deadline\<close>

text \<open>The loop in \<open>wait_for\<close> of results and queues and in \<open>join_for\<close> of threads: while what is
  waited for is not done and the time is before the deadline, it waits. \<open>world n\<close> is what the
  \<open>n\<close>-th round sees under the mutex: the state, which other threads change while this one waits,
  and the time. A wait may return early, and nothing makes it return, so the loop is partial.\<close>

partial_function (option) wait_loop :: "('s \<Rightarrow> bool) \<Rightarrow> time_point \<Rightarrow> (nat \<Rightarrow> 's \<times> time_point) \<Rightarrow> nat \<Rightarrow> bool option" where
  "wait_loop settled deadline world n =
     (let (s, now) = world n
      in if \<not> settled s \<and> now < deadline then wait_loop settled deadline world (n + 1)
         else Some (settled s))"

text \<open>\<open>wait_for\<close>: with nothing to wait it answers at once, from the state it sees first; the
  deadline counts from the time at the start.\<close>

definition timed_wait ::
  "('s \<Rightarrow> bool) \<Rightarrow> bool \<Rightarrow> milliseconds \<Rightarrow> time_point \<Rightarrow> (nat \<Rightarrow> 's \<times> time_point) \<Rightarrow> bool option" where
  "timed_wait settled wait timeout start world =
     (if \<not> wait \<or> timeout \<le> 0 then Some (settled (fst (world 0)))
      else wait_loop settled (deadline_after start timeout) world 0)"

section \<open>Errors\<close>

datatype operation_errc = Cancelled_errc | Not_finished | Type_mismatch | Queue_stopped | Invalid_priority
  | Foreign_dependency | Empty_task

fun operation_errc_value :: "operation_errc \<Rightarrow> int" where
  "operation_errc_value Cancelled_errc = 1"
| "operation_errc_value Not_finished = 2"
| "operation_errc_value Type_mismatch = 3"
| "operation_errc_value Queue_stopped = 4"
| "operation_errc_value Invalid_priority = 5"
| "operation_errc_value Foreign_dependency = 6"
| "operation_errc_value Empty_task = 7"

definition operation_category_name :: string where
  "operation_category_name = ''dross.operation''"

definition operation_message :: "int \<Rightarrow> string" where
  "operation_message n =
     (if n = operation_errc_value Cancelled_errc then ''operation was cancelled''
      else if n = operation_errc_value Not_finished then ''operation has not finished''
      else if n = operation_errc_value Type_mismatch then ''operation result is not of the requested type''
      else if n = operation_errc_value Queue_stopped then ''operation queue has stopped''
      else if n = operation_errc_value Invalid_priority then ''operation priority is not one operation_priority names''
      else if n = operation_errc_value Foreign_dependency then ''operation is to run after a result from another queue''
      else if n = operation_errc_value Empty_task then ''operation task is empty''
      else ''unknown operation error'')"

definition make_error_code :: "operation_errc \<Rightarrow> int \<times> string" where
  "make_error_code e = (operation_errc_value e, operation_category_name)"

section \<open>Ids\<close>

text \<open>A counter of 64 bits after one more; the counters are natural numbers below \<open>2 ^ 64\<close>.\<close>

definition next_u64 :: "nat \<Rightarrow> nat" where
  "next_u64 n = (n + 1) mod 2 ^ 64"

lemma next_u64_Suc [simp]: "n + 1 < 2 ^ 64 \<Longrightarrow> next_u64 n = Suc n"
  by (simp add: next_u64_def)

text \<open>The ids of a process come from one counter: \<open>next_id\<close> gives the next id and the counter
  after it.\<close>

definition next_id :: "nat \<Rightarrow> nat \<times> nat" where
  "next_id last_id = (next_u64 last_id, next_u64 last_id)"

definition operation_id_compare :: "nat \<Rightarrow> nat \<Rightarrow> weak_ordering" where
  "operation_id_compare a b = compare_by (\<lambda>x. x) a b"

definition operation_id_equals :: "nat \<Rightarrow> nat \<Rightarrow> bool" where
  "operation_id_equals a b = (a = b)"

interpretation id_order: three_way "\<lambda>_. True" "\<lambda>x. x" operation_id_compare
  by unfold_locales (simp add: operation_id_compare_def)

section \<open>The result of an operation\<close>

type_synonym ('t, 'v) any = "('t \<times> 'v) option"

datatype result_state = Pending | Returned | Cancelled

record ('t, 'v) result_storage =
  rs_id :: "nat"
  rs_queue :: "nat"
  rs_value :: "('t, 'v) any"
  rs_state :: result_state

definition result_make :: "nat \<Rightarrow> nat \<Rightarrow> ('t, 'v) result_storage" where
  "result_make new_id queue = \<lparr>rs_id = new_id, rs_queue = queue, rs_value = None, rs_state = Pending\<rparr>"

definition result_is_finished :: "('t, 'v) result_storage \<Rightarrow> bool" where
  "result_is_finished s = (rs_state s \<noteq> Pending)"

definition result_wait_for ::
  "milliseconds \<Rightarrow> time_point \<Rightarrow> (nat \<Rightarrow> ('t, 'v) result_storage \<times> time_point) \<Rightarrow> bool option" where
  "result_wait_for timeout start world = timed_wait result_is_finished True timeout start world"

definition result_held :: "('t, 'v) result_storage \<Rightarrow> operation_errc + ('t, 'v) any" where
  "result_held s =
     (if rs_state s = Pending then Inl Not_finished
      else if rs_state s = Cancelled then Inl Cancelled_errc
      else Inr (rs_value s))"

definition result_finish :: "('t, 'v) any \<Rightarrow> ('t, 'v) result_storage \<Rightarrow> ('t, 'v) result_storage" where
  "result_finish v s = (if rs_state s \<noteq> Pending then s else s\<lparr>rs_value := v, rs_state := Returned\<rparr>)"

definition result_cancel :: "('t, 'v) result_storage \<Rightarrow> ('t, 'v) result_storage" where
  "result_cancel s = (if rs_state s \<noteq> Pending then s else s\<lparr>rs_state := Cancelled\<rparr>)"

definition result_is_cancelled :: "('t, 'v) result_storage \<Rightarrow> bool" where
  "result_is_cancelled s = (result_held s = Inl Cancelled_errc)"

text \<open>\<open>get_as<T>\<close>, for \<open>void\<close> and for a type that has values.\<close>

definition get_as_void :: "('t, 'v) result_storage \<Rightarrow> operation_errc + unit" where
  "get_as_void s =
     (case result_held s of Inl e \<Rightarrow> Inl e
      | Inr v \<Rightarrow> if v \<noteq> None then Inl Type_mismatch else Inr ())"

definition get_as :: "'t \<Rightarrow> ('t, 'v) result_storage \<Rightarrow> operation_errc + 'v" where
  "get_as t s =
     (case result_held s of Inl e \<Rightarrow> Inl e
      | Inr v \<Rightarrow> (case v of None \<Rightarrow> Inl Type_mismatch
          | Some (u, x) \<Rightarrow> if u = t then Inr x else Inl Type_mismatch))"

section \<open>Waits return\<close>

definition wait_over :: "('s \<Rightarrow> bool) \<Rightarrow> time_point \<Rightarrow> 's \<times> time_point \<Rightarrow> bool" where
  "wait_over settled deadline w = (settled (fst w) \<or> deadline \<le> snd w)"

lemma wait_loop_over [simp]:
  "wait_over settled deadline (world n) \<Longrightarrow> wait_loop settled deadline world n = Some (settled (fst (world n)))"
  by (subst wait_loop.simps) (auto simp: wait_over_def split: prod.split)

lemma wait_loop_waits:
  "\<not> wait_over settled deadline (world n) \<Longrightarrow>
    wait_loop settled deadline world n = wait_loop settled deadline world (Suc n)"
  by (subst wait_loop.simps) (auto simp: wait_over_def split: prod.split)

lemma wait_loop_returns:
  assumes "wait_over settled deadline (world k)" "n \<le> k"
  shows "\<exists>m. n \<le> m \<and> wait_loop settled deadline world n = Some (settled (fst (world m))) \<and>
    wait_over settled deadline (world m) \<and> (\<forall>j. n \<le> j \<and> j < m \<longrightarrow> \<not> wait_over settled deadline (world j))"
  using assms(2)
proof (induction rule: inc_induct)
  case base
  then show ?case using assms(1) by auto
next
  case (step n)
  show ?case
  proof (cases "wait_over settled deadline (world n)")
    case True
    then show ?thesis by auto
  next
    case False
    obtain m where m: "Suc n \<le> m" "wait_loop settled deadline world (Suc n) = Some (settled (fst (world m)))"
      "wait_over settled deadline (world m)" "\<forall>j. Suc n \<le> j \<and> j < m \<longrightarrow> \<not> wait_over settled deadline (world j)"
      using step.IH by blast
    have "\<not> wait_over settled deadline (world j)" if "n \<le> j" "j < m" for j
      using m(4) that False by (cases "j = n") auto
    then show ?thesis using m(1-3) wait_loop_waits [where world = world and n = n] False by (intro exI [of _ m]) auto
  qed
qed

lemma timed_wait_returns:
  assumes "0 < timeout" "wait_over settled (deadline_after start timeout) (world k)"
  shows "\<exists>m. timed_wait settled True timeout start world = Some (settled (fst (world m))) \<and>
    wait_over settled (deadline_after start timeout) (world m) \<and>
    (\<forall>j < m. \<not> wait_over settled (deadline_after start timeout) (world j))"
  using wait_loop_returns [where world = world and k = k and n = 0 and settled = settled] assms by (auto simp: timed_wait_def)

text \<open>C39: \<open>wait_for\<close> on a result returns as soon as a round sees the result finished or the
  deadline passed, whichever comes first, and answers whether the result was finished then: if
  there is such a round it returns, true when the result has finished by it, and false only once
  the time has reached the deadline. It never waits when the timeout is not positive.\<close>

theorem result_wait_returns:
  assumes "result_is_finished (fst (world k)) \<or> deadline_after start timeout \<le> snd (world k)"
  shows "\<exists>m. result_wait_for timeout start world = Some (result_is_finished (fst (world m))) \<and>
    (timeout \<le> 0 \<longrightarrow> m = 0) \<and>
    (0 < timeout \<longrightarrow> result_is_finished (fst (world m)) \<or> deadline_after start timeout \<le> snd (world m)) \<and>
    (\<forall>j < m. \<not> result_is_finished (fst (world j)) \<and> snd (world j) < deadline_after start timeout)"
proof (cases "0 < timeout")
  case True
  then show ?thesis
    using timed_wait_returns [OF True, where settled = result_is_finished and start = start and world = world and k = k] assms
    by (auto simp: wait_over_def result_wait_for_def not_le)
next
  case False
  then show ?thesis by (intro exI [of _ 0]) (simp add: result_wait_for_def timed_wait_def)
qed

lemma result_wait_returns_witness:
  "result_wait_for 1 0 (\<lambda>n. (result_make 1 1 :: (nat, nat) result_storage, int n * 600000)) = Some False"
proof -
  let ?world = "\<lambda>n. (result_make 1 1 :: (nat, nat) result_storage, int n * 600000)"
  have "result_is_finished (fst (?world 2)) \<or> deadline_after 0 1 \<le> snd (?world 2)"
    by (simp add: deadline_after_def tdiv_def deadline_limit_def kMaxDeadline_def ns_per_millisecond_def)
  then show ?thesis using result_wait_returns [where world = ?world and k = 2 and start = 0 and timeout = 1]
    by (auto simp: result_make_def result_is_finished_def)
qed

section \<open>A result is filled in once\<close>

text \<open>What holders of a result rely on: of the calls that settle it the first takes effect, and
  no later one changes it.\<close>

locale settled_once =
  fixes pending :: "'s \<Rightarrow> bool" and settle :: "'c \<Rightarrow> 's \<Rightarrow> 's"
  assumes settle_pending: "pending s \<Longrightarrow> \<not> pending (settle c s)"
    and settle_settled: "\<not> pending s \<Longrightarrow> settle c s = s"
begin

lemma fold_settled: "\<not> pending s \<Longrightarrow> fold settle cs s = s"
  by (induction cs) (simp_all add: settle_settled)

lemma first_settles: "fold settle (c # cs) s = settle c s"
  by (cases "pending s") (simp_all add: fold_settled settle_pending settle_settled)

end

datatype ('t, 'v) settling = Finish_with "('t, 'v) any" | Cancel

fun result_settle :: "('t, 'v) settling \<Rightarrow> ('t, 'v) result_storage \<Rightarrow> ('t, 'v) result_storage" where
  "result_settle (Finish_with v) s = result_finish v s"
| "result_settle Cancel s = result_cancel s"

interpretation result: settled_once "\<lambda>s :: ('t, 'v) result_storage. rs_state s = Pending" result_settle
proof
  fix s :: "('t, 'v) result_storage" and c
  show "rs_state (result_settle c s) \<noteq> Pending" if "rs_state s = Pending"
    using that by (cases c) (simp_all add: result_finish_def result_cancel_def)
  show "result_settle c s = s" if "rs_state s \<noteq> Pending"
    using that by (cases c) (simp_all add: result_finish_def result_cancel_def)
qed

text \<open>Whichever of \<open>finish\<close> and \<open>cancel\<close> is called first on a new result takes effect, whatever
  calls follow: the result then holds the value it was finished with, read back under its own type
  and refused under another, or reports that it was cancelled; until then it reports that it has not
  finished.\<close>

theorem result_first_call_decides:
  "result_held (result_make i q) = Inl Not_finished \<and>
   result_held (fold result_settle (Cancel # cs) (result_make i q)) = Inl Cancelled_errc \<and>
   get_as t (fold result_settle (Finish_with (Some (t, x)) # cs) (result_make i q)) = Inr x \<and>
   get_as_void (fold result_settle (Finish_with (Some (t, x)) # cs) (result_make i q)) = Inl Type_mismatch \<and>
   get_as_void (fold result_settle (Finish_with None # cs) (result_make i q)) = Inr () \<and>
   get_as t (fold result_settle (Finish_with None # cs) (result_make i q)) = Inl Type_mismatch"
  unfolding result.first_settles
  by (simp add: result_make_def result_held_def result_finish_def result_cancel_def get_as_def get_as_void_def)

end
