(* ===== verification/Backlog.thy ===== *)
theory Backlog
  imports Operation "HOL-Library.AList"
begin

text \<open>
  \<open>class backlog\<close> of \<open>src/thread/operation_queue.cpp\<close>: the tasks of a queue that wait to run, those
  that wait for others to return, and which workers have a sweep on their loop; and the handles of
  the queue. Every operation that holds \<open>_mutex\<close> is a function from the state to the state after it.

  The state is that of the process as far as the queue reaches: the members of \<open>backlog\<close>, the
  results, which are shared with whoever holds a handle to one and are found by their id, and the
  run loop of each worker, which is what \<open>perform\<close> reaches. What a task does is its own matter: a
  task is a value of a type of its own, and what running it calls is a step of its own.
\<close>

section \<open>The data\<close>

text \<open>A priority is the value its enumeration holds, which a cast can make any number.\<close>

definition to_size_t :: "int \<Rightarrow> nat" where
  "to_size_t n = nat (n mod 2 ^ 64)"

definition names_a_priority :: "int \<Rightarrow> bool" where
  "names_a_priority priority = (to_size_t priority \<le> 2)"

text \<open>The results in \<open>after\<close> are handles, each named by the id of its result.\<close>

record operation_options =
  oo_priority :: int
  oo_after :: "nat list"

record 'k entry =
  en_order :: nat
  en_result :: "nat option"
  en_task :: "'k option"
  en_call :: "'k option"

record 'k waiting =
  wt_task :: "'k entry"
  wt_priority :: int
  wt_remaining :: nat

text \<open>What a worker finds on its loop: a sweep, the task that ends the worker, or a task somebody
  else posted. What it is doing: nothing, about to take a task, running the task it took, having
  run it, or about to end or to post its end again.\<close>

datatype work = Sweep | Finish | Posted

datatype sweep_mode = Sweeping | Finishing

datatype 'k activity = Idle | Taking sweep_mode | Running sweep_mode "'k entry" | Ran sweep_mode "'k entry" | Closing

record worker_loop =
  lp_pending :: "work list"
  lp_quit :: bool
  lp_finished :: bool

record ('k, 't, 'v) queue_state =
  bl_number :: nat
  bl_tasks :: "'k entry list list"
  bl_accepted :: nat
  bl_unfinished :: "nat set"
  bl_dependents :: "nat \<rightharpoonup> nat list"
  bl_waiting :: "(nat \<times> 'k waiting) list"
  bl_workers :: "nat list"
  bl_sweeping :: "bool list"
  bl_accepting :: bool
  bl_results :: "nat \<rightharpoonup> ('t, 'v) result_storage"
  bl_last_id :: nat
  bl_loops :: "nat \<Rightarrow> worker_loop"
  bl_activity :: "nat \<Rightarrow> 'k activity"

text \<open>A number no other queue has, which the counter of the process gives.\<close>

definition next_queue_number :: "nat \<Rightarrow> nat \<times> nat" where
  "next_queue_number last_number = (next_u64 last_number, next_u64 last_number)"

definition queue_make :: "nat \<Rightarrow> nat \<Rightarrow> nat \<Rightarrow> (nat \<rightharpoonup> ('t, 'v) result_storage) \<Rightarrow> ('k, 't, 'v) queue_state" where
  "queue_make thread_count number last_id results =
     \<lparr>bl_number = number, bl_tasks = [[], [], []], bl_accepted = 0, bl_unfinished = {}, bl_dependents = Map.empty,
      bl_waiting = [], bl_workers = [0..<thread_count], bl_sweeping = replicate thread_count False, bl_accepting = True,
      bl_results = results, bl_last_id = last_id,
      bl_loops = (\<lambda>w. \<lparr>lp_pending = [], lp_quit = False, lp_finished = False\<rparr>), bl_activity = (\<lambda>w. Idle)\<rparr>"

section \<open>Handing sweeps to the workers\<close>

definition loop_perform :: "work \<Rightarrow> worker_loop \<Rightarrow> bool \<times> worker_loop" where
  "loop_perform item loop =
     (if lp_finished loop then (False, loop) else (True, loop\<lparr>lp_pending := lp_pending loop @ [item]\<rparr>))"

definition worker_perform :: "nat \<Rightarrow> work \<Rightarrow> ('k, 't, 'v) queue_state \<Rightarrow> ('k, 't, 'v) queue_state" where
  "worker_perform w item s = s\<lparr>bl_loops := (bl_loops s)(w := snd (loop_perform item (bl_loops s w)))\<rparr>"

definition hand_sweep :: "nat \<Rightarrow> ('k, 't, 'v) queue_state \<Rightarrow> ('k, 't, 'v) queue_state" where
  "hand_sweep i s =
     (if bl_sweeping s ! i then s
      else worker_perform (bl_workers s ! i) Sweep (s\<lparr>bl_sweeping := (bl_sweeping s)[i := True]\<rparr>))"

definition make_ready :: "'k entry \<Rightarrow> int \<Rightarrow> ('k, 't, 'v) queue_state \<Rightarrow> ('k, 't, 'v) queue_state" where
  "make_ready task priority s =
     (let p = to_size_t priority
      in fold hand_sweep [0..<length (bl_workers s)]
           (s\<lparr>bl_tasks := (bl_tasks s)[p := bl_tasks s ! p @ [task]]\<rparr>))"

section \<open>Accepting a task\<close>

definition all_from_here :: "('k, 't, 'v) queue_state \<Rightarrow> nat list \<Rightarrow> bool" where
  "all_from_here s after =
     list_all (\<lambda>before. case bl_results s before of None \<Rightarrow> False | Some r \<Rightarrow> rs_queue r = bl_number s) after"

definition any_cancelled :: "('k, 't, 'v) queue_state \<Rightarrow> nat list \<Rightarrow> bool" where
  "any_cancelled s after =
     list_ex (\<lambda>before. case bl_results s before of None \<Rightarrow> False | Some r \<Rightarrow> result_is_cancelled r) after"

text \<open>The loop over \<open>options.after\<close>: each result that is still in \<open>_dependents\<close> takes the order of
  the task, and is counted.\<close>

fun count_dependencies :: "nat \<Rightarrow> nat list \<Rightarrow> (nat \<rightharpoonup> nat list) \<Rightarrow> nat \<Rightarrow> (nat \<rightharpoonup> nat list) \<times> nat" where
  "count_dependencies order [] dependents remaining = (dependents, remaining)"
| "count_dependencies order (before # after) dependents remaining =
     (case dependents before of
        None \<Rightarrow> count_dependencies order after dependents remaining
      | Some found \<Rightarrow> count_dependencies order after (dependents(before \<mapsto> found @ [order])) (remaining + 1))"

definition try_emplace :: "nat option \<Rightarrow> (nat \<rightharpoonup> nat list) \<Rightarrow> (nat \<rightharpoonup> nat list)" where
  "try_emplace result dependents =
     (case result of None \<Rightarrow> dependents
      | Some i \<Rightarrow> if dependents i = None then dependents(i \<mapsto> []) else dependents)"

text \<open>\<open>std::map::emplace\<close> keeps the entries in the order of their keys.\<close>

fun emplace_waiting :: "nat \<Rightarrow> 'k waiting \<Rightarrow> (nat \<times> 'k waiting) list \<Rightarrow> (nat \<times> 'k waiting) list" where
  "emplace_waiting order aside [] = [(order, aside)]"
| "emplace_waiting order aside ((o', a) # rest) =
     (if order < o' then (order, aside) # (o', a) # rest
      else if order = o' then (o', a) # rest
      else (o', a) # emplace_waiting order aside rest)"

definition backlog_queue ::
  "operation_options \<Rightarrow> nat option \<Rightarrow> 'k option \<Rightarrow> 'k option \<Rightarrow> ('k, 't, 'v) queue_state \<Rightarrow> ('k, 't, 'v) queue_state" where
  "backlog_queue options result task call s =
     (let order = bl_accepted s;
          accepted = \<lparr>en_order = order, en_result = result, en_task = task, en_call = call\<rparr>;
          (dependents, remaining) = count_dependencies order (oo_after options) (try_emplace result (bl_dependents s)) 0;
          s' = s\<lparr>bl_accepted := next_u64 order, bl_unfinished := insert order (bl_unfinished s), bl_dependents := dependents\<rparr>
      in if remaining > 0
         then s'\<lparr>bl_waiting := emplace_waiting order
                \<lparr>wt_task = accepted, wt_priority = oo_priority options, wt_remaining = remaining\<rparr> (bl_waiting s')\<rparr>
         else make_ready accepted (oo_priority options) s')"

definition backlog_submit ::
  "'k \<Rightarrow> operation_options \<Rightarrow> ('k, 't, 'v) queue_state \<Rightarrow> bool \<times> ('k, 't, 'v) queue_state" where
  "backlog_submit task options s =
     (if \<not> names_a_priority (oo_priority options) then (False, s)
      else if \<not> all_from_here s (oo_after options) then (False, s)
      else if \<not> bl_accepting s then (False, s)
      else (True, if \<not> any_cancelled s (oo_after options) then backlog_queue options None (Some task) None s else s))"

text \<open>A change of the result with an id: \<open>finish\<close> or \<open>cancel\<close>.\<close>

definition settle_result ::
  "nat \<Rightarrow> ('t, 'v) settling \<Rightarrow> ('k, 't, 'v) queue_state \<Rightarrow> ('k, 't, 'v) queue_state" where
  "settle_result i c s = s\<lparr>bl_results := (bl_results s)(i := map_option (result_settle c) (bl_results s i))\<rparr>"

text \<open>\<open>operation_access::make\<close>: a new id, and a new result under it.\<close>

definition make_result :: "nat \<Rightarrow> ('k, 't, 'v) queue_state \<Rightarrow> nat \<times> ('k, 't, 'v) queue_state" where
  "make_result queue s =
     (let (i, last_id) = next_id (bl_last_id s)
      in (i, s\<lparr>bl_last_id := last_id, bl_results := (bl_results s)(i \<mapsto> result_make i queue)\<rparr>))"

definition backlog_enqueue ::
  "'k \<Rightarrow> operation_options \<Rightarrow> ('k, 't, 'v) queue_state \<Rightarrow> (operation_errc + nat) \<times> ('k, 't, 'v) queue_state" where
  "backlog_enqueue task options s =
     (if \<not> names_a_priority (oo_priority options) then (Inl Invalid_priority, s)
      else if \<not> all_from_here s (oo_after options) then (Inl Foreign_dependency, s)
      else if \<not> bl_accepting s then (Inl Queue_stopped, s)
      else let (i, s') = make_result (bl_number s) s
           in (Inr i,
               if any_cancelled s' (oo_after options) then settle_result i Cancel s'
               else backlog_queue options (Some i) None (Some task) s'))"

section \<open>Taking a task, and being done with it\<close>

text \<open>The lists from the highest priority to the lowest.\<close>

fun take_first :: "'k entry list list \<Rightarrow> ('k entry \<times> 'k entry list list) option" where
  "take_first [] = None"
| "take_first ([] # queues) = map_option (\<lambda>(e, rest). (e, [] # rest)) (take_first queues)"
| "take_first ((e # tasks) # queues) = Some (e, tasks # queues)"

definition backlog_take :: "nat \<Rightarrow> ('k, 't, 'v) queue_state \<Rightarrow> 'k entry option \<times> ('k, 't, 'v) queue_state" where
  "backlog_take worker s =
     (case take_first (rev (bl_tasks s)) of
        Some (e, queues) \<Rightarrow> (Some e, s\<lparr>bl_tasks := rev queues\<rparr>)
      | None \<Rightarrow> (None, s\<lparr>bl_sweeping := (bl_sweeping s)[worker := False]\<rparr>))"

text \<open>\<open>entry::run\<close> once what it calls has returned: a task from \<open>enqueue\<close> fills in its result with
  what it returned.\<close>

definition entry_run ::
  "'k entry \<Rightarrow> ('t, 'v) any \<Rightarrow> ('k, 't, 'v) queue_state \<Rightarrow> ('k, 't, 'v) queue_state" where
  "entry_run e returned s =
     (if en_call e \<noteq> None
      then (case en_result e of None \<Rightarrow> s | Some i \<Rightarrow> settle_result i (Finish_with returned) s)
      else s)"

definition take_dependent_orders :: "nat \<Rightarrow> ('k, 't, 'v) queue_state \<Rightarrow> nat list \<times> ('k, 't, 'v) queue_state" where
  "take_dependent_orders i s =
     (case bl_dependents s i of None \<Rightarrow> [] | Some orders \<Rightarrow> orders, s\<lparr>bl_dependents := (bl_dependents s)(i := None)\<rparr>)"

text \<open>\<open>--remaining\<close> of a \<open>std::size_t\<close>.\<close>

definition count_down :: "nat \<Rightarrow> nat" where
  "count_down n = (n + (2 ^ 64 - 1)) mod 2 ^ 64"

definition count_off :: "nat \<Rightarrow> ('k, 't, 'v) queue_state \<Rightarrow> ('k, 't, 'v) queue_state" where
  "count_off order s =
     (case map_of (bl_waiting s) order of
        None \<Rightarrow> s
      | Some found \<Rightarrow>
          let remaining = count_down (wt_remaining found)
          in if remaining = 0
             then make_ready (wt_task found) (wt_priority found) (s\<lparr>bl_waiting := AList.delete order (bl_waiting s)\<rparr>)
             else s\<lparr>bl_waiting := AList.update order (found\<lparr>wt_remaining := remaining\<rparr>) (bl_waiting s)\<rparr>)"

definition backlog_done :: "'k entry \<Rightarrow> ('k, 't, 'v) queue_state \<Rightarrow> ('k, 't, 'v) queue_state" where
  "backlog_done finished s =
     (let s1 = s\<lparr>bl_unfinished := bl_unfinished s - {en_order finished}\<rparr>
      in case en_result finished of
           None \<Rightarrow> s1
         | Some i \<Rightarrow> let (orders, s2) = take_dependent_orders i s1 in fold count_off orders s2)"

section \<open>Cancelling\<close>

definition has_result :: "nat \<Rightarrow> 'k entry \<Rightarrow> bool" where
  "has_result i e = (en_result e = Some i)"

fun take_out_of_lists :: "nat \<Rightarrow> 'k entry list list \<Rightarrow> ('k entry \<times> 'k entry list list) option" where
  "take_out_of_lists i [] = None"
| "take_out_of_lists i (tasks # queues) =
     (case find_pos (has_result i) tasks of
        Some found \<Rightarrow> Some (tasks ! found, (take found tasks @ drop (Suc found) tasks) # queues)
      | None \<Rightarrow> map_option (\<lambda>(e, rest). (e, tasks # rest)) (take_out_of_lists i queues))"

definition take_out :: "nat \<Rightarrow> ('k, 't, 'v) queue_state \<Rightarrow> 'k entry option \<times> ('k, 't, 'v) queue_state" where
  "take_out i s =
     (case take_out_of_lists i (bl_tasks s) of
        Some (e, queues) \<Rightarrow> (Some e, s\<lparr>bl_tasks := queues\<rparr>)
      | None \<Rightarrow>
          (case find_pos (\<lambda>(order, aside). has_result i (wt_task aside)) (bl_waiting s) of
             None \<Rightarrow> (None, s)
           | Some found \<Rightarrow>
               (Some (wt_task (snd (bl_waiting s ! found))),
                s\<lparr>bl_waiting := take found (bl_waiting s) @ drop (Suc found) (bl_waiting s)\<rparr>)))"

text \<open>The loop of \<open>take_dependents\<close>.\<close>

fun take_waiting :: "nat list \<Rightarrow> (nat \<times> 'k waiting) list \<Rightarrow> 'k entry list \<times> (nat \<times> 'k waiting) list" where
  "take_waiting [] aside = ([], aside)"
| "take_waiting (order # orders) aside =
     (case map_of aside order of
        None \<Rightarrow> take_waiting orders aside
      | Some found \<Rightarrow>
          let (taken, rest) = take_waiting orders (AList.delete order aside) in (wt_task found # taken, rest))"

definition take_dependents :: "nat \<Rightarrow> ('k, 't, 'v) queue_state \<Rightarrow> 'k entry list \<times> ('k, 't, 'v) queue_state" where
  "take_dependents i s =
     (let (orders, s') = take_dependent_orders i s; (taken, rest) = take_waiting orders (bl_waiting s')
      in (taken, s'\<lparr>bl_waiting := rest\<rparr>))"

lemma length_delete_less: "map_of aside order = Some found \<Longrightarrow> length (AList.delete order aside) < length aside"
  by (induction aside) (auto simp: less_Suc_eq_le AList.delete_eq length_filter_le split: if_splits)

lemma take_waiting_length: "length (fst (take_waiting orders aside)) + length (snd (take_waiting orders aside)) \<le> length aside"
proof (induction orders aside rule: take_waiting.induct)
  case (2 order orders aside)
  then show ?case
    using length_delete_less [of aside order] by (auto split: option.splits prod.splits)
qed simp

text \<open>The loop of \<open>cancel\<close>: what is removed and not looked at yet.\<close>

function cancel_loop :: "'k entry list \<Rightarrow> ('k, 't, 'v) queue_state \<Rightarrow> ('k, 't, 'v) queue_state" where
  "cancel_loop [] s = s"
| "cancel_loop (e # removed) s =
     (let s1 = s\<lparr>bl_unfinished := bl_unfinished s - {en_order e}\<rparr>
      in case en_result e of
           None \<Rightarrow> cancel_loop removed s1
         | Some i \<Rightarrow>
             let (taken, s2) = take_dependents i (settle_result i Cancel s1)
             in cancel_loop (removed @ taken) s2)"
  by pat_completeness auto

termination
proof (relation "measure (\<lambda>(removed, s). length removed + length (bl_waiting s))", goal_cases)
  case (3 e removed s s1 i p taken s2)
  then show ?case
    using take_waiting_length [of "case bl_dependents s i of None \<Rightarrow> [] | Some orders \<Rightarrow> orders" "bl_waiting s"]
    by (auto simp: take_dependents_def take_dependent_orders_def settle_result_def split: prod.splits)
qed auto

definition backlog_cancel :: "nat \<Rightarrow> ('k, 't, 'v) queue_state \<Rightarrow> bool \<times> ('k, 't, 'v) queue_state" where
  "backlog_cancel i s =
     (case take_out i s of
        (None, s') \<Rightarrow> (False, s')
      | (Some found, s') \<Rightarrow> (True, cancel_loop [found] s'))"

section \<open>Stopping and waiting\<close>

definition backlog_stop :: "('k, 't, 'v) queue_state \<Rightarrow> ('k, 't, 'v) queue_state" where
  "backlog_stop s =
     (if \<not> bl_accepting s then s
      else let s' = fold (\<lambda>w. worker_perform w Finish) (bl_workers s) (s\<lparr>bl_accepting := False\<rparr>)
           in s'\<lparr>bl_workers := []\<rparr>)"

definition settled :: "nat \<Rightarrow> ('k, 't, 'v) queue_state \<Rightarrow> bool" where
  "settled target s = (bl_unfinished s = {} \<or> target \<le> Min (bl_unfinished s))"

text \<open>\<open>wait_for\<close>; \<open>s\<close> is the state when it is called, which fixes the tasks it waits for.\<close>

definition backlog_wait_for ::
  "('k, 't, 'v) queue_state \<Rightarrow> milliseconds \<Rightarrow> bool \<Rightarrow> time_point \<Rightarrow> (nat \<Rightarrow> ('k, 't, 'v) queue_state \<times> time_point) \<Rightarrow> bool option" where
  "backlog_wait_for s timeout wait start world = timed_wait (settled (bl_accepted s)) wait timeout start world"

section \<open>The queue behind its handles\<close>

text \<open>\<open>operation_queue::storage\<close>. A task is a \<open>std::function\<close>, which may be empty. Whether the
  caller is a worker, the answer of each worker's \<open>join_for\<close> and the times read are arguments.\<close>

definition storage_make ::
  "nat \<Rightarrow> nat \<Rightarrow> nat \<Rightarrow> (nat \<rightharpoonup> ('t, 'v) result_storage) \<Rightarrow> string + ('k, 't, 'v) queue_state" where
  "storage_make thread_count number last_id results =
     (if thread_count = 0 then Inl ''operation_queue needs at least one worker''
      else Inr (queue_make thread_count number last_id results))"

definition storage_submit ::
  "'k option \<Rightarrow> operation_options \<Rightarrow> ('k, 't, 'v) queue_state \<Rightarrow> bool \<times> ('k, 't, 'v) queue_state" where
  "storage_submit task options s = (case task of None \<Rightarrow> (False, s) | Some f \<Rightarrow> backlog_submit f options s)"

definition queue_enqueue ::
  "'k option \<Rightarrow> operation_options \<Rightarrow> ('k, 't, 'v) queue_state \<Rightarrow> (operation_errc + nat) \<times> ('k, 't, 'v) queue_state" where
  "queue_enqueue task options s = (case task of None \<Rightarrow> (Inl Empty_task, s) | Some f \<Rightarrow> backlog_enqueue f options s)"

definition storage_wait_for ::
  "bool \<Rightarrow> ('k, 't, 'v) queue_state \<Rightarrow> milliseconds \<Rightarrow> time_point \<Rightarrow> (nat \<Rightarrow> ('k, 't, 'v) queue_state \<times> time_point) \<Rightarrow> bool option" where
  "storage_wait_for on_a_worker s timeout start world = backlog_wait_for s timeout (\<not> on_a_worker) start world"

definition ceil_milliseconds :: "int \<Rightarrow> milliseconds" where
  "ceil_milliseconds d = - ((- d) div ns_per_millisecond)"

fun join_workers :: "time_point \<Rightarrow> (nat \<Rightarrow> time_point) \<Rightarrow> (nat \<Rightarrow> milliseconds \<Rightarrow> bool) \<Rightarrow> nat \<Rightarrow> nat \<Rightarrow> bool" where
  "join_workers deadline now join_for w 0 = True"
| "join_workers deadline now join_for w (Suc n) =
     (if \<not> join_for w (ceil_milliseconds (deadline - now w)) then False
      else join_workers deadline now join_for (w + 1) n)"

definition storage_thread_count :: "('k, 't, 'v) queue_state \<Rightarrow> nat" where
  "storage_thread_count s = length (bl_sweeping s)"

definition storage_shutdown ::
  "bool \<Rightarrow> milliseconds \<Rightarrow> time_point \<Rightarrow> (nat \<Rightarrow> time_point) \<Rightarrow> (nat \<Rightarrow> milliseconds \<Rightarrow> bool) \<Rightarrow>
    ('k, 't, 'v) queue_state \<Rightarrow> bool \<times> ('k, 't, 'v) queue_state" where
  "storage_shutdown on_a_worker timeout start now join_for s =
     (let s' = backlog_stop s;
          timeout' = (if on_a_worker then 0 else timeout);
          deadline = deadline_after start timeout'
      in (join_workers deadline now join_for 0 (storage_thread_count s), s'))"

end
