(* ===== verification/Queue_Books.thy ===== *)
theory Queue_Books
  imports Backlog "HOL-Library.Multiset"
begin

text \<open>
  How the books of a queue agree: the tasks in its lists, the tasks that wait for others, the orders
  it counts as unfinished, and the orders each unfinished result will count off.

  The tasks are counted in multisets, so that a task that moves from one list to another leaves the
  count as it was and none can be in two places.
\<close>

section \<open>What an operation leaves alone\<close>

lemma worker_perform_frame [simp]:
  "bl_number (worker_perform w item s) = bl_number s" "bl_tasks (worker_perform w item s) = bl_tasks s"
  "bl_accepted (worker_perform w item s) = bl_accepted s" "bl_unfinished (worker_perform w item s) = bl_unfinished s"
  "bl_dependents (worker_perform w item s) = bl_dependents s" "bl_waiting (worker_perform w item s) = bl_waiting s"
  "bl_workers (worker_perform w item s) = bl_workers s" "bl_sweeping (worker_perform w item s) = bl_sweeping s"
  "bl_accepting (worker_perform w item s) = bl_accepting s" "bl_results (worker_perform w item s) = bl_results s"
  "bl_last_id (worker_perform w item s) = bl_last_id s" "bl_activity (worker_perform w item s) = bl_activity s"
  by (simp_all add: worker_perform_def)

lemma hand_sweep_frame [simp]:
  "bl_number (hand_sweep w s) = bl_number s" "bl_tasks (hand_sweep w s) = bl_tasks s"
  "bl_accepted (hand_sweep w s) = bl_accepted s" "bl_unfinished (hand_sweep w s) = bl_unfinished s"
  "bl_dependents (hand_sweep w s) = bl_dependents s" "bl_waiting (hand_sweep w s) = bl_waiting s"
  "bl_workers (hand_sweep w s) = bl_workers s" "bl_accepting (hand_sweep w s) = bl_accepting s"
  "bl_results (hand_sweep w s) = bl_results s" "bl_last_id (hand_sweep w s) = bl_last_id s"
  "bl_activity (hand_sweep w s) = bl_activity s" "length (bl_sweeping (hand_sweep w s)) = length (bl_sweeping s)"
  by (simp_all add: hand_sweep_def)

lemma fold_hand_sweep_frame [simp]:
  "bl_number (fold hand_sweep ws s) = bl_number s" "bl_tasks (fold hand_sweep ws s) = bl_tasks s"
  "bl_accepted (fold hand_sweep ws s) = bl_accepted s" "bl_unfinished (fold hand_sweep ws s) = bl_unfinished s"
  "bl_dependents (fold hand_sweep ws s) = bl_dependents s" "bl_waiting (fold hand_sweep ws s) = bl_waiting s"
  "bl_workers (fold hand_sweep ws s) = bl_workers s" "bl_accepting (fold hand_sweep ws s) = bl_accepting s"
  "bl_results (fold hand_sweep ws s) = bl_results s" "bl_last_id (fold hand_sweep ws s) = bl_last_id s"
  "bl_activity (fold hand_sweep ws s) = bl_activity s" "length (bl_sweeping (fold hand_sweep ws s)) = length (bl_sweeping s)"
  by (induction ws arbitrary: s) simp_all

lemma make_ready_frame [simp]:
  "bl_number (make_ready e p s) = bl_number s"
  "bl_tasks (make_ready e p s) = (bl_tasks s)[to_size_t p := bl_tasks s ! to_size_t p @ [e]]"
  "bl_accepted (make_ready e p s) = bl_accepted s" "bl_unfinished (make_ready e p s) = bl_unfinished s"
  "bl_dependents (make_ready e p s) = bl_dependents s" "bl_waiting (make_ready e p s) = bl_waiting s"
  "bl_workers (make_ready e p s) = bl_workers s" "bl_accepting (make_ready e p s) = bl_accepting s"
  "bl_results (make_ready e p s) = bl_results s" "bl_last_id (make_ready e p s) = bl_last_id s"
  "bl_activity (make_ready e p s) = bl_activity s" "length (bl_sweeping (make_ready e p s)) = length (bl_sweeping s)"
  by (simp_all add: make_ready_def Let_def)

lemma settle_result_frame [simp]:
  "bl_number (settle_result i c s) = bl_number s" "bl_tasks (settle_result i c s) = bl_tasks s"
  "bl_accepted (settle_result i c s) = bl_accepted s" "bl_unfinished (settle_result i c s) = bl_unfinished s"
  "bl_dependents (settle_result i c s) = bl_dependents s" "bl_waiting (settle_result i c s) = bl_waiting s"
  "bl_workers (settle_result i c s) = bl_workers s" "bl_sweeping (settle_result i c s) = bl_sweeping s"
  "bl_accepting (settle_result i c s) = bl_accepting s" "bl_last_id (settle_result i c s) = bl_last_id s"
  "bl_loops (settle_result i c s) = bl_loops s" "bl_activity (settle_result i c s) = bl_activity s"
  by (simp_all add: settle_result_def)

section \<open>The tasks of a queue\<close>

definition ready :: "('k, 't, 'v) queue_state \<Rightarrow> 'k entry multiset" where
  "ready s = mset (concat (bl_tasks s))"

definition aside :: "('k, 't, 'v) queue_state \<Rightarrow> 'k entry multiset" where
  "aside s = image_mset (\<lambda>(order, a). wt_task a) (mset (bl_waiting s))"

definition result_ids :: "'k entry multiset \<Rightarrow> nat multiset" where
  "result_ids M = image_mset (\<lambda>e. the (en_result e)) (filter_mset (\<lambda>e. en_result e \<noteq> None) M)"

lemma result_ids_simps [simp]:
  "result_ids {#} = {#}" "result_ids (A + B) = result_ids A + result_ids B"
  "result_ids (add_mset e A) = (case en_result e of None \<Rightarrow> result_ids A | Some i \<Rightarrow> add_mset i (result_ids A))"
  by (auto simp: result_ids_def split: option.splits)

lemma result_ids_in: "i \<in># result_ids M \<longleftrightarrow> (\<exists>e. e \<in># M \<and> en_result e = Some i)"
  by (force simp: result_ids_def)

text \<open>The number of results that still count off an order.\<close>

definition owed :: "(nat \<rightharpoonup> nat list) \<Rightarrow> nat \<Rightarrow> nat" where
  "owed d order = (\<Sum>i \<in> dom d. count_list (the (d i)) order)"

lemma owed_delete:
  assumes "finite (dom d)" "d i = Some orders"
  shows "owed d order = owed (d(i := None)) order + count_list orders order"
proof -
  have "owed d order = count_list (the (d i)) order + (\<Sum>j \<in> dom d - {i}. count_list (the (d j)) order)"
    unfolding owed_def using assms by (intro sum.remove) auto
  moreover have "owed (d(i := None)) order = (\<Sum>j \<in> dom d - {i}. count_list (the (d j)) order)"
    unfolding owed_def by (rule sum.cong) auto
  ultimately show ?thesis using assms(2) by simp
qed

lemma owed_update:
  assumes "finite (dom d)" "d i = Some orders"
  shows "owed (d(i \<mapsto> orders @ [x])) order = owed d order + (if order = x then 1 else 0)"
proof -
  have "owed (d(i \<mapsto> orders @ [x])) order = owed ((d(i \<mapsto> orders @ [x]))(i := None)) order + count_list (orders @ [x]) order"
    using assms(1) by (intro owed_delete) auto
  then show ?thesis using owed_delete [OF assms, of order] by simp
qed

lemma owed_new: "finite (dom d) \<Longrightarrow> d i = None \<Longrightarrow> owed (d(i \<mapsto> [])) order = owed d order"
  using owed_delete [of "d(i \<mapsto> [])" i "[]" order] by (simp add: fun_upd_idem)

lemma owed_0: "finite (dom d) \<Longrightarrow> owed d order = 0 \<longleftrightarrow> (\<forall>i orders. d i = Some orders \<longrightarrow> order \<notin> set orders)"
  by (auto simp: owed_def dom_def) (metis count_list_0_iff option.sel)+

lemma count_dependencies_owed:
  "count_dependencies order after d n = (d', n') \<Longrightarrow> finite (dom d) \<Longrightarrow>
    dom d' = dom d \<and> owed d' x = owed d x + (if x = order then n' - n else 0) \<and> n \<le> n' \<and> n' \<le> n + length after"
proof (induction order after d n rule: count_dependencies.induct)
  case (2 order before after d n)
  show ?case
  proof (cases "d before")
    case None
    then show ?thesis using 2 by auto
  next
    case (Some found)
    have c: "count_dependencies order after (d(before \<mapsto> found @ [order])) (n + 1) = (d', n')" using 2(3) Some by simp
    have "finite (dom (d(before \<mapsto> found @ [order])))" using 2(4) by simp
    then have "dom d' = dom (d(before \<mapsto> found @ [order])) \<and>
        owed d' x = owed (d(before \<mapsto> found @ [order])) x + (if x = order then n' - (n + 1) else 0) \<and>
        n + 1 \<le> n' \<and> n' \<le> n + 1 + length after"
      by (rule 2(2) [OF Some c])
    then show ?thesis using owed_update [OF 2(4) Some, of order x] Some by auto
  qed
qed auto

text \<open>What the loop adds: the order, to the results named that have not finished.\<close>

lemma count_dependencies_set:
  "count_dependencies order after d n = (d', n') \<Longrightarrow> d' i = Some orders \<Longrightarrow>
    \<exists>old. d i = Some old \<and> set old \<subseteq> set orders \<and> set orders \<subseteq> insert order (set old) \<and> (i \<in> set after \<longrightarrow> order \<in> set orders) \<and>
      (i \<notin> set after \<longrightarrow> orders = old)"
proof (induction order after d n rule: count_dependencies.induct)
  case (2 order before after d n)
  show ?case
  proof (cases "d before")
    case None
    then show ?thesis using 2 by auto
  next
    case (Some found)
    have c: "count_dependencies order after (d(before \<mapsto> found @ [order])) (n + 1) = (d', n')" using 2(3) Some by simp
    obtain old where "(d(before \<mapsto> found @ [order])) i = Some old" "set old \<subseteq> set orders" "set orders \<subseteq> insert order (set old)"
        "i \<in> set after \<longrightarrow> order \<in> set orders" "i \<notin> set after \<longrightarrow> orders = old"
      using 2(2) [OF Some c 2(4)] by blast
    then show ?thesis using Some by (cases "i = before") auto
  qed
qed auto

section \<open>Lists and association lists\<close>

lemma mset_concat_append: "i < length xs \<Longrightarrow> mset (concat (xs[i := xs ! i @ [e]])) = add_mset e (mset (concat xs))"
  by (induction xs arbitrary: i) (auto split: nat.splits)

lemma take_first_Some:
  "take_first qs = Some (e, qs') \<Longrightarrow> mset (concat qs) = add_mset e (mset (concat qs')) \<and> length qs' = length qs"
  by (induction qs arbitrary: qs' rule: take_first.induct) auto

lemma take_first_None: "take_first qs = None \<longleftrightarrow> concat qs = []"
  by (induction qs rule: take_first.induct) auto

lemma mset_concat_rev: "mset (concat (rev qs)) = mset (concat qs)"
  by (induction qs) auto

lemma take_out_of_lists_Some:
  "take_out_of_lists i qs = Some (e, qs') \<Longrightarrow>
    mset (concat qs) = add_mset e (mset (concat qs')) \<and> length qs' = length qs \<and> en_result e = Some i"
proof (induction qs arbitrary: qs')
  case (Cons tasks qs)
  show ?case
  proof (cases "find_pos (has_result i) tasks")
    case None
    then show ?thesis using Cons by auto
  next
    case (Some k)
    then have k: "k < length tasks" "has_result i (tasks ! k)" by (simp_all add: find_pos_Some)
    have "mset tasks = add_mset (tasks ! k) (mset (take k tasks @ drop (Suc k) tasks))"
      using k(1) by (subst id_take_nth_drop [OF k(1)]) simp
    then show ?thesis using Cons.prems Some k(2) by (auto simp: has_result_def)
  qed
qed simp

lemma take_out_of_lists_None: "take_out_of_lists i qs = None \<longleftrightarrow> (\<forall>e \<in> set (concat qs). en_result e \<noteq> Some i)"
proof (induction qs)
  case (Cons tasks qs)
  show ?case
  proof (cases "find_pos (has_result i) tasks")
    case None
    then have "\<forall>e \<in> set tasks. en_result e \<noteq> Some i" by (simp add: find_pos_None has_result_def)
    then show ?thesis using Cons None by auto
  next
    case (Some k)
    then have "tasks ! k \<in> set tasks \<and> en_result (tasks ! k) = Some i" by (simp add: find_pos_Some has_result_def)
    then show ?thesis using Some by auto
  qed
qed simp

lemma mset_delete:
  "distinct (map fst al) \<Longrightarrow> map_of al k = Some v \<Longrightarrow> mset al = add_mset (k, v) (mset (AList.delete k al))"
proof (induction al)
  case (Cons a al)
  show ?case
  proof (cases "fst a = k")
    case True
    then have "AList.delete k al = al" using Cons.prems(1) by (intro AList.delete_id) auto
    then show ?thesis using True Cons.prems(2) by (cases a) simp
  next
    case False
    then show ?thesis using Cons by (cases a) (auto simp: add_mset_commute)
  qed
qed simp

lemma mset_update:
  "distinct (map fst al) \<Longrightarrow> map_of al k = Some v \<Longrightarrow> mset (AList.update k w al) = add_mset (k, w) (mset (AList.delete k al))"
proof (induction al)
  case (Cons a al)
  show ?case
  proof (cases "fst a = k")
    case True
    then have "AList.delete k al = al" using Cons.prems(1) by (intro AList.delete_id) auto
    then show ?thesis using True Cons.prems(2) by (cases a) simp
  next
    case False
    then show ?thesis using Cons by (cases a) (auto simp: add_mset_commute)
  qed
qed simp

lemma emplace_waiting_new:
  "order \<notin> fst ` set al \<Longrightarrow> distinct (map fst al) \<Longrightarrow>
    mset (emplace_waiting order a al) = add_mset (order, a) (mset al) \<and> distinct (map fst (emplace_waiting order a al)) \<and>
    fst ` set (emplace_waiting order a al) = insert order (fst ` set al) \<and>
    map_of (emplace_waiting order a al) = (map_of al)(order \<mapsto> a)"
  by (induction order a al rule: emplace_waiting.induct) (auto simp: add_mset_commute fun_eq_iff image_iff)

lemma map_of_in: "distinct (map fst al) \<Longrightarrow> map_of al k = Some v \<longleftrightarrow> (k, v) \<in># mset al"
  by simp

text \<open>What \<open>take_dependents\<close> takes: every waiting task with one of the orders.\<close>

lemma take_waiting_spec:
  "take_waiting orders al = (taken, rest) \<Longrightarrow> distinct (map fst al) \<Longrightarrow>
    image_mset (\<lambda>(order, a). wt_task a) (mset al) = mset taken + image_mset (\<lambda>(order, a). wt_task a) (mset rest) \<and>
    distinct (map fst rest) \<and> map_of rest = map_of al |` (- set orders) \<and>
    (\<forall>e. e \<in> set taken \<longleftrightarrow> (\<exists>order \<in> set orders. \<exists>a. map_of al order = Some a \<and> wt_task a = e))"
proof (induction orders al arbitrary: taken rule: take_waiting.induct)
  case (2 order orders al)
  show ?case
  proof (cases "map_of al order")
    case None
    have m: "map_of al |` (- set orders) = map_of al |` (- set (order # orders))"
      using None by (auto simp: restrict_map_def fun_eq_iff)
    show ?thesis using 2(1) [OF None, of taken] 2(3,4) None unfolding m by auto
  next
    case (Some found)
    let ?del = "AList.delete order al"
    obtain more where more: "take_waiting orders ?del = (more, rest)" "taken = wt_task found # more"
      using 2(3) Some by (auto split: prod.splits)
    have d: "distinct (map fst ?del)" using 2(4) by (rule distinct_delete)
    have "map_of rest = map_of al |` (- set (order # orders))"
      using 2(2) [OF Some more(1) d] by (auto simp: delete_conv' restrict_map_def fun_eq_iff)
    moreover have "e \<in> set taken \<longleftrightarrow> (\<exists>o' \<in> set (order # orders). \<exists>a. map_of al o' = Some a \<and> wt_task a = e)" for e
    proof -
      have "e \<in> set more \<longleftrightarrow> (\<exists>o' \<in> set orders. o' \<noteq> order \<and> (\<exists>a. map_of al o' = Some a \<and> wt_task a = e))"
        using 2(2) [OF Some more(1) d] by (simp add: delete_conv') meson
      then show ?thesis using Some more(2) by auto (metis option.inject)
    qed
    ultimately show ?thesis using 2(2) [OF Some more(1) d] mset_delete [OF 2(4) Some] more(2) by simp
  qed
qed (simp add: restrict_map_def)

section \<open>The books\<close>

text \<open>\<open>books T orders s\<close>: the books agree when the tasks \<open>T\<close> are on neither list, because workers hold
  them or a loop has them in hand, and each of \<open>orders\<close> is still to be counted off once.\<close>

definition tasks :: "'k entry multiset \<Rightarrow> ('k, 't, 'v) queue_state \<Rightarrow> 'k entry multiset" where
  "tasks T s = ready s + aside s + T"

definition waiting_ok :: "nat list \<Rightarrow> (nat \<rightharpoonup> nat list) \<Rightarrow> nat \<Rightarrow> 'k waiting \<Rightarrow> bool" where
  "waiting_ok orders dependents order a =
     (en_order (wt_task a) = order \<and> wt_remaining a = owed dependents order + count_list orders order \<and>
      0 < wt_remaining a \<and> wt_remaining a < 2 ^ 64 \<and> names_a_priority (wt_priority a))"

definition books :: "'k entry multiset \<Rightarrow> nat list \<Rightarrow> ('k, 't, 'v) queue_state \<Rightarrow> bool" where
  "books T orders s =
     (length (bl_tasks s) = 3 \<and> finite (bl_unfinished s) \<and> finite (dom (bl_dependents s)) \<and>
      image_mset en_order (tasks T s) = mset_set (bl_unfinished s) \<and>
      result_ids (tasks T s) = mset_set (dom (bl_dependents s)) \<and>
      (\<forall>order \<in> bl_unfinished s. order < bl_accepted s) \<and>
      distinct (map fst (bl_waiting s)) \<and>
      (\<forall>order a. map_of (bl_waiting s) order = Some a \<longrightarrow> waiting_ok orders (bl_dependents s) order a) \<and>
      (\<forall>e i later. e \<in># tasks T s \<longrightarrow> en_result e = Some i \<longrightarrow> bl_dependents s i = Some later \<longrightarrow>
        (\<forall>order \<in> set later. en_order e < order \<and> order < bl_accepted s)))"

lemma booksD:
  assumes "books T orders s"
  shows "length (bl_tasks s) = 3" "finite (bl_unfinished s)" "finite (dom (bl_dependents s))"
    "image_mset en_order (tasks T s) = mset_set (bl_unfinished s)"
    "result_ids (tasks T s) = mset_set (dom (bl_dependents s))"
    "order \<in> bl_unfinished s \<Longrightarrow> order < bl_accepted s"
    "distinct (map fst (bl_waiting s))"
    "e \<in># tasks T s \<Longrightarrow> en_result e = Some i \<Longrightarrow> bl_dependents s i = Some later \<Longrightarrow> order \<in> set later \<Longrightarrow>
      en_order e < order \<and> order < bl_accepted s"
  using assms unfolding books_def by blast+

lemma books_orders: "books T orders s \<Longrightarrow> en_order ` set_mset (tasks T s) = bl_unfinished s"
  using booksD(2,4) by (metis finite_set_mset_mset_set set_image_mset)

lemma books_unfinished: "books T orders s \<Longrightarrow> e \<in># tasks T s \<Longrightarrow> en_order e \<in> bl_unfinished s"
  using books_orders by blast

lemma books_apart:
  assumes b: "books T orders s" and xy: "add_mset x (add_mset y M) \<subseteq># tasks T s"
  shows "en_order x \<noteq> en_order y"
proof
  assume "en_order x = en_order y"
  then have "2 \<le> count (image_mset en_order (add_mset x (add_mset y M))) (en_order x)" by simp
  also have "\<dots> \<le> count (image_mset en_order (tasks T s)) (en_order x)"
    using image_mset_subseteq_mono [OF xy, of en_order] by (rule mset_subset_eq_count)
  also have "\<dots> \<le> 1" unfolding booksD(4) [OF b] by (simp add: count_mset_set')
  finally show False by simp
qed

lemma books_has_result: "books T orders s \<Longrightarrow> bl_dependents s i = Some later \<Longrightarrow> \<exists>e. e \<in># tasks T s \<and> en_result e = Some i"
  using booksD(3,5) by (metis domI finite_set_mset_mset_set result_ids_in)

lemma books_later:
  assumes "books T orders s" "bl_dependents s i = Some later" "order \<in> set later"
  shows "order < bl_accepted s"
  using books_has_result [OF assms(1,2)] booksD(8) [OF assms(1) _ _ assms(2,3)] by blast

lemma books_frame:
  "bl_tasks s' = bl_tasks s \<Longrightarrow> bl_unfinished s' = bl_unfinished s \<Longrightarrow> bl_dependents s' = bl_dependents s \<Longrightarrow>
    bl_waiting s' = bl_waiting s \<Longrightarrow> bl_accepted s' = bl_accepted s \<Longrightarrow> books T orders s' = books T orders s"
  by (simp add: books_def tasks_def ready_def aside_def)

lemma tasks_make_ready:
  "length (bl_tasks s) = 3 \<Longrightarrow> names_a_priority p \<Longrightarrow> ready (make_ready e p s) = add_mset e (ready s)"
  by (simp add: ready_def mset_concat_append names_a_priority_def)

lemma aside_delete:
  assumes "distinct (map fst (bl_waiting s))" "map_of (bl_waiting s) order = Some a"
  shows "aside s = add_mset (wt_task a) (aside (s\<lparr>bl_waiting := AList.delete order (bl_waiting s)\<rparr>))"
  using mset_delete [OF assms] by (simp add: aside_def)

lemma aside_update:
  assumes "distinct (map fst (bl_waiting s))" "map_of (bl_waiting s) order = Some a" "wt_task b = wt_task a"
  shows "aside (s\<lparr>bl_waiting := AList.update order b (bl_waiting s)\<rparr>) = aside s"
  using mset_delete [OF assms(1,2)] mset_update [OF assms(1,2), of b] assms(3) by (simp add: aside_def)

lemma count_down_pred: "0 < n \<Longrightarrow> n < 2 ^ 64 \<Longrightarrow> count_down n = n - 1"
proof -
  assume n: "0 < n" "n < 2 ^ 64"
  have "n + (2 ^ 64 - 1) = (n - 1) + 2 ^ 64" using n by simp
  then have "count_down n = (n - 1) mod 2 ^ 64" by (simp only: count_down_def mod_add_self2)
  then show ?thesis using n by simp
qed

text \<open>Taking a task moves it into the hands of the worker.\<close>

lemma books_take:
  assumes "books T orders s" "backlog_take w s = (Some e, s')"
  shows "books (add_mset e T) orders s'" "ready s = add_mset e (ready s')" "s' = s\<lparr>bl_tasks := bl_tasks s'\<rparr>"
proof -
  obtain qs where qs: "take_first (rev (bl_tasks s)) = Some (e, qs)" "s' = s\<lparr>bl_tasks := rev qs\<rparr>"
    using assms(2) by (auto simp: backlog_take_def split: option.splits)
  show r: "ready s = add_mset e (ready s')"
    using take_first_Some [OF qs(1)] qs(2) by (simp add: ready_def mset_concat_rev)
  have "tasks T s = tasks (add_mset e T) s'" using r qs(2) by (simp add: tasks_def aside_def)
  then show "books (add_mset e T) orders s'"
    using assms(1) qs(2) take_first_Some [OF qs(1)] by (simp add: books_def)
  show "s' = s\<lparr>bl_tasks := bl_tasks s'\<rparr>" using qs(2) by simp
qed

lemma take_nothing:
  "backlog_take w s = (None, s') \<Longrightarrow> ready s = {#} \<and> s' = s\<lparr>bl_sweeping := (bl_sweeping s)[w := False]\<rparr>"
  by (auto simp: backlog_take_def ready_def take_first_None split: option.splits)

text \<open>Counting off an order keeps the books, and the task it was the last for becomes ready.\<close>

lemma books_waiting: "books T orders s \<Longrightarrow> map_of (bl_waiting s) order = Some a \<Longrightarrow> waiting_ok orders (bl_dependents s) order a"
  by (simp add: books_def)

lemma books_count_off:
  assumes "books T (order # orders) s"
  shows "books T orders (count_off order s)"
proof (cases "map_of (bl_waiting s) order")
  case None
  have "waiting_ok orders (bl_dependents s) o' a" if "map_of (bl_waiting s) o' = Some a" for o' a
    using books_waiting [OF assms that] None that by (auto simp: waiting_ok_def split: if_splits)
  then show ?thesis using assms None by (simp add: count_off_def books_def)
next
  case (Some a)
  have a: "en_order (wt_task a) = order" "wt_remaining a = owed (bl_dependents s) order + count_list orders order + 1"
    "wt_remaining a < 2 ^ 64" "names_a_priority (wt_priority a)"
    using books_waiting [OF assms Some] by (simp_all add: waiting_ok_def)
  have d: "distinct (map fst (bl_waiting s))" "length (bl_tasks s) = 3" using assms by (simp_all add: books_def)
  have c: "count_down (wt_remaining a) = wt_remaining a - 1" using a by (intro count_down_pred) auto
  have others: "waiting_ok orders (bl_dependents s) o' b" if "map_of (bl_waiting s) o' = Some b" "o' \<noteq> order" for o' b
    using books_waiting [OF assms that(1)] that(2) by (auto simp: waiting_ok_def)
  show ?thesis
  proof (cases "wt_remaining a - 1 = 0")
    case True
    let ?s = "s\<lparr>bl_waiting := AList.delete order (bl_waiting s)\<rparr>"
    have s': "count_off order s = make_ready (wt_task a) (wt_priority a) ?s" using Some True c by (simp add: count_off_def)
    have r: "ready (make_ready (wt_task a) (wt_priority a) ?s) = add_mset (wt_task a) (ready s)"
      using tasks_make_ready [of ?s "wt_priority a" "wt_task a"] a(4) d(2) by (simp add: ready_def)
    have "aside (make_ready (wt_task a) (wt_priority a) ?s) = aside ?s" by (simp add: aside_def)
    then have "tasks T (count_off order s) = tasks T s" unfolding s' tasks_def r aside_delete [OF d(1) Some] by simp
    then show ?thesis
      using assms others unfolding books_def by (simp add: s' distinct_delete delete_conv')
  next
    case False
    let ?b = "a\<lparr>wt_remaining := wt_remaining a - 1\<rparr>"
    have s': "count_off order s = s\<lparr>bl_waiting := AList.update order ?b (bl_waiting s)\<rparr>"
      using Some False c by (simp add: count_off_def Let_def)
    have "waiting_ok orders (bl_dependents s) order ?b" using a False by (simp add: waiting_ok_def)
    moreover have "aside (count_off order s) = aside s" unfolding s' by (rule aside_update [OF d(1) Some]) simp
    then have "tasks T (count_off order s) = tasks T s" by (simp add: tasks_def s' ready_def)
    ultimately show ?thesis
      using assms others unfolding books_def by (simp add: s' distinct_update update_conv')
  qed
qed

lemma books_count_off_all: "books T orders s \<Longrightarrow> books T [] (fold count_off orders s)"
  by (induction orders arbitrary: s) (simp_all add: books_count_off)

text \<open>A task leaves the books: its order is no longer unfinished, and what its result counts off
  is in hand.\<close>

definition dependents_of :: "'k entry \<Rightarrow> (nat \<rightharpoonup> nat list) \<Rightarrow> nat list" where
  "dependents_of e d = (case en_result e of None \<Rightarrow> [] | Some i \<Rightarrow> (case d i of None \<Rightarrow> [] | Some orders \<Rightarrow> orders))"

definition leave_books :: "'k entry \<Rightarrow> ('k, 't, 'v) queue_state \<Rightarrow> ('k, 't, 'v) queue_state" where
  "leave_books e s = s\<lparr>bl_unfinished := bl_unfinished s - {en_order e},
     bl_dependents := (case en_result e of None \<Rightarrow> bl_dependents s | Some i \<Rightarrow> (bl_dependents s)(i := None))\<rparr>"

lemma tasks_leave_books [simp]: "tasks T (leave_books e s) = tasks T s"
  by (simp add: tasks_def ready_def aside_def leave_books_def)

lemma tasks_add_mset: "tasks (add_mset e T) s = add_mset e (tasks T s)"
  by (simp add: tasks_def)

lemma books_leave:
  assumes b: "books (add_mset e T) [] s"
  shows "books T (dependents_of e (bl_dependents s)) (leave_books e s)"
proof -
  let ?U = "bl_unfinished s" and ?d = "bl_dependents s"
  have f: "finite ?U" "finite (dom ?d)" using b by (simp_all add: books_def)
  have u: "add_mset (en_order e) (image_mset en_order (tasks T s)) = mset_set ?U"
    using b by (simp add: books_def tasks_add_mset)
  then have "en_order e \<in> ?U" using f(1) by (metis finite_set_mset_mset_set union_single_eq_member)
  then have "mset_set (?U - {en_order e}) = mset_set ?U - {#en_order e#}" using f(1) by (simp add: mset_set_Diff)
  then have 1: "image_mset en_order (tasks T s) = mset_set (bl_unfinished (leave_books e s))"
    using u [symmetric] by (simp add: leave_books_def)
  have w: "waiting_ok (dependents_of e ?d) (bl_dependents (leave_books e s)) order a"
    if "map_of (bl_waiting s) order = Some a" for order a
    using books_waiting [OF b that] f(2)
    by (auto simp: waiting_ok_def leave_books_def dependents_of_def owed_delete fun_upd_idem split: option.splits)
  have 2: "result_ids (tasks T s) = mset_set (dom (bl_dependents (leave_books e s)))"
  proof (cases "en_result e")
    case None
    then show ?thesis using b by (simp add: books_def tasks_add_mset leave_books_def)
  next
    case (Some i)
    have "add_mset i (result_ids (tasks T s)) = mset_set (dom ?d)" using b Some by (simp add: books_def tasks_add_mset)
    moreover from this have "i \<in> dom ?d" using f(2) by (metis finite_set_mset_mset_set union_single_eq_member)
    then have "mset_set (dom ?d - {i}) = mset_set (dom ?d) - {#i#}" using f(2) by (simp add: mset_set_Diff)
    ultimately show ?thesis using Some by (simp add: leave_books_def) (metis add_mset_remove_trivial)
  qed
  have 3: "finite (dom (bl_dependents (leave_books e s)))" using f(2) by (simp add: leave_books_def split: option.splits)
  have "bl_dependents (leave_books e s) i = Some later \<Longrightarrow> ?d i = Some later" for i later
    by (auto simp: leave_books_def split: option.splits if_splits)
  then show ?thesis
    using b 1 2 3 w unfolding books_def tasks_leave_books by (simp add: tasks_add_mset) (simp add: leave_books_def)
qed

lemma backlog_done_leave:
  "backlog_done e s = fold count_off (dependents_of e (bl_dependents s)) (leave_books e s)"
  by (simp add: backlog_done_def leave_books_def dependents_of_def take_dependent_orders_def Let_def split: option.splits)

lemma books_done: "books (add_mset e T) [] s \<Longrightarrow> books T [] (backlog_done e s)"
  unfolding backlog_done_leave by (rule books_count_off_all [OF books_leave])

text \<open>Cancelling takes a task and, one after another, all that wait for it out of the books.\<close>

lemma books_take_waiting:
  assumes b: "books T orders s" and t: "take_waiting orders (bl_waiting s) = (taken, rest)"
  shows "books (T + mset taken) [] (s\<lparr>bl_waiting := rest\<rparr>)"
proof -
  have spec: "image_mset (\<lambda>(order, a). wt_task a) (mset (bl_waiting s)) = mset taken + image_mset (\<lambda>(order, a). wt_task a) (mset rest)"
    "distinct (map fst rest)" "map_of rest = map_of (bl_waiting s) |` (- set orders)"
    using take_waiting_spec [OF t] b by (simp_all add: books_def)
  have "tasks (T + mset taken) (s\<lparr>bl_waiting := rest\<rparr>) = tasks T s"
    using spec(1) by (simp add: tasks_def ready_def aside_def)
  moreover have "waiting_ok [] (bl_dependents s) order a" if "map_of rest order = Some a" for order a
  proof -
    have "map_of (bl_waiting s) order = Some a" "order \<notin> set orders"
      using that spec(3) by (auto simp: restrict_map_def split: if_splits)
    then show ?thesis using books_waiting [OF b, of order a] by (simp add: waiting_ok_def count_list_0_iff)
  qed
  ultimately show ?thesis using b spec(2) by (simp add: books_def)
qed

lemma cancel_loop_leave:
  "cancel_loop (e # removed) s =
    (let s1 = (case en_result e of None \<Rightarrow> s | Some i \<Rightarrow> settle_result i Cancel s);
         (taken, rest) = take_waiting (dependents_of e (bl_dependents s)) (bl_waiting s)
     in cancel_loop (removed @ taken) ((leave_books e s1)\<lparr>bl_waiting := rest\<rparr>))"
proof -
  have swap: "s\<lparr>bl_unfinished := u, bl_results := r\<rparr> = s\<lparr>bl_results := r, bl_unfinished := u\<rparr>" for u r
    by (cases s) simp
  show ?thesis
    by (simp add: leave_books_def dependents_of_def take_dependents_def take_dependent_orders_def settle_result_def Let_def swap
        split: option.splits prod.splits)
qed

lemma cancel_loop_induct [case_names Nil Cons]:
  fixes removed :: "'k entry list" and s :: "('k, 't, 'v) queue_state"
  assumes "\<And>s :: ('k, 't, 'v) queue_state. P [] s"
    and "\<And>e removed s s1 taken rest.
      s1 = (case en_result e of None \<Rightarrow> s | Some i \<Rightarrow> settle_result i Cancel s) \<Longrightarrow>
      take_waiting (dependents_of e (bl_dependents s)) (bl_waiting s) = (taken, rest) \<Longrightarrow>
      cancel_loop (e # removed) s = cancel_loop (removed @ taken) ((leave_books e s1)\<lparr>bl_waiting := rest\<rparr>) \<Longrightarrow>
      P (removed @ taken) ((leave_books e s1)\<lparr>bl_waiting := rest\<rparr>) \<Longrightarrow> P (e # removed) s"
  shows "P removed s"
proof (induction "length removed + length (bl_waiting s)" arbitrary: removed s rule: less_induct)
  case less
  show ?case
  proof (cases removed)
    case (Cons e more)
    define s1 where "s1 = (case en_result e of None \<Rightarrow> s | Some i \<Rightarrow> settle_result i Cancel s)"
    obtain taken rest where t: "take_waiting (dependents_of e (bl_dependents s)) (bl_waiting s) = (taken, rest)" by fastforce
    then have "length taken + length rest \<le> length (bl_waiting s)"
      using take_waiting_length [of "dependents_of e (bl_dependents s)" "bl_waiting s"] by simp
    then have "P (more @ taken) ((leave_books e s1)\<lparr>bl_waiting := rest\<rparr>)" using Cons by (intro less) simp
    then show ?thesis
      unfolding Cons by (intro assms(2) [OF s1_def t]) (simp_all add: cancel_loop_leave t s1_def Let_def del: cancel_loop.simps)
  qed (simp add: assms(1))
qed

lemma books_cancel_step:
  assumes b: "books (add_mset e T) [] s"
    and s1: "s1 = (case en_result e of None \<Rightarrow> s | Some i \<Rightarrow> settle_result i Cancel s)"
    and t: "take_waiting (dependents_of e (bl_dependents s)) (bl_waiting s) = (taken, rest)"
  shows "books (T + mset taken) [] ((leave_books e s1)\<lparr>bl_waiting := rest\<rparr>)"
proof (rule books_take_waiting)
  have "books (add_mset e T) [] s1 = books (add_mset e T) [] s"
    unfolding s1 by (intro books_frame) (simp_all split: option.splits)
  then show "books T (dependents_of e (bl_dependents s)) (leave_books e s1)"
    using b books_leave [of e T s1] by (simp add: s1 split: option.splits)
  show "take_waiting (dependents_of e (bl_dependents s)) (bl_waiting (leave_books e s1)) = (taken, rest)"
    using t by (simp add: leave_books_def s1 split: option.splits)
qed

text \<open>What \<open>cancel\<close> takes out first.\<close>

lemma remove_nth_alist:
  assumes "distinct (map fst al)" "n < length al" "al ! n = (k, a)" "al' = take n al @ drop (Suc n) al"
  shows "mset al = add_mset (k, a) (mset al') \<and> distinct (map fst al') \<and> map_of al' = (map_of al)(k := None)"
proof -
  have al: "al = take n al @ (k, a) # drop (Suc n) al" using assms(2,3) by (metis id_take_nth_drop)
  have m: "mset al = add_mset (k, a) (mset al')" by (subst al) (simp add: assms(4))
  have "mset (map fst al) = add_mset k (mset (map fst al'))" using m by simp
  then have "distinct (k # map fst al')" using assms(1) by (metis mset.simps(2) mset_eq_imp_distinct_iff)
  then have d: "distinct (map fst al')" "k \<notin> fst ` set al'" by auto
  have "map_of al' x = ((map_of al)(k := None)) x" for x
  proof (cases "x = k")
    case True
    then show ?thesis using d(2) by (simp add: map_of_eq_None_iff)
  next
    case False
    have "set al = insert (k, a) (set al')" using m by (metis set_mset_add_mset_insert set_mset_mset)
    then have "map_of al' x = Some y \<longleftrightarrow> map_of al x = Some y" for y
      using False assms(1) d(1) by simp
    then have "map_of al' x = map_of al x" by (metis not_Some_eq)
    then show ?thesis using False by simp
  qed
  then show ?thesis using m d(1) by (simp add: fun_eq_iff)
qed

lemma books_take_out:
  assumes b: "books T [] s" and t: "take_out i s = (Some e, s')"
  shows "books (add_mset e T) [] s'" "ready s + aside s = add_mset e (ready s' + aside s')" "en_result e = Some i"
    "ready s' \<subseteq># ready s" "map_of (bl_waiting s') \<subseteq>\<^sub>m map_of (bl_waiting s)"
    "(ready s = add_mset e (ready s') \<and> aside s' = aside s) \<or> (ready s' = ready s \<and> aside s = add_mset e (aside s'))"
proof -
  have r: "books (add_mset e T) [] s' \<and> ready s + aside s = add_mset e (ready s' + aside s') \<and> en_result e = Some i \<and>
    ready s' \<subseteq># ready s \<and> map_of (bl_waiting s') \<subseteq>\<^sub>m map_of (bl_waiting s) \<and>
    ((ready s = add_mset e (ready s') \<and> aside s' = aside s) \<or> (ready s' = ready s \<and> aside s = add_mset e (aside s')))"
  proof (cases "take_out_of_lists i (bl_tasks s)")
    case (Some r)
    then obtain qs where qs: "take_out_of_lists i (bl_tasks s) = Some (e, qs)" "s' = s\<lparr>bl_tasks := qs\<rparr>"
      using t by (auto simp: take_out_def split: prod.splits)
    note q = take_out_of_lists_Some [OF qs(1)]
    have "tasks (add_mset e T) s' = tasks T s" using q qs(2) by (simp add: tasks_def ready_def aside_def)
    then have "books (add_mset e T) [] s'" using b q qs(2) by (simp add: books_def)
    then show ?thesis using q qs(2) by (simp add: ready_def aside_def)
  next
    case None
    then obtain n where n: "find_pos (\<lambda>(order, a). has_result i (wt_task a)) (bl_waiting s) = Some n"
        "e = wt_task (snd (bl_waiting s ! n))" "s' = s\<lparr>bl_waiting := take n (bl_waiting s) @ drop (Suc n) (bl_waiting s)\<rparr>"
      using t by (auto simp: take_out_def split: option.splits)
    obtain k a where a: "bl_waiting s ! n = (k, a)" by fastforce
    have l: "n < length (bl_waiting s)" "en_result e = Some i" using n(1,2) a by (auto simp: find_pos_Some has_result_def)
    note w = remove_nth_alist [OF booksD(7) [OF b] l(1) a refl]
    have e: "e = wt_task a" using n(2) a by simp
    have as: "aside s = add_mset e (aside s')" using w e n(3) by (simp add: aside_def)
    then have "tasks (add_mset e T) s' = tasks T s" by (simp add: tasks_def n(3) ready_def)
    then have "books (add_mset e T) [] s'" using b w n(3) by (simp add: books_def)
    then show ?thesis using as l(2) w n(3) by (simp add: ready_def map_le_def)
  qed
  then show "books (add_mset e T) [] s'" "ready s + aside s = add_mset e (ready s' + aside s')" "en_result e = Some i"
    "ready s' \<subseteq># ready s" "map_of (bl_waiting s') \<subseteq>\<^sub>m map_of (bl_waiting s)"
    "(ready s = add_mset e (ready s') \<and> aside s' = aside s) \<or> (ready s' = ready s \<and> aside s = add_mset e (aside s'))"
    by blast+
qed

lemma take_out_frame:
  assumes "take_out i s = (r, s')"
  shows "bl_number s' = bl_number s" "bl_accepted s' = bl_accepted s" "bl_unfinished s' = bl_unfinished s"
    "bl_dependents s' = bl_dependents s" "bl_workers s' = bl_workers s" "bl_sweeping s' = bl_sweeping s"
    "bl_accepting s' = bl_accepting s" "bl_results s' = bl_results s" "bl_last_id s' = bl_last_id s"
    "bl_loops s' = bl_loops s" "bl_activity s' = bl_activity s"
  using assms by (auto simp: take_out_def split: option.splits prod.splits)

lemma take_out_none: "take_out i s = (None, s') \<Longrightarrow> s' = s \<and> (\<forall>e. e \<in># ready s + aside s \<longrightarrow> en_result e \<noteq> Some i)"
  by (auto simp: take_out_def take_out_of_lists_None find_pos_None ready_def aside_def has_result_def split: option.splits prod.splits)

text \<open>Accepting a task puts it on the books.\<close>

lemma waiting_aside: "map_of (bl_waiting s) order = Some a \<Longrightarrow> wt_task a \<in># aside s"
  unfolding aside_def by (auto dest!: map_of_SomeD intro!: image_eqI [of _ _ "(order, a)"])

lemma books_waiting_key:
  assumes "books T orders s" "map_of (bl_waiting s) order = Some a"
  shows "order \<in> bl_unfinished s" "order < bl_accepted s"
proof -
  have "wt_task a \<in># tasks T s" using waiting_aside [OF assms(2)] by (simp add: tasks_def)
  then show "order \<in> bl_unfinished s" using books_unfinished [OF assms(1)] books_waiting [OF assms] by (force simp: waiting_ok_def)
  then show "order < bl_accepted s" using assms(1) by (simp add: books_def)
qed

abbreviation new_entry :: "nat option \<Rightarrow> 'k option \<Rightarrow> 'k option \<Rightarrow> ('k, 't, 'v) queue_state \<Rightarrow> 'k entry" where
  "new_entry result task call s \<equiv> \<lparr>en_order = bl_accepted s, en_result = result, en_task = task, en_call = call\<rparr>"

lemma try_emplace_owed:
  assumes "finite (dom d)" "\<And>i. result = Some i \<Longrightarrow> d i = None"
  shows "finite (dom (try_emplace result d))" "owed (try_emplace result d) order = owed d order"
    "dom (try_emplace result d) = dom d \<union> set_option result"
  using assms by (auto simp: try_emplace_def owed_new split: option.splits)

text \<open>What a new task changes: it takes its order to each result it waits for, and goes on a list, or aside.\<close>

lemma queue_fields:
  assumes "count_dependencies (bl_accepted s) (oo_after options) (try_emplace result (bl_dependents s)) 0 = (d, n)"
  shows "bl_results (backlog_queue options result task call s) = bl_results s"
    "bl_number (backlog_queue options result task call s) = bl_number s"
    "bl_last_id (backlog_queue options result task call s) = bl_last_id s"
    "bl_dependents (backlog_queue options result task call s) = d"
    "bl_unfinished (backlog_queue options result task call s) = insert (bl_accepted s) (bl_unfinished s)"
    "bl_accepted (backlog_queue options result task call s) = next_u64 (bl_accepted s)"
    "length (bl_tasks (backlog_queue options result task call s)) = length (bl_tasks s)"
  using assms by (simp_all add: backlog_queue_def Let_def)

lemma queue_placed:
  assumes b: "books T [] s" and p: "names_a_priority (oo_priority options)"
    and d: "count_dependencies (bl_accepted s) (oo_after options) (try_emplace result (bl_dependents s)) 0 = (d, n)"
  shows "ready (backlog_queue options result task call s) =
      (if n = 0 then add_mset (new_entry result task call s) (ready s) else ready s)"
    "aside (backlog_queue options result task call s) =
      (if n = 0 then aside s else add_mset (new_entry result task call s) (aside s))"
    "distinct (map fst (bl_waiting (backlog_queue options result task call s)))"
    "map_of (bl_waiting (backlog_queue options result task call s)) =
      (if n = 0 then map_of (bl_waiting s)
       else (map_of (bl_waiting s))(bl_accepted s \<mapsto>
         \<lparr>wt_task = new_entry result task call s, wt_priority = oo_priority options, wt_remaining = n\<rparr>))"
    "tasks T (backlog_queue options result task call s) = add_mset (new_entry result task call s) (tasks T s)"
proof -
  let ?e = "new_entry result task call s" and ?t = "backlog_queue options result task call s" and ?order = "bl_accepted s"
  have key: "?order \<notin> fst ` set (bl_waiting s)"
    using books_waiting_key(2) [OF b, of ?order] by (metis map_of_eq_None_iff less_irrefl option.exhaust)
  note new = emplace_waiting_new [OF key booksD(7) [OF b]]
  show ready: "ready ?t = (if n = 0 then add_mset ?e (ready s) else ready s)"
  proof (cases "n = 0")
    case True
    let ?s = "s\<lparr>bl_accepted := next_u64 ?order, bl_unfinished := insert ?order (bl_unfinished s), bl_dependents := d\<rparr>"
    have "?t = make_ready ?e (oo_priority options) ?s" using True by (simp add: backlog_queue_def d Let_def)
    then show ?thesis using True tasks_make_ready [of ?s "oo_priority options" ?e] booksD(1) [OF b] p by (simp add: ready_def)
  qed (simp add: backlog_queue_def d Let_def ready_def)
  show aside: "aside ?t = (if n = 0 then aside s else add_mset ?e (aside s))"
    using new by (simp add: aside_def backlog_queue_def d Let_def)
  show "distinct (map fst (bl_waiting ?t))"
    "map_of (bl_waiting ?t) = (if n = 0 then map_of (bl_waiting s)
       else (map_of (bl_waiting s))(?order \<mapsto> \<lparr>wt_task = ?e, wt_priority = oo_priority options, wt_remaining = n\<rparr>))"
    using new booksD(7) [OF b] by (simp_all add: backlog_queue_def d Let_def)
  show "tasks T ?t = add_mset ?e (tasks T s)" by (simp add: tasks_def ready aside)
qed

text \<open>No result is waited for by a task accepted before its own.\<close>

lemma queue_later:
  assumes b: "books T [] s" and i: "\<And>i. result = Some i \<Longrightarrow> bl_dependents s i = None \<and> i \<notin> set (oo_after options)"
    and d: "count_dependencies (bl_accepted s) (oo_after options) (try_emplace result (bl_dependents s)) 0 = (d, n)"
    and e': "e' \<in># add_mset (new_entry result task call s) (tasks T s)" "en_result e' = Some j"
    and l: "d j = Some later" "order \<in> set later"
  shows "en_order e' < order \<and> order < Suc (bl_accepted s)"
proof -
  obtain prev where prev: "try_emplace result (bl_dependents s) j = Some prev" "set later \<subseteq> insert (bl_accepted s) (set prev)"
      "j \<notin> set (oo_after options) \<longrightarrow> later = prev"
    using count_dependencies_set [OF d l(1)] by blast
  show ?thesis
  proof (cases "e' = new_entry result task call s")
    case True
    then have "result = Some j" using e'(2) by simp
    then have "prev = []" "later = prev" using i prev by (simp_all add: try_emplace_def)
    then show ?thesis using l(2) by simp
  next
    case False
    then have in_tasks: "e' \<in># tasks T s" using e'(1) by simp
    have "en_order e' < bl_accepted s" by (rule booksD(6) [OF b books_unfinished [OF b in_tasks]])
    moreover have "en_order e' < order \<and> order < bl_accepted s" if o: "order \<in> set prev"
    proof -
      have "bl_dependents s j = Some prev" using prev(1) o i by (auto simp: try_emplace_def split: option.splits if_splits)
      then show ?thesis by (rule booksD(8) [OF b in_tasks e'(2) _ o])
    qed
    ultimately show ?thesis using prev(2) l(2) by (cases "order \<in> set prev") (auto simp: less_SucI)
  qed
qed

lemma books_queue:
  assumes b: "books T [] s" and p: "names_a_priority (oo_priority options)"
    and c: "bl_accepted s + 1 < 2 ^ 64" "length (oo_after options) < 2 ^ 64"
    and i: "\<And>i. result = Some i \<Longrightarrow> bl_dependents s i = None \<and> i \<notin> set (oo_after options)"
  shows "books T [] (backlog_queue options result task call s)"
proof -
  let ?e = "new_entry result task call s" and ?d = "bl_dependents s" and ?order = "bl_accepted s"
  let ?t = "backlog_queue options result task call s"
  obtain d n where d: "count_dependencies ?order (oo_after options) (try_emplace result ?d) 0 = (d, n)" by fastforce
  have f: "finite (dom ?d)" "finite (bl_unfinished s)" "length (bl_tasks s) = 3"
    using b by (simp_all add: books_def)
  have owed_d: "owed d x = owed ?d x + (if x = ?order then n else 0)" "dom d = dom ?d \<union> set_option result" "n \<le> length (oo_after options)" for x
    using count_dependencies_owed [OF d, of x] try_emplace_owed [OF f(1), of result] i by auto
  have z: "owed ?d ?order = 0" using books_later [OF b] f(1) by (auto simp: owed_0)
  have old: "waiting_ok [] d order a" if "map_of (bl_waiting s) order = Some a" for order a
    using books_waiting [OF b that] books_waiting_key(2) [OF b that] owed_d(1) [of order] by (simp add: waiting_ok_def)
  have new: "n > 0 \<Longrightarrow> waiting_ok [] d ?order \<lparr>wt_task = ?e, wt_priority = oo_priority options, wt_remaining = n\<rparr>"
    using owed_d(1) [of ?order] owed_d(3) z c(2) p by (simp add: waiting_ok_def)
  note placed = queue_placed [OF b p d, of task call]
  have waiting: "map_of (bl_waiting ?t) order = Some a \<Longrightarrow> waiting_ok [] d order a" for order a
    using new old by (auto simp: placed(4) split: if_splits)
  note later = queue_later [OF b i d, of _ task call]
  have fields: "bl_unfinished ?t = insert ?order (bl_unfinished s)" "bl_dependents ?t = d" "bl_accepted ?t = Suc ?order"
    "length (bl_tasks ?t) = 3"
    using c(1) f(3) by (auto simp: queue_fields [OF d])
  have "?order \<notin> bl_unfinished s" using b by (auto simp: books_def)
  moreover have "result_ids (add_mset ?e (tasks T s)) = mset_set (dom d)"
    using b i f(1) owed_d(2) by (cases result) (auto simp: books_def domIff)
  ultimately show ?thesis
    using b f waiting later owed_d(2) placed(3) unfolding books_def placed(5) fields by (auto simp: less_SucI)
qed

end
