(* ===== verification/Queue_Machine.thy ===== *)
theory Queue_Machine
  imports Queue_Books
begin

text \<open>
  The queue as a machine: what its workers do, one critical section at a time, and what everybody
  else can do in between. The invariant of the executions says that the books agree, that a result
  is pending exactly as long as its task is on them, and that a task is ready only when everything
  it runs after has returned.
\<close>

section \<open>The results and the tasks\<close>

definition own_pending :: "('k, 't, 'v) queue_state \<Rightarrow> nat \<Rightarrow> bool" where
  "own_pending s i = (\<exists>r. bl_results s i = Some r \<and> rs_queue r = bl_number s \<and> rs_state r = Pending)"

definition returned :: "('k, 't, 'v) queue_state \<Rightarrow> nat \<Rightarrow> bool" where
  "returned s i = (\<exists>r. bl_results s i = Some r \<and> rs_state r = Returned)"

text \<open>\<open>P\<close> are the tasks held whose result is pending, \<open>R\<close> those that have returned, and \<open>X\<close> the
  results of a task about to be put on the books.\<close>

definition answers :: "nat set \<Rightarrow> 'k entry multiset \<Rightarrow> 'k entry multiset \<Rightarrow> ('k, 't, 'v) queue_state \<Rightarrow> bool" where
  "answers X P R s =
     ((\<forall>e. e \<in># tasks (P + R) s \<longrightarrow> (en_call e \<noteq> None) = (en_result e \<noteq> None)) \<and>
      (\<forall>e i. e \<in># tasks P s \<longrightarrow> en_result e = Some i \<longrightarrow> own_pending s i) \<and>
      (\<forall>e i. e \<in># R \<longrightarrow> en_result e = Some i \<longrightarrow> returned s i) \<and>
      (\<forall>i. own_pending s i \<longrightarrow> i \<in> dom (bl_dependents s) \<union> X) \<and>
      (\<forall>i. i \<in> dom (bl_results s) \<longrightarrow> i \<le> bl_last_id s))"

lemma answersI:
  assumes "\<And>e. e \<in># tasks (P + R) s \<Longrightarrow> (en_call e \<noteq> None) = (en_result e \<noteq> None)"
    and "\<And>e i. e \<in># tasks P s \<Longrightarrow> en_result e = Some i \<Longrightarrow> own_pending s i"
    and "\<And>e i. e \<in># R \<Longrightarrow> en_result e = Some i \<Longrightarrow> returned s i"
    and "\<And>i. own_pending s i \<Longrightarrow> i \<in> dom (bl_dependents s) \<union> X"
    and "\<And>i. i \<in> dom (bl_results s) \<Longrightarrow> i \<le> bl_last_id s"
  shows "answers X P R s"
  unfolding answers_def using assms by blast

lemma answersD:
  assumes "answers X P R s"
  shows "e \<in># tasks (P + R) s \<Longrightarrow> (en_call e \<noteq> None) = (en_result e \<noteq> None)"
    "e \<in># tasks P s \<Longrightarrow> en_result e = Some i \<Longrightarrow> own_pending s i"
    "e \<in># R \<Longrightarrow> en_result e = Some i \<Longrightarrow> returned s i"
    "own_pending s i \<Longrightarrow> i \<in> dom (bl_dependents s) \<union> X"
    "i \<in> dom (bl_results s) \<Longrightarrow> i \<le> bl_last_id s"
  using assms unfolding answers_def by blast+

text \<open>\<open>needs order\<close> are the results the task with that order is to run after.\<close>

definition waits :: "(nat \<Rightarrow> nat list) \<Rightarrow> 'k entry multiset \<Rightarrow> ('k, 't, 'v) queue_state \<Rightarrow> bool" where
  "waits needs T s =
     ((\<forall>order a before. map_of (bl_waiting s) order = Some a \<longrightarrow> before \<in> set (needs order) \<longrightarrow>
        returned s before \<or> (\<exists>later. bl_dependents s before = Some later \<and> order \<in> set later)) \<and>
      (\<forall>e before. e \<in># ready s + T \<longrightarrow> before \<in> set (needs (en_order e)) \<longrightarrow> returned s before))"

definition agree ::
  "(nat \<Rightarrow> nat list) \<Rightarrow> 'k entry multiset \<Rightarrow> 'k entry multiset \<Rightarrow> nat list \<Rightarrow> ('k, 't, 'v) queue_state \<Rightarrow> bool" where
  "agree needs P R orders s = (books (P + R) orders s \<and> answers {} P R s \<and> waits needs (P + R) s)"

lemma waitsI:
  assumes "\<And>order a before. map_of (bl_waiting s) order = Some a \<Longrightarrow> before \<in> set (needs order) \<Longrightarrow>
      returned s before \<or> (\<exists>later. bl_dependents s before = Some later \<and> order \<in> set later)"
    and "\<And>e before. e \<in># ready s + T \<Longrightarrow> before \<in> set (needs (en_order e)) \<Longrightarrow> returned s before"
  shows "waits needs T s"
  unfolding waits_def using assms by blast

lemma waitsD:
  assumes "waits needs T s"
  shows "map_of (bl_waiting s) order = Some a \<Longrightarrow> before \<in> set (needs order) \<Longrightarrow>
      returned s before \<or> (\<exists>later. bl_dependents s before = Some later \<and> order \<in> set later)"
    "e \<in># ready s + T \<Longrightarrow> before \<in> set (needs (en_order e)) \<Longrightarrow> returned s before"
  using assms unfolding waits_def by blast+

lemma results_frame:
  "bl_results s' = bl_results s \<Longrightarrow> returned s' = returned s"
  "bl_results s' = bl_results s \<Longrightarrow> bl_number s' = bl_number s \<Longrightarrow> own_pending s' = own_pending s"
  by (simp_all add: fun_eq_iff returned_def own_pending_def)

lemma agree_frame:
  assumes "bl_tasks s' = bl_tasks s" "bl_unfinished s' = bl_unfinished s" "bl_dependents s' = bl_dependents s"
    "bl_waiting s' = bl_waiting s" "bl_accepted s' = bl_accepted s" "bl_results s' = bl_results s"
    "bl_last_id s' = bl_last_id s" "bl_number s' = bl_number s"
  shows "agree needs P R orders s' = agree needs P R orders s"
  using assms
  by (simp add: agree_def books_def answers_def waits_def tasks_def ready_def aside_def own_pending_def returned_def)

lemma result_unique:
  assumes b: "books T orders s" and t: "tasks T s = add_mset e M" and i: "en_result e = Some i" and e': "e' \<in># M"
  shows "en_result e' \<noteq> Some i"
proof
  assume "en_result e' = Some i"
  then have "i \<in># result_ids M" using e' by (auto simp: result_ids_in)
  then have "count (result_ids (tasks T s)) i \<ge> 2" using t i by (simp add: Suc_le_eq)
  moreover have "count (result_ids (tasks T s)) i \<le> 1" unfolding booksD(5) [OF b] by (simp add: count_mset_set')
  ultimately show False by simp
qed

lemma settle_pending:
  "own_pending (settle_result i c s) j \<longleftrightarrow> own_pending s j \<and> j \<noteq> i"
  by (cases c) (auto simp: own_pending_def settle_result_def result_finish_def result_cancel_def split: if_splits)

lemma settle_returned: "returned s j \<Longrightarrow> returned (settle_result i c s) j"
  by (auto simp: returned_def settle_result_def result.settle_settled)

lemma settle_finish: "own_pending s i \<Longrightarrow> returned (settle_result i (Finish_with v) s) i"
  by (auto simp: own_pending_def returned_def settle_result_def result_finish_def)

lemma settle_tasks [simp]:
  "tasks T (settle_result i c s) = tasks T s" "ready (settle_result i c s) = ready s" "aside (settle_result i c s) = aside s"
  by (simp_all add: tasks_def ready_def aside_def)

lemma settle_dom [simp]: "dom (bl_results (settle_result i c s)) = dom (bl_results s)"
  by (auto simp: settle_result_def)

lemma settle_books [simp]: "books T orders (settle_result i c s) = books T orders s"
  by (rule books_frame) simp_all

lemma settle_waits: "waits needs T s \<Longrightarrow> waits needs T (settle_result i c s)"
  by (rule waitsI) (auto dest: waitsD intro: settle_returned)

text \<open>A result no pending task has can be settled at any time.\<close>

lemma answers_settle:
  assumes a: "answers X P R s" and other: "\<And>e. e \<in># tasks P s \<Longrightarrow> en_result e \<noteq> Some i"
  shows "answers (X - {i}) P R (settle_result i c s)"
proof (rule answersI)
  show "own_pending (settle_result i c s) j" if "e \<in># tasks P (settle_result i c s)" "en_result e = Some j" for e j
    using answersD(2) [OF a, of e j] other [of e] that by (auto simp: settle_pending)
  show "returned (settle_result i c s) j" if "e \<in># R" "en_result e = Some j" for e j
    using answersD(3) [OF a that] by (rule settle_returned)
qed (use answersD(1,4,5) [OF a] in \<open>auto simp: settle_pending\<close>)

section \<open>Taking, running and being done\<close>

lemma agree_take:
  assumes "agree needs P R [] s" "backlog_take w s = (Some e, s')"
  shows "agree needs (add_mset e P) R [] s'"
proof -
  have b: "books (P + R) [] s" using assms(1) by (simp add: agree_def)
  note t = books_take [OF b assms(2)]
  obtain qs where s': "s' = s\<lparr>bl_tasks := qs\<rparr>" using t(3) by blast
  have "aside s' = aside s" by (simp add: s' aside_def)
  then have same: "tasks (add_mset e (P + R)) s' = tasks (P + R) s" "tasks (add_mset e P) s' = tasks P s"
    "ready s' + add_mset e (P + R) = ready s + (P + R)"
    using t(2) by (simp_all add: tasks_def)
  have fields: "bl_results s' = bl_results s" "bl_dependents s' = bl_dependents s"
    "bl_waiting s' = bl_waiting s" "bl_number s' = bl_number s" "bl_last_id s' = bl_last_id s"
    by (simp_all add: s')
  show ?thesis
    using assms(1) t(1)
    by (simp only: agree_def answers_def waits_def same fields results_frame(1) [OF fields(1)] results_frame(2) [OF fields(1,4)] union_mset_add_mset_left) blast
qed

lemma agree_run:
  assumes "agree needs (add_mset e P) R [] s"
  shows "agree needs P (add_mset e R) [] (entry_run e v s)"
proof -
  have b: "books (add_mset e (P + R)) [] s" and a: "answers {} (add_mset e P) R s" and w: "waits needs (add_mset e (P + R)) s"
    using assms by (simp_all add: agree_def)
  have ok: "(en_call e \<noteq> None) = (en_result e \<noteq> None)" using answersD(1) [OF a, of e] by (simp add: tasks_add_mset)
  show ?thesis
  proof (cases "en_result e")
    case None
    have "answers {} P (add_mset e R) s"
      by (rule answersI) (use None answersD [OF a] in \<open>auto simp: tasks_add_mset\<close>)
    then show ?thesis using b w ok None by (simp add: agree_def entry_run_def)
  next
    case (Some i)
    then have run: "entry_run e v s = settle_result i (Finish_with v) s" using ok by (auto simp: entry_run_def)
    have p: "own_pending s i" using answersD(2) [OF a _ Some] by (simp add: tasks_add_mset)
    have u: "en_result e' \<noteq> Some i" if "e' \<in># tasks P s" for e'
      using result_unique [OF b _ Some, of "tasks (P + R) s" e'] that by (auto simp: tasks_add_mset tasks_def)
    have "answers {} P (add_mset e R) (settle_result i (Finish_with v) s)"
    proof (rule answersI)
      show "(en_call e' \<noteq> None) = (en_result e' \<noteq> None)" if "e' \<in># tasks (P + add_mset e R) (settle_result i (Finish_with v) s)" for e'
        using answersD(1) [OF a, of e'] that by simp
      show "own_pending (settle_result i (Finish_with v) s) j"
        if "e' \<in># tasks P (settle_result i (Finish_with v) s)" "en_result e' = Some j" for e' j
        using answersD(2) [OF a, of e' j] u [of e'] that by (auto simp: settle_pending tasks_add_mset)
      show "returned (settle_result i (Finish_with v) s) j" if "e' \<in># add_mset e R" "en_result e' = Some j" for e' j
        using answersD(3) [OF a, of e' j] settle_finish [OF p] settle_returned that Some by (cases "e' \<in># R") auto
    qed (use answersD(4,5) [OF a] in \<open>auto simp: settle_pending\<close>)
    then show ?thesis using b settle_waits [OF w] unfolding agree_def run by simp
  qed
qed

lemma agree_leave:
  assumes g: "agree needs P (add_mset e R) [] s"
  shows "agree needs P R (dependents_of e (bl_dependents s)) (leave_books e s)"
proof -
  let ?s = "leave_books e s"
  have b: "books (add_mset e (P + R)) [] s" and a: "answers {} P (add_mset e R) s" and w: "waits needs (add_mset e (P + R)) s"
    using g by (simp_all add: agree_def)
  have d: "bl_dependents s j = Some later \<Longrightarrow> en_result e = Some j \<or> bl_dependents ?s j = Some later" for j later
    by (auto simp: leave_books_def split: option.splits)
  have ready: "ready ?s = ready s" and waiting: "bl_waiting ?s = bl_waiting s" by (simp_all add: leave_books_def ready_def)
  have results: "bl_results ?s = bl_results s" "bl_number ?s = bl_number s" by (simp_all add: leave_books_def)
  note frame = results_frame(1) [OF results(1)] results_frame(2) [OF results]
  have e: "returned s i" if "en_result e = Some i" for i using answersD(3) [OF a _ that] by simp
  have "answers {} P R ?s"
  proof (rule answersI)
    show "i \<in> dom (bl_dependents ?s) \<union> {}" if "own_pending ?s i" for i
    proof -
      have p: "own_pending s i" using that frame by simp
      then have "en_result e \<noteq> Some i" using e [of i] by (auto simp: own_pending_def returned_def)
      moreover have "i \<in> dom (bl_dependents s)" using answersD(4) [OF a p] by simp
      ultimately show ?thesis using d by blast
    qed
    show "(en_call e' \<noteq> None) = (en_result e' \<noteq> None)" if "e' \<in># tasks (P + R) ?s" for e'
      using answersD(1) [OF a, of e'] that by (simp add: tasks_add_mset)
    show "own_pending ?s i" if "e' \<in># tasks P ?s" "en_result e' = Some i" for e' i
      using answersD(2) [OF a, of e' i] that frame by simp
    show "returned ?s i" if "e' \<in># R" "en_result e' = Some i" for e' i
      using answersD(3) [OF a, of e' i] that frame by simp
    show "i \<le> bl_last_id ?s" if "i \<in> dom (bl_results ?s)" for i
      using answersD(5) [OF a, of i] that results by (simp add: leave_books_def)
  qed
  moreover have "waits needs (P + R) ?s"
  proof (rule waitsI)
    show "returned ?s before \<or> (\<exists>later. bl_dependents ?s before = Some later \<and> order \<in> set later)"
      if "map_of (bl_waiting ?s) order = Some a" "before \<in> set (needs order)" for order a before
      using waitsD(1) [OF w, of order a before] that d e unfolding frame waiting by blast
    show "returned ?s before" if "e' \<in># ready ?s + (P + R)" "before \<in> set (needs (en_order e'))" for e' before
      using waitsD(2) [OF w, of e' before] that unfolding frame ready by simp
  qed
  ultimately show ?thesis using books_leave [OF b] by (simp add: agree_def)
qed

lemma books_met:
  assumes b: "books T (order # orders) s" and a: "map_of (bl_waiting s) order = Some a"
    and last: "wt_remaining a - 1 = 0" and later: "bl_dependents s i = Some later"
  shows "order \<notin> set later"
proof -
  have "owed (bl_dependents s) order = 0" using books_waiting [OF b a] last by (simp add: waiting_ok_def)
  then show ?thesis using later booksD(3) [OF b] by (auto simp: owed_0)
qed

text \<open>Counting off changes neither what the books hold, nor a result, nor what a task waits for; a
  task it makes ready has nothing left to wait for.\<close>

lemma count_off_frame [simp]:
  "bl_number (count_off order s) = bl_number s" "bl_accepted (count_off order s) = bl_accepted s"
  "bl_unfinished (count_off order s) = bl_unfinished s" "bl_dependents (count_off order s) = bl_dependents s"
  "bl_workers (count_off order s) = bl_workers s" "bl_accepting (count_off order s) = bl_accepting s"
  "bl_results (count_off order s) = bl_results s" "bl_last_id (count_off order s) = bl_last_id s"
  "bl_activity (count_off order s) = bl_activity s" "length (bl_sweeping (count_off order s)) = length (bl_sweeping s)"
  by (simp_all add: count_off_def Let_def split: option.splits)

lemma count_off_cases:
  assumes b: "books T (order # orders) s"
  obtains (gone) "map_of (bl_waiting s) order = None" "count_off order s = s"
  | (waits) a where "map_of (bl_waiting s) order = Some a" "ready (count_off order s) = ready s"
      "aside (count_off order s) = aside s" "dom (map_of (bl_waiting (count_off order s))) = dom (map_of (bl_waiting s))"
      "bl_loops (count_off order s) = bl_loops s"
  | (ready) a where "map_of (bl_waiting s) order = Some a" "ready (count_off order s) = add_mset (wt_task a) (ready s)"
      "aside s = add_mset (wt_task a) (aside (count_off order s))" "wt_remaining a - 1 = 0" "en_order (wt_task a) = order"
      "map_of (bl_waiting (count_off order s)) = (map_of (bl_waiting s))(order := None)"
proof (cases "map_of (bl_waiting s) order")
  case None
  then show thesis by (intro gone) (simp_all add: count_off_def)
next
  case (Some a)
  have w: "0 < wt_remaining a" "wt_remaining a < 2 ^ 64" "names_a_priority (wt_priority a)" "en_order (wt_task a) = order"
    using books_waiting [OF b Some] by (simp_all add: waiting_ok_def)
  note c = count_down_pred [OF w(1,2)]
  note d = booksD(7) [OF b] booksD(1) [OF b]
  show thesis
  proof (cases "wt_remaining a - 1 = 0")
    case True
    let ?s = "s\<lparr>bl_waiting := AList.delete order (bl_waiting s)\<rparr>"
    have s': "count_off order s = make_ready (wt_task a) (wt_priority a) ?s" using Some True c by (simp add: count_off_def)
    show thesis
    proof (rule ready [OF Some _ _ True w(4)])
      show "ready (count_off order s) = add_mset (wt_task a) (ready s)"
        using tasks_make_ready [of ?s "wt_priority a" "wt_task a"] w(3) d(2) by (simp add: s' ready_def)
      show "aside s = add_mset (wt_task a) (aside (count_off order s))"
        using aside_delete [OF d(1) Some] by (simp add: s' aside_def)
    qed (simp add: s' delete_conv' fun_eq_iff)
  next
    case False
    then have s': "count_off order s = s\<lparr>bl_waiting := AList.update order (a\<lparr>wt_remaining := wt_remaining a - 1\<rparr>) (bl_waiting s)\<rparr>"
      using Some c by (simp add: count_off_def Let_def)
    show thesis
    proof (rule waits [OF Some])
      show "aside (count_off order s) = aside s" unfolding s' by (rule aside_update [OF d(1) Some]) simp
    qed (use Some in \<open>auto simp: s' ready_def update_conv'\<close>)
  qed
qed

lemma agree_count_off:
  assumes g: "agree needs P R (order # orders) s"
  shows "agree needs P R orders (count_off order s)"
proof -
  let ?s = "count_off order s"
  have b: "books (P + R) (order # orders) s" and a: "answers {} P R s" and w: "waits needs (P + R) s"
    using g by (simp_all add: agree_def)
  have frame: "returned ?s = returned s" "own_pending ?s = own_pending s" by (intro results_frame count_off_frame)+
  have t: "tasks T ?s = tasks T s" for T using b by (cases rule: count_off_cases) (simp_all add: tasks_def)
  have "waits needs (P + R) ?s"
    using b
  proof (cases rule: count_off_cases)
    case gone
    then show ?thesis using w by simp
  next
    case (waits a)
    show ?thesis
    proof (rule waitsI)
      show "returned ?s before \<or> (\<exists>later. bl_dependents ?s before = Some later \<and> o' \<in> set later)"
        if m: "map_of (bl_waiting ?s) o' = Some a'" and n: "before \<in> set (needs o')" for o' a' before
      proof -
        obtain a'' where "map_of (bl_waiting s) o' = Some a''" using m waits(4) by blast
        then show ?thesis using waitsD(1) [OF w _ n] unfolding frame by simp
      qed
    qed (use waitsD(2) [OF w] waits(2) in \<open>simp add: frame\<close>)
  next
    case (ready a)
    show ?thesis
    proof (rule waitsI)
      show "returned ?s before \<or> (\<exists>later. bl_dependents ?s before = Some later \<and> o' \<in> set later)"
        if "map_of (bl_waiting ?s) o' = Some a'" "before \<in> set (needs o')" for o' a' before
        using waitsD(1) [OF w, of o' a' before] that unfolding frame ready(6) by (simp split: if_splits)
      show "returned ?s before" if e: "e \<in># ready ?s + (P + R)" and n: "before \<in> set (needs (en_order e))" for e before
      proof (cases "e = wt_task a")
        case True
        then have "before \<in> set (needs order)" using n ready(5) by simp
        then show ?thesis using waitsD(1) [OF w ready(1)] books_met [OF b ready(1,4)] unfolding frame by blast
      next
        case False
        then show ?thesis using waitsD(2) [OF w, of e before] e n unfolding frame ready(2) by simp
      qed
    qed
  qed
  moreover have "answers {} P R ?s" using a by (simp add: answers_def t frame)
  ultimately show ?thesis using books_count_off [OF b] by (simp add: agree_def)
qed

lemma agree_done:
  fixes s :: "('k, 't, 'v) queue_state"
  shows "agree needs P (add_mset e R) [] s \<Longrightarrow> agree needs P R [] (backlog_done e s)"
proof -
  have "agree needs P R orders s \<Longrightarrow> agree needs P R [] (fold count_off orders s)" for orders and s :: "('k, 't, 'v) queue_state"
    by (induction orders arbitrary: s) (simp_all add: agree_count_off)
  then show "agree needs P (add_mset e R) [] s \<Longrightarrow> agree needs P R [] (backlog_done e s)"
    unfolding backlog_done_leave using agree_leave by blast
qed

section \<open>Cancelling\<close>

text \<open>A task cancelled leaves the books, and those that wait for it come off what waits; so much stays as it was.\<close>

lemma cancel_step_fields:
  assumes b: "books T [] s"
    and s1: "s1 = (case en_result e of None \<Rightarrow> s | Some i \<Rightarrow> settle_result i Cancel s)"
    and t: "take_waiting (dependents_of e (bl_dependents s)) (bl_waiting s) = (taken, rest)"
    and s': "s' = (leave_books e s1)\<lparr>bl_waiting := rest\<rparr>"
  shows "bl_last_id s' = bl_last_id s" "dom (bl_results s') = dom (bl_results s)" "ready s' = ready s"
    "bl_dependents s' = (case en_result e of None \<Rightarrow> bl_dependents s | Some i \<Rightarrow> (bl_dependents s)(i := None))"
    "map_of (bl_waiting s') = map_of (bl_waiting s) |` (- set (dependents_of e (bl_dependents s)))"
    "tasks (P + mset taken) s' = tasks P s"
    "own_pending s' j \<longleftrightarrow> own_pending s j \<and> en_result e \<noteq> Some j"
    "returned s j \<Longrightarrow> returned s' j"
proof -
  have spec: "image_mset (\<lambda>(order, a). wt_task a) (mset (bl_waiting s)) = mset taken + image_mset (\<lambda>(order, a). wt_task a) (mset rest)"
    "map_of rest = map_of (bl_waiting s) |` (- set (dependents_of e (bl_dependents s)))"
    using take_waiting_spec [OF t booksD(7) [OF b]] by simp_all
  show "bl_last_id s' = bl_last_id s" "dom (bl_results s') = dom (bl_results s)"
    "bl_dependents s' = (case en_result e of None \<Rightarrow> bl_dependents s | Some i \<Rightarrow> (bl_dependents s)(i := None))"
    by (simp_all add: s' s1 leave_books_def split: option.splits)
  show "map_of (bl_waiting s') = map_of (bl_waiting s) |` (- set (dependents_of e (bl_dependents s)))"
    using spec(2) by (simp add: s')
  show ready: "ready s' = ready s" by (simp add: s' s1 leave_books_def ready_def split: option.splits)
  have "aside s = mset taken + aside s'" using spec(1) by (simp add: s' aside_def)
  then show "tasks (P + mset taken) s' = tasks P s" using ready by (simp add: tasks_def)
  show "own_pending s' j \<longleftrightarrow> own_pending s j \<and> en_result e \<noteq> Some j"
    by (cases "en_result e") (auto simp: s' s1 own_pending_def leave_books_def settle_pending [unfolded own_pending_def, simplified])
  show "returned s' j" if "returned s j"
    using settle_returned [OF that] that by (auto simp: s' s1 returned_def leave_books_def split: option.splits)
qed

lemma answers_cancel_step:
  assumes b: "books (add_mset e (P + R)) [] s" and a: "answers {} (add_mset e P) R s"
    and s1: "s1 = (case en_result e of None \<Rightarrow> s | Some i \<Rightarrow> settle_result i Cancel s)"
    and t: "take_waiting (dependents_of e (bl_dependents s)) (bl_waiting s) = (taken, rest)"
    and s': "s' = (leave_books e s1)\<lparr>bl_waiting := rest\<rparr>"
  shows "answers {} (P + mset taken) R s'"
proof (rule answersI)
  note fields = cancel_step_fields [OF b s1 t s']
  show "(en_call e' \<noteq> None) = (en_result e' \<noteq> None)" if "e' \<in># tasks (P + mset taken + R) s'" for e'
    using answersD(1) [OF a, of e'] that fields(6) [of "P + R"] by (simp add: tasks_add_mset ac_simps)
  show "own_pending s' i" if e': "e' \<in># tasks (P + mset taken) s'" "en_result e' = Some i" for e' i
  proof -
    have "e' \<in># tasks P s" using e'(1) by (simp add: fields(6))
    moreover from this have "e' \<in># tasks (P + R) s" by (auto simp: tasks_def)
    then have "en_result e \<noteq> Some i"
      using result_unique [OF b, of e "tasks (P + R) s" i e'] e'(2) by (auto simp: tasks_add_mset)
    ultimately show ?thesis using answersD(2) [OF a, of e' i] e'(2) by (simp add: tasks_add_mset fields(7))
  qed
  show "i \<in> dom (bl_dependents s') \<union> {}" if "own_pending s' i" for i
    using answersD(4) [OF a, of i] that by (auto simp: fields(4,7) split: option.splits)
  show "returned s' i" if "e' \<in># R" "en_result e' = Some i" for e' i
    using answersD(3) [OF a that] by (rule fields(8))
  show "i \<le> bl_last_id s'" if "i \<in> dom (bl_results s')" for i
    using answersD(5) [OF a, of i] that by (simp only: fields(1,2))
qed

lemma agree_cancel_step:
  assumes b: "books (add_mset e (P + R)) [] s" and a: "answers {} (add_mset e P) R s" and w: "waits needs T s"
    and T: "T \<subseteq># P + R"
    and s1: "s1 = (case en_result e of None \<Rightarrow> s | Some i \<Rightarrow> settle_result i Cancel s)"
    and t: "take_waiting (dependents_of e (bl_dependents s)) (bl_waiting s) = (taken, rest)"
    and s': "s' = (leave_books e s1)\<lparr>bl_waiting := rest\<rparr>"
  shows "books (P + R + mset taken) [] s' \<and> answers {} (P + mset taken) R s' \<and> waits needs T s' \<and>
    tasks (P + R + mset taken) s' = tasks (P + R) s \<and>
    (\<forall>i. returned s i \<longrightarrow> returned s' i)"
proof -
  note fields = cancel_step_fields [OF b s1 t s']
  have "waits needs T s'"
  proof (rule waitsI)
    show "returned s' before \<or> (\<exists>later. bl_dependents s' before = Some later \<and> order \<in> set later)"
      if o: "map_of (bl_waiting s') order = Some a'" and n: "before \<in> set (needs order)" for order a' before
    proof -
      have m: "map_of (bl_waiting s) order = Some a'" and d: "order \<notin> set (dependents_of e (bl_dependents s))"
        using o by (auto simp: fields(5) restrict_map_def split: if_splits)
      have "bl_dependents s' before = Some later" if "bl_dependents s before = Some later" "order \<in> set later" for later
        using d that by (auto simp: fields(4) dependents_of_def split: option.splits)
      then show ?thesis using waitsD(1) [OF w m n] fields(8) by blast
    qed
    show "returned s' before" if "e' \<in># ready s' + T" "before \<in> set (needs (en_order e'))" for e' before
      using waitsD(2) [OF w, of e' before] that fields(8) by (simp add: fields(3))
  qed
  then show ?thesis
    using books_cancel_step [OF b s1 t] answers_cancel_step [OF b a s1 t s'] fields(6) [of "P + R"] fields(8) by (simp add: s')
qed

lemma agree_cancel_loop:
  "books (P + R + mset removed) [] s \<Longrightarrow> answers {} (P + mset removed) R s \<Longrightarrow> waits needs (P + R) s \<Longrightarrow>
    agree needs P R [] (cancel_loop removed s)"
proof (induction removed s rule: cancel_loop_induct)
  case (Nil s)
  then show ?case by (simp add: agree_def)
next
  case (Cons e removed s s1 taken rest)
  have "books (P + mset removed + R + mset taken) [] ((leave_books e s1)\<lparr>bl_waiting := rest\<rparr>) \<and>
      answers {} (P + mset removed + mset taken) R ((leave_books e s1)\<lparr>bl_waiting := rest\<rparr>) \<and>
      waits needs (P + R) ((leave_books e s1)\<lparr>bl_waiting := rest\<rparr>)"
    using agree_cancel_step [of e "P + mset removed" R s needs "P + R", OF _ _ Cons(7) _ Cons(1,2) refl] Cons(5,6)
    by (simp add: ac_simps)
  then show ?case using Cons(3,4) by (simp add: ac_simps)
qed

lemma agree_cancel:
  assumes g: "agree needs P R [] s" and c: "backlog_cancel i s = (r, t)"
  shows "agree needs P R [] t"
proof (cases "take_out i s")
  case (Pair found s')
  show ?thesis
  proof (cases found)
    case None
    then show ?thesis using take_out_none [of i s s'] Pair c g by (simp add: backlog_cancel_def)
  next
    case (Some e)
    have b: "books (P + R) [] s" and a: "answers {} P R s" and w: "waits needs (P + R) s" using g by (simp_all add: agree_def)
    have o: "take_out i s = (Some e, s')" using Pair Some by simp
    note books = books_take_out [OF b o]
    note frame = take_out_frame [OF o]
    have tasks: "tasks (add_mset e T) s' = tasks T s" for T using books(2) by (simp add: tasks_def add.commute)
    have results: "own_pending s' = own_pending s" "returned s' = returned s"
      using frame results_frame [of s' s] by auto
    have "answers {} (add_mset e P) R s'" using a by (simp add: answers_def tasks results frame)
    moreover have "waits needs (P + R) s'"
    proof (rule waitsI)
      show "returned s' before \<or> (\<exists>later. bl_dependents s' before = Some later \<and> order \<in> set later)"
        if "map_of (bl_waiting s') order = Some a'" "before \<in> set (needs order)" for order a' before
      proof -
        have "map_of (bl_waiting s) order = Some a'" using books(5) that(1) by (auto simp: map_le_def dom_def)
        then show ?thesis using waitsD(1) [OF w _ that(2)] by (simp add: results frame)
      qed
      show "returned s' before" if "e' \<in># ready s' + (P + R)" "before \<in> set (needs (en_order e'))" for e' before
        using waitsD(2) [OF w, of e' before] that mset_subset_eqD [OF books(4)] by (auto simp: results)
    qed
    ultimately have "agree needs P R [] (cancel_loop [e] s')" using books(1) by (intro agree_cancel_loop) simp_all
    then show ?thesis using c o by (simp add: backlog_cancel_def del: cancel_loop.simps)
  qed
qed

section \<open>Accepting\<close>

text \<open>What a result names for a new task: it has returned, or it takes the order of the task.\<close>

lemma dependencies_registered:
  assumes "count_dependencies order after d 0 = (d', n)" "finite (dom d)" "owed d order = 0"
  shows "before \<in> set after \<Longrightarrow> d before = Some old \<Longrightarrow> \<exists>later. d' before = Some later \<and> order \<in> set later"
    "d before = Some old \<Longrightarrow> \<exists>later. d' before = Some later \<and> set old \<subseteq> set later"
    "n = 0 \<Longrightarrow> before \<in> set after \<Longrightarrow> d before = None"
proof -
  have dom: "dom d' = dom d" "owed d' order = n" using count_dependencies_owed [OF assms(1,2), of order] assms(3) by simp_all
  show r: "\<exists>later. d' before = Some later \<and> order \<in> set later" if b: "before \<in> set after" "d before = Some old" for before old
  proof -
    obtain later where l: "d' before = Some later" using dom(1) b(2) by (metis domD domI)
    then show ?thesis using count_dependencies_set [OF assms(1) l] b(1) by blast
  qed
  show "\<exists>later. d' before = Some later \<and> set old \<subseteq> set later" if b: "d before = Some old"
  proof -
    obtain later where l: "d' before = Some later" using dom(1) b by (metis domD domI)
    then show ?thesis using count_dependencies_set [OF assms(1) l] b by auto
  qed
  show "d before = None" if n: "n = 0" "before \<in> set after"
  proof (rule ccontr)
    assume "d before \<noteq> None"
    then obtain later where "d' before = Some later" "order \<in> set later" using r [OF n(2)] by blast
    moreover have "finite (dom d')" using dom(1) assms(2) by simp
    ultimately show False using owed_0 [of d' order] dom(2) n(1) by auto
  qed
qed

lemma queue_registered:
  assumes b: "books T [] s" and i: "\<And>i. result = Some i \<Longrightarrow> bl_dependents s i = None"
    and d: "count_dependencies (bl_accepted s) (oo_after options) (try_emplace result (bl_dependents s)) 0 = (d, n)"
  shows "dom (try_emplace result (bl_dependents s)) = dom (bl_dependents s) \<union> set_option result"
    "before \<in> set (oo_after options) \<Longrightarrow> try_emplace result (bl_dependents s) before = Some old \<Longrightarrow>
      \<exists>later. d before = Some later \<and> bl_accepted s \<in> set later"
    "try_emplace result (bl_dependents s) before = Some old \<Longrightarrow> \<exists>later. d before = Some later \<and> set old \<subseteq> set later"
    "n = 0 \<Longrightarrow> before \<in> set (oo_after options) \<Longrightarrow> try_emplace result (bl_dependents s) before = None"
proof -
  have f: "finite (dom (bl_dependents s))" by (rule booksD(3) [OF b])
  note emplace = try_emplace_owed [OF f i]
  have "owed (bl_dependents s) (bl_accepted s) = 0" using books_later [OF b, of _ _ "bl_accepted s"] f by (simp add: owed_0) blast
  then have z: "owed (try_emplace result (bl_dependents s)) (bl_accepted s) = 0" using emplace(2) by simp
  note reg = dependencies_registered [OF d emplace(1) z]
  show "dom (try_emplace result (bl_dependents s)) = dom (bl_dependents s) \<union> set_option result" by (rule emplace(3))
  show "\<exists>later. d before = Some later \<and> bl_accepted s \<in> set later"
    if "before \<in> set (oo_after options)" "try_emplace result (bl_dependents s) before = Some old"
    using reg(1) that by blast
  show "\<exists>later. d before = Some later \<and> set old \<subseteq> set later" if "try_emplace result (bl_dependents s) before = Some old"
    using reg(2) that by blast
  show "try_emplace result (bl_dependents s) before = None" if "n = 0" "before \<in> set (oo_after options)"
    using reg(3) that by blast
qed

lemma answers_queue:
  fixes s :: "('k, 't, 'v) queue_state" and options result task call
  defines "t \<equiv> backlog_queue options result task call s"
  assumes b: "books (P + R) [] s" and a: "answers (set_option result) P R s"
    and p: "names_a_priority (oo_priority options)"
    and i: "\<And>i. result = Some i \<Longrightarrow> bl_dependents s i = None \<and> own_pending s i"
    and call: "(call \<noteq> None) = (result \<noteq> None)"
  shows "answers {} P R t"
proof -
  obtain d n where d: "count_dependencies (bl_accepted s) (oo_after options) (try_emplace result (bl_dependents s)) 0 = (d, n)"
    by fastforce
  note reg = queue_registered [OF b _ d]
  note fields = queue_fields [OF d, of task call, folded t_def]
  have results: "own_pending t = own_pending s" "returned t = returned s" using results_frame [OF fields(1)] fields(2) by auto
  have tasks: "tasks T t = add_mset (new_entry result task call s) (tasks T s)" for T
    using queue_placed(1,2) [OF b p d, of task call, folded t_def] by (simp add: tasks_def)
  show ?thesis
  proof (rule answersI)
    show "(en_call e \<noteq> None) = (en_result e \<noteq> None)" if "e \<in># tasks (P + R) t" for e
      using that call answersD(1) [OF a, of e] by (auto simp: tasks)
    show "own_pending t j" if "e \<in># tasks P t" "en_result e = Some j" for e j
      using that i answersD(2) [OF a, of e j] by (auto simp: tasks results)
    show "returned t j" if "e \<in># R" "en_result e = Some j" for e j
      using answersD(3) [OF a that] by (simp add: results)
    show "j \<in> dom (bl_dependents t) \<union> {}" if "own_pending t j" for j
    proof -
      have "j \<in> dom (try_emplace result (bl_dependents s))" using answersD(4) [OF a, of j] that i reg(1) by (simp add: results)
      then show ?thesis using reg(3) i by (fastforce simp: fields)
    qed
    show "j \<le> bl_last_id t" if "j \<in> dom (bl_results t)" for j
      using answersD(5) [OF a, of j] that by (simp only: fields)
  qed
qed

lemma waits_queue:
  fixes s :: "('k, 't, 'v) queue_state" and options result task call
  defines "t \<equiv> backlog_queue options result task call s"
  assumes b: "books T [] s" and w: "waits needs T s" and p: "names_a_priority (oo_priority options)"
    and i: "\<And>i. result = Some i \<Longrightarrow> bl_dependents s i = None \<and> i \<notin> set (oo_after options)"
    and after: "\<And>before. before \<in> set (oo_after options) \<Longrightarrow> returned s before \<or> (\<exists>later. bl_dependents s before = Some later)"
  shows "waits (needs(bl_accepted s := oo_after options)) T t"
proof -
  let ?e = "new_entry result task call s" and ?order = "bl_accepted s"
  let ?needs = "needs(?order := oo_after options)"
  obtain d n where d: "count_dependencies ?order (oo_after options) (try_emplace result (bl_dependents s)) 0 = (d, n)" by fastforce
  have "\<And>i. result = Some i \<Longrightarrow> bl_dependents s i = None" using i by blast
  note reg = queue_registered [OF b this d]
  note fields = queue_fields [OF d, of task call, folded t_def] and placed = queue_placed [OF b p d, of task call, folded t_def]
  have results: "returned t = returned s" using results_frame [OF fields(1)] by simp
  have dep: "try_emplace result (bl_dependents s) before = Some old" if "bl_dependents s before = Some old" for before old
    using that i by (auto simp: try_emplace_def split: option.splits)
  show ?thesis
  proof (rule waitsI)
    show "returned t before \<or> (\<exists>later. bl_dependents t before = Some later \<and> o' \<in> set later)"
      if m: "map_of (bl_waiting t) o' = Some a'" and m': "before \<in> set (?needs o')" for o' a' before
    proof (cases "o' = ?order")
      case True
      then have "before \<in> set (oo_after options)" using m' by simp
      then show ?thesis using after [of before] reg(2) dep True unfolding results fields by blast
    next
      case False
      then have "map_of (bl_waiting s) o' = Some a'" "before \<in> set (needs o')" using m m' by (auto simp: placed(4) split: if_splits)
      then have "returned s before \<or> (\<exists>later. bl_dependents s before = Some later \<and> o' \<in> set later)" by (rule waitsD(1) [OF w])
      then show ?thesis using dep reg(3) unfolding results fields by blast
    qed
    show "returned t before" if e: "e \<in># ready t + T" and m: "before \<in> set (?needs (en_order e))" for e before
    proof (cases "n = 0 \<and> e = ?e")
      case True
      then have "before \<in> set (oo_after options)" using m by simp
      then show ?thesis using after [of before] reg(4) [of before] dep True unfolding results by fastforce
    next
      case False
      then have e': "e \<in># ready s + T" using e placed(1) by (auto split: if_splits)
      then have "en_order e < ?order" using booksD(6) [OF b books_unfinished [OF b]] by (auto simp: tasks_def)
      then show ?thesis using waitsD(2) [OF w e'] m unfolding results by simp
    qed
  qed
qed

lemma agree_queue:
  assumes b: "books (P + R) [] s" and a: "answers (set_option result) P R s" and w: "waits needs (P + R) s"
    and p: "names_a_priority (oo_priority options)"
    and c: "bl_accepted s + 1 < 2 ^ 64" "length (oo_after options) < 2 ^ 64"
    and i: "\<And>i. result = Some i \<Longrightarrow> bl_dependents s i = None \<and> i \<notin> set (oo_after options) \<and> own_pending s i"
    and call: "(call \<noteq> None) = (result \<noteq> None)"
    and after: "\<And>before. before \<in> set (oo_after options) \<Longrightarrow> returned s before \<or> own_pending s before"
  shows "agree (needs(bl_accepted s := oo_after options)) P R [] (backlog_queue options result task call s)"
proof -
  have "returned s before \<or> (\<exists>later. bl_dependents s before = Some later)" if "before \<in> set (oo_after options)" for before
    using after [OF that] answersD(4) [OF a, of before] i that by (cases result) auto
  then have "waits (needs(bl_accepted s := oo_after options)) (P + R) (backlog_queue options result task call s)"
    using i by (intro waits_queue [OF b w p]) blast+
  moreover have "books (P + R) [] (backlog_queue options result task call s)" using i by (intro books_queue [OF b p c]) blast
  moreover have "answers {} P R (backlog_queue options result task call s)" using i by (intro answers_queue [OF b a p _ call]) blast
  ultimately show ?thesis by (simp add: agree_def)
qed

lemma agree_new_needs:
  assumes "agree needs P R [] s"
  shows "agree (needs(bl_accepted s := after)) P R [] s"
proof -
  have b: "books (P + R) [] s" and w: "waits needs (P + R) s" using assms by (simp_all add: agree_def)
  have "waits (needs(bl_accepted s := after)) (P + R) s"
  proof (rule waitsI)
    show "returned s before \<or> (\<exists>later. bl_dependents s before = Some later \<and> order \<in> set later)"
      if m: "map_of (bl_waiting s) order = Some a" and n: "before \<in> set ((needs(bl_accepted s := after)) order)" for order a before
      using waitsD(1) [OF w m, of before] n books_waiting_key(2) [OF b m] by simp
    show "returned s before" if e: "e \<in># ready s + (P + R)" and n: "before \<in> set ((needs(bl_accepted s := after)) (en_order e))" for e before
    proof -
      have "en_order e < bl_accepted s" using e booksD(6) [OF b books_unfinished [OF b]] by (auto simp: tasks_def)
      then show ?thesis using waitsD(2) [OF w e] n by simp
    qed
  qed
  then show ?thesis using assms by (simp add: agree_def)
qed

text \<open>No counter of the process wraps at the next operation.\<close>

definition counters_left :: "('k, 't, 'v) queue_state \<Rightarrow> bool" where
  "counters_left s = (bl_accepted s + 1 < 2 ^ 64 \<and> bl_last_id s + 1 < 2 ^ 64)"

definition options_ok :: "operation_options \<Rightarrow> ('k, 't, 'v) queue_state \<Rightarrow> bool" where
  "options_ok options s = (set (oo_after options) \<subseteq> dom (bl_results s) \<and> length (oo_after options) < 2 ^ 64)"

lemma after_ok:
  assumes "all_from_here s after" "\<not> any_cancelled s after" "before \<in> set after"
  shows "returned s before \<or> own_pending s before"
proof -
  obtain r where r: "bl_results s before = Some r" "rs_queue r = bl_number s"
    using assms(1,3) by (fastforce simp: all_from_here_def list_all_iff split: option.splits)
  moreover have "\<not> result_is_cancelled r" using assms(2,3) r by (fastforce simp: any_cancelled_def list_ex_iff)
  ultimately show ?thesis
    by (cases "rs_state r") (auto simp: returned_def own_pending_def result_is_cancelled_def result_held_def)
qed

lemma agree_submit:
  assumes g: "agree needs P R [] s" and c: "counters_left s" and o: "options_ok options s"
    and t: "backlog_submit task options s = (r, t)"
  shows "agree (needs(bl_accepted s := oo_after options)) P R [] t"
proof (cases "t = s")
  case True
  then show ?thesis using agree_new_needs [OF g] by simp
next
  case False
  then have s: "names_a_priority (oo_priority options)" "all_from_here s (oo_after options)"
      "\<not> any_cancelled s (oo_after options)" "t = backlog_queue options None (Some task) None s"
    using t by (auto simp: backlog_submit_def split: if_splits)
  show ?thesis
    unfolding s(4) using g c o s(1) after_ok [OF s(2,3)]
    by (intro agree_queue) (auto simp: agree_def counters_left_def options_ok_def)
qed

lemma agree_make:
  assumes g: "agree needs P R [] s" and c: "counters_left s" and m: "make_result q s = (i, s1)"
  shows "books (P + R) [] s1" "waits needs (P + R) s1" "answers (if q = bl_number s then {i} else {}) P R s1"
    "bl_results s i = None" "bl_dependents s i = None" "own_pending s1 i = (q = bl_number s)"
    "s1 = s\<lparr>bl_last_id := i, bl_results := (bl_results s)(i \<mapsto> result_make i q)\<rparr>"
proof -
  have b: "books (P + R) [] s" and a: "answers {} P R s" and w: "waits needs (P + R) s" using g by (simp_all add: agree_def)
  have i: "i = Suc (bl_last_id s)" "s1 = s\<lparr>bl_last_id := i, bl_results := (bl_results s)(i \<mapsto> result_make i q)\<rparr>"
    using m c by (auto simp: make_result_def next_id_def counters_left_def)
  then show "s1 = s\<lparr>bl_last_id := i, bl_results := (bl_results s)(i \<mapsto> result_make i q)\<rparr>" by simp
  show new: "bl_results s i = None" using answersD(5) [OF a, of i] i(1) by (cases "bl_results s i") (auto simp: dom_def)
  show "bl_dependents s i = None"
  proof (rule ccontr)
    assume "bl_dependents s i \<noteq> None"
    then obtain e where "e \<in># tasks (P + R) s" "en_result e = Some i" using books_has_result [OF b] by blast
    then have "own_pending s i \<or> returned s i" using answersD(2,3) [OF a, of e i] by (auto simp: tasks_def)
    then show False using new by (auto simp: own_pending_def returned_def)
  qed
  show "own_pending s1 i = (q = bl_number s)" by (simp add: i(2) own_pending_def result_make_def)
  have same: "tasks T s1 = tasks T s" "ready s1 = ready s" for T by (simp_all add: i(2) tasks_def ready_def aside_def)
  have p: "own_pending s1 j \<longleftrightarrow> own_pending s j \<or> (j = i \<and> q = bl_number s)" for j
    using new by (auto simp: i(2) own_pending_def result_make_def)
  have r: "returned s1 j \<longleftrightarrow> returned s j" for j using new by (auto simp: i(2) returned_def result_make_def)
  show "books (P + R) [] s1" using b by (subst books_frame [of _ s]) (simp_all add: i(2))
  show "waits needs (P + R) s1" using w by (simp add: waits_def r same) (simp add: i(2))
  show "answers (if q = bl_number s then {i} else {}) P R s1"
  proof (rule answersI)
    show "j \<in> dom (bl_dependents s1) \<union> (if q = bl_number s then {i} else {})" if "own_pending s1 j" for j
      using that answersD(4) [OF a, of j] p [of j] by (auto simp: i(2))
    show "j \<le> bl_last_id s1" if "j \<in> dom (bl_results s1)" for j
    proof (cases "j = i")
      case False
      then have "j \<in> dom (bl_results s)" using that by (simp add: i(2))
      then show ?thesis using answersD(5) [OF a, of j] i by simp
    qed (simp add: i(2))
  qed (use answersD [OF a] in \<open>simp_all add: p r same\<close>)
qed

lemma agree_enqueue:
  assumes g: "agree needs P R [] s" and c: "counters_left s" and o: "options_ok options s"
    and t: "backlog_enqueue task options s = (r, t)"
  shows "agree (needs(bl_accepted s := oo_after options)) P R [] t"
proof (cases "t = s")
  case True
  then show ?thesis using agree_new_needs [OF g] by simp
next
  case False
  obtain i s1 where m: "make_result (bl_number s) s = (i, s1)" by fastforce
  have s: "names_a_priority (oo_priority options)" "all_from_here s (oo_after options)"
      "t = (if any_cancelled s1 (oo_after options) then settle_result i Cancel s1 else backlog_queue options (Some i) None (Some task) s1)"
    using t m False by (auto simp: backlog_enqueue_def split: if_splits)
  note new = agree_make [OF g c m]
  have acc: "bl_accepted s1 = bl_accepted s" using new(7) by simp
  have here: "all_from_here s1 (oo_after options)"
    using s(2) by (simp add: all_from_here_def new(7) list_all_iff result_make_def) (force split: option.splits)
  show ?thesis
  proof (cases "any_cancelled s1 (oo_after options)")
    case True
    have "en_result e \<noteq> Some i" if "e \<in># tasks P s1" for e
    proof
      assume "en_result e = Some i"
      moreover have "e \<in># tasks P s" using that by (simp add: new(7) tasks_def ready_def aside_def)
      ultimately have "own_pending s i" using answersD(2) [of "{}" P R s e i] g by (simp add: agree_def)
      then show False using new(4) by (auto simp: own_pending_def)
    qed
    then have "answers {} P R (settle_result i Cancel s1)" using answers_settle [OF new(3), of i Cancel] by simp
    then have "agree needs P R [] t" using new(1,2) s(3) True settle_waits by (simp add: agree_def)
    then have "agree (needs(bl_accepted t := oo_after options)) P R [] t" by (rule agree_new_needs)
    then show ?thesis using s(3) True acc by simp
  next
    case False
    have "i \<notin> set (oo_after options)" using o new(4) by (auto simp: options_ok_def)
    then have "agree (needs(bl_accepted s1 := oo_after options)) P R [] (backlog_queue options (Some i) None (Some task) s1)"
      using new s(1) c o after_ok [OF here False]
      by (intro agree_queue) (auto simp: counters_left_def options_ok_def)
    then show ?thesis using s(3) False acc by simp
  qed
qed

end
