(* ===== verification/Queue_Steps.thy ===== *)
theory Queue_Steps
  imports Queue_Machine
begin

text \<open>
  The executions of a queue: the steps of its workers, each from one critical section to the next,
  and the steps everybody else can take in between, which include what the tasks do themselves. The
  states an execution reaches keep the invariant of the books.
\<close>

section \<open>The workers\<close>

definition set_activity :: "nat \<Rightarrow> 'k activity \<Rightarrow> ('k, 't, 'v) queue_state \<Rightarrow> ('k, 't, 'v) queue_state" where
  "set_activity w a s = s\<lparr>bl_activity := (bl_activity s)(w := a)\<rparr>"

definition set_loop :: "nat \<Rightarrow> worker_loop \<Rightarrow> ('k, 't, 'v) queue_state \<Rightarrow> ('k, 't, 'v) queue_state" where
  "set_loop w loop s = s\<lparr>bl_loops := (bl_loops s)(w := loop)\<rparr>"

text \<open>What the run loop of a worker runs next: nothing once it was told to quit.\<close>

definition next_item :: "worker_loop \<Rightarrow> (work \<times> worker_loop) option" where
  "next_item loop =
     (if lp_quit loop \<or> lp_finished loop then None
      else case lp_pending loop of [] \<Rightarrow> None | item # rest \<Rightarrow> Some (item, loop\<lparr>lp_pending := rest\<rparr>))"

fun started :: "work \<Rightarrow> 'k activity" where
  "started Sweep = Taking Sweeping"
| "started Finish = Taking Finishing"
| "started Posted = Idle"

fun swept :: "sweep_mode \<Rightarrow> 'k activity" where
  "swept Sweeping = Idle"
| "swept Finishing = Closing"

text \<open>The end of the task \<open>finish\<close> hands out: it goes to the back of the loop again when the loop
  has more to run, and quits the loop otherwise.\<close>

definition worker_close :: "nat \<Rightarrow> ('k, 't, 'v) queue_state \<Rightarrow> ('k, 't, 'v) queue_state" where
  "worker_close w s =
     (if lp_pending (bl_loops s w) \<noteq> [] then worker_perform w Finish s
      else set_loop w ((bl_loops s w)\<lparr>lp_quit := True\<rparr>) s)"

definition worker_count :: "('k, 't, 'v) queue_state \<Rightarrow> nat" where
  "worker_count s = length (bl_sweeping s)"

inductive worker_step :: "('k, 't, 'v) queue_state \<Rightarrow> ('k, 't, 'v) queue_state \<Rightarrow> bool" where
  begins: "bl_activity s w = Idle \<Longrightarrow> w < worker_count s \<Longrightarrow> next_item (bl_loops s w) = Some (item, loop) \<Longrightarrow>
    worker_step s (set_activity w (started item) (set_loop w loop s))"
| takes: "bl_activity s w = Taking m \<Longrightarrow> backlog_take w s = (Some e, t) \<Longrightarrow>
    worker_step s (set_activity w (Running m e) t)"
| takes_none: "bl_activity s w = Taking m \<Longrightarrow> backlog_take w s = (None, t) \<Longrightarrow>
    worker_step s (set_activity w (swept m) t)"
| returns: "bl_activity s w = Running m e \<Longrightarrow> worker_step s (set_activity w (Ran m e) (entry_run e v s))"
| is_done: "bl_activity s w = Ran m e \<Longrightarrow> worker_step s (set_activity w (Taking m) (backlog_done e s))"
| closes: "bl_activity s w = Closing \<Longrightarrow> worker_step s (set_activity w Idle (worker_close w s))"
| leaves: "bl_activity s w = Idle \<Longrightarrow> w < worker_count s \<Longrightarrow> lp_quit (bl_loops s w) \<Longrightarrow> \<not> lp_finished (bl_loops s w) \<Longrightarrow>
    worker_step s (set_loop w \<lparr>lp_pending = [], lp_quit = False, lp_finished = True\<rparr> s)"

text \<open>What others do: they cancel tasks, stop the queue, post on the loop of a worker, and make and
  settle results of their own. With \<open>quits\<close>, a task may tell the loop of its worker to quit, or clear it.\<close>

inductive outside_step :: "bool \<Rightarrow> ('k, 't, 'v) queue_state \<Rightarrow> ('k, 't, 'v) queue_state \<Rightarrow> bool" for quits where
  cancels: "backlog_cancel i s = (r, t) \<Longrightarrow> outside_step quits s t"
| stops: "outside_step quits s (backlog_stop s)"
| posts: "w < worker_count s \<Longrightarrow> outside_step quits s (worker_perform w Posted s)"
| quits: "quits \<Longrightarrow> w < worker_count s \<Longrightarrow> outside_step quits s (set_loop w ((bl_loops s w)\<lparr>lp_quit := True\<rparr>) s)"
| clears: "quits \<Longrightarrow> w < worker_count s \<Longrightarrow> outside_step quits s (set_loop w ((bl_loops s w)\<lparr>lp_pending := []\<rparr>) s)"
| makes: "q \<noteq> bl_number s \<Longrightarrow> make_result q s = (i, t) \<Longrightarrow> outside_step quits s t"
| settles: "bl_results s i = Some r \<Longrightarrow> rs_queue r \<noteq> bl_number s \<Longrightarrow> outside_step quits s (settle_result i c s)"

text \<open>The states executions reach, with the results each task was given to run after. No counter
  wraps: that takes \<open>2 ^ 64\<close> tasks.\<close>

inductive reach :: "bool \<Rightarrow> (nat \<Rightarrow> nat list) \<Rightarrow> ('k, 't, 'v) queue_state \<Rightarrow> bool" for quits where
  starts: "storage_make thread_count number last_id results = Inr s \<Longrightarrow>
    (\<And>i r. results i = Some r \<Longrightarrow> i \<le> last_id \<and> rs_queue r \<noteq> number) \<Longrightarrow> reach quits needs s"
| works: "reach quits needs s \<Longrightarrow> worker_step s t \<Longrightarrow> reach quits needs t"
| others: "reach quits needs s \<Longrightarrow> counters_left s \<Longrightarrow> outside_step quits s t \<Longrightarrow> reach quits needs t"
| submits: "reach quits needs s \<Longrightarrow> counters_left s \<Longrightarrow> options_ok options s \<Longrightarrow> backlog_submit task options s = (r, t) \<Longrightarrow>
    reach quits (needs(bl_accepted s := oo_after options)) t"
| enqueues: "reach quits needs s \<Longrightarrow> counters_left s \<Longrightarrow> options_ok options s \<Longrightarrow> backlog_enqueue task options s = (i, t) \<Longrightarrow>
    reach quits (needs(bl_accepted s := oo_after options)) t"

section \<open>The invariant of the books\<close>

fun running_of :: "'k activity \<Rightarrow> 'k entry multiset" where
  "running_of (Running m e) = {#e#}"
| "running_of a = {#}"

fun ran_of :: "'k activity \<Rightarrow> 'k entry multiset" where
  "ran_of (Ran m e) = {#e#}"
| "ran_of a = {#}"

definition running :: "('k, 't, 'v) queue_state \<Rightarrow> 'k entry multiset" where
  "running s = (\<Sum>w < worker_count s. running_of (bl_activity s w))"

definition ran :: "('k, 't, 'v) queue_state \<Rightarrow> 'k entry multiset" where
  "ran s = (\<Sum>w < worker_count s. ran_of (bl_activity s w))"

definition workers_ok :: "('k, 't, 'v) queue_state \<Rightarrow> bool" where
  "workers_ok s =
     (0 < worker_count s \<and> bl_workers s = (if bl_accepting s then [0..<worker_count s] else []) \<and>
      (\<forall>w. bl_activity s w \<noteq> Idle \<longrightarrow> w < worker_count s))"

definition queue_inv :: "(nat \<Rightarrow> nat list) \<Rightarrow> ('k, 't, 'v) queue_state \<Rightarrow> bool" where
  "queue_inv needs s = (agree needs (running s) (ran s) [] s \<and> workers_ok s)"

lemma sum_update:
  fixes f :: "'a \<Rightarrow> 'b multiset" and n :: nat
  assumes "w < n"
  shows "(\<Sum>v < n. f ((act(w := a)) v)) + f (act w) = (\<Sum>v < n. f (act v)) + f a"
proof -
  have "(\<Sum>v < n. f ((act(w := a)) v)) = f a + (\<Sum>v \<in> {..<n} - {w}. f ((act(w := a)) v))"
    using assms by (subst sum.remove [of _ w]) auto
  also have "(\<Sum>v \<in> {..<n} - {w}. f ((act(w := a)) v)) = (\<Sum>v \<in> {..<n} - {w}. f (act v))"
    by (rule sum.cong) auto
  finally show ?thesis using assms sum.remove [of "{..<n}" w "\<lambda>v. f (act v)"] by (simp add: ac_simps)
qed

lemma running_update:
  assumes "w < worker_count s" "worker_count t = worker_count s" "bl_activity t = bl_activity s"
  shows "running (set_activity w a t) + running_of (bl_activity s w) = running s + running_of a"
    "ran (set_activity w a t) + ran_of (bl_activity s w) = ran s + ran_of a"
  using sum_update [OF assms(1), of running_of "bl_activity s" a] sum_update [OF assms(1), of ran_of "bl_activity s" a] assms(2,3)
  by (simp_all add: running_def ran_def set_activity_def worker_count_def)

lemma agree_set [simp]:
  "agree needs P R orders (set_activity w a s) = agree needs P R orders s"
  "agree needs P R orders (set_loop w l s) = agree needs P R orders s"
  "agree needs P R orders (worker_perform w item s) = agree needs P R orders s"
  by (rule agree_frame; simp add: set_activity_def set_loop_def)+

lemma set_frame [simp]:
  "worker_count (set_activity w a s) = worker_count s" "worker_count (set_loop w l s) = worker_count s"
  "worker_count (worker_perform w item s) = worker_count s" "worker_count (settle_result i c s) = worker_count s"
  "worker_count (make_ready e p s) = worker_count s" "worker_count (count_off order s) = worker_count s"
  "bl_workers (set_activity w a s) = bl_workers s" "bl_accepting (set_activity w a s) = bl_accepting s"
  "bl_workers (set_loop w l s) = bl_workers s" "bl_accepting (set_loop w l s) = bl_accepting s"
  "bl_activity (set_loop w l s) = bl_activity s" "bl_activity (set_activity w a s) = (bl_activity s)(w := a)"
  "bl_loops (set_activity w a s) = bl_loops s" "bl_loops (set_loop w l s) = (bl_loops s)(w := l)"
  "bl_tasks (set_activity w a s) = bl_tasks s" "bl_tasks (set_loop w l s) = bl_tasks s"
  "bl_sweeping (set_activity w a s) = bl_sweeping s" "bl_sweeping (set_loop w l s) = bl_sweeping s"
  by (simp_all add: set_activity_def set_loop_def worker_count_def)

lemma held_frame:
  "worker_count t = worker_count s \<Longrightarrow> bl_activity t = bl_activity s \<Longrightarrow> running t = running s"
  "worker_count t = worker_count s \<Longrightarrow> bl_activity t = bl_activity s \<Longrightarrow> ran t = ran s"
  by (simp_all add: running_def ran_def)

lemma take_frame:
  assumes "backlog_take w s = (r, t)"
  shows "bl_activity t = bl_activity s" "worker_count t = worker_count s" "bl_workers t = bl_workers s"
    "bl_accepting t = bl_accepting s" "bl_loops t = bl_loops s"
  using assms by (auto simp: backlog_take_def worker_count_def split: option.splits)

lemma entry_run_frame [simp]:
  "bl_activity (entry_run e v s) = bl_activity s" "worker_count (entry_run e v s) = worker_count s"
  "bl_workers (entry_run e v s) = bl_workers s" "bl_accepting (entry_run e v s) = bl_accepting s"
  "bl_loops (entry_run e v s) = bl_loops s" "bl_tasks (entry_run e v s) = bl_tasks s" "bl_sweeping (entry_run e v s) = bl_sweeping s"
  by (simp_all add: entry_run_def split: option.splits)

lemma done_frame [simp]:
  "bl_activity (backlog_done e s) = bl_activity s" "worker_count (backlog_done e s) = worker_count s"
  "bl_workers (backlog_done e s) = bl_workers s" "bl_accepting (backlog_done e s) = bl_accepting s"
proof -
  have "bl_activity (fold count_off orders s) = bl_activity s \<and> worker_count (fold count_off orders s) = worker_count s \<and>
      bl_workers (fold count_off orders s) = bl_workers s \<and> bl_accepting (fold count_off orders s) = bl_accepting s"
    for orders and s :: "('a, 'b, 'c) queue_state"
    by (induction orders arbitrary: s) simp_all
  then show "bl_activity (backlog_done e s) = bl_activity s" "worker_count (backlog_done e s) = worker_count s"
    "bl_workers (backlog_done e s) = bl_workers s" "bl_accepting (backlog_done e s) = bl_accepting s"
    by (simp_all add: backlog_done_leave leave_books_def worker_count_def)
qed

lemma worker_close_frame [simp]:
  "bl_activity (worker_close w s) = bl_activity s" "worker_count (worker_close w s) = worker_count s"
  "bl_workers (worker_close w s) = bl_workers s" "bl_accepting (worker_close w s) = bl_accepting s"
  "agree needs P R orders (worker_close w s) = agree needs P R orders s"
  "bl_tasks (worker_close w s) = bl_tasks s" "bl_sweeping (worker_close w s) = bl_sweeping s"
  by (simp_all add: worker_close_def)

lemma workers_ok_set:
  "workers_ok t \<Longrightarrow> w < worker_count t \<Longrightarrow> workers_ok (set_activity w a t)"
  by (simp add: workers_ok_def)

lemma workers_ok_frame:
  "workers_ok s \<Longrightarrow> worker_count t = worker_count s \<Longrightarrow> bl_workers t = bl_workers s \<Longrightarrow> bl_accepting t = bl_accepting s \<Longrightarrow>
    bl_activity t = bl_activity s \<Longrightarrow> workers_ok t"
  by (simp add: workers_ok_def)

lemma queue_inv_worker:
  assumes i: "queue_inv needs s" and s: "worker_step s t"
  shows "queue_inv needs t"
  using s
proof cases
  case (begins w item loop)
  have "running t + running_of (bl_activity s w) = running s + running_of (started item)"
    "ran t + ran_of (bl_activity s w) = ran s + ran_of (started item)"
    using running_update [of w s "set_loop w loop s"] begins(1,3) by simp_all
  then have "running t = running s" "ran t = ran s" using begins(2) by (cases item; simp)+
  then show ?thesis using i begins(1,3) by (simp add: queue_inv_def workers_ok_def)
next
  case (takes w m e t')
  have w: "w < worker_count s" using i takes(2) by (auto simp: queue_inv_def workers_ok_def)
  note f = take_frame [OF takes(3)]
  have "running t = add_mset e (running s)" "ran t = ran s"
    using running_update [OF w f(2,1)] takes(1,2) by simp_all
  moreover have "agree needs (add_mset e (running s)) (ran s) [] t'"
    using i takes(3) by (intro agree_take) (simp_all add: queue_inv_def)
  moreover have "workers_ok t'" by (rule workers_ok_frame [OF _ f(2,3,4,1)]) (use i in \<open>simp add: queue_inv_def\<close>)
  ultimately show ?thesis using takes(1) w f(2) by (simp add: queue_inv_def workers_ok_set)
next
  case (takes_none w m t')
  have w: "w < worker_count s" using i takes_none(2) by (auto simp: queue_inv_def workers_ok_def)
  note f = take_frame [OF takes_none(3)]
  have "running t + {#} = running s + running_of (swept m)" "ran t + {#} = ran s + ran_of (swept m)"
    using running_update [OF w f(2,1), of "swept m"] takes_none(1,2) by simp_all
  then have "running t = running s" "ran t = ran s" by (cases m; simp)+
  moreover have "agree needs (running s) (ran s) [] t' = agree needs (running s) (ran s) [] s"
    using take_nothing [OF takes_none(3)] by (intro agree_frame) simp_all
  moreover have "workers_ok t'" by (rule workers_ok_frame [OF _ f(2,3,4,1)]) (use i in \<open>simp add: queue_inv_def\<close>)
  ultimately show ?thesis using i takes_none(1) w f(2) by (simp add: queue_inv_def workers_ok_set)
next
  case (returns w m e v)
  have w: "w < worker_count s" using i returns(2) by (auto simp: queue_inv_def workers_ok_def)
  have h: "add_mset e (running t) = running s" "ran t = add_mset e (ran s)"
    using running_update [OF w, of "entry_run e v s" "Ran m e"] returns(1,2) by simp_all
  have "agree needs (running t) (add_mset e (ran s)) [] (entry_run e v s)"
    using i h(1) by (intro agree_run) (simp add: queue_inv_def)
  moreover have "workers_ok (entry_run e v s)" using i by (simp add: queue_inv_def workers_ok_def)
  ultimately show ?thesis using returns(1) h(2) w by (simp add: queue_inv_def workers_ok_set)
next
  case (is_done w m e)
  have w: "w < worker_count s" using i is_done(2) by (auto simp: queue_inv_def workers_ok_def)
  have h: "running t = running s" "add_mset e (ran t) = ran s"
    using running_update [OF w, of "backlog_done e s" "Taking m"] is_done(1,2) by simp_all
  have "agree needs (running s) (ran t) [] (backlog_done e s)"
    using i h(2) by (intro agree_done) (simp add: queue_inv_def)
  moreover have "workers_ok (backlog_done e s)" using i by (simp add: queue_inv_def workers_ok_def)
  ultimately show ?thesis using is_done(1) h(1) w by (simp add: queue_inv_def workers_ok_set)
next
  case (closes w)
  have w: "w < worker_count s" using i closes(2) by (auto simp: queue_inv_def workers_ok_def)
  have "running t = running s" "ran t = ran s"
    using running_update [OF w, of "worker_close w s" Idle] closes(1,2) by simp_all
  then show ?thesis using i closes(1) w by (simp add: queue_inv_def workers_ok_def)
next
  case (leaves w)
  have "running t = running s" "ran t = ran s" unfolding leaves(1) by (rule held_frame; simp)+
  then show ?thesis using i leaves(1) by (simp add: queue_inv_def workers_ok_def)
qed

section \<open>The steps of others\<close>

lemma cancel_frame:
  assumes "backlog_cancel i s = (r, t)"
  shows "bl_number t = bl_number s \<and> bl_activity t = bl_activity s \<and> worker_count t = worker_count s \<and> bl_workers t = bl_workers s \<and>
    bl_accepting t = bl_accepting s \<and> bl_sweeping t = bl_sweeping s \<and> bl_loops t = bl_loops s \<and> bl_accepted t = bl_accepted s"
proof -
  have c: "bl_number (cancel_loop removed s) = bl_number s \<and> bl_activity (cancel_loop removed s) = bl_activity s \<and>
      worker_count (cancel_loop removed s) = worker_count s \<and>
      bl_workers (cancel_loop removed s) = bl_workers s \<and> bl_accepting (cancel_loop removed s) = bl_accepting s \<and>
      bl_sweeping (cancel_loop removed s) = bl_sweeping s \<and> bl_loops (cancel_loop removed s) = bl_loops s \<and>
      bl_accepted (cancel_loop removed s) = bl_accepted s"
    for removed and s :: "('a, 'b, 'c) queue_state"
  proof (induction removed s rule: cancel_loop_induct)
    case (Cons e removed s s1 taken rest)
    then show ?case unfolding Cons(3) by (simp add: leave_books_def worker_count_def split: option.splits)
  qed simp
  obtain found s' where o: "take_out i s = (found, s')" by fastforce
  show ?thesis
  proof (cases found)
    case None
    then show ?thesis using assms take_out_none [of i s s'] o by (simp add: backlog_cancel_def)
  next
    case (Some e)
    then show ?thesis using assms take_out_frame [OF o] o c [of "[e]" s'] by (simp add: backlog_cancel_def worker_count_def del: cancel_loop.simps)
  qed
qed

lemma fold_perform_frame [simp]:
  "worker_count (fold (\<lambda>w. worker_perform w item) ws s) = worker_count s" "bl_activity (fold (\<lambda>w. worker_perform w item) ws s) = bl_activity s"
  "bl_workers (fold (\<lambda>w. worker_perform w item) ws s) = bl_workers s" "bl_accepting (fold (\<lambda>w. worker_perform w item) ws s) = bl_accepting s"
  "bl_tasks (fold (\<lambda>w. worker_perform w item) ws s) = bl_tasks s" "bl_sweeping (fold (\<lambda>w. worker_perform w item) ws s) = bl_sweeping s"
  "agree needs P R orders (fold (\<lambda>w. worker_perform w item) ws s) = agree needs P R orders s"
  by (induction ws arbitrary: s) simp_all

lemma stop_frame [simp]:
  "worker_count (backlog_stop s) = worker_count s" "bl_activity (backlog_stop s) = bl_activity s"
  "bl_tasks (backlog_stop s) = bl_tasks s" "bl_sweeping (backlog_stop s) = bl_sweeping s" "\<not> bl_accepting (backlog_stop s)"
  "agree needs P R orders (backlog_stop s) = agree needs P R orders s"
proof -
  show "worker_count (backlog_stop s) = worker_count s" "bl_activity (backlog_stop s) = bl_activity s" "\<not> bl_accepting (backlog_stop s)"
    "bl_tasks (backlog_stop s) = bl_tasks s" "bl_sweeping (backlog_stop s) = bl_sweeping s"
    by (simp_all add: backlog_stop_def Let_def) (simp add: worker_count_def)
  have "agree needs P R orders (t\<lparr>bl_workers := ws\<rparr>) = agree needs P R orders t"
    "agree needs P R orders (t\<lparr>bl_accepting := b\<rparr>) = agree needs P R orders t" for t :: "('a, 'b, 'c) queue_state" and ws b
    by (rule agree_frame; simp)+
  then show "agree needs P R orders (backlog_stop s) = agree needs P R orders s" by (simp add: backlog_stop_def Let_def)
qed

lemma queue_inv_outside:
  assumes i: "queue_inv needs s" and c: "counters_left s" and s: "outside_step quits s t"
  shows "queue_inv needs t"
proof -
  have g: "agree needs (running s) (ran s) [] s" and w: "workers_ok s" using i by (simp_all add: queue_inv_def)
  note b = g [unfolded agree_def, THEN conjunct1] and a = g [unfolded agree_def, THEN conjunct2, THEN conjunct1]
    and n = g [unfolded agree_def, THEN conjunct2, THEN conjunct2]
  have keep: "queue_inv needs t" if "agree needs (running s) (ran s) [] t" "workers_ok t"
      "worker_count t = worker_count s" "bl_activity t = bl_activity s"
    using that held_frame [OF that(3,4)] by (simp add: queue_inv_def)
  show ?thesis
    using s
  proof cases
    case (cancels j r)
    have f: "worker_count t = worker_count s" "bl_activity t = bl_activity s" "workers_ok t"
      using cancel_frame [OF cancels] workers_ok_frame [OF w, of t] by simp_all
    show ?thesis using f agree_cancel [OF g cancels] by (intro keep) simp_all
  next
    case stops
    have "workers_ok t" using w by (auto simp: workers_ok_def stops) (auto simp: backlog_stop_def Let_def)
    then show ?thesis using g by (intro keep) (simp_all add: stops)
  next
    case (posts v)
    then show ?thesis using g w by (intro keep) (simp_all add: workers_ok_def)
  next
    case (quits v)
    then show ?thesis using g w by (intro keep) (simp_all add: workers_ok_def)
  next
    case (clears v)
    then show ?thesis using g w by (intro keep) (simp_all add: workers_ok_def)
  next
    case (makes q j)
    note m = agree_make [OF g c makes(2)]
    have f: "worker_count t = worker_count s" "bl_activity t = bl_activity s" "workers_ok t"
      using w by (simp_all add: m(7) worker_count_def workers_ok_def)
    show ?thesis using m(1-3) makes(1) f by (intro keep) (simp_all add: agree_def)
  next
    case (settles j r c')
    have "\<not> own_pending s j" using settles(2,3) by (simp add: own_pending_def)
    then have "answers {} (running s) (ran s) t"
      using answers_settle [OF a, of j] answersD(2) [OF a] by (fastforce simp: settles(1))
    then have "agree needs (running s) (ran s) [] t" using b settle_waits [OF n] by (simp add: agree_def settles(1))
    then show ?thesis using w by (intro keep) (simp_all add: settles(1) workers_ok_def)
  qed
qed

lemma queue_frame [simp]:
  "worker_count (backlog_queue options result task call s) = worker_count s"
  "bl_activity (backlog_queue options result task call s) = bl_activity s"
  "bl_workers (backlog_queue options result task call s) = bl_workers s"
  "bl_accepting (backlog_queue options result task call s) = bl_accepting s"
  by (simp_all add: backlog_queue_def Let_def worker_count_def split: prod.splits)

lemma accept_frame:
  "backlog_submit task options s = (r, t) \<Longrightarrow> worker_count t = worker_count s \<and> bl_activity t = bl_activity s \<and>
    bl_workers t = bl_workers s \<and> bl_accepting t = bl_accepting s"
  "backlog_enqueue task options s = (i, t) \<Longrightarrow> worker_count t = worker_count s \<and> bl_activity t = bl_activity s \<and>
    bl_workers t = bl_workers s \<and> bl_accepting t = bl_accepting s"
proof -
  show "backlog_submit task options s = (r, t) \<Longrightarrow> worker_count t = worker_count s \<and> bl_activity t = bl_activity s \<and>
    bl_workers t = bl_workers s \<and> bl_accepting t = bl_accepting s"
    by (auto simp: backlog_submit_def split: if_splits)
  obtain i' s1 where m: "make_result (bl_number s) s = (i', s1)" by fastforce
  then have "worker_count s1 = worker_count s \<and> bl_activity s1 = bl_activity s \<and> bl_workers s1 = bl_workers s \<and> bl_accepting s1 = bl_accepting s"
    by (auto simp: make_result_def next_id_def worker_count_def)
  then show "backlog_enqueue task options s = (i, t) \<Longrightarrow> worker_count t = worker_count s \<and> bl_activity t = bl_activity s \<and>
    bl_workers t = bl_workers s \<and> bl_accepting t = bl_accepting s"
    by (auto simp: backlog_enqueue_def m split: if_splits)
qed

lemma queue_inv_starts:
  assumes "storage_make thread_count number last_id results = Inr s"
    "\<And>i r. results i = Some r \<Longrightarrow> i \<le> last_id \<and> rs_queue r \<noteq> number"
  shows "queue_inv needs s"
proof -
  have s: "s = queue_make thread_count number last_id results" "0 < thread_count"
    using assms(1) by (auto simp: storage_make_def split: if_splits)
  have h: "running s = {#}" "ran s = {#}" by (simp_all add: s running_def ran_def queue_make_def)
  have t: "tasks {#} s = {#}" "ready s = {#}" by (simp_all add: s tasks_def ready_def aside_def queue_make_def)
  have "\<not> own_pending s i" for i using assms(2) by (auto simp: s own_pending_def queue_make_def)
  then have "agree needs {#} {#} [] s"
    using assms(2) by (auto simp: agree_def books_def answers_def waits_def t) (auto simp: s queue_make_def)
  moreover have "workers_ok s" using s(2) by (simp add: workers_ok_def s(1) worker_count_def queue_make_def)
  ultimately show ?thesis by (simp add: queue_inv_def h)
qed

lemma reach_inv: "reach quits needs s \<Longrightarrow> queue_inv needs s"
proof (induction rule: reach.induct)
  case (starts thread_count number last_id results s needs)
  then show ?case by (rule queue_inv_starts)
next
  case (works needs s t)
  then show ?case by (blast intro: queue_inv_worker)
next
  case (others needs s t)
  then show ?case by (blast intro: queue_inv_outside)
next
  case (submits needs s options task r t)
  have f: "worker_count t = worker_count s" "bl_activity t = bl_activity s" "workers_ok t"
    using accept_frame(1) [OF submits(4)] submits(5) by (auto simp: queue_inv_def workers_ok_def)
  show ?case
    using agree_submit [OF _ submits(2,3,4)] submits(5) f(3) unfolding queue_inv_def held_frame [OF f(1,2)] by blast
next
  case (enqueues needs s options task i t)
  have f: "worker_count t = worker_count s" "bl_activity t = bl_activity s" "workers_ok t"
    using accept_frame(2) [OF enqueues(4)] enqueues(5) by (auto simp: queue_inv_def workers_ok_def)
  show ?case
    using agree_enqueue [OF _ enqueues(2,3,4)] enqueues(5) f(3) unfolding queue_inv_def held_frame [OF f(1,2)] by blast
qed

end
