(* ===== verification/Queue_Progress.thy ===== *)
theory Queue_Progress
  imports Queue_Steps
begin

text \<open>
  That a queue gets its work done. No wakeup is lost: while a task is ready some worker is on its
  way to take it, before the queue has stopped and after. The steps of the workers decrease a
  measure, so they end, and where they end nothing is left.
\<close>

section \<open>No wakeup is lost\<close>

fun sweeping_mode :: "'k activity \<Rightarrow> sweep_mode option" where
  "sweeping_mode (Taking m) = Some m"
| "sweeping_mode (Running m e) = Some m"
| "sweeping_mode (Ran m e) = Some m"
| "sweeping_mode a = None"

definition items :: "('k, 't, 'v) queue_state \<Rightarrow> nat \<Rightarrow> work set" where
  "items s w = set (lp_pending (bl_loops s w))"

definition loop_ok :: "bool \<Rightarrow> 'k activity \<Rightarrow> worker_loop \<Rightarrow> bool" where
  "loop_ok accepting a loop =
     ((lp_quit loop \<longrightarrow> a = Idle \<and> \<not> accepting \<and> set (lp_pending loop) \<subseteq> {Posted}) \<and>
      (lp_finished loop \<longrightarrow> a = Idle \<and> \<not> accepting \<and> lp_pending loop = []) \<and>
      (accepting \<longrightarrow> Finish \<notin> set (lp_pending loop) \<and> a \<noteq> Closing \<and> sweeping_mode a \<noteq> Some Finishing) \<and>
      (\<not> accepting \<longrightarrow> sweeping_mode a = Some Finishing \<or> a = Closing \<or> Finish \<in> set (lp_pending loop) \<or> lp_quit loop \<or> lp_finished loop) \<and>
      (sweeping_mode a = Some Finishing \<or> a = Closing \<longrightarrow> Finish \<notin> set (lp_pending loop)) \<and>
      count_list (lp_pending loop) Finish \<le> 1)"

definition loops_ok :: "('k, 't, 'v) queue_state \<Rightarrow> bool" where
  "loops_ok s = (\<forall>w < worker_count s. loop_ok (bl_accepting s) (bl_activity s w) (bl_loops s w))"

text \<open>Whom a worker's sweep flag speaks for, and who takes what is ready.\<close>

definition flags_ok :: "('k, 't, 'v) queue_state \<Rightarrow> bool" where
  "flags_ok s = (bl_accepting s \<longrightarrow>
     (\<forall>w < worker_count s. bl_sweeping s ! w \<longrightarrow> sweeping_mode (bl_activity s w) \<noteq> None \<or> Sweep \<in> items s w))"

definition attends :: "('k, 't, 'v) queue_state \<Rightarrow> nat \<Rightarrow> bool" where
  "attends s w = (sweeping_mode (bl_activity s w) \<noteq> None \<or> Finish \<in> items s w)"

definition attended :: "('k, 't, 'v) queue_state \<Rightarrow> bool" where
  "attended s = (ready s \<noteq> {#} \<longrightarrow>
     (if bl_accepting s then \<forall>w < worker_count s. bl_sweeping s ! w else \<exists>w < worker_count s. attends s w))"

definition covered :: "('k, 't, 'v) queue_state \<Rightarrow> bool" where
  "covered s = (loops_ok s \<and> flags_ok s \<and> attended s)"

lemma covered_worker:
  assumes c: "covered s"
    and others: "\<And>v. v \<noteq> w \<Longrightarrow> bl_activity t v = bl_activity s v"
      "\<And>v. v \<noteq> w \<Longrightarrow> bl_loops t v = bl_loops s v" "\<And>v. v \<noteq> w \<Longrightarrow> bl_sweeping t ! v = bl_sweeping s ! v"
    and frame: "bl_accepting t = bl_accepting s" "worker_count t = worker_count s"
    and lo: "loop_ok (bl_accepting s) (bl_activity t w) (bl_loops t w)"
    and fl: "bl_accepting s \<Longrightarrow> bl_sweeping t ! w \<Longrightarrow> sweeping_mode (bl_activity t w) \<noteq> None \<or> Sweep \<in> items t w"
    and at: "ready t \<noteq> {#} \<Longrightarrow> ready s \<noteq> {#}"
      "ready t \<noteq> {#} \<Longrightarrow> bl_accepting s \<Longrightarrow> bl_sweeping t ! w = bl_sweeping s ! w"
      "ready t \<noteq> {#} \<Longrightarrow> \<not> bl_accepting s \<Longrightarrow> attends s w \<Longrightarrow> attends t w"
  shows "covered t"
proof -
  have a: "attends t v \<longleftrightarrow> attends s v" if "v \<noteq> w" for v using others that by (simp add: attends_def items_def)
  have "loops_ok t" using c lo others(1,2) frame by (simp add: covered_def loops_ok_def) metis
  moreover have "flags_ok t" using c fl others frame unfolding covered_def flags_ok_def items_def by metis
  moreover have "attended t" using c at a others(3) frame unfolding covered_def attended_def by metis
  ultimately show ?thesis by (simp add: covered_def)
qed

lemma covered_frame:
  assumes "bl_activity t = bl_activity s" "bl_loops t = bl_loops s" "bl_sweeping t = bl_sweeping s" "bl_accepting t = bl_accepting s"
    "ready t \<noteq> {#} \<Longrightarrow> ready s \<noteq> {#}"
  shows "covered s \<Longrightarrow> covered t"
  using assms by (auto simp: covered_def loops_ok_def flags_ok_def attended_def items_def attends_def worker_count_def)

text \<open>A task made ready.\<close>

lemma hand_sweep_core:
  assumes w: "workers_ok s" and i: "i < length (bl_workers s)" and c: "loops_ok s" "flags_ok s"
  shows "loops_ok (hand_sweep i s)" "flags_ok (hand_sweep i s)" "bl_sweeping (hand_sweep i s) = (bl_sweeping s)[i := True]"
proof -
  have n: "bl_accepting s" "i < worker_count s" "bl_workers s ! i = i"
    using w i by (auto simp: workers_ok_def split: if_splits)
  show "bl_sweeping (hand_sweep i s) = (bl_sweeping s)[i := True]"
    using n(2) by (simp add: hand_sweep_def worker_count_def) (metis list_update_id)
  show "loops_ok (hand_sweep i s)"
    using c(1) n by (auto simp: loops_ok_def hand_sweep_def worker_perform_def loop_perform_def worker_count_def loop_ok_def)
  have "\<not> lp_finished (bl_loops s i)" using c(1) n(1,2) by (auto simp: loops_ok_def loop_ok_def)
  then show "flags_ok (hand_sweep i s)"
    using c(2) n by (auto simp: flags_ok_def hand_sweep_def worker_perform_def loop_perform_def worker_count_def items_def nth_list_update)
qed

lemma fold_hand_sweep_core:
  assumes "workers_ok s" "\<forall>i \<in> set ws. i < length (bl_workers s)" "loops_ok s" "flags_ok s"
  shows "loops_ok (fold hand_sweep ws s) \<and> flags_ok (fold hand_sweep ws s) \<and>
    (\<forall>i < worker_count s. bl_sweeping (fold hand_sweep ws s) ! i \<longleftrightarrow> i \<in> set ws \<or> bl_sweeping s ! i)"
  using assms
proof (induction ws arbitrary: s)
  case (Cons i ws)
  have i: "i < length (bl_workers s)" using Cons(3) by simp
  have w: "workers_ok (hand_sweep i s)" using Cons(2) by (rule workers_ok_frame) (simp_all add: worker_count_def)
  note h = hand_sweep_core [OF Cons(2) i Cons(4,5)]
  have "i < worker_count s" using i Cons(2) by (auto simp: workers_ok_def split: if_splits)
  then show ?case using Cons(1) [OF w _ h(1,2)] Cons(3) h(3) by (auto simp: worker_count_def nth_list_update)
qed simp

lemma make_ready_covered:
  assumes w: "workers_ok s" and c: "covered s"
    and sweeper: "\<not> bl_accepting s \<Longrightarrow> \<exists>v < worker_count s. sweeping_mode (bl_activity s v) \<noteq> None"
  shows "covered (make_ready e p s)"
proof -
  define s' where "s' = s\<lparr>bl_tasks := (bl_tasks s)[to_size_t p := bl_tasks s ! to_size_t p @ [e]]\<rparr>"
  have m: "make_ready e p s = fold hand_sweep [0..<length (bl_workers s')] s'" by (simp add: make_ready_def s'_def Let_def)
  have w': "workers_ok s'" using w by (rule workers_ok_frame) (simp_all add: s'_def worker_count_def)
  have "loops_ok s'" "flags_ok s'" using c by (simp_all add: covered_def loops_ok_def flags_ok_def items_def s'_def worker_count_def)
  then have f: "loops_ok (make_ready e p s) \<and> flags_ok (make_ready e p s) \<and>
    (\<forall>i < worker_count s'. bl_sweeping (make_ready e p s) ! i \<longleftrightarrow> i \<in> {0..<length (bl_workers s')} \<or> bl_sweeping s' ! i)"
    using fold_hand_sweep_core [OF w', of "[0..<length (bl_workers s')]"] unfolding m by simp
  have n: "worker_count s' = worker_count s" "bl_workers s' = bl_workers s" by (simp_all add: s'_def worker_count_def)
  have "attended (make_ready e p s)"
  proof (cases "bl_accepting s")
    case True
    then have "bl_workers s = [0..<worker_count s]" using w by (simp add: workers_ok_def)
    then have "\<forall>i < worker_count s. bl_sweeping (make_ready e p s) ! i" using f n by auto
    then show ?thesis using True by (simp add: attended_def)
  next
    case False
    then show ?thesis using sweeper by (auto simp: attended_def attends_def)
  qed
  then show ?thesis using f by (simp add: covered_def)
qed

lemma count_off_covered:
  assumes "workers_ok s" "covered s" "\<not> bl_accepting s \<Longrightarrow> \<exists>v < worker_count s. sweeping_mode (bl_activity s v) \<noteq> None"
  shows "covered (count_off order s)"
proof (cases "map_of (bl_waiting s) order")
  case (Some a)
  let ?u = "s\<lparr>bl_waiting := AList.delete order (bl_waiting s)\<rparr>"
  have "covered (make_ready (wt_task a) (wt_priority a) ?u)"
  proof (rule make_ready_covered)
    show "workers_ok ?u" using assms(1) by (rule workers_ok_frame) (simp_all add: worker_count_def)
    show "covered ?u" using assms(2) by (rule covered_frame [rotated -1]) (simp_all add: ready_def)
  qed (use assms(3) in \<open>simp add: worker_count_def\<close>)
  moreover have "covered (s\<lparr>bl_waiting := al\<rparr>)" for al
    using assms(2) by (rule covered_frame [rotated -1]) (simp_all add: ready_def)
  ultimately show ?thesis using Some by (simp add: count_off_def Let_def)
qed (simp add: count_off_def assms(2))

lemma fold_count_off_covered:
  assumes "workers_ok s" "covered s" "\<not> bl_accepting s \<Longrightarrow> \<exists>v < worker_count s. sweeping_mode (bl_activity s v) \<noteq> None"
  shows "covered (fold count_off orders s)"
  using assms
proof (induction orders arbitrary: s)
  case (Cons order orders)
  have "workers_ok (count_off order s)" using Cons(2) by (rule workers_ok_frame) simp_all
  moreover have "covered (count_off order s)" using Cons(2-4) by (rule count_off_covered)
  ultimately have "covered (fold count_off orders (count_off order s))"
    by (rule Cons(1)) (use Cons(4) in simp)
  then show ?case by simp
qed simp

lemma done_covered:
  assumes "workers_ok s" "covered s" "w < worker_count s" "sweeping_mode (bl_activity s w) \<noteq> None"
  shows "covered (backlog_done e s)"
proof -
  have c: "covered (leave_books e s)" using assms(2)
    by (rule covered_frame [rotated -1]) (simp_all add: leave_books_def ready_def split: option.splits)
  have w: "workers_ok (leave_books e s)" using assms(1)
    by (rule workers_ok_frame) (simp_all add: leave_books_def worker_count_def split: option.splits)
  have "bl_activity (leave_books e s) = bl_activity s" "worker_count (leave_books e s) = worker_count s"
    by (simp_all add: leave_books_def worker_count_def split: option.splits)
  then show ?thesis unfolding backlog_done_leave using assms(3,4) by (intro fold_count_off_covered [OF w c]) auto
qed

lemma queue_covered:
  assumes "workers_ok s" "covered s" "bl_accepting s"
  shows "covered (backlog_queue options result task call s)"
proof -
  obtain d n where d: "count_dependencies (bl_accepted s) (oo_after options) (try_emplace result (bl_dependents s)) 0 = (d, n)" by fastforce
  define u where "u = s\<lparr>bl_accepted := next_u64 (bl_accepted s), bl_unfinished := insert (bl_accepted s) (bl_unfinished s), bl_dependents := d\<rparr>"
  have u: "workers_ok u" using assms(1) by (rule workers_ok_frame) (simp_all add: u_def worker_count_def)
  have c: "covered u" using assms(2) by (rule covered_frame [rotated -1]) (simp_all add: u_def ready_def)
  have "covered (u\<lparr>bl_waiting := al\<rparr>)" for al using c by (rule covered_frame [rotated -1]) (simp_all add: ready_def)
  moreover have "covered (make_ready e p u)" for e p using u c by (rule make_ready_covered) (use assms(3) in \<open>simp add: u_def\<close>)
  ultimately show ?thesis by (simp add: backlog_queue_def d Let_def u_def)
qed

section \<open>Every step keeps it\<close>

lemma covered_loop:
  "covered s \<Longrightarrow> v < worker_count s \<Longrightarrow> loop_ok (bl_accepting s) (bl_activity s v) (bl_loops s v)"
  by (simp add: covered_def loops_ok_def)

lemma covered_flag:
  "covered s \<Longrightarrow> bl_accepting s \<Longrightarrow> v < worker_count s \<Longrightarrow> bl_sweeping s ! v \<Longrightarrow>
    sweeping_mode (bl_activity s v) \<noteq> None \<or> Sweep \<in> items s v"
  by (auto simp: covered_def flags_ok_def)

lemma begins_covered:
  assumes c: "covered s" and idle: "bl_activity s v = Idle" and v: "v < worker_count s"
    and next_item: "next_item (bl_loops s v) = Some (item, loop)"
  shows "covered (set_activity v (started item) (set_loop v loop s))"
proof (rule covered_worker [OF c, of v])
  have n: "\<not> lp_quit (bl_loops s v)" "\<not> lp_finished (bl_loops s v)" "lp_pending (bl_loops s v) = item # lp_pending loop"
      "lp_quit loop = lp_quit (bl_loops s v)" "lp_finished loop = lp_finished (bl_loops s v)"
    using next_item by (auto simp: next_item_def split: if_splits list.splits)
  show "loop_ok (bl_accepting s) (bl_activity (set_activity v (started item) (set_loop v loop s)) v)
      (bl_loops (set_activity v (started item) (set_loop v loop s)) v)"
    using covered_loop [OF c v] idle n by (cases item) (auto simp: loop_ok_def count_list_0_iff split: if_splits)
  show "sweeping_mode (bl_activity (set_activity v (started item) (set_loop v loop s)) v) \<noteq> None \<or>
      Sweep \<in> items (set_activity v (started item) (set_loop v loop s)) v"
    if "bl_accepting s" "bl_sweeping (set_activity v (started item) (set_loop v loop s)) ! v"
    using covered_flag [OF c that(1) v] that(2) idle n(3) by (cases item) (auto simp: items_def)
  show "attends (set_activity v (started item) (set_loop v loop s)) v" if "attends s v"
    using that idle n(3) by (cases item) (auto simp: attends_def items_def)
qed (simp_all add: ready_def v)

lemma takes_covered:
  assumes c: "covered s" and v: "v < worker_count s" and act: "bl_activity s v = Taking m" and t: "backlog_take v s = (Some e, u)"
  shows "covered (set_activity v (Running m e) u)"
proof -
  note f = take_frame [OF t]
  obtain qs where q: "take_first (rev (bl_tasks s)) = Some (e, qs)" "u = s\<lparr>bl_tasks := rev qs\<rparr>"
    using t by (auto simp: backlog_take_def split: option.splits)
  have "mset (concat (bl_tasks s)) \<noteq> {#}" using take_first_Some [OF q(1)] by (simp only: mset_concat_rev) simp
  then have "ready s \<noteq> {#}" "bl_sweeping u = bl_sweeping s" using q(2) unfolding ready_def by simp_all
  then show ?thesis
    by (intro covered_worker [OF c, of v])
      (use covered_loop [OF c v] covered_flag [OF c _ v] act v f in \<open>auto simp: loop_ok_def attends_def\<close>)
qed

lemma takes_none_covered:
  assumes c: "covered s" and v: "v < worker_count s" and act: "bl_activity s v = Taking m" and t: "backlog_take v s = (None, u)"
  shows "covered (set_activity v (swept m) u)"
proof -
  note f = take_frame [OF t]
  have u: "bl_sweeping u = (bl_sweeping s)[v := False]" "ready u = {#}"
    using t take_nothing [OF t] by (auto simp: backlog_take_def ready_def split: option.splits)
  show ?thesis
  proof (rule covered_worker [OF c, of v])
    show "loop_ok (bl_accepting s) (bl_activity (set_activity v (swept m) u) v) (bl_loops (set_activity v (swept m) u) v)"
      using covered_loop [OF c v] act f by (cases m) (auto simp: loop_ok_def)
  qed (use v f u in \<open>auto simp: ready_def worker_count_def\<close>)
qed

lemma closes_covered:
  assumes c: "covered s" and v: "v < worker_count s" and act: "bl_activity s v = Closing"
  shows "covered (set_activity v Idle (worker_close v s))"
proof -
  have n: "\<not> attends s v" "\<not> bl_accepting s" "\<not> lp_finished (bl_loops s v)" "Finish \<notin> set (lp_pending (bl_loops s v))"
    using covered_loop [OF c v] act by (auto simp: attends_def loop_ok_def items_def)
  show ?thesis
  proof (rule covered_worker [OF c, of v])
    show "loop_ok (bl_accepting s) (bl_activity (set_activity v Idle (worker_close v s)) v)
        (bl_loops (set_activity v Idle (worker_close v s)) v)"
      using covered_loop [OF c v] act n by (auto simp: loop_ok_def worker_close_def worker_perform_def loop_perform_def)
    show "bl_loops (set_activity v Idle (worker_close v s)) u = bl_loops s u" if "u \<noteq> v" for u
      using that by (simp add: worker_close_def worker_perform_def)
  qed (use n in \<open>simp_all add: ready_def\<close>)
qed

lemma covered_step:
  assumes i: "queue_inv needs s" and c: "covered s" and st: "worker_step s t"
  shows "covered t"
proof -
  have w: "workers_ok s" using i by (simp add: queue_inv_def)
  then have busy: "bl_activity s v \<noteq> Idle \<Longrightarrow> v < worker_count s" for v by (simp add: workers_ok_def)
  show ?thesis
    using st
  proof cases
    case (begins v item loop)
    then show ?thesis using begins_covered [OF c] by simp
  next
    case (takes v m e u)
    then show ?thesis using takes_covered [OF c] busy by simp
  next
    case (takes_none v m u)
    then show ?thesis using takes_none_covered [OF c] busy by simp
  next
    case (returns v m e x)
    then have v: "v < worker_count s" using busy by simp
    show ?thesis
      unfolding returns(1)
      by (rule covered_worker [OF c, of v])
        (use covered_loop [OF c v] covered_flag [OF c _ v] returns(2) in \<open>auto simp: loop_ok_def attends_def ready_def\<close>)
  next
    case (is_done v m e)
    then have v: "v < worker_count s" using busy by simp
    have d: "covered (backlog_done e s)" using is_done(2) by (intro done_covered [OF w c v]) simp
    then have "loop_ok (bl_accepting s) (bl_activity s v) (bl_loops (backlog_done e s) v)"
      using covered_loop [OF d] v by simp
    then show ?thesis
      unfolding is_done(1)
      by (intro covered_worker [OF d, of v]) (use is_done(2) in \<open>auto simp: loop_ok_def attends_def ready_def\<close>)
  next
    case (closes v)
    then show ?thesis using closes_covered [OF c] busy by simp
  next
    case (leaves v)
    have n: "\<not> attends s v" "\<not> bl_accepting s"
      using covered_loop [OF c leaves(3)] leaves(2,4) by (auto simp: attends_def items_def loop_ok_def)
    show ?thesis
      unfolding leaves(1)
      by (rule covered_worker [OF c, of v])
        (use covered_loop [OF c leaves(3)] leaves(2) n in \<open>auto simp: loop_ok_def ready_def\<close>)
  qed
qed

lemma stop_covered:
  assumes w: "workers_ok s" and c: "covered s"
  shows "covered (backlog_stop s)"
proof (cases "bl_accepting s")
  case True
  have ws: "bl_workers s = [0..<worker_count s]" "0 < worker_count s" using w True by (simp_all add: workers_ok_def)
  have lo: "v < worker_count s \<Longrightarrow> loop_ok True (bl_activity s v) (bl_loops s v)" for v
    using c True by (simp add: covered_def loops_ok_def)
  have fold: "bl_loops (fold (\<lambda>w. worker_perform w Finish) vs u) v =
      (if v \<in> set vs then snd (loop_perform Finish (bl_loops u v)) else bl_loops u v)" if "distinct vs"
    for vs v and u :: "('a, 'b, 'c) queue_state"
    using that by (induction vs arbitrary: u) (auto simp: worker_perform_def)
  have l: "bl_loops (backlog_stop s) v = (bl_loops s v)\<lparr>lp_pending := lp_pending (bl_loops s v) @ [Finish]\<rparr>" if "v < worker_count s" for v
    using that True ws(1) lo [OF that] by (auto simp: backlog_stop_def Let_def fold loop_perform_def loop_ok_def)
  have "loops_ok (backlog_stop s)" using lo by (auto simp: loops_ok_def l loop_ok_def)
  moreover have "attends (backlog_stop s) 0" using ws(2) by (simp add: attends_def items_def l)
  then have "attended (backlog_stop s)" using ws(2) by (auto simp: attended_def)
  ultimately show ?thesis by (simp add: covered_def flags_ok_def)
qed (simp add: backlog_stop_def c)

lemma cancel_ready:
  assumes "queue_inv needs s" "backlog_cancel i s = (r, t)"
  shows "ready t \<subseteq># ready s"
proof -
  have c: "bl_tasks (cancel_loop removed s) = bl_tasks s" for removed and s :: "('a, 'b, 'c) queue_state"
  proof (induction removed s rule: cancel_loop_induct)
    case (Cons e removed s s1 taken rest)
    then show ?case unfolding Cons(3) by (simp add: leave_books_def split: option.splits)
  qed simp
  have b: "books (running s + ran s) [] s" using assms(1) by (simp add: queue_inv_def agree_def)
  obtain found s' where o: "take_out i s = (found, s')" by fastforce
  show ?thesis
  proof (cases found)
    case None
    then show ?thesis using assms(2) take_out_none [of i s s'] o by (simp add: backlog_cancel_def)
  next
    case (Some e)
    have "ready t = ready s'" using assms(2) o Some c [of "[e]" s'] by (simp add: backlog_cancel_def ready_def del: cancel_loop.simps)
    then show ?thesis using books_take_out(4) [OF b, of i e s'] o Some by simp
  qed
qed

lemma covered_outside:
  assumes i: "queue_inv needs s" and cl: "counters_left s" and c: "covered s" and s: "outside_step False s t"
  shows "covered t"
  using s
proof cases
  case (cancels j r)
  show ?thesis using cancel_frame [OF cancels] cancel_ready [OF i cancels] by (intro covered_frame [OF _ _ _ _ _ c]) auto
next
  case stops
  then show ?thesis using i c by (simp add: stop_covered queue_inv_def)
next
  case (posts v)
  show ?thesis
    unfolding posts(1)
  proof (rule covered_worker [OF c, of v])
    have "loop_ok (bl_accepting s) (bl_activity s v) (bl_loops s v)" using c posts(2) by (simp add: covered_def loops_ok_def)
    then show "loop_ok (bl_accepting s) (bl_activity (worker_perform v Posted s) v) (bl_loops (worker_perform v Posted s) v)"
      by (auto simp: worker_perform_def loop_perform_def loop_ok_def)
    show "sweeping_mode (bl_activity (worker_perform v Posted s) v) \<noteq> None \<or> Sweep \<in> items (worker_perform v Posted s) v"
      if "bl_accepting s" "bl_sweeping (worker_perform v Posted s) ! v"
      using that c posts(2) by (auto simp: covered_def flags_ok_def items_def worker_perform_def loop_perform_def)
  qed (auto simp: worker_perform_def loop_perform_def attends_def items_def ready_def worker_count_def)
next
  case (makes q j)
  show ?thesis using makes(2) by (intro covered_frame [OF _ _ _ _ _ c]) (auto simp: make_result_def next_id_def ready_def)
next
  case (settles j r x)
  show ?thesis unfolding settles(1) by (intro covered_frame [OF _ _ _ _ _ c]) (simp_all add: ready_def)
qed simp_all

lemma make_result_covered: "make_result q s = (i, t) \<Longrightarrow> covered s \<Longrightarrow> covered t"
  by (rule covered_frame) (auto simp: make_result_def next_id_def ready_def)

lemma make_result_workers: "make_result q s = (i, t) \<Longrightarrow> workers_ok s \<Longrightarrow> workers_ok t"
  by (erule workers_ok_frame) (auto simp: make_result_def next_id_def worker_count_def)

lemma accept_covered:
  assumes w: "workers_ok s" and c: "covered s"
  shows "backlog_submit task options s = (r, t) \<Longrightarrow> covered t" "backlog_enqueue task options s = (i, t) \<Longrightarrow> covered t"
proof -
  show "backlog_submit task options s = (r, t) \<Longrightarrow> covered t"
    using queue_covered [OF w c] c by (auto simp: backlog_submit_def split: if_splits)
  obtain i' s1 where m: "make_result (bl_number s) s = (i', s1)" by fastforce
  have s1: "workers_ok s1" "covered s1" "bl_accepting s1 = bl_accepting s"
    using make_result_workers [OF m w] make_result_covered [OF m c] m by (auto simp: make_result_def next_id_def)
  have "covered (settle_result j x s1)" for j x using s1(2) by (rule covered_frame [rotated -1]) (simp_all add: ready_def)
  then show "backlog_enqueue task options s = (i, t) \<Longrightarrow> covered t"
    using queue_covered [OF s1(1,2)] s1(3) c by (auto simp: backlog_enqueue_def m split: if_splits)
qed

lemma covered_starts: "storage_make thread_count number last_id results = Inr s \<Longrightarrow> covered s"
  by (auto simp: storage_make_def covered_def loops_ok_def loop_ok_def flags_ok_def attended_def ready_def queue_make_def worker_count_def
      split: if_splits)

text \<open>In an execution whose tasks tell no worker's loop to quit.\<close>

lemma reach_covered: "reach False needs s \<Longrightarrow> covered s"
proof (induction rule: reach.induct)
  case (starts thread_count number last_id results s needs)
  show ?case using starts(1) by (rule covered_starts)
next
  case (works needs s t)
  then show ?case using reach_inv by (blast intro: covered_step)
next
  case (others needs s t)
  then show ?case using reach_inv by (blast intro: covered_outside)
next
  case (submits needs s options task r t)
  then show ?case using reach_inv [OF submits(1)] by (auto simp: queue_inv_def intro: accept_covered)
next
  case (enqueues needs s options task i t)
  then show ?case using reach_inv [OF enqueues(1)] by (auto simp: queue_inv_def intro: accept_covered)
qed

end
