(* ===== verification/Queue_Laws.thy ===== *)
theory Queue_Laws
  imports Queue_Steps
begin

text \<open>
  What a queue promises, in every state its executions reach: every accepted task is in one place
  until it has finished, it starts only after everything it runs after, tasks are taken in the order
  of their priorities, and cancelling takes exactly the task named and those that follow it.
\<close>

section \<open>Every task is somewhere\<close>

lemma reach_books: "reach quits needs s \<Longrightarrow> books (running s + ran s) [] s"
  and reach_answers: "reach quits needs s \<Longrightarrow> answers {} (running s) (ran s) s"
  and reach_waits: "reach quits needs s \<Longrightarrow> waits needs (running s + ran s) s"
  by (simp_all add: reach_inv [unfolded queue_inv_def agree_def])

text \<open>C26: In every state an execution of a queue reaches, the tasks that are ready, that wait for
  others, that run and that have run are exactly the unfinished ones, each counted once, under the
  orders they were accepted in; the queue's results are pending exactly as long as their task is
  ready, waits or runs; and what a waiting task still counts is what the unfinished results will
  count off it, and never nothing.\<close>

theorem queue_accounts_for_tasks:
  assumes "reach quits needs s"
  shows "image_mset en_order (ready s + aside s + running s + ran s) = mset_set (bl_unfinished s) \<and>
    finite (bl_unfinished s) \<and> bl_unfinished s \<subseteq> {..<bl_accepted s} \<and>
    (\<forall>i. own_pending s i \<longleftrightarrow> (\<exists>e. e \<in># ready s + aside s + running s \<and> en_result e = Some i)) \<and>
    (\<forall>order a. map_of (bl_waiting s) order = Some a \<longrightarrow>
      wt_remaining a = owed (bl_dependents s) order \<and> 0 < wt_remaining a)"
proof -
  note b = reach_books [OF assms] and a = reach_answers [OF assms]
  have "\<exists>e. e \<in># ready s + aside s + running s \<and> en_result e = Some i" if p: "own_pending s i" for i
  proof -
    obtain e where e: "e \<in># tasks (running s + ran s) s" "en_result e = Some i"
      using answersD(4) [OF a p] books_has_result [OF b] by auto
    moreover have "e \<notin># ran s" using answersD(3) [OF a _ e(2)] p by (auto simp: own_pending_def returned_def)
    ultimately show ?thesis by (auto simp: tasks_def)
  qed
  then have "own_pending s i \<longleftrightarrow> (\<exists>e. e \<in># ready s + aside s + running s \<and> en_result e = Some i)" for i
    using answersD(2) [OF a, of _ i] by (auto simp: tasks_def)
  moreover have "bl_unfinished s \<subseteq> {..<bl_accepted s}" using booksD(6) [OF b] by auto
  moreover have "wt_remaining w = owed (bl_dependents s) order \<and> 0 < wt_remaining w"
    if "map_of (bl_waiting s) order = Some w" for order w
    using books_waiting [OF b that] by (simp add: waiting_ok_def)
  moreover have "image_mset en_order (ready s + aside s + running s + ran s) = mset_set (bl_unfinished s)"
    using booksD(4) [OF b] by (simp only: tasks_def add.assoc)
  ultimately show ?thesis using booksD(2) [OF b] by blast
qed

text \<open>An execution with one worker: a task is accepted, another to run after it is, and the worker
  takes the first, runs it, and is done with it.\<close>

abbreviation first_task :: "nat entry" where
  "first_task \<equiv> \<lparr>en_order = 0, en_result = Some 1, en_task = None, en_call = Some 7\<rparr>"

abbreviation second_task :: "nat entry" where
  "second_task \<equiv> \<lparr>en_order = 1, en_result = Some 2, en_task = None, en_call = Some 8\<rparr>"

definition example_0 :: "(nat, nat, nat) queue_state" where
  "example_0 = queue_make 1 1 0 Map.empty"

definition example_1 :: "(nat, nat, nat) queue_state" where
  "example_1 = snd (backlog_enqueue 7 \<lparr>oo_priority = 1, oo_after = []\<rparr> example_0)"

definition example_2 :: "(nat, nat, nat) queue_state" where
  "example_2 = snd (backlog_enqueue 8 \<lparr>oo_priority = 2, oo_after = [1]\<rparr> example_1)"

lemmas example_simps = queue_make_def backlog_enqueue_def make_result_def next_id_def next_u64_def names_a_priority_def to_size_t_def
  all_from_here_def any_cancelled_def backlog_queue_def try_emplace_def make_ready_def hand_sweep_def worker_perform_def
  loop_perform_def result_make_def result_is_cancelled_def result_held_def

lemma example_1: "example_1 =
  \<lparr>bl_number = 1, bl_tasks = [[], [first_task], []], bl_accepted = 1, bl_unfinished = {0}, bl_dependents = [1 \<mapsto> []],
   bl_waiting = [], bl_workers = [0], bl_sweeping = [True], bl_accepting = True, bl_results = [1 \<mapsto> result_make 1 1], bl_last_id = 1,
   bl_loops = (\<lambda>w. \<lparr>lp_pending = [], lp_quit = False, lp_finished = False\<rparr>)(0 := \<lparr>lp_pending = [Sweep], lp_quit = False, lp_finished = False\<rparr>),
   bl_activity = \<lambda>w. Idle\<rparr>"
  by (simp add: example_1_def example_0_def example_simps)

lemma example_2: "example_2 =
  \<lparr>bl_number = 1, bl_tasks = [[], [first_task], []], bl_accepted = 2, bl_unfinished = {1, 0}, bl_dependents = [1 \<mapsto> [1], 2 \<mapsto> []],
   bl_waiting = [(1, \<lparr>wt_task = second_task, wt_priority = 2, wt_remaining = 1\<rparr>)], bl_workers = [0], bl_sweeping = [True], bl_accepting = True,
   bl_results = [1 \<mapsto> result_make 1 1, 2 \<mapsto> result_make 2 1], bl_last_id = 2,
   bl_loops = (\<lambda>w. \<lparr>lp_pending = [], lp_quit = False, lp_finished = False\<rparr>)(0 := \<lparr>lp_pending = [Sweep], lp_quit = False, lp_finished = False\<rparr>),
   bl_activity = \<lambda>w. Idle\<rparr>"
  by (simp add: example_2_def example_1 example_simps fun_eq_iff)

definition example_needs :: "nat \<Rightarrow> nat list" where
  "example_needs = (\<lambda>_. [])(0 := [], 1 := [1])"

lemma example_reach: "reach quits example_needs example_2"
proof -
  have s: "reach quits (\<lambda>_. []) example_0"
    by (rule reach.starts [of 1 1 0 Map.empty]) (simp_all add: storage_make_def example_0_def)
  have "reach quits ((\<lambda>_. [])(bl_accepted example_0 := [])) example_1"
    using reach.enqueues [OF s, of "\<lparr>oo_priority = 1, oo_after = []\<rparr>" 7 "fst (backlog_enqueue 7 \<lparr>oo_priority = 1, oo_after = []\<rparr> example_0)" example_1]
    by (simp add: example_1_def) (simp add: counters_left_def options_ok_def example_0_def queue_make_def)
  then have "reach quits ((\<lambda>_. [])(0 := [])) example_1" by (simp add: example_0_def queue_make_def)
  from reach.enqueues [OF this, of "\<lparr>oo_priority = 2, oo_after = [1]\<rparr>" 8 "fst (backlog_enqueue 8 \<lparr>oo_priority = 2, oo_after = [1]\<rparr> example_1)" example_2]
  have "reach quits (((\<lambda>_. [])(0 := []))(bl_accepted example_1 := [1])) example_2"
    by (simp add: example_2_def) (simp add: counters_left_def options_ok_def example_1)
  then show ?thesis by (simp add: example_needs_def example_1)
qed

lemma queue_accounts_for_tasks_witness: "image_mset en_order (ready example_2 + aside example_2 + running example_2 + ran example_2) = {#0, 1#}"
proof -
  have "bl_unfinished example_2 = {1, 0}" by (simp add: example_2)
  then show ?thesis using queue_accounts_for_tasks [OF example_reach] by (simp add: add_mset_commute)
qed

text \<open>C31: A task starts only once every result it was given to run after has returned: what is
  ready, runs or has run in a state that is reached runs after nothing that has not returned, and
  a task that waits for a result that has not returned will be counted off when it does.\<close>

theorem queue_runs_after:
  assumes "reach quits needs s" "before \<in> set (needs (en_order e))"
  shows "(e \<in># ready s + running s + ran s \<longrightarrow> returned s before) \<and>
    (e \<in># aside s \<and> \<not> returned s before \<longrightarrow>
      (\<exists>later. bl_dependents s before = Some later \<and> en_order e \<in> set later))"
proof -
  note b = reach_books [OF assms(1)] and w = reach_waits [OF assms(1)]
  have "\<exists>later. bl_dependents s before = Some later \<and> en_order e \<in> set later" if e: "e \<in># aside s" and r: "\<not> returned s before"
  proof -
    obtain order a where o: "(order, a) \<in> set (bl_waiting s)" "e = wt_task a" using e by (auto simp: aside_def)
    then have m: "map_of (bl_waiting s) order = Some a" using booksD(7) [OF b] by simp
    then have "en_order e = order" using books_waiting [OF b m] o(2) by (simp add: waiting_ok_def)
    then show ?thesis using waitsD(1) [OF w m] assms(2) r by blast
  qed
  then show ?thesis using waitsD(2) [OF w _ assms(2)] by auto
qed

abbreviation "example_begun \<equiv>
  set_activity 0 (Taking Sweeping) (set_loop 0 \<lparr>lp_pending = [], lp_quit = False, lp_finished = False\<rparr> example_2)"

abbreviation "example_taken \<equiv> set_activity 0 (Running Sweeping first_task) (example_begun\<lparr>bl_tasks := [[], [], []]\<rparr>)"

abbreviation "example_ran \<equiv> set_activity 0 (Ran Sweeping first_task) (entry_run first_task (Some (3, 4)) example_taken)"

definition example_3 :: "(nat, nat, nat) queue_state" where
  "example_3 = set_activity 0 (Taking Sweeping) (backlog_done first_task example_ran)"

lemma example_3_reach: "reach quits example_needs example_3"
proof -
  have "worker_step example_2 example_begun"
    using begins [of example_2 0 Sweep] by (simp add: example_2 worker_count_def next_item_def)
  moreover have "worker_step example_begun example_taken"
    by (rule takes) (simp_all add: example_2 backlog_take_def set_activity_def set_loop_def)
  moreover have "worker_step example_taken example_ran" by (rule returns) simp
  moreover have "worker_step example_ran example_3" unfolding example_3_def by (rule is_done) simp
  ultimately show ?thesis using example_reach reach.works by meson
qed

lemma queue_runs_after_witness: "second_task \<in># ready example_3 \<and> returned example_3 1"
proof -
  have "bl_tasks example_3 = [[], [], [second_task]]"
    by (simp add: example_3_def backlog_done_def take_dependent_orders_def count_off_def count_down_def entry_run_def
        settle_result_def set_activity_def set_loop_def example_2 make_ready_def to_size_t_def hand_sweep_def)
  then have "second_task \<in># ready example_3" by (simp add: ready_def)
  moreover have "1 \<in> set (example_needs (en_order second_task))" by (simp add: example_needs_def)
  ultimately show ?thesis using queue_runs_after [OF example_3_reach, of 1 second_task] by simp
qed

section \<open>The order tasks are taken in\<close>

lemma take_first_position:
  "take_first qs = Some (e, qs') \<Longrightarrow>
    \<exists>p < length qs. \<exists>rest. qs ! p = e # rest \<and> (\<forall>q < p. qs ! q = []) \<and> qs' = qs[p := rest]"
proof (induction qs arbitrary: qs' rule: take_first.induct)
  case (2 qs)
  then obtain r where r: "take_first qs = Some (e, r)" "qs' = [] # r" by auto
  then obtain p rest where "p < length qs" "qs ! p = e # rest" "\<forall>q < p. qs ! q = []" "r = qs[p := rest]"
    using 2(1) by blast
  then show ?case using r(2) by (intro exI [of _ "Suc p"]) (auto simp: less_Suc_eq_0_disj)
qed auto

text \<open>C34: A worker takes the first task of the highest priority that has one: the list it takes from
  holds the task at its front and loses only that, every list of a higher priority is empty, and
  nothing else of the queue changes. It takes none exactly when every list is empty, and then its
  sweep is cleared, so the next task hands it another.\<close>

theorem take_highest_priority:
  shows "case backlog_take w s of
    (Some e, t) \<Rightarrow> \<exists>p < length (bl_tasks s). \<exists>rest. bl_tasks s ! p = e # rest \<and>
      (\<forall>q. p < q \<and> q < length (bl_tasks s) \<longrightarrow> bl_tasks s ! q = []) \<and> t = s\<lparr>bl_tasks := (bl_tasks s)[p := rest]\<rparr>
  | (None, t) \<Rightarrow> ready s = {#} \<and> t = s\<lparr>bl_sweeping := (bl_sweeping s)[w := False]\<rparr>"
proof (cases "take_first (rev (bl_tasks s))")
  case None
  then show ?thesis using take_nothing [of w s] by (simp add: backlog_take_def)
next
  case (Some r)
  let ?n = "length (bl_tasks s)"
  obtain e qs where r: "r = (e, qs)" by fastforce
  obtain k rest where k: "k < ?n" "rev (bl_tasks s) ! k = e # rest" "\<forall>j < k. rev (bl_tasks s) ! j = []"
      "qs = (rev (bl_tasks s))[k := rest]"
    using take_first_position [of "rev (bl_tasks s)" e qs] Some r by auto
  have high: "bl_tasks s ! q = []" if "?n - 1 - k < q" "q < ?n" for q
  proof -
    have "rev (bl_tasks s) ! (?n - 1 - q) = []" using k(1,3) that by auto
    then show ?thesis using that by (simp add: rev_nth)
  qed
  have "rev qs = (bl_tasks s)[?n - 1 - k := rest]" using k(1,4) by (simp add: rev_update)
  then show ?thesis
    using k(1,2) high Some r by (auto simp: backlog_take_def rev_nth intro!: exI [of _ "?n - 1 - k"] exI [of _ rest])
qed

lemma take_highest_priority_witness: "\<exists>t. backlog_take 0 example_2 = (Some first_task, t) \<and> bl_tasks t = [[], [], []]"
proof (cases "backlog_take 0 example_2")
  case (Pair r t)
  note law = take_highest_priority [where w = 0 and s = example_2, unfolded Pair prod.case]
  have tasks: "bl_tasks example_2 = [[], [first_task], []]" by (simp add: example_2)
  have "ready example_2 \<noteq> {#}" by (simp add: ready_def tasks)
  then obtain e where r: "r = Some e" using law by (cases r) simp_all
  obtain p rest where p: "p < length (bl_tasks example_2)" "bl_tasks example_2 ! p = e # rest"
      "t = example_2\<lparr>bl_tasks := (bl_tasks example_2)[p := rest]\<rparr>"
    using law unfolding r option.case by blast
  have "p = 1" using p(1,2) by (auto simp: tasks less_Suc_eq)
  moreover have "bl_tasks t = (bl_tasks example_2)[p := rest]" by (simp add: p(3))
  ultimately have "e = first_task" "bl_tasks t = [[], [], []]" using p(2) by (simp_all add: tasks)
  then show ?thesis using r Pair by blast
qed

section \<open>Waiting for the tasks\<close>

text \<open>The tasks accepted before an order have finished when none of them is ready, waits, runs or has yet to
  be counted as done.\<close>

definition finished_before :: "nat \<Rightarrow> ('k, 't, 'v) queue_state \<Rightarrow> bool" where
  "finished_before target s = (\<forall>e. e \<in># ready s + aside s + running s + ran s \<longrightarrow> target \<le> en_order e)"

lemma settled_finished: "reach quits needs s \<Longrightarrow> settled target s \<longleftrightarrow> finished_before target s"
proof -
  assume r: "reach quits needs s"
  note b = reach_books [OF r]
  have orders: "en_order ` set_mset (ready s + aside s + running s + ran s) = bl_unfinished s"
    using books_orders [OF b] by (simp only: tasks_def add.assoc)
  have "settled target s \<longleftrightarrow> (\<forall>order \<in> bl_unfinished s. target \<le> order)"
    using booksD(2) [OF b] by (cases "bl_unfinished s = {}") (simp_all add: settled_def Min_ge_iff)
  then show ?thesis unfolding orders [symmetric] finished_before_def by blast
qed

lemma finished_settles:
  assumes "reach quits needs s" "finished_before target s" "own_pending s i"
  shows "\<exists>e. e \<in># ready s + aside s + running s \<and> en_result e = Some i \<and> target \<le> en_order e"
proof -
  note b = reach_books [OF assms(1)]
  obtain e where e: "e \<in># tasks (running s + ran s) s" "en_result e = Some i"
    using answersD(4) [OF reach_answers [OF assms(1)] assms(3)] books_has_result [OF b] by auto
  moreover have "e \<notin># ran s"
    using answersD(3) [OF reach_answers [OF assms(1)] _ e(2)] assms(3) by (auto simp: own_pending_def returned_def)
  moreover have "target \<le> en_order e" using assms(2) e(1) by (auto simp: finished_before_def tasks_def)
  ultimately show ?thesis by (auto simp: tasks_def)
qed

lemma reach_accepted: "reach quits needs s \<Longrightarrow> e \<in># ready s + aside s + running s + ran s \<Longrightarrow> en_order e < bl_accepted s"
  using booksD(4) [OF reach_books] booksD(2) [OF reach_books] booksD(6) [OF reach_books] books_unfinished [OF reach_books]
  by (metis add.assoc tasks_def)

text \<open>C35: \<open>wait_for\<close> waits for the tasks accepted before the call, which are all the queue holds then. Called
  from a worker, or with no time to wait, it answers at once whether they have all finished. Otherwise, whatever
  states of the queue the rounds of the wait see, it returns at the first at which they have finished or the
  deadline has come, if there is one, and answers whether they have: so true only once they have, and false only
  once the time has reached the deadline. When they have finished, no result is pending but those of tasks
  accepted since.\<close>

theorem settled_means_finished:
  fixes world :: "nat \<Rightarrow> ('k, 't, 'v) queue_state \<times> time_point" and timeout start on_a_worker
  defines "target \<equiv> bl_accepted (fst (world 0))" and "deadline \<equiv> deadline_after start timeout"
    and "answer \<equiv> storage_wait_for on_a_worker (fst (world 0)) timeout start world"
  assumes reached: "\<And>n. \<exists>needs. reach quits needs (fst (world n))"
  shows "(\<forall>e. e \<in># ready (fst (world 0)) + aside (fst (world 0)) + running (fst (world 0)) + ran (fst (world 0)) \<longrightarrow>
      en_order e < target) \<and>
    (on_a_worker \<or> timeout \<le> 0 \<longrightarrow> answer = Some (finished_before target (fst (world 0)))) \<and>
    (\<not> on_a_worker \<and> 0 < timeout \<and> (finished_before target (fst (world k)) \<or> deadline \<le> snd (world k)) \<longrightarrow>
      (\<exists>m. answer = Some (finished_before target (fst (world m))) \<and>
        (finished_before target (fst (world m)) \<or> deadline \<le> snd (world m)) \<and>
        (\<forall>j < m. \<not> finished_before target (fst (world j)) \<and> snd (world j) < deadline))) \<and>
    (finished_before target (fst (world n)) \<and> own_pending (fst (world n)) i \<longrightarrow>
      (\<exists>e. e \<in># ready (fst (world n)) + aside (fst (world n)) + running (fst (world n)) \<and> en_result e = Some i \<and> target \<le> en_order e))"
proof (intro conjI impI)
  show "\<forall>e. e \<in># ready (fst (world 0)) + aside (fst (world 0)) + running (fst (world 0)) + ran (fst (world 0)) \<longrightarrow> en_order e < target"
    using reached [of 0] reach_accepted unfolding target_def by blast
  have iff: "settled target (fst (world n)) \<longleftrightarrow> finished_before target (fst (world n))" for n
    using reached [of n] settled_finished by blast
  have ans: "answer = timed_wait (settled target) (\<not> on_a_worker) timeout start world"
    by (simp add: answer_def storage_wait_for_def backlog_wait_for_def target_def)
  show "on_a_worker \<or> timeout \<le> 0 \<Longrightarrow> answer = Some (finished_before target (fst (world 0)))"
    using iff by (auto simp: ans timed_wait_def)
  show "\<exists>m. answer = Some (finished_before target (fst (world m))) \<and>
      (finished_before target (fst (world m)) \<or> deadline \<le> snd (world m)) \<and>
      (\<forall>j < m. \<not> finished_before target (fst (world j)) \<and> snd (world j) < deadline)"
    if "\<not> on_a_worker \<and> 0 < timeout \<and> (finished_before target (fst (world k)) \<or> deadline \<le> snd (world k))"
    using timed_wait_returns [of timeout "settled target" start "world" k] that iff
    by (auto simp: ans wait_over_def deadline_def not_le)
  show "\<exists>e. e \<in># ready (fst (world n)) + aside (fst (world n)) + running (fst (world n)) \<and> en_result e = Some i \<and> target \<le> en_order e"
    if "finished_before target (fst (world n)) \<and> own_pending (fst (world n)) i"
    using reached [of n] finished_settles that by blast
qed

lemma settled_means_finished_witness:
  "storage_wait_for False example_2 1 0 (\<lambda>n. (example_2, int n * 600000)) = Some False"
proof -
  let ?world = "\<lambda>n. (example_2, int n * 600000)"
  have "\<not> finished_before (bl_accepted example_2) example_2"
    unfolding settled_finished [OF example_reach, symmetric] by (simp add: settled_def example_2)
  moreover have "deadline_after 0 1 \<le> snd (?world 2)"
    by (simp add: deadline_after_def tdiv_def deadline_limit_def kMaxDeadline_def ns_per_millisecond_def)
  moreover have "\<exists>needs. reach True needs (fst (?world n))" for n using example_reach [of True] by auto
  ultimately show ?thesis
    using settled_means_finished [where world = ?world and quits = True and k = 2 and start = 0 and timeout = 1 and on_a_worker = False]
    by auto
qed

section \<open>Cancelling\<close>

text \<open>A task follows another when it waits for the other's result.\<close>

definition follows :: "('k, 't, 'v) queue_state \<Rightarrow> 'k entry \<Rightarrow> 'k entry \<Rightarrow> bool" where
  "follows s e e' = (e' \<in># aside s \<and>
     (\<exists>i later. en_result e = Some i \<and> bl_dependents s i = Some later \<and> en_order e' \<in> set later))"

definition followers :: "('k, 't, 'v) queue_state \<Rightarrow> 'k entry set \<Rightarrow> 'k entry set" where
  "followers s E = {e'. \<exists>e \<in> E. (follows s)\<^sup>*\<^sup>* e e'}"

lemma followers_base: "E \<subseteq> followers s E"
  by (auto simp: followers_def)

lemma followers_step: "e \<in> followers s E \<Longrightarrow> follows s e e' \<Longrightarrow> e' \<in> followers s E"
  by (auto simp: followers_def intro: rtranclp.rtrancl_into_rtrancl)

lemma followers_aside: "e' \<in> followers s E \<Longrightarrow> e' \<in> E \<or> e' \<in># aside s"
proof -
  assume "e' \<in> followers s E"
  then obtain e where e: "e \<in> E" "(follows s)\<^sup>*\<^sup>* e e'" by (auto simp: followers_def)
  show ?thesis using e(2) by (cases rule: rtranclp.cases) (use e(1) in \<open>auto simp: follows_def\<close>)
qed

lemma followers_least:
  assumes "E \<subseteq> F" "\<And>e e'. e \<in> F \<Longrightarrow> follows s e e' \<Longrightarrow> e' \<in> F"
  shows "followers s E \<subseteq> F"
proof
  fix e' assume "e' \<in> followers s E"
  then obtain e where e: "e \<in> E" "(follows s)\<^sup>*\<^sup>* e e'" by (auto simp: followers_def)
  show "e' \<in> F" using e(2) by (induction rule: rtranclp_induct) (use e(1) assms in auto)
qed

text \<open>One round of the loop: what is left to follow, and the task in hand, are what there was.\<close>

lemma aside_round:
  assumes b: "books (add_mset e T) [] s"
    and t: "take_waiting (dependents_of e (bl_dependents s)) (bl_waiting s) = (taken, rest)"
    and s': "aside s' = image_mset (\<lambda>(order, a). wt_task a) (mset rest)"
  shows "aside s = mset taken + aside s'" "aside s' = filter_mset (\<lambda>x. x \<notin> set taken) (aside s)" "e \<notin># aside s"
proof -
  show split: "aside s = mset taken + aside s'" using take_waiting_spec [OF t booksD(7) [OF b]] unfolding s' by (simp add: aside_def)
  note two = books_apart [OF b]
  show "e \<notin># aside s"
  proof
    assume "e \<in># aside s"
    then obtain M where "aside s = add_mset e M" by (metis mset_add)
    then have "add_mset e (add_mset e M) \<subseteq># tasks (add_mset e T) s" by (simp add: tasks_def)
    then show False using two by blast
  qed
  have apart: "x \<notin># aside s'" if x: "x \<in> set taken" for x
  proof
    assume "x \<in># aside s'"
    then obtain M N where "aside s' = add_mset x M" "mset taken = add_mset x N" using x by (metis mset_add set_mset_mset)
    then have "add_mset x (add_mset x (M + N)) \<subseteq># tasks (add_mset e T) s" by (simp add: split tasks_def)
    then show False using two by blast
  qed
  then have "filter_mset (\<lambda>x. x \<notin> set taken) (aside s') = aside s'" by (auto simp: filter_mset_eq_conv)
  moreover have "filter_mset (\<lambda>x. x \<notin> set taken) (mset taken) = {#}" by (auto simp: filter_mset_eq_conv)
  ultimately show "aside s' = filter_mset (\<lambda>x. x \<notin> set taken) (aside s)" unfolding split by simp
qed

text \<open>The tasks taken are those that follow the one that goes.\<close>

lemma taken_follow:
  assumes b: "books (add_mset e T) [] s"
    and t: "take_waiting (dependents_of e (bl_dependents s)) (bl_waiting s) = (taken, rest)"
  shows "x \<in> set taken \<longleftrightarrow> follows s e x"
proof -
  note spec = take_waiting_spec [OF t booksD(7) [OF b]]
  have key: "order = en_order (wt_task a)" if "map_of (bl_waiting s) order = Some a" for order a
    using books_waiting [OF b that] by (simp add: waiting_ok_def)
  have "x \<in> set taken \<longleftrightarrow> x \<in># aside s \<and> en_order x \<in> set (dependents_of e (bl_dependents s))"
  proof
    assume "x \<in> set taken"
    then obtain order a where "order \<in> set (dependents_of e (bl_dependents s))" "map_of (bl_waiting s) order = Some a" "wt_task a = x"
      using spec by blast
    then show "x \<in># aside s \<and> en_order x \<in> set (dependents_of e (bl_dependents s))" using waiting_aside key by blast
  next
    assume x: "x \<in># aside s \<and> en_order x \<in> set (dependents_of e (bl_dependents s))"
    then obtain order a where "(order, a) \<in> set (bl_waiting s)" "wt_task a = x" by (auto simp: aside_def)
    then have "map_of (bl_waiting s) order = Some a" using booksD(7) [OF b] by simp
    then show "x \<in> set taken" using spec x key \<open>wt_task a = x\<close> by blast
  qed
  moreover have "order \<in> set (dependents_of e (bl_dependents s)) \<longleftrightarrow>
      (\<exists>i later. en_result e = Some i \<and> bl_dependents s i = Some later \<and> order \<in> set later)" for order
    by (cases "en_result e"; cases "bl_dependents s (the (en_result e))") (simp_all add: dependents_of_def)
  ultimately show ?thesis by (simp add: follows_def)
qed

text \<open>What follows before a round is what goes in it, what is taken, and what follows that afterwards.\<close>

lemma followers_split:
  assumes taken: "\<And>x. x \<in> set taken \<longleftrightarrow> follows s e x" and sub: "\<And>x y. follows s' x y \<Longrightarrow> follows s x y"
    and sup: "\<And>x y. follows s x y \<Longrightarrow> follows s' x y \<or> y \<in> set taken"
  shows "followers s (insert e (set removed)) = insert e (followers s' (set (removed @ taken)))"
proof
  note base = followers_base [of "set (removed @ taken)" s']
  show "followers s (insert e (set removed)) \<subseteq> insert e (followers s' (set (removed @ taken)))"
  proof (rule followers_least)
    show "insert e (set removed) \<subseteq> insert e (followers s' (set (removed @ taken)))" using base by auto
    fix x y
    assume "x \<in> insert e (followers s' (set (removed @ taken)))" and f: "follows s x y"
    then consider "x = e" | "x \<in> followers s' (set (removed @ taken))" by blast
    then show "y \<in> insert e (followers s' (set (removed @ taken)))"
    proof cases
      case 1
      then have "y \<in> set taken" using f taken by simp
      then show ?thesis using base by auto
    next
      case 2
      then show ?thesis using sup [OF f] followers_step [OF 2] base by auto
    qed
  qed
  have "set (removed @ taken) \<subseteq> followers s (insert e (set removed))"
    using followers_base [of "insert e (set removed)" s] followers_step [of e s "insert e (set removed)"] taken by auto
  then have "followers s' (set (removed @ taken)) \<subseteq> followers s (insert e (set removed))"
    using followers_step sub by (intro followers_least) blast+
  then show "insert e (followers s' (set (removed @ taken))) \<subseteq> followers s (insert e (set removed))"
    using followers_base [of "insert e (set removed)" s] by blast
qed

lemma followers_round:
  assumes b: "books (add_mset e T) [] s"
    and t: "take_waiting (dependents_of e (bl_dependents s)) (bl_waiting s) = (taken, rest)"
    and s': "aside s' = image_mset (\<lambda>(order, a). wt_task a) (mset rest)"
      "bl_dependents s' = (case en_result e of None \<Rightarrow> bl_dependents s | Some i \<Rightarrow> (bl_dependents s)(i := None))"
  shows "aside s = mset taken + aside s'" "aside s' = filter_mset (\<lambda>x. x \<notin> set taken) (aside s)" "e \<notin># aside s"
    "followers s (insert e (set removed)) = insert e (followers s' (set (removed @ taken)))"
proof -
  note round = aside_round [OF b t s'(1)] and taken = taken_follow [OF b t]
  show "aside s = mset taken + aside s'" "aside s' = filter_mset (\<lambda>x. x \<notin> set taken) (aside s)" "e \<notin># aside s"
    by (rule round)+
  show "followers s (insert e (set removed)) = insert e (followers s' (set (removed @ taken)))"
  proof (rule followers_split [OF taken])
    show "follows s x y" if "follows s' x y" for x y
      using that round(2) by (auto simp: follows_def s'(2) split: option.splits if_splits)
    show "follows s' x y \<or> y \<in> set taken" if "follows s x y" for x y
    proof (cases "y \<in> set taken \<or> (\<exists>i. en_result e = Some i \<and> en_result x = Some i)")
      case True
      then show ?thesis using that taken [of y] by (auto simp: follows_def)
    next
      case False
      then show ?thesis using that round(2) by (auto simp: follows_def s'(2) split: option.splits)
    qed
  qed
qed

definition cancelled_results :: "'k entry set \<Rightarrow> ('k, 't, 'v) queue_state \<Rightarrow> nat \<rightharpoonup> ('t, 'v) result_storage" where
  "cancelled_results E s = (\<lambda>i. if \<exists>e \<in> E. en_result e = Some i
     then map_option (result_settle Cancel) (bl_results s i) else bl_results s i)"

lemma cancel_twice: "result_cancel (result_cancel r) = result_cancel r"
  by (simp add: result_cancel_def)

lemma cancelled_results_settle:
  "cancelled_results E (settle_result i Cancel s) = cancelled_results (insert e E) s" if "en_result e = Some i"
proof
  fix j
  show "cancelled_results E (settle_result i Cancel s) j = cancelled_results (insert e E) s j"
    using that by (cases "bl_results s j") (auto simp: cancelled_results_def settle_result_def cancel_twice)
qed

lemma cancel_loop_exact:
  "books (T + mset removed) [] s \<Longrightarrow>
    ready (cancel_loop removed s) = ready s \<and>
    aside (cancel_loop removed s) = filter_mset (\<lambda>e. e \<notin> followers s (set removed)) (aside s) \<and>
    bl_unfinished (cancel_loop removed s) = bl_unfinished s - en_order ` followers s (set removed) \<and>
    bl_results (cancel_loop removed s) = cancelled_results (followers s (set removed)) s"
proof (induction removed s rule: cancel_loop_induct)
  case (Nil s)
  then show ?case by (simp add: followers_def cancelled_results_def)
next
  case (Cons e removed s s1 taken rest)
  let ?s = "(leave_books e s1)\<lparr>bl_waiting := rest\<rparr>"
  let ?H = "followers ?s (set (removed @ taken))"
  have b: "books (add_mset e (T + mset removed)) [] s" using Cons(5) by simp
  have "books (T + mset (removed @ taken)) [] ?s"
    using books_cancel_step [OF b Cons(1,2)] by (simp add: add.assoc)
  note ih = Cons(4) [OF this]
  have a: "aside ?s = image_mset (\<lambda>(order, a). wt_task a) (mset rest)" by (simp add: aside_def)
  have d: "bl_dependents ?s = (case en_result e of None \<Rightarrow> bl_dependents s | Some i \<Rightarrow> (bl_dependents s)(i := None))"
    by (simp add: leave_books_def Cons(1) split: option.splits)
  note round = followers_round [OF b Cons(2) a d]
  have H: "followers s (set (e # removed)) = insert e ?H" using round(4) by simp
  have taken: "set taken \<subseteq> ?H" using followers_base [of "set (removed @ taken)" ?s] by auto
  have "ready ?s = ready s" "bl_unfinished ?s = bl_unfinished s - {en_order e}"
    by (simp_all add: leave_books_def Cons(1) ready_def split: option.splits)
  moreover have "filter_mset (\<lambda>x. x \<notin> ?H) (aside ?s) = filter_mset (\<lambda>x. x \<notin> insert e ?H) (aside s)"
    unfolding round(2) filter_filter_mset using taken round(3) by (intro filter_mset_cong) auto
  moreover have "cancelled_results ?H ?s = cancelled_results (insert e ?H) s"
  proof (cases "en_result e")
    case None
    then have results: "bl_results ?s = bl_results s" by (simp add: Cons(1) leave_books_def)
    show ?thesis unfolding cancelled_results_def results using None by simp
  next
    case (Some i)
    have results: "bl_results ?s = bl_results (settle_result i Cancel s)" using Some by (simp add: Cons(1) leave_books_def)
    have "cancelled_results ?H ?s = cancelled_results ?H (settle_result i Cancel s)" unfolding cancelled_results_def results ..
    then show ?thesis using cancelled_results_settle [OF Some] by simp
  qed
  ultimately show ?case using ih unfolding Cons(3) H by auto
qed

text \<open>What follows the task that is taken out is the same before and after, and not ready.\<close>

lemma take_out_followers:
  assumes b: "books T [] s" and o: "take_out i s = (Some e, s')"
  shows "{e'. e' \<in># ready s + aside s \<and> en_result e' = Some i} = {e}" "followers s {e} = followers s' {e}"
    "x \<in># ready s' \<Longrightarrow> x \<notin> followers s {e}"
proof -
  note out = books_take_out [OF b o]
  have frame: "bl_dependents s' = bl_dependents s" using take_out_frame [OF o] by simp
  have tasks: "tasks T s = add_mset e (ready s' + aside s' + T)" unfolding tasks_def out(2) by simp
  have other: "x \<noteq> e \<and> en_result x \<noteq> Some i" if "x \<in># ready s' + aside s'" for x
    using result_unique [OF b tasks out(3), of x] that out(3) by auto
  show "{e'. e' \<in># ready s + aside s \<and> en_result e' = Some i} = {e}" unfolding out(2) using out(3) other by auto
  have in_aside: "y \<in># aside s \<longleftrightarrow> y \<in># aside s' \<or> (y = e \<and> e \<in># aside s)" for y using out(6) by auto
  show F: "followers s {e} = followers s' {e}"
  proof
    show "followers s {e} \<subseteq> followers s' {e}"
    proof (rule followers_least)
      show "y \<in> followers s' {e}" if x: "x \<in> followers s' {e}" and f: "follows s x y" for x y
      proof (cases "y = e")
        case False
        then have "follows s' x y" using f in_aside [of y] by (simp add: follows_def frame)
        then show ?thesis by (rule followers_step [OF x])
      qed (use followers_base in blast)
    qed (rule followers_base)
    show "followers s' {e} \<subseteq> followers s {e}"
    proof (rule followers_least)
      show "y \<in> followers s {e}" if "x \<in> followers s {e}" "follows s' x y" for x y
        using that in_aside [of y] by (intro followers_step [OF that(1)]) (simp add: follows_def frame)
    qed (rule followers_base)
  qed
  show "x \<notin> followers s {e}" if x: "x \<in># ready s'"
  proof
    assume "x \<in> followers s {e}"
    then have "x \<in># aside s'" using followers_aside [of x s' "{e}"] other x by (auto simp: F)
    then obtain M N where "ready s' = add_mset x M" "aside s' = add_mset x N" using x by (metis mset_add)
    then have "add_mset x (add_mset x (M + N)) \<subseteq># tasks T s" unfolding tasks by (simp add: subset_mset.add_increasing2)
    then show False using books_apart [OF b] by blast
  qed
qed

text \<open>C32: Cancelling takes exactly the task whose result has the id and every task that follows it,
  directly or through others. It succeeds exactly when that task is ready or waits; the tasks it
  takes never run, for they are on no list any more, are no longer unfinished, and their results
  are cancelled; every other task stays where it was, what runs included, and every other result is
  as it was. A call that fails changes nothing.\<close>

theorem cancel_takes_followers:
  assumes "reach quits needs s" "backlog_cancel i s = (r, t)"
  shows "(r \<longleftrightarrow> (\<exists>e. e \<in># ready s + aside s \<and> en_result e = Some i)) \<and>
    (let E = {e. e \<in># ready s + aside s \<and> en_result e = Some i}; F = followers s E
     in ready t = filter_mset (\<lambda>e. e \<notin> F) (ready s) \<and> aside t = filter_mset (\<lambda>e. e \<notin> F) (aside s) \<and>
        running t = running s \<and> ran t = ran s \<and>
        bl_unfinished t = bl_unfinished s - en_order ` F \<and> bl_results t = cancelled_results F s) \<and>
    (\<not> r \<longrightarrow> t = s)"
proof -
  note b = reach_books [OF assms(1)]
  define E where "E = {e. e \<in># ready s + aside s \<and> en_result e = Some i}"
  have "bl_activity t = bl_activity s" "worker_count t = worker_count s" using cancel_frame [OF assms(2)] by simp_all
  then have held: "running t = running s" "ran t = ran s" by (simp_all add: running_def ran_def)
  show ?thesis
  proof (cases "take_out i s")
    case (Pair found s')
    show ?thesis
    proof (cases found)
      case None
      then have same: "t = s" "\<not> r" and none: "\<forall>e. e \<in># ready s + aside s \<longrightarrow> en_result e \<noteq> Some i"
        using take_out_none [of i s s'] Pair assms(2) by (auto simp: backlog_cancel_def)
      have "followers s E = {}" using none by (auto simp: followers_def E_def)
      then show ?thesis using same none unfolding E_def [symmetric] by (auto simp: Let_def cancelled_results_def)
    next
      case (Some e)
      have o: "take_out i s = (Some e, s')" using Pair Some by simp
      note out = books_take_out [OF b o]
      have t: "t = cancel_loop [e] s'" "r" using assms(2) o by (simp_all add: backlog_cancel_def del: cancel_loop.simps)
      have frame: "bl_unfinished s' = bl_unfinished s" "bl_dependents s' = bl_dependents s" "bl_results s' = bl_results s"
        using take_out_frame [OF o] by simp_all
      have b': "books (running s + ran s + mset [e]) [] s'" using out(1) by simp
      note exact = cancel_loop_exact [OF b', folded t(1)]
      note chain = take_out_followers [OF b o]
      note E = chain(1) [folded E_def] and F = chain(2) and stays = chain(3)
      have "e \<in> followers s {e}" using followers_base by blast
      moreover have "filter_mset (\<lambda>x. x \<notin> followers s {e}) (ready s') = ready s'" using stays by (simp add: filter_mset_eq_conv)
      ultimately have "ready t = filter_mset (\<lambda>e'. e' \<notin> followers s {e}) (ready s)" "aside t = filter_mset (\<lambda>e'. e' \<notin> followers s {e}) (aside s)"
        using exact out(6) by (auto simp: F)
      moreover have "bl_results t = cancelled_results (followers s {e}) s"
        using exact unfolding F cancelled_results_def frame by simp
      moreover have "e \<in># ready s + aside s" unfolding out(2) by simp
      ultimately show ?thesis using exact t(2) held out(3) unfolding E_def [symmetric] E Let_def by (auto simp: F frame)
    qed
  qed
qed

lemma cancel_takes_followers_witness:
  "fst (backlog_cancel 1 example_2) \<and> bl_unfinished (snd (backlog_cancel 1 example_2)) = {}"
proof -
  obtain r t where c: "backlog_cancel 1 example_2 = (r, t)" by fastforce
  have tasks: "ready example_2 = {#first_task#}" "aside example_2 = {#second_task#}"
    by (simp_all add: example_2 ready_def aside_def)
  have d: "bl_dependents example_2 1 = Some [1]" "bl_unfinished example_2 = {1, 0}" by (simp_all add: example_2)
  define E where "E = {e. e \<in># ready example_2 + aside example_2 \<and> en_result e = Some 1}"
  have "first_task \<in> E" by (simp add: E_def tasks)
  then have f1: "first_task \<in> followers example_2 E" by (rule subsetD [OF followers_base])
  have "follows example_2 first_task second_task" by (simp add: follows_def tasks d [simplified])
  then have f2: "second_task \<in> followers example_2 E" by (rule followers_step [OF f1])
  have "0 \<in> en_order ` followers example_2 E" by (rule image_eqI [OF _ f1]) simp
  moreover have "1 \<in> en_order ` followers example_2 E" by (rule image_eqI [OF _ f2]) simp
  moreover have "\<exists>e. e \<in># ready example_2 + aside example_2 \<and> en_result e = Some 1"
    by (rule exI [of _ first_task]) (simp add: tasks)
  then have "r" by (rule iffD2 [OF conjunct1 [OF cancel_takes_followers [OF example_reach c]]])
  moreover have "bl_unfinished t = bl_unfinished example_2 - en_order ` followers example_2 E"
    using conjunct1 [OF conjunct2 [OF cancel_takes_followers [OF example_reach c]]] unfolding E_def [symmetric] Let_def
    by (elim conjE)
  ultimately show ?thesis using c d(2) by auto
qed

end
