(* ===== verification/Queue_Drains.thy ===== *)
theory Queue_Drains
  imports Queue_Progress Queue_Laws
begin

text \<open>
  That a queue gets its work done. Every step of a worker decreases a measure, so the workers come
  to an end, and where they end nothing is left: every task accepted has run, or was cancelled, and
  once the queue has stopped every worker has ended.
\<close>

section \<open>What is left to do\<close>

definition loads :: "('k, 't, 'v) queue_state \<Rightarrow> nat" where
  "loads s = (\<Sum>w < worker_count s. length (filter (\<lambda>item. item \<noteq> Finish) (lp_pending (bl_loops s w))))"

text \<open>A task that waits can hand a sweep to every worker when it becomes ready.\<close>

definition to_take :: "('k, 't, 'v) queue_state \<Rightarrow> nat" where
  "to_take s = 3 * size (ready s) + (4 + worker_count s) * size (aside s) + loads s"

definition to_do :: "('k, 't, 'v) queue_state \<Rightarrow> nat" where
  "to_do s = to_take s + 2 * size (running s) + size (ran s)"

fun turn :: "'k activity \<Rightarrow> worker_loop \<Rightarrow> nat" where
  "turn (Taking Sweeping) loop = 7"
| "turn (Taking Finishing) loop = 5"
| "turn Closing loop = 4"
| "turn (Running m e) loop = 0"
| "turn (Ran m e) loop = 0"
| "turn Idle loop =
     (if lp_finished loop then 0 else if lp_quit loop then 2
      else if lp_pending loop \<noteq> [] \<and> hd (lp_pending loop) = Finish then 6 else 3)"

lemma turn_swept: "turn (swept m) loop < turn (Taking m) loop'"
  by (cases m) simp_all

definition turns :: "('k, 't, 'v) queue_state \<Rightarrow> nat" where
  "turns s = (\<Sum>w < worker_count s. turn (bl_activity s w) (bl_loops s w))"

lemma sum_one:
  fixes f g :: "nat \<Rightarrow> nat"
  assumes "w < n" "\<And>v. v \<noteq> w \<Longrightarrow> g v = f v"
  shows "(\<Sum>v < n. g v) + f w = (\<Sum>v < n. f v) + g w"
proof -
  have "(\<Sum>v < n. g v) = g w + (\<Sum>v \<in> {..<n} - {w}. g v)" "(\<Sum>v < n. f v) = f w + (\<Sum>v \<in> {..<n} - {w}. f v)"
    using assms(1) by (simp_all add: sum.remove)
  moreover have "(\<Sum>v \<in> {..<n} - {w}. g v) = (\<Sum>v \<in> {..<n} - {w}. f v)" using assms(2) by (intro sum.cong) auto
  ultimately show ?thesis by simp
qed

lemma loads_worker:
  assumes "w < worker_count s" "worker_count t = worker_count s" "\<And>v. v \<noteq> w \<Longrightarrow> bl_loops t v = bl_loops s v"
  shows "loads t + length (filter (\<lambda>item. item \<noteq> Finish) (lp_pending (bl_loops s w))) =
    loads s + length (filter (\<lambda>item. item \<noteq> Finish) (lp_pending (bl_loops t w)))"
  unfolding loads_def assms(2) by (rule sum_one [OF assms(1)]) (simp add: assms(3))

lemma turns_worker:
  assumes "w < worker_count s" "worker_count t = worker_count s"
    "\<And>v. v \<noteq> w \<Longrightarrow> bl_loops t v = bl_loops s v" "\<And>v. v \<noteq> w \<Longrightarrow> bl_activity t v = bl_activity s v"
  shows "turns t + turn (bl_activity s w) (bl_loops s w) = turns s + turn (bl_activity t w) (bl_loops t w)"
  unfolding turns_def assms(2) by (rule sum_one [OF assms(1)]) (simp add: assms(3,4))

lemma loads_frame: "worker_count t = worker_count s \<Longrightarrow> bl_loops t = bl_loops s \<Longrightarrow> loads t = loads s"
  by (simp add: loads_def)

lemma to_take_frame:
  assumes "worker_count t = worker_count s" "bl_loops t = bl_loops s" "bl_tasks t = bl_tasks s" "bl_waiting t = bl_waiting s"
  shows "to_take t = to_take s"
  using loads_frame [OF assms(1,2)] assms by (simp add: to_take_def ready_def aside_def)

lemma set_waiting [simp]:
  "bl_waiting (set_activity w a s) = bl_waiting s" "bl_waiting (set_loop w l s) = bl_waiting s"
  "bl_waiting (worker_close w s) = bl_waiting s" "bl_waiting (entry_run e v s) = bl_waiting s"
  by (simp_all add: set_activity_def set_loop_def worker_close_def entry_run_def split: option.splits)

section \<open>Making tasks ready\<close>

lemma hand_sweep_loads: "loads (hand_sweep i s) \<le> loads s + 1"
proof (cases "bl_sweeping s ! i")
  case False
  let ?w = "bl_workers s ! i"
  have o: "bl_loops (hand_sweep i s) v = bl_loops s v" if "v \<noteq> ?w" for v
    using that False by (simp add: hand_sweep_def worker_perform_def)
  have n: "worker_count (hand_sweep i s) = worker_count s" by (simp add: worker_count_def)
  show ?thesis
  proof (cases "?w < worker_count s")
    case True
    have "length (filter (\<lambda>item. item \<noteq> Finish) (lp_pending (bl_loops (hand_sweep i s) ?w)))
        \<le> length (filter (\<lambda>item. item \<noteq> Finish) (lp_pending (bl_loops s ?w))) + 1"
      using False by (simp add: hand_sweep_def worker_perform_def loop_perform_def)
    then show ?thesis using loads_worker [OF True n o] by linarith
  next
    case out: False
    then have "loads (hand_sweep i s) = loads s" unfolding loads_def n using o by (intro sum.cong) auto
    then show ?thesis by simp
  qed
qed (simp add: hand_sweep_def)

lemma fold_hand_sweep_loads: "loads (fold hand_sweep ws s) \<le> loads s + length ws"
proof (induction ws arbitrary: s)
  case (Cons i ws)
  show ?case using Cons [of "hand_sweep i s"] hand_sweep_loads [of i s] by simp
qed simp

lemma make_ready_loads:
  assumes "workers_ok s"
  shows "loads (make_ready e p s) \<le> loads s + worker_count s"
proof -
  let ?u = "s\<lparr>bl_tasks := (bl_tasks s)[to_size_t p := bl_tasks s ! to_size_t p @ [e]]\<rparr>"
  have "loads (make_ready e p s) \<le> loads ?u + length (bl_workers s)"
    using fold_hand_sweep_loads [of "[0..<length (bl_workers s)]" ?u] by (simp add: make_ready_def Let_def)
  moreover have "loads ?u = loads s" by (rule loads_frame) (simp_all add: worker_count_def)
  moreover have "length (bl_workers s) \<le> worker_count s" using assms by (auto simp: workers_ok_def)
  ultimately show ?thesis by simp
qed

lemma count_off_loads:
  assumes "workers_ok s"
  shows "loads (count_off order s) \<le> loads s + worker_count s"
proof -
  have u: "loads (s\<lparr>bl_waiting := al\<rparr>) = loads s" "workers_ok (s\<lparr>bl_waiting := al\<rparr>)" "worker_count (s\<lparr>bl_waiting := al\<rparr>) = worker_count s" for al
    using assms by (simp_all add: loads_def workers_ok_def worker_count_def)
  show ?thesis
    using make_ready_loads [OF u(2)] by (auto simp: count_off_def Let_def u split: option.splits)
qed

lemma count_off_to_take:
  assumes b: "books T (order # orders) s" and w: "workers_ok s"
  shows "to_take (count_off order s) \<le> to_take s"
  using b
proof (cases rule: count_off_cases)
  case gone
  then show ?thesis by simp
next
  case (waits a)
  then show ?thesis using loads_frame [of "count_off order s" s] by (simp add: to_take_def)
next
  case (ready a)
  then show ?thesis using count_off_loads [OF w, of order] by (simp add: to_take_def algebra_simps)
qed

lemma fold_count_off_to_take:
  "books T orders s \<Longrightarrow> workers_ok s \<Longrightarrow> to_take (fold count_off orders s) \<le> to_take s"
proof (induction orders arbitrary: s)
  case (Cons order orders)
  have "workers_ok (count_off order s)" using Cons(3) by (rule workers_ok_frame) simp_all
  then have "to_take (fold count_off orders (count_off order s)) \<le> to_take (count_off order s)"
    by (rule Cons(1) [OF books_count_off [OF Cons(2)]])
  then show ?case using count_off_to_take [OF Cons(2,3)] by simp
qed simp

lemma done_to_take:
  assumes "books (add_mset e T) [] s" "workers_ok s"
  shows "to_take (backlog_done e s) \<le> to_take s"
proof -
  have f: "worker_count (leave_books e s) = worker_count s" "bl_loops (leave_books e s) = bl_loops s"
    "bl_tasks (leave_books e s) = bl_tasks s" "bl_waiting (leave_books e s) = bl_waiting s"
    by (simp_all add: leave_books_def worker_count_def)
  have "workers_ok (leave_books e s)" using assms(2) by (rule workers_ok_frame) (simp_all add: leave_books_def worker_count_def)
  then show ?thesis
    unfolding backlog_done_leave using fold_count_off_to_take [OF books_leave [OF assms(1)]] to_take_frame [OF f] by simp
qed

section \<open>Every step of a worker leaves less to do\<close>

text \<open>A step that finds no task costs a turn; any other costs something to do.\<close>

definition decreases :: "('k, 't, 'v) queue_state \<Rightarrow> ('k, 't, 'v) queue_state \<Rightarrow> bool" where
  "decreases t s = (to_do t < to_do s \<or> to_do t = to_do s \<and> turns t < turns s)"

text \<open>A step that changes the loop and the activity of one worker, and no task.\<close>

abbreviation load :: "worker_loop \<Rightarrow> nat" where
  "load loop \<equiv> length (filter (\<lambda>item. item \<noteq> Finish) (lp_pending loop))"

lemma loop_decreases:
  assumes v: "v < worker_count s"
    and t: "bl_loops t = (bl_loops s)(v := l)" "bl_activity t = (bl_activity s)(v := a)" "worker_count t = worker_count s"
      "ready t = ready s" "aside t = aside s"
    and held: "running_of a = running_of (bl_activity s v)" "ran_of a = ran_of (bl_activity s v)"
    and less: "load l < load (bl_loops s v) \<or>
      load l = load (bl_loops s v) \<and> turn a l < turn (bl_activity s v) (bl_loops s v)"
  shows "decreases t s"
proof -
  have h: "running t = running s" "ran t = ran s"
    using sum_update [OF v, of running_of "bl_activity s" a] sum_update [OF v, of ran_of "bl_activity s" a] held
    by (simp_all add: running_def ran_def t)
  moreover have "loads t + load (bl_loops s v) = loads s + load (bl_loops t v)"
    by (rule loads_worker [OF v]) (simp_all add: t)
  moreover have "turns t + turn (bl_activity s v) (bl_loops s v) = turns s + turn (bl_activity t v) (bl_loops t v)"
    by (rule turns_worker [OF v]) (simp_all add: t)
  ultimately show ?thesis using less t by (auto simp: decreases_def to_do_def to_take_def)
qed

lemma begins_decreases:
  assumes "bl_activity s v = Idle" "v < worker_count s" "next_item (bl_loops s v) = Some (item, loop)"
  shows "decreases (set_activity v (started item) (set_loop v loop s)) s"
proof (rule loop_decreases [OF assms(2)])
  show "bl_loops (set_activity v (started item) (set_loop v loop s)) = (bl_loops s)(v := loop)"
    "bl_activity (set_activity v (started item) (set_loop v loop s)) = (bl_activity s)(v := started item)"
    by (simp_all add: set_activity_def set_loop_def)
  show "running_of (started item) = running_of (bl_activity s v)" "ran_of (started item) = ran_of (bl_activity s v)"
    by (cases item; simp add: assms(1))+
  have "\<not> lp_quit (bl_loops s v)" "\<not> lp_finished (bl_loops s v)" "lp_pending (bl_loops s v) = item # lp_pending loop"
    using assms(3) by (auto simp: next_item_def split: if_splits list.splits)
  then show "load loop < load (bl_loops s v) \<or>
      load loop = load (bl_loops s v) \<and> turn (started item) loop < turn (bl_activity s v) (bl_loops s v)"
    by (cases item) (simp_all add: assms(1))
qed (simp_all add: ready_def aside_def)

lemma takes_decreases:
  assumes "queue_inv needs s" "bl_activity s v = Taking m" "backlog_take v s = (Some e, u)"
  shows "decreases (set_activity v (Running m e) u) s"
proof -
  let ?t = "set_activity v (Running m e) u"
  have b: "books (running s + ran s) [] s" and v: "v < worker_count s"
    using assms(1,2) by (auto simp: queue_inv_def agree_def workers_ok_def)
  note f = take_frame [OF assms(3)] and k = books_take [OF b assms(3)]
  have "running ?t = add_mset e (running s)" "ran ?t = ran s"
    using running_update [OF v f(2,1), of "Running m e"] assms(2) by simp_all
  moreover have "ready s = add_mset e (ready ?t)" using k(2) by (simp add: ready_def)
  moreover have "aside ?t = aside s" by (simp add: aside_def, subst k(3), simp)
  moreover have "loads ?t = loads s" by (rule loads_frame) (simp_all add: f)
  ultimately show ?thesis using f by (simp add: decreases_def to_do_def to_take_def)
qed

lemma takes_none_decreases:
  assumes "v < worker_count s" "bl_activity s v = Taking m" "backlog_take v s = (None, u)"
  shows "decreases (set_activity v (swept m) u) s"
proof (rule loop_decreases [OF assms(1), where l = "bl_loops s v" and a = "swept m"])
  note f = take_frame [OF assms(3)] and k = take_nothing [OF assms(3)]
  show "bl_loops (set_activity v (swept m) u) = (bl_loops s)(v := bl_loops s v)"
    "bl_activity (set_activity v (swept m) u) = (bl_activity s)(v := swept m)"
    "worker_count (set_activity v (swept m) u) = worker_count s"
    using f by (simp_all add: set_activity_def worker_count_def)
  show "ready (set_activity v (swept m) u) = ready s" "aside (set_activity v (swept m) u) = aside s"
    using k by (simp_all add: ready_def aside_def)
  show "running_of (swept m) = running_of (bl_activity s v)" "ran_of (swept m) = ran_of (bl_activity s v)"
    by (cases m; simp add: assms(2))+
qed (use turn_swept in \<open>simp add: assms(2)\<close>)

lemma returns_decreases:
  assumes "v < worker_count s" "bl_activity s v = Running m e"
  shows "decreases (set_activity v (Ran m e) (entry_run e x s)) s"
proof -
  let ?t = "set_activity v (Ran m e) (entry_run e x s)"
  have h: "add_mset e (running ?t) = running s" "ran ?t = add_mset e (ran s)"
    using running_update [OF assms(1), of "entry_run e x s" "Ran m e"] assms(2) by simp_all
  have "to_take ?t = to_take s" by (rule to_take_frame) simp_all
  moreover have "size (running s) = size (running ?t) + 1" by (simp add: h(1) [symmetric])
  ultimately show ?thesis using h(2) by (simp add: decreases_def to_do_def)
qed

lemma done_decreases:
  assumes "queue_inv needs s" "bl_activity s v = Ran m e"
  shows "decreases (set_activity v (Taking m) (backlog_done e s)) s"
proof -
  let ?t = "set_activity v (Taking m) (backlog_done e s)"
  have w: "workers_ok s" and b: "books (running s + ran s) [] s" and v: "v < worker_count s"
    using assms by (auto simp: queue_inv_def agree_def workers_ok_def)
  have h: "running ?t = running s" "add_mset e (ran ?t) = ran s"
    using running_update [OF v, of "backlog_done e s" "Taking m"] assms(2) by simp_all
  have "to_take ?t = to_take (backlog_done e s)" by (rule to_take_frame) simp_all
  moreover have "books (add_mset e (running s + ran ?t)) [] s" using b by (simp add: h(2) [symmetric])
  then have "to_take (backlog_done e s) \<le> to_take s" using w by (rule done_to_take)
  moreover have "size (ran s) = size (ran ?t) + 1" by (simp add: h(2) [symmetric])
  ultimately show ?thesis using h(1) by (simp add: decreases_def to_do_def)
qed

lemma closes_decreases:
  assumes "covered s" "v < worker_count s" "bl_activity s v = Closing"
  shows "decreases (set_activity v Idle (worker_close v s)) s"
proof (rule loop_decreases [OF assms(2)])
  let ?l = "bl_loops (worker_close v s) v"
  have n: "\<not> lp_finished (bl_loops s v)" "Finish \<notin> set (lp_pending (bl_loops s v))"
    using assms by (auto simp: covered_def loops_ok_def loop_ok_def)
  show "bl_loops (set_activity v Idle (worker_close v s)) = (bl_loops s)(v := ?l)"
    by (simp add: worker_close_def worker_perform_def set_loop_def)
  show "bl_activity (set_activity v Idle (worker_close v s)) = (bl_activity s)(v := Idle)"
    by (simp add: set_activity_def)
  have "hd (lp_pending (bl_loops s v)) \<noteq> Finish" if "lp_pending (bl_loops s v) \<noteq> []"
    using n(2) that hd_in_set by metis
  then show "load ?l < load (bl_loops s v) \<or> load ?l = load (bl_loops s v) \<and> turn Idle ?l < turn (bl_activity s v) (bl_loops s v)"
    using n(1) by (simp add: assms(3) worker_close_def worker_perform_def loop_perform_def)
qed (simp_all add: assms(3) ready_def aside_def)

lemma leaves_decreases:
  assumes "bl_activity s v = Idle" "v < worker_count s" "lp_quit (bl_loops s v)" "\<not> lp_finished (bl_loops s v)"
  shows "decreases (set_loop v \<lparr>lp_pending = [], lp_quit = False, lp_finished = True\<rparr> s) s"
  by (rule loop_decreases [OF assms(2), where a = "bl_activity s v"])
    (use assms in \<open>auto simp: set_loop_def ready_def aside_def worker_count_def\<close>)

lemma step_decreases:
  assumes i: "queue_inv needs s" and c: "covered s" and st: "worker_step s t"
  shows "decreases t s"
proof -
  have busy: "bl_activity s v \<noteq> Idle \<Longrightarrow> v < worker_count s" for v using i by (simp add: queue_inv_def workers_ok_def)
  show ?thesis
    using st
    by cases (use i c busy in \<open>auto intro: begins_decreases takes_decreases takes_none_decreases returns_decreases
        done_decreases closes_decreases leaves_decreases\<close>)
qed

section \<open>Where the workers stop\<close>

definition drained :: "('k, 't, 'v) queue_state \<Rightarrow> bool" where
  "drained s =
     (ready s + aside s + running s + ran s = {#} \<and> bl_unfinished s = {} \<and> (\<forall>i. \<not> own_pending s i) \<and>
      (\<forall>w < worker_count s. bl_activity s w = Idle \<and> lp_pending (bl_loops s w) = [] \<and>
        (\<not> bl_accepting s \<longrightarrow> lp_finished (bl_loops s w))))"

lemma stuck_idle:
  assumes "\<And>t. \<not> worker_step s t"
  shows "bl_activity s v = Idle"
proof (cases "bl_activity s v")
  case (Taking m)
  obtain r u where "backlog_take v s = (r, u)" by fastforce
  then show ?thesis using assms takes [OF Taking] takes_none [OF Taking] by (cases r) blast+
next
  case (Running m e)
  then show ?thesis using assms returns by blast
next
  case (Ran m e)
  then show ?thesis using assms is_done by blast
next
  case Closing
  then show ?thesis using assms closes by blast
qed

text \<open>The oldest task on the books waits for an older one, so when no task is ready or runs none waits.\<close>

lemma nothing_waits:
  assumes b: "books {#} [] s" and r: "ready s = {#}"
  shows "bl_unfinished s = {} \<and> aside s = {#}"
proof -
  have u: "bl_unfinished s = {}"
  proof (rule ccontr)
    assume ne: "bl_unfinished s \<noteq> {}"
    let ?m = "Min (bl_unfinished s)"
    have "?m \<in> bl_unfinished s" using booksD(2) [OF b] ne by (rule Min_in)
    then obtain e where e: "e \<in># tasks {#} s" "en_order e = ?m" using books_orders [OF b] by force
    then obtain order a where o: "(order, a) \<in> set (bl_waiting s)" "e = wt_task a" using r by (auto simp: tasks_def aside_def)
    then have m: "map_of (bl_waiting s) order = Some a" using booksD(7) [OF b] by simp
    have "owed (bl_dependents s) order \<noteq> 0" "en_order e = order" using books_waiting [OF b m] o(2) by (simp_all add: waiting_ok_def)
    then obtain i later where l: "bl_dependents s i = Some later" "?m \<in> set later"
      using owed_0 [OF booksD(3) [OF b]] e(2) by auto
    obtain e' where e': "e' \<in># tasks {#} s" "en_result e' = Some i" using books_has_result [OF b l(1)] by blast
    have "en_order e' < ?m" using booksD(8) [OF b e' l(1)] l(2) by blast
    moreover have "?m \<le> en_order e'" using booksD(2) [OF b] books_unfinished [OF b e'(1)] by (rule Min_le)
    ultimately show False by simp
  qed
  then have "tasks {#} s = {#}" using booksD(4) [OF b] by simp
  then show ?thesis using u by (simp add: tasks_def)
qed

lemma stuck_drained:
  assumes i: "queue_inv needs s" and c: "covered s" and stuck: "\<And>t. \<not> worker_step s t"
  shows "drained s"
proof -
  have w: "workers_ok s" and b: "books (running s + ran s) [] s" and a: "answers {} (running s) (ran s) s"
    using i by (simp_all add: queue_inv_def agree_def)
  note idle = stuck_idle [OF stuck]
  have lo: "v < worker_count s \<Longrightarrow> loop_ok (bl_accepting s) (bl_activity s v) (bl_loops s v)" for v
    using c by (simp add: covered_def loops_ok_def)
  have l: "lp_pending (bl_loops s v) = [] \<and> (\<not> bl_accepting s \<longrightarrow> lp_finished (bl_loops s v))" if v: "v < worker_count s" for v
  proof -
    have "next_item (bl_loops s v) = None" using begins [OF idle v] stuck by (cases "next_item (bl_loops s v)") fastforce+
    moreover have "\<not> lp_quit (bl_loops s v) \<or> lp_finished (bl_loops s v)" using leaves [OF idle v] stuck by blast
    ultimately show ?thesis using lo [OF v] idle by (auto simp: next_item_def loop_ok_def split: if_splits list.splits)
  qed
  have h: "running s = {#}" "ran s = {#}" by (simp_all add: running_def ran_def idle)
  have "ready s = {#}"
  proof (rule ccontr)
    assume r: "ready s \<noteq> {#}"
    have n: "0 < worker_count s" using w by (simp add: workers_ok_def)
    show False
      using c r n l by (auto simp: covered_def attended_def flags_ok_def attends_def items_def idle split: if_splits)
  qed
  then have u: "bl_unfinished s = {} \<and> aside s = {#}" "ready s = {#}" using nothing_waits b h by simp_all
  have "\<not> own_pending s j" for j
    using answersD(4) [OF a, of j] books_has_result [OF b] u h by (fastforce simp: tasks_def)
  then show ?thesis using u h l idle by (simp add: drained_def)
qed

section \<open>Every execution of the workers ends with the work done\<close>

text \<open>\<open>P\<close> holds now, or some worker can go on and whichever does, \<open>P\<close> is inevitable after it.\<close>

inductive inevitable :: "(('k, 't, 'v) queue_state \<Rightarrow> bool) \<Rightarrow> ('k, 't, 'v) queue_state \<Rightarrow> bool" for P where
  now: "P s \<Longrightarrow> inevitable P s"
| later: "worker_step s t \<Longrightarrow> (\<And>u. worker_step s u \<Longrightarrow> inevitable P u) \<Longrightarrow> inevitable P s"

text \<open>C27: However the workers take their turns, left to themselves they get the work done: from every
  state that is reached, while no task told a worker's loop to quit, all their executions come to a
  state where no task is ready, waits, runs or is unfinished, no result of the queue is pending, every
  loop is empty, and, once the queue was stopped, every worker has ended.\<close>

theorem queue_drains:
  assumes "reach False needs s"
  shows "inevitable drained s"
  using assms
proof (induction "(to_do s, turns s)" arbitrary: s rule: wf_induct_rule [OF wf_lex_prod [OF wf_less_than wf_less_than]])
  case (1 s)
  note i = reach_inv [OF 1(2)] and c = reach_covered [OF 1(2)]
  show ?case
  proof (cases "\<exists>t. worker_step s t")
    case True
    then obtain t where t: "worker_step s t" by blast
    have "inevitable drained u" if "worker_step s u" for u
      using step_decreases [OF i c that] reach.works [OF 1(2) that] by (intro 1(1)) (auto simp: decreases_def)
    then show ?thesis using t by (blast intro: later)
  next
    case False
    then show ?thesis using stuck_drained [OF i c] by (blast intro: now)
  qed
qed

lemma queue_drains_witness: "inevitable drained example_2 \<and> first_task \<in># ready example_2 \<and> second_task \<in># aside example_2"
  using queue_drains [OF example_reach] by (simp add: example_2 ready_def aside_def)

end
