(* ===== verification/Queue_Results.thy ===== *)
theory Queue_Results
  imports Queue_Laws
begin

text \<open>
  What becomes of a result as the queue goes on (\<open>src/thread/operation.cpp\<close>,
  \<open>src/thread/operation_queue.cpp\<close>): whoever holds a handle finds it there, pending until it is settled,
  and from then on always the same.
\<close>

section \<open>The states of a result are ordered\<close>

instantiation result_state :: order
begin

definition less_eq_result_state :: "result_state \<Rightarrow> result_state \<Rightarrow> bool" where
  "less_eq_result_state a b \<longleftrightarrow> a = Pending \<or> a = b"

definition less_result_state :: "result_state \<Rightarrow> result_state \<Rightarrow> bool" where
  "less_result_state a b \<longleftrightarrow> a = Pending \<and> b \<noteq> Pending"

instance
  by standard (auto simp: less_eq_result_state_def less_result_state_def)

end

lemma settled_is_highest: "a \<le> b \<Longrightarrow> a \<noteq> Pending \<Longrightarrow> b = (a :: result_state)"
  by (auto simp: less_eq_result_state_def)

text \<open>A result moves on: it stays as it is, or its state goes up and it keeps its id and its queue.\<close>

definition moves_on :: "('t, 'v) result_storage \<Rightarrow> ('t, 'v) result_storage \<Rightarrow> bool" where
  "moves_on r r' =
     (rs_id r' = rs_id r \<and> rs_queue r' = rs_queue r \<and> rs_state r \<le> rs_state r' \<and> (r' \<noteq> r \<longrightarrow> rs_state r < rs_state r'))"

lemma moves_on_same [simp]: "moves_on r r"
  by (simp add: moves_on_def)

lemma moves_on_trans: "moves_on r r' \<Longrightarrow> moves_on r' r'' \<Longrightarrow> moves_on r r''"
  unfolding moves_on_def by (metis order.strict_trans order.trans)

lemma moves_on_settle: "moves_on r (result_settle c r)"
  by (cases c)
    (auto simp: moves_on_def result_finish_def result_cancel_def less_eq_result_state_def less_result_state_def)

definition results_move :: "('k, 't, 'v) queue_state \<Rightarrow> ('k, 't, 'v) queue_state \<Rightarrow> bool" where
  "results_move s t = (\<forall>i r. bl_results s i = Some r \<longrightarrow> (\<exists>r'. bl_results t i = Some r' \<and> moves_on r r'))"

lemma results_move_frame: "bl_results t = bl_results s \<Longrightarrow> results_move s t"
  by (simp add: results_move_def)

lemma results_move_trans: "results_move s t \<Longrightarrow> results_move t u \<Longrightarrow> results_move s u"
  unfolding results_move_def using moves_on_trans by blast

lemma results_move_settle [simp]: "results_move s (settle_result i c s)"
  using moves_on_settle by (auto simp: results_move_def settle_result_def)

section \<open>Every operation lets the results move on\<close>

lemma fold_results: "(\<And>x s. bl_results (f x s) = bl_results s) \<Longrightarrow> bl_results (fold f xs s) = bl_results s"
  by (induction xs arbitrary: s) simp_all

lemma results_kept [simp]:
  "bl_results (set_activity w a s) = bl_results s" "bl_results (set_loop w l s) = bl_results s"
  "bl_results (worker_close w s) = bl_results s" "bl_results (backlog_stop s) = bl_results s"
  "bl_results (backlog_done e s) = bl_results s"
  by (simp_all add: set_activity_def set_loop_def worker_close_def backlog_stop_def backlog_done_def
      take_dependent_orders_def fold_results count_off_frame Let_def split: option.split)

lemma worker_moves_results: "worker_step s t \<Longrightarrow> results_move s t"
proof (induction rule: worker_step.induct)
  case (returns s w m e v)
  have "results_move s (entry_run e v s)"
    by (auto simp: entry_run_def results_move_frame split: option.splits)
  moreover have "results_move (entry_run e v s) (set_activity w (Ran m e) (entry_run e v s))"
    by (simp add: results_move_frame)
  ultimately show ?case by (rule results_move_trans)
qed (auto simp: backlog_take_def intro!: results_move_frame split: option.splits)

lemma cancel_moves_results: "results_move s (cancel_loop removed s)"
proof (induction removed s rule: cancel_loop_induct)
  case (Cons e removed s s1 taken rest)
  have "results_move s s1"
    by (simp add: Cons(1) results_move_frame split: option.splits)
  moreover have "results_move s1 ((leave_books e s1)\<lparr>bl_waiting := rest\<rparr>)"
    by (rule results_move_frame) (simp add: leave_books_def)
  ultimately show ?case unfolding Cons(3) using Cons(4) by (blast intro: results_move_trans)
qed (simp add: results_move_frame)

lemma make_moves_results:
  assumes "reach quits needs s" "counters_left s" "make_result q s = (i, t)"
  shows "results_move s t"
proof -
  have "i = Suc (bl_last_id s)" "t = s\<lparr>bl_last_id := i, bl_results := (bl_results s)(i \<mapsto> result_make i q)\<rparr>"
    using assms(2,3) by (auto simp: make_result_def next_id_def counters_left_def)
  moreover have "bl_results s i = None" if "i = Suc (bl_last_id s)"
    using answersD(5) [OF reach_answers [OF assms(1)], of i] that by (cases "bl_results s i") (auto simp: dom_def)
  ultimately show ?thesis by (auto simp: results_move_def)
qed

lemma queue_moves_results: "results_move s (backlog_queue options result task call s)"
  by (rule results_move_frame) (simp add: backlog_queue_def Let_def split: prod.split)

lemma outside_moves_results:
  assumes r: "reach quits needs s" and c: "counters_left s" and st: "outside_step quits s t"
  shows "results_move s t"
  using st
proof cases
  case (cancels i b)
  obtain found s' where o: "take_out i s = (found, s')" by fastforce
  have "results_move s s'" by (rule results_move_frame) (rule take_out_frame(8) [OF o])
  then have "results_move s (cancel_loop removed s')" for removed using cancel_moves_results by (rule results_move_trans)
  then show ?thesis
    using cancels o \<open>results_move s s'\<close> by (cases found) (auto simp: backlog_cancel_def simp del: cancel_loop.simps)
next
  case stops
  then show ?thesis by (simp add: results_move_frame)
next
  case (makes q i)
  then show ?thesis using make_moves_results [OF r c] by blast
next
  case (settles i x c')
  then show ?thesis by simp
qed (auto intro: results_move_frame)

section \<open>What a handle sees\<close>

text \<open>Everything that happens to a queue, as one relation; what the tasks were given to run after goes along.\<close>

inductive queue_goes ::
  "bool \<Rightarrow> (nat \<Rightarrow> nat list) \<Rightarrow> ('k, 't, 'v) queue_state \<Rightarrow> (nat \<Rightarrow> nat list) \<Rightarrow> ('k, 't, 'v) queue_state \<Rightarrow> bool" for quits needs s where
  stays: "queue_goes quits needs s needs s"
| works: "queue_goes quits needs s needs' t \<Longrightarrow> worker_step t u \<Longrightarrow> queue_goes quits needs s needs' u"
| others: "queue_goes quits needs s needs' t \<Longrightarrow> counters_left t \<Longrightarrow> outside_step quits t u \<Longrightarrow> queue_goes quits needs s needs' u"
| submits: "queue_goes quits needs s needs' t \<Longrightarrow> counters_left t \<Longrightarrow> options_ok options t \<Longrightarrow>
    backlog_submit task options t = (r, u) \<Longrightarrow> queue_goes quits needs s (needs'(bl_accepted t := oo_after options)) u"
| enqueues: "queue_goes quits needs s needs' t \<Longrightarrow> counters_left t \<Longrightarrow> options_ok options t \<Longrightarrow>
    backlog_enqueue task options t = (i, u) \<Longrightarrow> queue_goes quits needs s (needs'(bl_accepted t := oo_after options)) u"

lemma reach_goes: "queue_goes quits needs s needs' t \<Longrightarrow> reach quits needs s \<Longrightarrow> reach quits needs' t"
  by (induction rule: queue_goes.induct) (blast intro: reach.works reach.others reach.submits reach.enqueues)+

lemma goes_move_results: "queue_goes quits needs s needs' t \<Longrightarrow> reach quits needs s \<Longrightarrow> results_move s t"
proof (induction rule: queue_goes.induct)
  case stays
  show ?case by (simp add: results_move_frame)
next
  case (works needs' t u)
  then show ?case using worker_moves_results results_move_trans by blast
next
  case (others needs' t u)
  then show ?case using outside_moves_results [OF reach_goes [OF others(1)]] results_move_trans by blast
next
  case (submits needs' t options task r u)
  have "results_move t u"
    using submits(4) queue_moves_results by (auto simp: backlog_submit_def results_move_frame split: if_splits)
  then show ?case using submits results_move_trans by blast
next
  case (enqueues needs' t options task i u)
  obtain j t' where m: "make_result (bl_number t) t = (j, t')" by fastforce
  have "results_move t t'" by (rule make_moves_results [OF reach_goes [OF enqueues(1,6)] enqueues(2) m])
  moreover have "u = t \<or> u = settle_result j Cancel t' \<or> u = backlog_queue options (Some j) None (Some task) t'"
    using enqueues(4) m by (auto simp: backlog_enqueue_def split: if_splits)
  ultimately have "results_move t u"
    using results_move_settle [of t' j Cancel] queue_moves_results [of t' options "Some j" None "Some task"]
    by (auto intro: results_move_trans simp: results_move_frame)
  then show ?case using enqueues results_move_trans by blast
qed

text \<open>C33: A result keeps what it was given: whatever the workers of a queue, its callers and other
  queues do from a state the queue reaches on, a result stays where its handle finds it, under its
  id and its queue; it is pending until it is finished or cancelled, and once it is, its state and
  the value or the error it holds never change again.\<close>

theorem results_settle_once:
  assumes "reach quits needs s" "queue_goes quits needs s needs' t" "bl_results s i = Some r"
  shows "\<exists>r'. bl_results t i = Some r' \<and> rs_id r' = rs_id r \<and> rs_queue r' = rs_queue r \<and> rs_state r \<le> rs_state r' \<and>
    (result_is_finished r \<longrightarrow> r' = r \<and> result_held r' = result_held r) \<and>
    (\<not> result_is_finished r' \<longrightarrow> r' = r \<and> result_held r' = Inl Not_finished)"
proof -
  obtain r' where r': "bl_results t i = Some r'" "moves_on r r'"
    using goes_move_results [OF assms(2,1)] assms(3) unfolding results_move_def by blast
  have "r' = r" if "rs_state r \<noteq> Pending \<or> rs_state r' = Pending"
    using r'(2) that by (auto simp: moves_on_def less_result_state_def)
  then show ?thesis using r' by (auto simp: moves_on_def result_is_finished_def result_held_def)
qed

lemma results_settle_once_witness:
  "\<exists>r. bl_results (snd (backlog_cancel 1 example_3)) 1 = Some r \<and> result_held r = Inr (Some (3, 4))"
proof -
  note simps = example_3_def backlog_done_def take_dependent_orders_def count_off_def count_down_def entry_run_def
    settle_result_def set_activity_def set_loop_def example_2 make_ready_def to_size_t_def hand_sweep_def worker_perform_def
  have r: "bl_results example_3 1 = Some (result_finish (Some (3, 4)) (result_make 1 1))"
    by (simp add: simps)
  have c: "counters_left example_3" by (simp add: counters_left_def simps)
  have "queue_goes True example_needs example_3 example_needs (snd (backlog_cancel 1 example_3))"
    by (rule queue_goes.others [OF queue_goes.stays c], rule outside_step.cancels) (rule prod.collapse [symmetric])
  from results_settle_once [OF example_3_reach this r] show ?thesis
    by (auto simp: result_is_finished_def result_finish_def result_make_def result_held_def)
qed

end
