(* ===== verification/Runloop.thy ===== *)
theory Runloop
  imports Operation
begin

text \<open>
  \<open>src/thread/runloop.cpp\<close>: the state behind a run loop and its operations, and \<open>src/thread/timer.cpp\<close>,
  whose timers install themselves on one.

  An operation that any thread can call is a function on the state, as its body runs under the mutex.
  A running call lets go of the mutex while it waits and while it runs a task or fires a timer. What
  becomes of the state in the meantime, through whatever those and other threads do, is a function of
  a \<open>world\<close>, and so is the time that is read: they are numbered by moments, and each reading and
  each release of the mutex takes the next one. The running calls are partial, as a loop may run
  for ever. An exception that a task or a callback throws ends the call that ran it.
\<close>

section \<open>The state of a loop\<close>

text \<open>A queued task has its place in the order tasks were posted. The flags \<open>_valid\<close> of the timers
  are the ids of those marked invalid.\<close>

record 'k loop_state =
  rl_pending :: "(nat \<times> 'k) list"
  rl_timers :: timer_schedule
  rl_next_sequence :: nat
  rl_depth :: nat
  rl_quit :: bool
  rl_finished :: bool
  rl_invalid :: "nat set"

definition loop_make :: "'k loop_state" where
  "loop_make = \<lparr>rl_pending = [], rl_timers = [], rl_next_sequence = 0, rl_depth = 0, rl_quit = False, rl_finished = False,
     rl_invalid = {}\<rparr>"

text \<open>What a running call runs: a task, or the fire of a timer.\<close>

datatype 'k job = Task 'k | Fire timer_handle

record 'k world =
  wd_clock :: "nat \<Rightarrow> time_point"
  wd_waiting :: "nat \<Rightarrow> 'k loop_state \<Rightarrow> 'k loop_state"
  wd_running :: "nat \<Rightarrow> 'k job \<Rightarrow> 'k loop_state \<Rightarrow> 'k loop_state"
  wd_throws :: "nat \<Rightarrow> 'k job \<Rightarrow> 'k loop_state \<Rightarrow> bool"

definition kNoDeadline :: time_point where
  "kNoDeadline = kMaxDeadline"

section \<open>What any thread can do\<close>

definition loop_enqueue :: "'k option \<Rightarrow> 'k loop_state \<Rightarrow> bool \<times> 'k loop_state" where
  "loop_enqueue task s =
     (case task of
        None \<Rightarrow> (False, s)
      | Some held \<Rightarrow>
          if rl_finished s then (False, s)
          else (True, s\<lparr>rl_pending := rl_pending s @ [(rl_next_sequence s, held)], rl_next_sequence := next_u64 (rl_next_sequence s)\<rparr>))"

definition install_timer :: "timer_handle \<Rightarrow> time_point \<Rightarrow> 'k loop_state \<Rightarrow> bool \<times> 'k loop_state" where
  "install_timer which first_deadline s =
     (if rl_finished s then (False, s)
      else (True, s\<lparr>rl_timers := schedule_install (rl_timers s) which first_deadline\<rparr>))"

definition remove_timer :: "nat \<Rightarrow> 'k loop_state \<Rightarrow> 'k loop_state" where
  "remove_timer which s = s\<lparr>rl_timers := snd (schedule_remove (rl_timers s) which)\<rparr>"

definition loop_quit :: "'k loop_state \<Rightarrow> 'k loop_state" where
  "loop_quit s = s\<lparr>rl_quit := True\<rparr>"

definition loop_clear :: "'k loop_state \<Rightarrow> 'k loop_state" where
  "loop_clear s = s\<lparr>rl_pending := []\<rparr>"

definition mark_invalid :: "nat \<Rightarrow> 'k loop_state \<Rightarrow> 'k loop_state" where
  "mark_invalid which s = s\<lparr>rl_invalid := insert which (rl_invalid s)\<rparr>"

definition loop_finish :: "'k loop_state \<Rightarrow> 'k loop_state" where
  "loop_finish s =
     (let (discarded_timers, timers) = schedule_remove_all (rl_timers s)
      in fold (\<lambda>which. mark_invalid (th_id which)) discarded_timers
           (s\<lparr>rl_finished := True, rl_pending := [], rl_timers := timers\<rparr>))"

definition pending_count :: "'k loop_state \<Rightarrow> nat" where
  "pending_count s = length (rl_pending s)"

definition loop_empty :: "'k loop_state \<Rightarrow> bool" where
  "loop_empty s = (pending_count s = 0)"

definition timer_count :: "'k loop_state \<Rightarrow> nat" where
  "timer_count s = schedule_size (rl_timers s)"

definition is_running :: "'k loop_state \<Rightarrow> bool" where
  "is_running s = (rl_depth s > 0)"

section \<open>Timers\<close>

text \<open>The id of a new timer, and the counter after it.\<close>

definition next_timer_id :: "nat \<Rightarrow> nat \<times> nat" where
  "next_timer_id counter = (counter, next_u64 counter)"

definition timer_valid :: "timer_handle \<Rightarrow> 'k loop_state \<Rightarrow> bool" where
  "timer_valid which s = (th_id which \<notin> rl_invalid s)"

definition timer_invalidate :: "timer_handle \<Rightarrow> 'k loop_state \<Rightarrow> 'k loop_state" where
  "timer_invalidate which s = remove_timer (th_id which) (mark_invalid (th_id which) s)"

definition timer_make ::
  "milliseconds \<Rightarrow> bool \<Rightarrow> bool \<Rightarrow> time_point \<Rightarrow> nat \<Rightarrow> 'k loop_state \<Rightarrow> timer_handle \<times> nat \<times> 'k loop_state" where
  "timer_make interval repeats has_callback now counter s =
     (let (new_id, counter') = next_timer_id counter;
          store = \<lparr>th_id = new_id, th_repeats = repeats, th_interval = interval\<rparr>
      in (store, counter',
          if \<not> has_callback then mark_invalid new_id s
          else let (installed, s') = install_timer store (deadline_after now interval) s
               in if \<not> installed then mark_invalid new_id s' else s'))"

definition timer_repeating ::
  "milliseconds \<Rightarrow> bool \<Rightarrow> time_point \<Rightarrow> nat \<Rightarrow> 'k loop_state \<Rightarrow> timer_handle \<times> nat \<times> 'k loop_state" where
  "timer_repeating interval has_callback = timer_make interval True has_callback"

definition timer_once ::
  "milliseconds \<Rightarrow> bool \<Rightarrow> time_point \<Rightarrow> nat \<Rightarrow> 'k loop_state \<Rightarrow> timer_handle \<times> nat \<times> 'k loop_state" where
  "timer_once delay has_callback = timer_make delay False has_callback"

section \<open>Taking the next piece of work\<close>

record pass =
  ps_boundary :: time_point
  ps_handled :: "nat list"

definition fresh_pass :: "time_point \<Rightarrow> pass" where
  "fresh_pass now = \<lparr>ps_boundary = now, ps_handled = []\<rparr>"

definition take_due_timer ::
  "time_point \<Rightarrow> time_point \<Rightarrow> nat list \<Rightarrow> 'k loop_state \<Rightarrow> 'k job option \<times> nat list \<times> 'k loop_state" where
  "take_due_timer boundary now handled s =
     (let (which, slots, handled') = take_due (rl_timers s) boundary now handled
      in (map_option Fire which, handled', s\<lparr>rl_timers := slots\<rparr>))"

text \<open>One round of the loop of \<open>next\<close>: it returns, goes round again with a fresh pass, or waits.\<close>

datatype 'k round = Returns "'k job option" | Again | Waits time_point

definition next_round ::
  "'k world \<Rightarrow> time_point \<Rightarrow> bool \<Rightarrow> bool \<Rightarrow> pass \<Rightarrow> nat \<Rightarrow> 'k loop_state \<Rightarrow> 'k round \<times> pass \<times> nat \<times> 'k loop_state" where
  "next_round world deadline consume_quit refreshed current_pass n s =
     (if rl_quit s then (Returns None, current_pass, n, if consume_quit then s\<lparr>rl_quit := False\<rparr> else s)
      else let has_timers = (\<not> schedule_empty (rl_timers s));
               (timer_work, handled, s1) =
                 (if has_timers then take_due_timer (ps_boundary current_pass) (wd_clock world n) (ps_handled current_pass) s
                  else (None, ps_handled current_pass, s));
               n1 = (if has_timers then n + 1 else n)
           in if timer_work \<noteq> None then (Returns timer_work, current_pass\<lparr>ps_handled := handled\<rparr>, n1, s1)
              else if rl_pending s1 \<noteq> []
              then (Returns (Some (Task (snd (hd (rl_pending s1))))),
                    if has_timers then fresh_pass (wd_clock world n1) else current_pass,
                    if has_timers then n1 + 1 else n1,
                    s1\<lparr>rl_pending := tl (rl_pending s1)\<rparr>)
              else if has_timers \<and> \<not> refreshed then (Again, fresh_pass (wd_clock world n1), n1 + 1, s1)
              else let wait_deadline = min deadline (schedule_earliest (rl_timers s1))
                   in if wait_deadline \<le> wd_clock world n1 then (Returns None, current_pass, n1 + 1, s1)
                      else (Waits wait_deadline, current_pass, n1 + 1, s1))"

partial_function (option) next_work ::
  "'k world \<Rightarrow> time_point \<Rightarrow> bool \<Rightarrow> bool \<Rightarrow> pass \<Rightarrow> nat \<Rightarrow> 'k loop_state \<Rightarrow> ('k job option \<times> pass \<times> nat \<times> 'k loop_state) option" where
  "next_work world deadline consume_quit refreshed current_pass n s =
     (case next_round world deadline consume_quit refreshed current_pass n s of
        (Returns work, current_pass', n', s') \<Rightarrow> Some (work, current_pass', n', s')
      | (Again, current_pass', n', s') \<Rightarrow> next_work world deadline consume_quit True current_pass' n' s'
      | (Waits wait_deadline, current_pass', n', s') \<Rightarrow>
          next_work world deadline consume_quit False current_pass' (n' + 1) (wd_waiting world n' s'))"

section \<open>The running calls\<close>

text \<open>A call's mark: whether the call is the outermost one, and the state with the call counted.\<close>

definition running_mark :: "'k loop_state \<Rightarrow> bool \<times> 'k loop_state" where
  "running_mark s = (rl_depth s = 0, s\<lparr>rl_depth := rl_depth s + 1\<rparr>)"

definition running_unmark :: "'k loop_state \<Rightarrow> 'k loop_state" where
  "running_unmark s = s\<lparr>rl_depth := rl_depth s - 1\<rparr>"

text \<open>A one-shot timer is invalid once its callback has returned or thrown.\<close>

definition after_fire :: "'k job \<Rightarrow> 'k loop_state \<Rightarrow> 'k loop_state" where
  "after_fire work s =
     (case work of
        Task task \<Rightarrow> s
      | Fire which \<Rightarrow> if th_repeats which then s else mark_invalid (th_id which) s)"

definition run_released :: "'k world \<Rightarrow> nat \<Rightarrow> 'k job \<Rightarrow> 'k loop_state \<Rightarrow> 'k loop_state" where
  "run_released world n work s = after_fire work (wd_running world n work s)"

text \<open>A call returns, or lets an exception through.\<close>

datatype 'a call_end = Ran 'a | Threw

partial_function (option) run_until_loop ::
  "'k world \<Rightarrow> time_point \<Rightarrow> bool \<Rightarrow> nat \<Rightarrow> pass \<Rightarrow> nat \<Rightarrow> 'k loop_state \<Rightarrow> (nat call_end \<times> nat \<times> 'k loop_state) option" where
  "run_until_loop world deadline outermost runs current_pass n s =
     (if \<not> (deadline = kNoDeadline \<or> wd_clock world n < deadline) then Some (Ran runs, n + 1, s)
      else Option.bind (next_work world deadline outermost False current_pass (if deadline = kNoDeadline then n else n + 1) s)
        (\<lambda>(work, current_pass', n', s').
          case work of
            None \<Rightarrow> Some (Ran runs, n', s')
          | Some job \<Rightarrow>
              if wd_throws world n' job s' then Some (Threw, n' + 1, run_released world n' job s')
              else run_until_loop world deadline outermost (runs + 1) current_pass' (n' + 1) (run_released world n' job s')))"

definition run_until :: "'k world \<Rightarrow> time_point \<Rightarrow> nat \<Rightarrow> 'k loop_state \<Rightarrow> (nat call_end \<times> nat \<times> 'k loop_state) option" where
  "run_until world deadline n s =
     (let (outermost, s') = running_mark s
      in map_option (\<lambda>(runs, n', s'). (runs, n', running_unmark s'))
           (run_until_loop world deadline outermost 0 (fresh_pass (wd_clock world n)) (n + 1) s'))"

definition loop_run :: "'k world \<Rightarrow> nat \<Rightarrow> 'k loop_state \<Rightarrow> (nat call_end \<times> nat \<times> 'k loop_state) option" where
  "loop_run world n s = run_until world kNoDeadline n s"

definition run_for :: "'k world \<Rightarrow> milliseconds \<Rightarrow> nat \<Rightarrow> 'k loop_state \<Rightarrow> (nat call_end \<times> nat \<times> 'k loop_state) option" where
  "run_for world timeout n s = run_until world (deadline_after (wd_clock world n) timeout) (n + 1) s"

definition run_one :: "'k world \<Rightarrow> nat \<Rightarrow> 'k loop_state \<Rightarrow> (bool call_end \<times> nat \<times> 'k loop_state) option" where
  "run_one world n s =
     (let (outermost, s') = running_mark s
      in map_option (\<lambda>(work, current_pass, n', s').
             case work of
               None \<Rightarrow> (Ran False, n', running_unmark s')
             | Some job \<Rightarrow>
                 (if wd_throws world n' job s' then Threw else Ran True, n' + 1, running_unmark (run_released world n' job s')))
           (next_work world kNoDeadline outermost False (fresh_pass (wd_clock world n)) (n + 1) s'))"

text \<open>The two loops of \<open>run_pending\<close>.\<close>

partial_function (option) run_due_loop ::
  "'k world \<Rightarrow> time_point \<Rightarrow> nat list \<Rightarrow> nat \<Rightarrow> nat \<Rightarrow> 'k loop_state \<Rightarrow> (nat call_end \<times> nat \<times> 'k loop_state) option" where
  "run_due_loop world boundary handled runs n s =
     (case take_due_timer boundary (wd_clock world n) handled s of
        (None, handled', s') \<Rightarrow> Some (Ran runs, n + 1, s')
      | (Some job, handled', s') \<Rightarrow>
          if wd_throws world (n + 1) job s' then Some (Threw, n + 2, run_released world (n + 1) job s')
          else run_due_loop world boundary handled' (runs + 1) (n + 2) (run_released world (n + 1) job s'))"

partial_function (option) run_queued_loop ::
  "'k world \<Rightarrow> nat \<Rightarrow> nat \<Rightarrow> nat \<Rightarrow> 'k loop_state \<Rightarrow> (nat call_end \<times> nat \<times> 'k loop_state) option" where
  "run_queued_loop world limit runs n s =
     (if rl_pending s \<noteq> [] \<and> fst (hd (rl_pending s)) < limit
      then let job = Task (snd (hd (rl_pending s)));
               s' = s\<lparr>rl_pending := tl (rl_pending s)\<rparr>
           in if wd_throws world n job s' then Some (Threw, n + 1, run_released world n job s')
              else run_queued_loop world limit (runs + 1) (n + 1) (run_released world n job s')
      else Some (Ran runs, n, s))"

definition run_pending :: "'k world \<Rightarrow> nat \<Rightarrow> 'k loop_state \<Rightarrow> (nat call_end \<times> nat \<times> 'k loop_state) option" where
  "run_pending world n s =
     (let (outermost, s') = running_mark s;
          boundary = wd_clock world n;
          limit = rl_next_sequence s'
      in Option.bind (run_due_loop world boundary [] 0 (n + 1) s') (\<lambda>(result, n1, s1).
           case result of
             Threw \<Rightarrow> Some (Threw, n1, running_unmark s1)
           | Ran runs \<Rightarrow>
               map_option (\<lambda>(result', n2, s2). (result', n2, running_unmark s2)) (run_queued_loop world limit runs n1 s1)))"

end
