(* ===== verification/Thread.thy ===== *)
theory Thread
  imports Runloop
begin

text \<open>
  \<open>src/thread/thread.cpp\<close>: the records behind thread handles, the registry of the threads alive and
  the record each thread is named by; and the parts of \<open>src/thread/runloop.cpp\<close> and
  \<open>src/thread/teardown.h\<close> that give each thread its run loop.

  An operating system thread is a number that is its own, while its kernel id may be used again
  once it has ended; which thread calls is an argument. What the system answers is a parameter.
\<close>

section \<open>The state of the process\<close>

record system =
  sy_thread_id :: "nat \<Rightarrow> nat"
  sy_main :: nat
  sy_main_thread_id :: "nat \<Rightarrow> nat option"

text \<open>A loop belongs to the main thread or to another one, or is the one that is already finished,
  which the threads whose own loop is gone share.\<close>

datatype loop_name = Main_loop | Loop_of nat | Finished_loop

record thread_record =
  tr_published :: bool
  tr_finished :: bool
  tr_is_main :: bool
  tr_native_id :: "nat option"
  tr_loop :: "loop_name option"
  tr_stop_requested :: bool

text \<open>\<open>pr_holders\<close> are the records in the slots of the threads, \<open>pr_loop_holders\<close> the threads that have
  asked for their loop; of the threads in \<open>pr_torn_down\<close> and \<open>pr_loops_torn_down\<close> these are gone. A thread in
  \<open>pr_leaving\<close> is in the destructor of its record's holder, between taking the record off the registry and
  marking it finished: other threads see the process there, for the two are done under different mutexes.\<close>

record 'k process =
  pr_records :: "nat \<rightharpoonup> thread_record"
  pr_next_record :: nat
  pr_registry :: "nat list"
  pr_main :: "nat option"
  pr_placeholder :: "nat option"
  pr_holders :: "nat \<rightharpoonup> nat"
  pr_leaving :: "nat set"
  pr_torn_down :: "nat set"
  pr_loops :: "loop_name \<Rightarrow> 'k loop_state"
  pr_loop_holders :: "nat set"
  pr_loops_torn_down :: "nat set"

definition process_start :: "'k process" where
  "process_start = \<lparr>pr_records = Map.empty, pr_next_record = 0, pr_registry = [], pr_main = None, pr_placeholder = None,
     pr_holders = Map.empty, pr_leaving = {}, pr_torn_down = {}, pr_loops = (\<lambda>name. if name = Finished_loop then loop_finish loop_make else loop_make),
     pr_loop_holders = {}, pr_loops_torn_down = {}\<rparr>"

definition change_record :: "nat \<Rightarrow> (thread_record \<Rightarrow> thread_record) \<Rightarrow> 'k process \<Rightarrow> 'k process" where
  "change_record self f p = p\<lparr>pr_records := (pr_records p)(self := map_option f (pr_records p self))\<rparr>"

definition change_loop :: "loop_name \<Rightarrow> ('k loop_state \<Rightarrow> 'k loop_state) \<Rightarrow> 'k process \<Rightarrow> 'k process" where
  "change_loop name f p = p\<lparr>pr_loops := (pr_loops p)(name := f (pr_loops p name))\<rparr>"

section \<open>The loop of a thread\<close>

definition loop_for :: "system \<Rightarrow> nat \<Rightarrow> loop_name" where
  "loop_for system me = (if me = sy_main system then Main_loop else Loop_of me)"

definition current_runloop :: "system \<Rightarrow> nat \<Rightarrow> 'k process \<Rightarrow> loop_name \<times> 'k process" where
  "current_runloop system me p =
     (if me \<in> pr_loops_torn_down p then (Finished_loop, p)
      else (loop_for system me, p\<lparr>pr_loop_holders := insert me (pr_loop_holders p)\<rparr>))"

definition main_runloop :: "system \<Rightarrow> nat \<Rightarrow> 'k process \<Rightarrow> loop_name \<times> 'k process" where
  "main_runloop system me p = (if me = sy_main system then current_runloop system me p else (Main_loop, p))"

text \<open>The destructor of the holder of a thread's loop.\<close>

definition loop_holder_ends :: "system \<Rightarrow> nat \<Rightarrow> 'k process \<Rightarrow> 'k process" where
  "loop_holder_ends system me p =
     change_loop (loop_for system me) loop_finish (p\<lparr>pr_loops_torn_down := insert me (pr_loops_torn_down p)\<rparr>)"

section \<open>The records\<close>

definition make_record :: "'k process \<Rightarrow> nat \<times> 'k process" where
  "make_record p =
     (pr_next_record p,
      p\<lparr>pr_records := (pr_records p)(pr_next_record p \<mapsto>
          \<lparr>tr_published = False, tr_finished = False, tr_is_main = False, tr_native_id = None, tr_loop = None,
           tr_stop_requested = False\<rparr>),
        pr_next_record := pr_next_record p + 1\<rparr>)"

definition register_self :: "nat \<Rightarrow> 'k process \<Rightarrow> 'k process" where
  "register_self self p = p\<lparr>pr_registry := pr_registry p @ [self]\<rparr>"

definition deregister :: "nat \<Rightarrow> 'k process \<Rightarrow> 'k process" where
  "deregister self p = p\<lparr>pr_registry := filter (\<lambda>entry. entry \<noteq> self) (pr_registry p)\<rparr>"

text \<open>The two parts of \<open>finish\<close>, each under a mutex of its own. The record of the placeholder goes through both
  before any other thread can see it.\<close>

definition mark_finished :: "nat \<Rightarrow> 'k process \<Rightarrow> 'k process" where
  "mark_finished self = change_record self (\<lambda>r. r\<lparr>tr_finished := True\<rparr>)"

definition record_finish :: "nat \<Rightarrow> 'k process \<Rightarrow> 'k process" where
  "record_finish self p = mark_finished self (deregister self p)"

definition set_native_id :: "nat \<Rightarrow> nat \<Rightarrow> 'k process \<Rightarrow> 'k process" where
  "set_native_id self native = change_record self (\<lambda>r. r\<lparr>tr_native_id := Some native\<rparr>)"

definition ensure_native_id_known :: "system \<Rightarrow> nat \<Rightarrow> nat \<Rightarrow> 'k process \<Rightarrow> 'k process" where
  "ensure_native_id_known system me self =
     change_record self (\<lambda>r. if tr_native_id r = None then r\<lparr>tr_native_id := Some (sy_thread_id system me)\<rparr> else r)"

definition set_record_loop :: "nat \<Rightarrow> loop_name \<Rightarrow> 'k process \<Rightarrow> 'k process" where
  "set_record_loop self name = change_record self (\<lambda>r. r\<lparr>tr_loop := Some name\<rparr>)"

definition install_holder :: "nat \<Rightarrow> nat \<Rightarrow> 'k process \<Rightarrow> 'k process" where
  "install_holder me self p = p\<lparr>pr_holders := (pr_holders p)(me \<mapsto> self)\<rparr>"

text \<open>The destructor of the holder of a thread's record: \<open>finish\<close> in its two parts, between which other threads
  run, and then the flag that only the thread itself reads.\<close>

definition holder_leaves :: "nat \<Rightarrow> 'k process \<Rightarrow> 'k process" where
  "holder_leaves me p =
     (let p' = (case pr_holders p me of None \<Rightarrow> p | Some self \<Rightarrow> deregister self p)
      in p'\<lparr>pr_leaving := insert me (pr_leaving p')\<rparr>)"

definition holder_finishes :: "nat \<Rightarrow> 'k process \<Rightarrow> 'k process" where
  "holder_finishes me p =
     (let p' = (case pr_holders p me of None \<Rightarrow> p | Some self \<Rightarrow> mark_finished self p)
      in p'\<lparr>pr_torn_down := insert me (pr_torn_down p'), pr_leaving := pr_leaving p' - {me}\<rparr>)"

section \<open>Starting threads\<close>

text \<open>What a new thread does until it is published.\<close>

definition run_on_new_thread :: "system \<Rightarrow> nat \<Rightarrow> nat \<Rightarrow> bool \<Rightarrow> 'k process \<Rightarrow> 'k process" where
  "run_on_new_thread system me self run_loop p =
     (let p1 = set_native_id self (sy_thread_id system me) (install_holder me self p);
          p2 = (if run_loop then let (name, p') = current_runloop system me p1 in set_record_loop self name p' else p1)
      in change_record self (\<lambda>r. r\<lparr>tr_published := True\<rparr>) (register_self self p2))"

text \<open>\<open>me\<close> is the new thread; the caller goes on once it is published.\<close>

definition thread_start :: "system \<Rightarrow> nat \<Rightarrow> bool \<Rightarrow> 'k process \<Rightarrow> nat \<times> 'k process" where
  "thread_start system me run_loop p =
     (let (self, p') = make_record p in (self, run_on_new_thread system me self run_loop p'))"

definition start_loop_thread :: "system \<Rightarrow> nat \<Rightarrow> 'k process \<Rightarrow> nat \<times> 'k process" where
  "start_loop_thread system me p = thread_start system me True p"

definition start_one_shot_thread :: "system \<Rightarrow> nat \<Rightarrow> 'k process \<Rightarrow> nat \<times> 'k process" where
  "start_one_shot_thread system me p = thread_start system me False p"

section \<open>Naming threads\<close>

definition make_adopted :: "system \<Rightarrow> nat \<Rightarrow> 'k process \<Rightarrow> nat \<times> 'k process" where
  "make_adopted system me p =
     (let (self, p1) = make_record p;
          (name, p2) = current_runloop system me (set_native_id self (sy_thread_id system me) p1)
      in (self, register_self self (set_record_loop self name p2)))"

definition main_thread_storage :: "system \<Rightarrow> nat \<Rightarrow> 'k process \<Rightarrow> nat \<times> 'k process" where
  "main_thread_storage system me p =
     (case pr_main p of
        Some the_main \<Rightarrow> (the_main, p)
      | None \<Rightarrow>
          let (self, p1) = make_record p;
              p2 = change_record self (\<lambda>r. r\<lparr>tr_is_main := True\<rparr>) p1;
              p3 = (case sy_main_thread_id system me of None \<Rightarrow> p2 | Some native \<Rightarrow> set_native_id self native p2);
              (name, p4) = main_runloop system me p3
          in (self, (register_self self (set_record_loop self name p4))\<lparr>pr_main := Some self\<rparr>))"

definition thread_placeholder :: "'k process \<Rightarrow> nat \<times> 'k process" where
  "thread_placeholder p =
     (case pr_placeholder p of
        Some the_one \<Rightarrow> (the_one, p)
      | None \<Rightarrow> let (self, p') = make_record p in (self, (record_finish self p')\<lparr>pr_placeholder := Some self\<rparr>))"

definition current_thread :: "system \<Rightarrow> nat \<Rightarrow> 'k process \<Rightarrow> nat \<times> 'k process" where
  "current_thread system me p =
     (if me \<in> pr_torn_down p then thread_placeholder p
      else case pr_holders p me of
          Some existing \<Rightarrow> (existing, p)
        | None \<Rightarrow>
            let (self, p') =
                  (if me = sy_main system
                   then let (self, p1) = main_thread_storage system me p in (self, ensure_native_id_known system me self p1)
                   else make_adopted system me p)
            in (self, install_holder me self p'))"

definition main_thread :: "system \<Rightarrow> nat \<Rightarrow> 'k process \<Rightarrow> nat \<times> 'k process" where
  "main_thread system me p =
     (if me = sy_main system then current_thread system me p else main_thread_storage system me p)"

definition all_threads :: "'k process \<Rightarrow> nat list" where
  "all_threads p = pr_registry p"

section \<open>What a handle does\<close>

definition the_record :: "nat \<Rightarrow> 'k process \<Rightarrow> thread_record" where
  "the_record self p =
     (case pr_records p self of
        Some r \<Rightarrow> r
      | None \<Rightarrow> \<lparr>tr_published = False, tr_finished = True, tr_is_main = False, tr_native_id = None, tr_loop = None,
          tr_stop_requested = False\<rparr>)"

definition thread_finished :: "nat \<Rightarrow> 'k process \<Rightarrow> bool" where
  "thread_finished self p = tr_finished (the_record self p)"

definition thread_running :: "nat \<Rightarrow> 'k process \<Rightarrow> bool" where
  "thread_running self p = (\<not> tr_finished (the_record self p))"

definition thread_perform :: "nat \<Rightarrow> 'k option \<Rightarrow> 'k process \<Rightarrow> bool \<times> 'k process" where
  "thread_perform self task p =
     (if thread_finished self p then (False, p)
      else case tr_loop (the_record self p) of
          None \<Rightarrow> (False, p)
        | Some name \<Rightarrow>
            let (queued, l) = loop_enqueue task (pr_loops p name) in (queued, p\<lparr>pr_loops := (pr_loops p)(name := l)\<rparr>))"

definition thread_quit :: "nat \<Rightarrow> 'k process \<Rightarrow> 'k process" where
  "thread_quit self p = (case tr_loop (the_record self p) of None \<Rightarrow> p | Some name \<Rightarrow> change_loop name loop_quit p)"

definition thread_cancel :: "nat \<Rightarrow> 'k process \<Rightarrow> 'k process" where
  "thread_cancel self = change_record self (\<lambda>r. r\<lparr>tr_stop_requested := True\<rparr>)"

definition thread_stop_requested :: "nat \<Rightarrow> 'k process \<Rightarrow> bool" where
  "thread_stop_requested self p = tr_stop_requested (the_record self p)"

definition is_current :: "system \<Rightarrow> nat \<Rightarrow> nat \<Rightarrow> 'k process \<Rightarrow> bool" where
  "is_current system me self p =
     (if tr_is_main (the_record self p) then me = sy_main system
      else tr_native_id (the_record self p) = Some (sy_thread_id system me))"

definition thread_native_id :: "nat \<Rightarrow> 'k process \<Rightarrow> nat option" where
  "thread_native_id self p = tr_native_id (the_record self p)"

text \<open>\<open>world\<close> is what a wait sees, as for results.\<close>

partial_function (option) join_loop :: "nat \<Rightarrow> (nat \<Rightarrow> 'k process) \<Rightarrow> nat \<Rightarrow> nat option" where
  "join_loop self world n = (if \<not> thread_finished self (world n) then join_loop self world (n + 1) else Some n)"

definition thread_join :: "system \<Rightarrow> nat \<Rightarrow> nat \<Rightarrow> (nat \<Rightarrow> 'k process) \<Rightarrow> nat option" where
  "thread_join system me self world = (if is_current system me self (world 0) then Some 0 else join_loop self world 0)"

definition thread_join_for ::
  "system \<Rightarrow> nat \<Rightarrow> nat \<Rightarrow> milliseconds \<Rightarrow> time_point \<Rightarrow> (nat \<Rightarrow> 'k process \<times> time_point) \<Rightarrow> bool option" where
  "thread_join_for system me self timeout start world =
     (if is_current system me self (fst (world 0)) then Some (thread_finished self (fst (world 0)))
      else timed_wait (thread_finished self) True timeout start world)"

end
