(* ===== verification/Thread_Laws.thy ===== *)
theory Thread_Laws
  imports Thread
begin

text \<open>
  What the records of threads promise: the registry holds exactly the threads alive, each thread has
  one record for as long as it lives, and a thread that has ended stays so.
\<close>

section \<open>What the operations do to the records\<close>

lemma change_frame [simp]:
  "pr_records (change_record self f p) = (pr_records p)(self := map_option f (pr_records p self))"
  "pr_next_record (change_record self f p) = pr_next_record p" "pr_registry (change_record self f p) = pr_registry p"
  "pr_main (change_record self f p) = pr_main p" "pr_placeholder (change_record self f p) = pr_placeholder p"
  "pr_holders (change_record self f p) = pr_holders p" "pr_leaving (change_record self f p) = pr_leaving p"
  "pr_torn_down (change_record self f p) = pr_torn_down p"
  "pr_loops_torn_down (change_record self f p) = pr_loops_torn_down p"
  "pr_records (change_loop name g p) = pr_records p" "pr_next_record (change_loop name g p) = pr_next_record p"
  "pr_registry (change_loop name g p) = pr_registry p" "pr_main (change_loop name g p) = pr_main p"
  "pr_placeholder (change_loop name g p) = pr_placeholder p" "pr_holders (change_loop name g p) = pr_holders p"
  "pr_leaving (change_loop name g p) = pr_leaving p" "pr_torn_down (change_loop name g p) = pr_torn_down p"
  by (simp_all add: change_record_def change_loop_def)

lemma runloop_frame:
  assumes "current_runloop system me p = (name, q) \<or> main_runloop system me p = (name, q)"
  shows "pr_records q = pr_records p" "pr_next_record q = pr_next_record p" "pr_registry q = pr_registry p"
    "pr_main q = pr_main p" "pr_placeholder q = pr_placeholder p" "pr_holders q = pr_holders p" "pr_leaving q = pr_leaving p"
    "pr_torn_down q = pr_torn_down p"
  using assms by (auto simp: current_runloop_def main_runloop_def split: if_splits)

text \<open>A new record, in the registry.\<close>

definition adds :: "nat \<Rightarrow> thread_record \<Rightarrow> 'k process \<Rightarrow> 'k process \<Rightarrow> bool" where
  "adds self r p q =
     (self = pr_next_record p \<and> pr_records q = (pr_records p)(self \<mapsto> r) \<and> pr_next_record q = pr_next_record p + 1 \<and>
      pr_registry q = pr_registry p @ [self] \<and> \<not> tr_finished r \<and> pr_placeholder q = pr_placeholder p \<and> pr_leaving q = pr_leaving p \<and> pr_torn_down q = pr_torn_down p)"

lemma start_adds:
  assumes "thread_start system me run_loop p = (self, q)"
  shows "\<exists>r. adds self r p q \<and> \<not> tr_is_main r \<and> tr_native_id r = Some (sy_thread_id system me)"
    "pr_main q = pr_main p" "pr_holders q = (pr_holders p)(me \<mapsto> self)"
proof -
  obtain name u where u: "current_runloop system me (set_native_id (pr_next_record p) (sy_thread_id system me)
      (install_holder me (pr_next_record p) (snd (make_record p)))) = (name, u)" by fastforce
  show "\<exists>r. adds self r p q \<and> \<not> tr_is_main r \<and> tr_native_id r = Some (sy_thread_id system me)"
    "pr_main q = pr_main p" "pr_holders q = (pr_holders p)(me \<mapsto> self)"
    using assms u runloop_frame [OF disjI1, OF u]
    by (auto simp: thread_start_def make_record_def run_on_new_thread_def Let_def register_self_def set_native_id_def install_holder_def
        set_record_loop_def adds_def split: if_splits)
qed

lemma adopted_adds:
  assumes "make_adopted system me p = (self, q)"
  shows "\<exists>r. adds self r p q \<and> \<not> tr_is_main r \<and> tr_native_id r = Some (sy_thread_id system me)"
    "pr_main q = pr_main p" "pr_holders q = pr_holders p"
proof -
  obtain name u where u: "current_runloop system me (set_native_id (pr_next_record p) (sy_thread_id system me) (snd (make_record p))) = (name, u)"
    by fastforce
  show "\<exists>r. adds self r p q \<and> \<not> tr_is_main r \<and> tr_native_id r = Some (sy_thread_id system me)"
    "pr_main q = pr_main p" "pr_holders q = pr_holders p"
    using assms u runloop_frame [OF disjI1, OF u]
    by (auto simp: make_adopted_def make_record_def Let_def register_self_def set_native_id_def set_record_loop_def adds_def)
qed

lemma main_storage_adds:
  assumes "main_thread_storage system me p = (self, q)" "pr_main p = None"
  shows "\<exists>r. adds self r p q \<and> tr_is_main r" "pr_main q = Some self" "pr_holders q = pr_holders p"
proof -
  let ?p = "change_record (pr_next_record p) (\<lambda>r. r\<lparr>tr_is_main := True\<rparr>) (snd (make_record p))"
  obtain name u where u: "main_runloop system me (case sy_main_thread_id system me of None \<Rightarrow> ?p
      | Some native \<Rightarrow> set_native_id (pr_next_record p) native ?p) = (name, u)" by fastforce
  show "\<exists>r. adds self r p q \<and> tr_is_main r" "pr_main q = Some self" "pr_holders q = pr_holders p"
    using assms u runloop_frame [OF disjI2, OF u]
    by (auto simp: main_thread_storage_def make_record_def Let_def register_self_def set_native_id_def set_record_loop_def adds_def
        split: option.splits)
qed

section \<open>The records of the threads\<close>

text \<open>A record is being left when its thread is in the destructor of the slot that holds it.\<close>

definition left_by :: "nat \<Rightarrow> 'k process \<Rightarrow> bool" where
  "left_by self p = (\<exists>me \<in> pr_leaving p. pr_holders p me = Some self)"

definition threads_ok :: "system \<Rightarrow> 'k process \<Rightarrow> bool" where
  "threads_ok system p =
     (distinct (pr_registry p) \<and>
      (\<forall>self. self \<in> set (pr_registry p) \<longleftrightarrow> (\<exists>r. pr_records p self = Some r \<and> \<not> tr_finished r) \<and> \<not> left_by self p) \<and>
      (\<forall>self r. pr_records p self = Some r \<longrightarrow> self < pr_next_record p \<and> (tr_is_main r \<longleftrightarrow> pr_main p = Some self)) \<and>
      (\<forall>me self. pr_holders p me = Some self \<longrightarrow>
        (\<exists>r. pr_records p self = Some r \<and> (tr_finished r \<longleftrightarrow> me \<in> pr_torn_down p) \<and> (tr_is_main r \<longleftrightarrow> me = sy_main system) \<and>
          (me \<noteq> sy_main system \<longrightarrow> tr_native_id r = Some (sy_thread_id system me)))) \<and>
      (\<forall>me you self. pr_holders p me = Some self \<longrightarrow> pr_holders p you = Some self \<longrightarrow> me = you) \<and>
      (\<forall>self. pr_main p = Some self \<longrightarrow>
        (\<exists>r. pr_records p self = Some r \<and> (tr_finished r \<longrightarrow> pr_holders p (sy_main system) = Some self))) \<and>
      (\<forall>self. pr_placeholder p = Some self \<longrightarrow>
        (\<exists>r. pr_records p self = Some r \<and> tr_finished r \<and> \<not> tr_is_main r \<and> self \<notin> ran (pr_holders p))) \<and>
      (\<forall>me. me \<in> pr_leaving p \<longrightarrow> me \<notin> pr_torn_down p))"

lemma threads_okD:
  assumes "threads_ok system p"
  shows "distinct (pr_registry p)"
    "self \<in> set (pr_registry p) \<longleftrightarrow> (\<exists>r. pr_records p self = Some r \<and> \<not> tr_finished r) \<and> \<not> left_by self p"
    "pr_records p self = Some r \<Longrightarrow> self < pr_next_record p \<and> (tr_is_main r \<longleftrightarrow> pr_main p = Some self)"
    "pr_holders p me = Some self \<Longrightarrow> \<exists>r. pr_records p self = Some r \<and> (tr_finished r \<longleftrightarrow> me \<in> pr_torn_down p) \<and>
      (tr_is_main r \<longleftrightarrow> me = sy_main system) \<and> (me \<noteq> sy_main system \<longrightarrow> tr_native_id r = Some (sy_thread_id system me))"
    "pr_holders p me = Some self \<Longrightarrow> pr_holders p you = Some self \<Longrightarrow> me = you"
    "pr_main p = Some self \<Longrightarrow> \<exists>r. pr_records p self = Some r \<and> (tr_finished r \<longrightarrow> pr_holders p (sy_main system) = Some self)"
    "pr_placeholder p = Some self \<Longrightarrow> \<exists>r. pr_records p self = Some r \<and> tr_finished r \<and> \<not> tr_is_main r \<and> self \<notin> ran (pr_holders p)"
    "me \<in> pr_leaving p \<Longrightarrow> me \<notin> pr_torn_down p"
  using assms unfolding threads_ok_def by simp_all

lemma next_unused: "threads_ok system p \<Longrightarrow> pr_records p (pr_next_record p) = None"
  using threads_okD(3) [of system p "pr_next_record p"] by (cases "pr_records p (pr_next_record p)") auto

lemma holder_used: "threads_ok system p \<Longrightarrow> pr_holders p me = Some self \<Longrightarrow> self \<noteq> pr_next_record p"
  using next_unused threads_okD(4) by fastforce

lemma threads_ok_frame:
  assumes "pr_records q = pr_records p" "pr_next_record q = pr_next_record p" "pr_registry q = pr_registry p"
    "pr_main q = pr_main p" "pr_placeholder q = pr_placeholder p" "pr_holders q = pr_holders p" "pr_leaving q = pr_leaving p"
    "pr_torn_down q = pr_torn_down p"
  shows "threads_ok system q = threads_ok system p"
  using assms by (simp add: threads_ok_def left_by_def)

lemma adds_ok:
  assumes ok: "threads_ok system p" and a: "adds self r p q" and h: "pr_holders q = pr_holders p"
    and m: "if tr_is_main r then pr_main p = None \<and> pr_main q = Some self else pr_main q = pr_main p"
  shows "threads_ok system q"
proof -
  note n = next_unused [OF ok]
  have q: "self = pr_next_record p" "pr_records q = (pr_records p)(self \<mapsto> r)" "pr_next_record q = pr_next_record p + 1"
    "pr_registry q = pr_registry p @ [self]" "\<not> tr_finished r" "pr_placeholder q = pr_placeholder p" "pr_torn_down q = pr_torn_down p"
    "pr_leaving q = pr_leaving p"
    using a by (simp_all add: adds_def)
  have left: "left_by v q = left_by v p" for v by (simp add: left_by_def h q(8))
  have main: "pr_main p \<noteq> Some self" using threads_okD(6) [OF ok, of self] n q(1) by auto
  have held: "pr_holders p v \<noteq> Some self" for v using threads_okD(4) [OF ok, of v self] n q(1) by auto
  have "self \<notin> set (pr_registry p)" using threads_okD(2) [OF ok, of self] n q(1) by simp
  then have 1: "distinct (pr_registry q)" using threads_okD(1) [OF ok] q(4) by simp
  have "\<not> left_by self p" using held by (simp add: left_by_def)
  then have 2: "v \<in> set (pr_registry q) \<longleftrightarrow> (\<exists>x. pr_records q v = Some x \<and> \<not> tr_finished x) \<and> \<not> left_by v q" for v
    using threads_okD(2) [OF ok, of v] q(2,4,5) by (auto simp: left)
  have 3: "v < pr_next_record q \<and> (tr_is_main x \<longleftrightarrow> pr_main q = Some v)" if "pr_records q v = Some x" for v x
    using threads_okD(3) [OF ok, of v x] that q(1-3) m main by (auto split: if_splits)
  have 4: "\<exists>x. pr_records q v = Some x \<and> (tr_finished x \<longleftrightarrow> me \<in> pr_torn_down q) \<and> (tr_is_main x \<longleftrightarrow> me = sy_main system) \<and>
      (me \<noteq> sy_main system \<longrightarrow> tr_native_id x = Some (sy_thread_id system me))" if "pr_holders q me = Some v" for me v
    using threads_okD(4) [OF ok, of me v] that held [of me] by (auto simp: q(2,7) h)
  have 6: "\<exists>x. pr_records q v = Some x \<and> (tr_finished x \<longrightarrow> pr_holders q (sy_main system) = Some v)" if "pr_main q = Some v" for v
  proof (cases "v = self")
    case False
    then have "pr_main p = Some v" using that m by (auto split: if_splits)
    then show ?thesis using threads_okD(6) [OF ok, of v] False by (simp add: q(2) h)
  qed (simp add: q(2,5))
  have 7: "\<exists>x. pr_records q v = Some x \<and> tr_finished x \<and> \<not> tr_is_main x \<and> v \<notin> ran (pr_holders q)" if "pr_placeholder q = Some v" for v
    using threads_okD(7) [OF ok, of v] that n q(1) by (auto simp: q(2,6) h)
  show ?thesis unfolding threads_ok_def using 1 2 3 4 6 7 threads_okD(5,8) [OF ok] unfolding h q(7,8) by blast
qed

lemma install_ok:
  assumes ok: "threads_ok system p" and r: "pr_records p self = Some r" "\<not> tr_finished r" "tr_is_main r \<longleftrightarrow> me = sy_main system"
      "me \<noteq> sy_main system \<Longrightarrow> tr_native_id r = Some (sy_thread_id system me)"
    and h: "pr_holders p me = None" "me \<notin> pr_torn_down p" "\<And>you. pr_holders p you \<noteq> Some self" "me \<notin> pr_leaving p"
  shows "threads_ok system (install_holder me self p)"
proof -
  let ?q = "install_holder me self p"
  have q: "pr_records ?q = pr_records p" "pr_next_record ?q = pr_next_record p" "pr_registry ?q = pr_registry p" "pr_main ?q = pr_main p"
    "pr_placeholder ?q = pr_placeholder p" "pr_holders ?q = (pr_holders p)(me \<mapsto> self)" "pr_torn_down ?q = pr_torn_down p"
    "pr_leaving ?q = pr_leaving p"
    by (simp_all add: install_holder_def)
  have left: "left_by v ?q = left_by v p" for v using h(4) unfolding left_by_def q(6,8) by (auto simp: fun_upd_def)
  have 4: "\<exists>x. pr_records ?q v = Some x \<and> (tr_finished x \<longleftrightarrow> you \<in> pr_torn_down ?q) \<and> (tr_is_main x \<longleftrightarrow> you = sy_main system) \<and>
      (you \<noteq> sy_main system \<longrightarrow> tr_native_id x = Some (sy_thread_id system you))" if "pr_holders ?q you = Some v" for you v
    using threads_okD(4) [OF ok, of you v] that r h(2) by (auto simp: q split: if_splits)
  have 5: "you = them" if "pr_holders ?q you = Some v" "pr_holders ?q them = Some v" for you them v
    using threads_okD(5) [OF ok, of you v them] that h(3) by (auto simp: q split: if_splits)
  have 6: "\<exists>x. pr_records ?q v = Some x \<and> (tr_finished x \<longrightarrow> pr_holders ?q (sy_main system) = Some v)" if "pr_main ?q = Some v" for v
    using threads_okD(6) [OF ok, of v] that h(1) by (auto simp: q)
  have 7: "\<exists>x. pr_records ?q v = Some x \<and> tr_finished x \<and> \<not> tr_is_main x \<and> v \<notin> ran (pr_holders ?q)" if "pr_placeholder ?q = Some v" for v
    using threads_okD(7) [OF ok, of v] that r(1,2) h(1) by (auto simp: q ran_def)
  show ?thesis unfolding threads_ok_def
    using 4 5 6 7 threads_okD(1,2,3,8) [OF ok] unfolding q(1-5,7,8) left by blast
qed

text \<open>What threads do, one step each: with the loops, which leave the slots and the registry alone, and with
  the records. Only the thread itself starts it, names it or ends it, and it does neither while it is in the
  destructor of its slot.\<close>

inductive loops_step :: "system \<Rightarrow> 'k process \<Rightarrow> 'k process \<Rightarrow> bool" for system where
  asks_loop: "current_runloop system me p = (name, q) \<Longrightarrow> loops_step system p q"
| asks_main_loop: "main_runloop system me p = (name, q) \<Longrightarrow> loops_step system p q"
| ends_loop: "loops_step system p (loop_holder_ends system me p)"
| performs: "thread_perform self task p = (r, q) \<Longrightarrow> loops_step system p q"
| quits: "loops_step system p (thread_quit self p)"
| cancels: "loops_step system p (thread_cancel self p)"
| changes: "loops_step system p (change_loop name f p)"

inductive process_step :: "system \<Rightarrow> 'k process \<Rightarrow> 'k process \<Rightarrow> bool" for system where
  starts: "pr_holders p me = None \<Longrightarrow> me \<notin> pr_leaving p \<Longrightarrow> me \<notin> pr_torn_down p \<Longrightarrow> me \<noteq> sy_main system \<Longrightarrow>
    thread_start system me run_loop p = (self, q) \<Longrightarrow> process_step system p q"
| names: "me \<notin> pr_leaving p \<Longrightarrow> current_thread system me p = (self, q) \<Longrightarrow> process_step system p q"
| names_main: "me \<notin> pr_leaving p \<Longrightarrow> main_thread system me p = (self, q) \<Longrightarrow> process_step system p q"
| leaves: "me \<notin> pr_leaving p \<Longrightarrow> me \<notin> pr_torn_down p \<Longrightarrow> process_step system p (holder_leaves me p)"
| finishes: "me \<in> pr_leaving p \<Longrightarrow> process_step system p (holder_finishes me p)"
| loops: "loops_step system p q \<Longrightarrow> process_step system p q"

inductive process_reach :: "system \<Rightarrow> 'k process \<Rightarrow> bool" for system where
  begins: "process_reach system process_start"
| goes: "process_reach system p \<Longrightarrow> process_step system p q \<Longrightarrow> process_reach system q"

lemma change_ok:
  assumes ok: "threads_ok system p"
    and f: "\<And>r. tr_finished (f r) = tr_finished r" "\<And>r. tr_is_main (f r) = tr_is_main r"
      "\<And>r x. tr_native_id r = Some x \<Longrightarrow> tr_native_id (f r) = Some x"
  shows "threads_ok system (change_record self f p)"
proof -
  have left: "left_by v (change_record self f p) = left_by v p" for v by (simp add: left_by_def)
  have 2: "v \<in> set (pr_registry p) \<longleftrightarrow> (\<exists>x. pr_records (change_record self f p) v = Some x \<and> \<not> tr_finished x) \<and> \<not> left_by v p" for v
    using threads_okD(2) [OF ok, of v] by (cases "v = self") (auto simp: f)
  have 3: "v < pr_next_record p \<and> (tr_is_main x \<longleftrightarrow> pr_main p = Some v)" if "pr_records (change_record self f p) v = Some x" for v x
    using that threads_okD(3) [OF ok, of v] by (cases "v = self") (auto simp: f)
  have 4: "\<exists>x. pr_records (change_record self f p) v = Some x \<and> (tr_finished x \<longleftrightarrow> me \<in> pr_torn_down p) \<and> (tr_is_main x \<longleftrightarrow> me = sy_main system) \<and>
      (me \<noteq> sy_main system \<longrightarrow> tr_native_id x = Some (sy_thread_id system me))" if "pr_holders p me = Some v" for me v
    using threads_okD(4) [OF ok that] by (cases "v = self") (auto simp: f)
  have 6: "\<exists>x. pr_records (change_record self f p) v = Some x \<and> (tr_finished x \<longrightarrow> pr_holders p (sy_main system) = Some v)" if "pr_main p = Some v" for v
    using threads_okD(6) [OF ok that] by (cases "v = self") (auto simp: f)
  have 7: "\<exists>x. pr_records (change_record self f p) v = Some x \<and> tr_finished x \<and> \<not> tr_is_main x \<and> v \<notin> ran (pr_holders p)" if "pr_placeholder p = Some v" for v
    using threads_okD(7) [OF ok that] by (cases "v = self") (auto simp: f)
  show ?thesis unfolding threads_ok_def change_frame(2-8) left using 2 3 4 6 7 threads_okD(1,5,8) [OF ok] by blast
qed

lemma holder_leaves_frame [simp]:
  "pr_records (holder_leaves me p) = pr_records p" "pr_next_record (holder_leaves me p) = pr_next_record p"
  "pr_main (holder_leaves me p) = pr_main p" "pr_placeholder (holder_leaves me p) = pr_placeholder p"
  "pr_holders (holder_leaves me p) = pr_holders p" "pr_torn_down (holder_leaves me p) = pr_torn_down p"
  "pr_leaving (holder_leaves me p) = insert me (pr_leaving p)"
  "pr_loops (holder_leaves me p) = pr_loops p" "pr_loop_holders (holder_leaves me p) = pr_loop_holders p"
  "pr_loops_torn_down (holder_leaves me p) = pr_loops_torn_down p"
  by (simp_all add: holder_leaves_def deregister_def split: option.split)

lemma holder_finishes_frame [simp]:
  "pr_next_record (holder_finishes me p) = pr_next_record p" "pr_registry (holder_finishes me p) = pr_registry p"
  "pr_main (holder_finishes me p) = pr_main p" "pr_placeholder (holder_finishes me p) = pr_placeholder p"
  "pr_holders (holder_finishes me p) = pr_holders p" "pr_torn_down (holder_finishes me p) = insert me (pr_torn_down p)"
  "pr_leaving (holder_finishes me p) = pr_leaving p - {me}"
  "pr_loops (holder_finishes me p) = pr_loops p" "pr_loop_holders (holder_finishes me p) = pr_loop_holders p"
  "pr_loops_torn_down (holder_finishes me p) = pr_loops_torn_down p"
  by (simp_all add: holder_finishes_def mark_finished_def change_record_def split: option.split)

lemma holder_leaves_registry:
  "v \<in> set (pr_registry (holder_leaves me p)) \<longleftrightarrow> v \<in> set (pr_registry p) \<and> pr_holders p me \<noteq> Some v"
  "distinct (pr_registry p) \<Longrightarrow> distinct (pr_registry (holder_leaves me p))"
  by (auto simp: holder_leaves_def deregister_def split: option.split)

lemma holder_leaves_ok:
  assumes ok: "threads_ok system p" and me: "me \<notin> pr_torn_down p"
  shows "threads_ok system (holder_leaves me p)"
proof -
  have 2: "v \<in> set (pr_registry (holder_leaves me p)) \<longleftrightarrow>
      (\<exists>r. pr_records p v = Some r \<and> \<not> tr_finished r) \<and> \<not> left_by v (holder_leaves me p)" for v
    using threads_okD(2) [OF ok, of v] by (auto simp: holder_leaves_registry left_by_def)
  show ?thesis unfolding threads_ok_def holder_leaves_frame
  proof (intro conjI allI)
    show "distinct (pr_registry (holder_leaves me p))" by (rule holder_leaves_registry(2) [OF threads_okD(1) [OF ok]])
  qed (use 2 in blast, (use threads_okD(3) [OF ok] in blast), (use threads_okD(4) [OF ok] in blast), (use threads_okD(5) [OF ok] in blast),
    (use threads_okD(6) [OF ok] in blast), (use threads_okD(7) [OF ok] in blast), (use threads_okD(8) [OF ok] me in blast))
qed

lemma holder_finishes_records:
  "pr_records (holder_finishes me p) =
     (case pr_holders p me of None \<Rightarrow> pr_records p
      | Some self \<Rightarrow> (pr_records p)(self := map_option (\<lambda>r. r\<lparr>tr_finished := True\<rparr>) (pr_records p self)))"
  by (simp add: holder_finishes_def mark_finished_def split: option.split)

lemma holder_finishes_ok:
  assumes ok: "threads_ok system p" and me: "me \<in> pr_leaving p"
  shows "threads_ok system (holder_finishes me p)"
proof (cases "pr_holders p me")
  case None
  let ?q = "holder_finishes me p"
  have rec: "pr_records ?q = pr_records p" using None by (simp add: holder_finishes_records)
  have left: "left_by v ?q = left_by v p" for v using None by (auto simp: left_by_def)
  have 4: "\<exists>r. pr_records p self = Some r \<and> (tr_finished r \<longleftrightarrow> you \<in> insert me (pr_torn_down p)) \<and> (tr_is_main r \<longleftrightarrow> you = sy_main system) \<and>
      (you \<noteq> sy_main system \<longrightarrow> tr_native_id r = Some (sy_thread_id system you))" if "pr_holders p you = Some self" for you self
    using threads_okD(4) [OF ok that] that None by auto
  show ?thesis unfolding threads_ok_def holder_finishes_frame rec left
    using 4 threads_okD(1,2,3,5,6,7,8) [OF ok] by blast
next
  case (Some self)
  let ?q = "holder_finishes me p"
  obtain r where r: "pr_records p self = Some r" "\<not> tr_finished r" "tr_is_main r \<longleftrightarrow> me = sy_main system"
    using threads_okD(4) [OF ok Some] me threads_okD(8) [OF ok] by blast
  have q: "pr_records ?q = (pr_records p)(self \<mapsto> r\<lparr>tr_finished := True\<rparr>)"
    using Some r(1) by (simp add: holder_finishes_records)
  have left: "left_by v ?q = left_by v p" if "v \<noteq> self" for v using that Some by (auto simp: left_by_def)
  have out: "self \<notin> set (pr_registry p)" using threads_okD(2) [OF ok, of self] me Some by (auto simp: left_by_def)
  have 2: "v \<in> set (pr_registry p) \<longleftrightarrow> (\<exists>x. pr_records ?q v = Some x \<and> \<not> tr_finished x) \<and> \<not> left_by v ?q" for v
    using threads_okD(2) [OF ok, of v] out left [of v] by (cases "v = self") (simp_all add: q)
  have 3: "v < pr_next_record p \<and> (tr_is_main x \<longleftrightarrow> pr_main p = Some v)" if "pr_records ?q v = Some x" for v x
    using threads_okD(3) [OF ok] that r(1) unfolding q by (fastforce split: if_splits)
  have 4: "\<exists>x. pr_records ?q v = Some x \<and> (tr_finished x \<longleftrightarrow> you \<in> insert me (pr_torn_down p)) \<and> (tr_is_main x \<longleftrightarrow> you = sy_main system) \<and>
      (you \<noteq> sy_main system \<longrightarrow> tr_native_id x = Some (sy_thread_id system you))" if h: "pr_holders p you = Some v" for you v
  proof (cases "v = self")
    case True
    then have "you = me" using threads_okD(5) [OF ok] Some h by blast
    then show ?thesis using threads_okD(4) [OF ok h] True r(1) unfolding q by auto
  next
    case False
    then have "you \<noteq> me" using Some h by auto
    then show ?thesis using threads_okD(4) [OF ok h] False unfolding q by auto
  qed
  have 6: "\<exists>x. pr_records ?q v = Some x \<and> (tr_finished x \<longrightarrow> pr_holders p (sy_main system) = Some v)" if "pr_main p = Some v" for v
  proof (cases "v = self")
    case True
    then have "me = sy_main system" using that threads_okD(3) [OF ok r(1)] r(3) by simp
    then show ?thesis using Some True unfolding q by auto
  qed (use threads_okD(6) [OF ok that] in \<open>simp add: q\<close>)
  have 7: "\<exists>x. pr_records ?q v = Some x \<and> tr_finished x \<and> \<not> tr_is_main x \<and> v \<notin> ran (pr_holders p)" if "pr_placeholder p = Some v" for v
    using threads_okD(7) [OF ok that] Some unfolding q by (auto simp: ran_def)
  have 8: "you \<in> pr_leaving p - {me} \<Longrightarrow> you \<notin> insert me (pr_torn_down p)" for you using threads_okD(8) [OF ok] by blast
  show ?thesis unfolding threads_ok_def holder_finishes_frame
  proof (intro conjI allI)
    show "distinct (pr_registry p)" by (rule threads_okD(1) [OF ok])
  qed (use 2 in blast, (use 3 in blast), (use 4 in blast), (use threads_okD(5) [OF ok] in blast), (use 6 in blast), (use 7 in blast), (use 8 in blast))
qed

lemma placeholder_ok:
  assumes ok: "threads_ok system p" and t: "thread_placeholder p = (self, q)"
  shows "threads_ok system q"
proof (cases "pr_placeholder p")
  case None
  note n = next_unused [OF ok]
  obtain r where q: "self = pr_next_record p" "pr_records q = (pr_records p)(self \<mapsto> r)" "tr_finished r" "\<not> tr_is_main r"
      "pr_next_record q = pr_next_record p + 1" "pr_registry q = filter (\<lambda>entry. entry \<noteq> self) (pr_registry p)" "pr_main q = pr_main p"
      "pr_placeholder q = Some self" "pr_holders q = pr_holders p" "pr_torn_down q = pr_torn_down p"
      "pr_leaving q = pr_leaving p"
    using t None by (auto simp: thread_placeholder_def make_record_def record_finish_def mark_finished_def deregister_def)
  have left: "left_by v q = left_by v p" for v by (simp add: left_by_def q)
  have 2: "v \<in> set (pr_registry q) \<longleftrightarrow> (\<exists>x. pr_records q v = Some x \<and> \<not> tr_finished x) \<and> \<not> left_by v q" for v
    using threads_okD(2) [OF ok, of v] q(3) unfolding q(2,6) left by auto
  have "pr_main p \<noteq> Some self" using threads_okD(6) [OF ok, of self] n q(1) by auto
  then have 3: "v < pr_next_record q \<and> (tr_is_main x \<longleftrightarrow> pr_main q = Some v)" if "pr_records q v = Some x" for v x
    using threads_okD(3) [OF ok, of v x] that q(1,4) unfolding q(2,5,7) by (auto split: if_splits)
  have held: "pr_holders p v \<noteq> Some self" for v using threads_okD(4) [OF ok, of v self] n q(1) by auto
  have 4: "\<exists>x. pr_records q v = Some x \<and> (tr_finished x \<longleftrightarrow> me \<in> pr_torn_down q) \<and> (tr_is_main x \<longleftrightarrow> me = sy_main system) \<and>
      (me \<noteq> sy_main system \<longrightarrow> tr_native_id x = Some (sy_thread_id system me))" if "pr_holders q me = Some v" for me v
    using threads_okD(4) [OF ok, of me v] that held [of me] by (auto simp: q(2,9,10))
  have 6: "\<exists>x. pr_records q v = Some x \<and> (tr_finished x \<longrightarrow> pr_holders q (sy_main system) = Some v)" if "pr_main q = Some v" for v
    using threads_okD(6) [OF ok, of v] that n q(1) by (auto simp: q(2,7,9))
  have 7: "\<exists>x. pr_records q v = Some x \<and> tr_finished x \<and> \<not> tr_is_main x \<and> v \<notin> ran (pr_holders q)" if "pr_placeholder q = Some v" for v
    using that q(2-4,8,9) held by (auto simp: ran_def)
  show ?thesis unfolding threads_ok_def
    using 2 3 4 6 7 threads_okD(1,5,8) [OF ok] unfolding q(6,9,10,11) by (simp only: distinct_filter) blast
qed (use t ok in \<open>simp add: thread_placeholder_def\<close>)

section \<open>Every step keeps them\<close>

text \<open>A thread that has ended stays so.\<close>

definition ended :: "nat \<Rightarrow> 'k process \<Rightarrow> bool" where
  "ended self p = (\<exists>r. pr_records p self = Some r \<and> tr_finished r)"

definition keeps_ended :: "'k process \<Rightarrow> 'k process \<Rightarrow> bool" where
  "keeps_ended p q = (\<forall>self. ended self p \<longrightarrow> ended self q)"

lemma keeps_ended_trans: "keeps_ended p q \<Longrightarrow> keeps_ended q u \<Longrightarrow> keeps_ended p u"
  by (simp add: keeps_ended_def)

lemma keeps_ended_frame: "pr_records q = pr_records p \<Longrightarrow> keeps_ended p q"
  by (simp add: keeps_ended_def ended_def)

lemma keeps_ended_change: "(\<And>r. tr_finished r \<Longrightarrow> tr_finished (f r)) \<Longrightarrow> keeps_ended p (change_record self f p)"
  by (auto simp: keeps_ended_def ended_def)

lemma keeps_ended_new:
  assumes "threads_ok system p" "pr_records q = (pr_records p)(pr_next_record p \<mapsto> r)"
  shows "keeps_ended p q"
  using next_unused [OF assms(1)] assms(2) by (auto simp: keeps_ended_def ended_def)

lemma adds_keeps_ended: "threads_ok system p \<Longrightarrow> adds self r p q \<Longrightarrow> keeps_ended p q"
  by (rule keeps_ended_new) (auto simp: adds_def)

lemma main_storage_ok:
  assumes ok: "threads_ok system p" and s: "main_thread_storage system me p = (self, q)"
  shows "threads_ok system q" "pr_main q = Some self" "pr_holders q = pr_holders p" "pr_torn_down q = pr_torn_down p" "keeps_ended p q"
    "pr_leaving q = pr_leaving p"
proof -
  have "threads_ok system q \<and> pr_main q = Some self \<and> pr_holders q = pr_holders p \<and> pr_torn_down q = pr_torn_down p \<and> keeps_ended p q \<and>
    pr_leaving q = pr_leaving p"
  proof (cases "pr_main p")
    case None
    note a = main_storage_adds [OF s None]
    obtain r where r: "adds self r p q" "tr_is_main r" using a(1) by blast
    have "threads_ok system q" using a(2,3) r(2) None by (intro adds_ok [OF ok r(1)]) simp_all
    then show ?thesis using a(2,3) r(1) adds_keeps_ended [OF ok r(1)] by (simp add: adds_def)
  qed (use ok s in \<open>auto simp: main_thread_storage_def keeps_ended_frame\<close>)
  then show "threads_ok system q" "pr_main q = Some self" "pr_holders q = pr_holders p" "pr_torn_down q = pr_torn_down p" "keeps_ended p q"
    "pr_leaving q = pr_leaving p" by simp_all
qed

text \<open>What \<open>current_thread\<close> gives: the record of the calling thread.\<close>

definition named :: "system \<Rightarrow> nat \<Rightarrow> nat \<Rightarrow> 'k process \<Rightarrow> bool" where
  "named system me self p =
     (if me \<in> pr_torn_down p then pr_placeholder p = Some self else pr_holders p me = Some self)"

text \<open>It does so in one of four ways: the placeholder once the slot of the thread is gone, the record in the
  slot, the main record on the main thread, or a record made for a thread the library has not started.\<close>

definition current_holds :: "system \<Rightarrow> nat \<Rightarrow> nat \<Rightarrow> 'k process \<Rightarrow> 'k process \<Rightarrow> bool" where
  "current_holds system me self p q =
     (threads_ok system q \<and> named system me self q \<and> pr_torn_down q = pr_torn_down p \<and> pr_leaving q = pr_leaving p \<and> keeps_ended p q \<and>
      (\<forall>you. you \<noteq> me \<longrightarrow> pr_holders q you = pr_holders p you))"

lemma current_placeholder:
  assumes ok: "threads_ok system p" and me: "me \<in> pr_torn_down p" and t: "thread_placeholder p = (self, q)"
  shows "current_holds system me self p q"
proof -
  have "pr_placeholder q = Some self \<and> pr_torn_down q = pr_torn_down p \<and> pr_leaving q = pr_leaving p \<and> keeps_ended p q \<and>
    pr_holders q = pr_holders p"
  proof (cases "pr_placeholder p")
    case None
    then show ?thesis using t
      by (auto simp: thread_placeholder_def make_record_def record_finish_def mark_finished_def deregister_def intro!: keeps_ended_new [OF ok])
  qed (use t in \<open>simp add: thread_placeholder_def keeps_ended_frame\<close>)
  then show ?thesis using placeholder_ok [OF ok t] me by (simp add: current_holds_def named_def)
qed

lemma current_installs:
  assumes "threads_ok system (install_holder me self p1)" "keeps_ended p p1" "me \<notin> pr_torn_down p"
    and "pr_holders p1 = pr_holders p" "pr_torn_down p1 = pr_torn_down p" "pr_leaving p1 = pr_leaving p"
  shows "current_holds system me self p (install_holder me self p1)"
proof -
  have "keeps_ended p1 (install_holder me self p1)" by (rule keeps_ended_frame) (simp add: install_holder_def)
  then show ?thesis using assms keeps_ended_trans [OF assms(2)] by (simp add: current_holds_def named_def install_holder_def)
qed

lemma current_main:
  assumes ok: "threads_ok system p" and me: "me = sy_main system" "me \<notin> pr_torn_down p" "pr_holders p me = None" "me \<notin> pr_leaving p"
    and s: "main_thread_storage system me p = (self, p1)"
  shows "current_holds system me self p (install_holder me self (ensure_native_id_known system me self p1))"
proof -
  note m = main_storage_ok [OF ok s]
  define p2 where "p2 = ensure_native_id_known system me self p1"
  have ok2: "threads_ok system p2" unfolding p2_def ensure_native_id_known_def using m(1) by (rule change_ok) auto
  have f: "pr_main p2 = Some self" "pr_holders p2 = pr_holders p" "pr_torn_down p2 = pr_torn_down p"
    "pr_leaving p2 = pr_leaving p" using m(2-4,6) by (simp_all add: p2_def ensure_native_id_known_def)
  obtain r where r: "pr_records p2 self = Some r" "\<not> tr_finished r"
    using threads_okD(6) [OF ok2 f(1)] me by (auto simp: f(2))
  have main: "tr_is_main r" using threads_okD(3) [OF ok2 r(1)] f(1) by simp
  have "pr_holders p2 you \<noteq> Some self" for you
  proof
    assume h: "pr_holders p2 you = Some self"
    then have "you = me" using threads_okD(4) [OF ok2 h] r(1) main me(1) by auto
    then show False using h me(3) f(2) by simp
  qed
  then have "threads_ok system (install_holder me self p2)" using r main me f by (intro install_ok [OF ok2 r]) simp_all
  moreover have "keeps_ended p1 p2" unfolding p2_def ensure_native_id_known_def by (rule keeps_ended_change) simp
  ultimately show ?thesis
    using m(5) me(2) f(2,3,4) unfolding p2_def by (blast intro: current_installs keeps_ended_trans)
qed

lemma current_adopted:
  assumes ok: "threads_ok system p" and me: "me \<noteq> sy_main system" "me \<notin> pr_torn_down p" "pr_holders p me = None" "me \<notin> pr_leaving p"
    and s: "make_adopted system me p = (self, p1)"
  shows "current_holds system me self p (install_holder me self p1)"
proof -
  note a = adopted_adds [OF s]
  obtain r where r: "adds self r p p1" "\<not> tr_is_main r" "tr_native_id r = Some (sy_thread_id system me)" using a(1) by blast
  have ok1: "threads_ok system p1" using a(2,3) r(2) by (intro adds_ok [OF ok r(1)]) simp_all
  have x: "pr_records p1 self = Some r" "\<not> tr_finished r" "pr_torn_down p1 = pr_torn_down p" "pr_leaving p1 = pr_leaving p"
    using r(1) by (simp_all add: adds_def)
  have "pr_holders p1 you \<noteq> Some self" for you
    using holder_used [OF ok, of you self] r(1) by (auto simp: a(3) adds_def)
  then have "threads_ok system (install_holder me self p1)" using x r me a(3) by (intro install_ok [OF ok1 x(1,2)]) simp_all
  then show ?thesis using adds_keeps_ended [OF ok r(1)] me(2) a(3) x(3,4) by (rule current_installs)
qed

lemma current_ok:
  assumes ok: "threads_ok system p" and c: "current_thread system me p = (self, q)" and l: "me \<notin> pr_leaving p"
  shows "threads_ok system q \<and> named system me self q \<and> pr_torn_down q = pr_torn_down p \<and> pr_leaving q = pr_leaving p \<and> keeps_ended p q \<and>
    (\<forall>you. you \<noteq> me \<longrightarrow> pr_holders q you = pr_holders p you)"
proof -
  consider (torn_down) "me \<in> pr_torn_down p" | (held) existing where "me \<notin> pr_torn_down p" "pr_holders p me = Some existing"
    | (main) "me = sy_main system" "me \<notin> pr_torn_down p" "pr_holders p me = None"
    | (adopted) "me \<noteq> sy_main system" "me \<notin> pr_torn_down p" "pr_holders p me = None"
    by fastforce
  then have "current_holds system me self p q"
  proof cases
    case torn_down
    then show ?thesis using c ok by (intro current_placeholder) (simp_all add: current_thread_def)
  next
    case held
    then show ?thesis using c ok by (simp add: current_thread_def current_holds_def named_def keeps_ended_frame)
  next
    case main
    then show ?thesis using c current_main [OF ok main l] by (auto simp: current_thread_def split: prod.splits)
  next
    case adopted
    then show ?thesis using c current_adopted [OF ok adopted l] by (auto simp: current_thread_def split: prod.splits)
  qed
  then show ?thesis by (simp add: current_holds_def)
qed

lemma start_ok:
  assumes ok: "threads_ok system p" and new: "pr_holders p me = None" "me \<notin> pr_leaving p" "me \<notin> pr_torn_down p" "me \<noteq> sy_main system"
    and s: "thread_start system me run_loop p = (self, q)"
  shows "threads_ok system q \<and> keeps_ended p q"
proof -
  note a = start_adds [OF s]
  obtain r where r: "adds self r p q" "\<not> tr_is_main r" "tr_native_id r = Some (sy_thread_id system me)" using a(1) by blast
  define q' where "q' = q\<lparr>pr_holders := pr_holders p\<rparr>"
  have a': "adds self r p q'" using r(1) by (simp add: adds_def q'_def)
  have ok': "threads_ok system q'" using a(2) r(2) by (intro adds_ok [OF ok a']) (simp_all add: q'_def)
  have x: "pr_records q' self = Some r" "\<not> tr_finished r" "pr_torn_down q' = pr_torn_down p" "pr_holders q' = pr_holders p"
      "pr_leaving q' = pr_leaving p"
    using r(1) by (simp_all add: adds_def q'_def)
  have "pr_holders q' you \<noteq> Some self" for you using holder_used [OF ok, of you self] r(1) by (auto simp: x(4) adds_def)
  then have "threads_ok system (install_holder me self q')" using x r(2,3) new by (intro install_ok [OF ok' x(1,2)]) simp_all
  moreover have "threads_ok system q = threads_ok system (install_holder me self q')"
    by (rule threads_ok_frame) (simp_all add: q'_def install_holder_def a(3))
  ultimately show ?thesis using adds_keeps_ended [OF ok r(1)] by simp
qed

text \<open>A record lives until it is marked finished, and is claimed by the thread in whose slot it is, or by the
  main thread, for which any thread can make it.\<close>

definition living :: "nat \<Rightarrow> 'k process \<Rightarrow> bool" where
  "living self p = (\<exists>r. pr_records p self = Some r \<and> \<not> tr_finished r)"

definition claimed :: "nat \<Rightarrow> 'k process \<Rightarrow> bool" where
  "claimed self p = ((\<exists>me. pr_holders p me = Some self) \<or> pr_main p = Some self)"

lemma living_change: "(\<And>r. tr_finished (f r) = tr_finished r) \<Longrightarrow> living v (change_record self f p) \<longleftrightarrow> living v p"
  by (auto simp: living_def)

lemma loops_step_ok:
  assumes ok: "threads_ok system p" and s: "loops_step system p q"
  shows "threads_ok system q \<and> keeps_ended p q \<and> pr_holders q = pr_holders p \<and> pr_leaving q = pr_leaving p \<and>
    pr_torn_down q = pr_torn_down p \<and> pr_main q = pr_main p \<and> (\<forall>self. living self q \<longleftrightarrow> living self p)"
proof -
  have frame: ?thesis if f: "pr_records q = pr_records p \<and> pr_next_record q = pr_next_record p \<and> pr_registry q = pr_registry p \<and>
      pr_main q = pr_main p \<and> pr_placeholder q = pr_placeholder p \<and> pr_holders q = pr_holders p \<and> pr_leaving q = pr_leaving p \<and>
      pr_torn_down q = pr_torn_down p"
  proof -
    have "threads_ok system q = threads_ok system p" using f by (intro threads_ok_frame) simp_all
    then show ?thesis using ok f by (simp add: keeps_ended_frame living_def)
  qed
  show ?thesis
    using s
  proof cases
    case (cancels self)
    have "threads_ok system (thread_cancel self p)" unfolding thread_cancel_def by (rule change_ok [OF ok]) simp_all
    then show ?thesis unfolding cancels thread_cancel_def by (simp add: keeps_ended_change living_change)
  next
    case (performs self task r)
    then show ?thesis by (intro frame) (auto simp: thread_perform_def split: if_splits option.splits prod.splits)
  next
    case (quits self)
    then show ?thesis by (intro frame) (simp add: thread_quit_def split: option.split)
  next
    case (asks_loop me name)
    then show ?thesis using runloop_frame [of system me p name q] by (intro frame) simp
  next
    case (asks_main_loop me name)
    then show ?thesis using runloop_frame [of system me p name q] by (intro frame) simp
  next
    case (ends_loop me)
    then show ?thesis by (intro frame) (simp add: loop_holder_ends_def)
  next
    case (changes name f)
    then show ?thesis by (intro frame) simp
  qed
qed

lemma step_ok:
  assumes ok: "threads_ok system p" and s: "process_step system p q"
  shows "threads_ok system q \<and> keeps_ended p q"
  using s
proof cases
  case (starts me run_loop self)
  then show ?thesis using start_ok [OF ok] by blast
next
  case (names me self)
  then show ?thesis using current_ok [OF ok] by blast
next
  case (names_main me self)
  then show ?thesis
    using current_ok [OF ok] main_storage_ok [OF ok] by (auto simp: main_thread_def split: if_splits)
next
  case (leaves me)
  then show ?thesis using holder_leaves_ok [OF ok] by (simp add: keeps_ended_frame)
next
  case (finishes me)
  have "keeps_ended p (holder_finishes me p)"
    by (auto simp: keeps_ended_def ended_def holder_finishes_records split: option.splits)
  then show ?thesis using holder_finishes_ok [OF ok] finishes by simp
next
  case loops
  then show ?thesis using loops_step_ok [OF ok] by blast
qed

lemma process_ok: "process_reach system p \<Longrightarrow> threads_ok system p"
proof (induction rule: process_reach.induct)
  case begins
  then show ?case by (simp add: threads_ok_def left_by_def process_start_def)
next
  case (goes p q)
  then show ?case using step_ok by blast
qed

section \<open>Which thread a record is for\<close>

text \<open>The records that live are claimed, in every state that is reached.\<close>

lemma current_claims:
  assumes ok: "threads_ok system p" and c: "current_thread system me p = (self, q)"
  shows "pr_holders q = (if me \<in> pr_torn_down p \<or> pr_holders p me \<noteq> None then pr_holders p else (pr_holders p)(me \<mapsto> self))"
    "living v q \<Longrightarrow> living v p \<or> claimed v q" "pr_main p = Some v \<Longrightarrow> pr_main q = Some v"
proof -
  have "pr_holders q = (if me \<in> pr_torn_down p \<or> pr_holders p me \<noteq> None then pr_holders p else (pr_holders p)(me \<mapsto> self)) \<and>
    (living v q \<longrightarrow> living v p \<or> claimed v q) \<and> (pr_main p = Some v \<longrightarrow> pr_main q = Some v)"
  proof -
    consider (torn_down) "me \<in> pr_torn_down p" | (held) "me \<notin> pr_torn_down p" "pr_holders p me \<noteq> None"
      | (main) p1 where "me \<notin> pr_torn_down p" "pr_holders p me = None" "main_thread_storage system me p = (self, p1)"
          "q = install_holder me self (ensure_native_id_known system me self p1)"
      | (adopted) p1 where "me \<notin> pr_torn_down p" "pr_holders p me = None" "make_adopted system me p = (self, p1)" "q = install_holder me self p1"
      using c by (cases "pr_holders p me") (auto simp: current_thread_def split: if_splits prod.splits)
    then show ?thesis
    proof cases
      case torn_down
      then show ?thesis using c
        by (auto simp: current_thread_def thread_placeholder_def make_record_def record_finish_def mark_finished_def deregister_def living_def
            split: option.splits if_splits)
    next
      case held
      then show ?thesis using c by (auto simp: current_thread_def)
    next
      case main
      note m = main_storage_ok [OF ok main(3)]
      have "living v (ensure_native_id_known system me self p1) \<longleftrightarrow> living v p1"
        unfolding ensure_native_id_known_def by (rule living_change) simp
      then have l: "living v q \<longleftrightarrow> living v p1" unfolding main(4) by (simp add: install_holder_def living_def)
      have "living v p1 \<Longrightarrow> living v p \<or> v = self"
      proof (cases "pr_main p")
        case None
        assume "living v p1"
        moreover obtain r where "adds self r p p1" using main_storage_adds(1) [OF main(3) None] by blast
        ultimately show ?thesis by (auto simp: living_def adds_def split: if_splits)
      qed (use main(3) in \<open>simp add: main_thread_storage_def\<close>)
      moreover have "pr_main p = Some v \<Longrightarrow> pr_main p1 = Some v" using main(3) by (simp add: main_thread_storage_def)
      ultimately show ?thesis using main m(2,3) l
        by (auto simp: install_holder_def ensure_native_id_known_def claimed_def)
    next
      case adopted
      note a = adopted_adds [OF adopted(3)]
      obtain r where r: "adds self r p p1" using a(1) by blast
      have "living v q \<Longrightarrow> living v p \<or> v = self"
        using r by (auto simp: adopted(4) install_holder_def living_def adds_def split: if_splits)
      then show ?thesis using adopted a(2,3) by (auto simp: install_holder_def claimed_def)
    qed
  qed
  then show "pr_holders q = (if me \<in> pr_torn_down p \<or> pr_holders p me \<noteq> None then pr_holders p else (pr_holders p)(me \<mapsto> self))"
    "living v q \<Longrightarrow> living v p \<or> claimed v q" "pr_main p = Some v \<Longrightarrow> pr_main q = Some v" by blast+
qed

lemma main_storage_claims:
  assumes ok: "threads_ok system p" and s: "main_thread_storage system me p = (self, q)"
  shows "living v q \<Longrightarrow> living v p \<or> pr_main q = Some v" "pr_main p = Some v \<Longrightarrow> pr_main q = Some v"
proof -
  show "living v p \<or> pr_main q = Some v" if "living v q"
  proof (cases "pr_main p")
    case None
    obtain r where "adds self r p q" using main_storage_adds(1) [OF s None] by blast
    then show ?thesis using that main_storage_ok(2) [OF ok s] by (auto simp: living_def adds_def split: if_splits)
  qed (use s that in \<open>simp add: main_thread_storage_def\<close>)
qed (use s in \<open>simp add: main_thread_storage_def\<close>)

lemma step_claims:
  assumes ok: "threads_ok system p" and s: "process_step system p q"
  shows "living v q \<Longrightarrow> living v p \<or> claimed v q" "claimed v p \<Longrightarrow> claimed v q"
proof -
  have current: "(living v q \<longrightarrow> living v p \<or> claimed v q) \<and> (claimed v p \<longrightarrow> claimed v q)" if "current_thread system me p = (self, q)" for me self
  proof -
    have "pr_holders q you = Some v" if "pr_holders p you = Some v" for you
      using current_claims(1) [OF ok \<open>current_thread system me p = (self, q)\<close>] that by (auto split: if_splits)
    then show ?thesis using current_claims(2,3) [OF ok that, of v] unfolding claimed_def by blast
  qed
  have "(living v q \<longrightarrow> living v p \<or> claimed v q) \<and> (claimed v p \<longrightarrow> claimed v q)"
    using s
  proof cases
    case (starts me run_loop self)
    note a = start_adds [OF starts(5)]
    obtain r where "adds self r p q" using a(1) by blast
    then have "living v q \<Longrightarrow> living v p \<or> v = self" by (auto simp: living_def adds_def split: if_splits)
    moreover have "pr_holders q me = Some self" "\<And>you. pr_holders p you = Some v \<Longrightarrow> pr_holders q you = Some v"
      using a(3) starts(1) by (auto split: if_splits)
    ultimately show ?thesis using a(2) unfolding claimed_def by metis
  next
    case (names me self)
    then show ?thesis using current by blast
  next
    case (names_main me self)
    show ?thesis
    proof (cases "me = sy_main system")
      case False
      then have m: "main_thread_storage system me p = (self, q)" using names_main by (simp add: main_thread_def)
      then show ?thesis using main_storage_claims [OF ok m, of v] main_storage_ok(3) [OF ok m] by (auto simp: claimed_def)
    qed (use names_main current in \<open>simp add: main_thread_def\<close>)
  next
    case (leaves me)
    then show ?thesis by (simp add: claimed_def living_def)
  next
    case (finishes me)
    then show ?thesis by (auto simp: claimed_def living_def holder_finishes_records split: option.splits if_splits)
  next
    case loops
    then show ?thesis using loops_step_ok [OF ok] by (simp add: claimed_def)
  qed
  then show "living v q \<Longrightarrow> living v p \<or> claimed v q" "claimed v p \<Longrightarrow> claimed v q" by blast+
qed

lemma process_claims: "process_reach system p \<Longrightarrow> living v p \<Longrightarrow> claimed v p"
proof (induction rule: process_reach.induct)
  case begins
  then show ?case by (simp add: living_def process_start_def)
next
  case (goes p q)
  then show ?case using step_claims [OF process_ok [OF goes(1)] goes(2)] by blast
qed

text \<open>What threads have done so far: the record each was started with, or was named by first, the threads in the
  destructor of their slot, and those that are past it.\<close>

inductive process_history :: "system \<Rightarrow> 'k process \<Rightarrow> (nat \<rightharpoonup> nat) \<Rightarrow> nat set \<Rightarrow> nat set \<Rightarrow> bool" for system where
  at_first: "process_history system process_start Map.empty {} {}"
| started: "process_history system p given leaving over \<Longrightarrow> given me = None \<Longrightarrow> me \<notin> leaving \<Longrightarrow> me \<notin> over \<Longrightarrow> me \<noteq> sy_main system \<Longrightarrow>
    thread_start system me run_loop p = (self, q) \<Longrightarrow> process_history system q (given(me \<mapsto> self)) leaving over"
| named_first: "process_history system p given leaving over \<Longrightarrow> given me = None \<Longrightarrow> me \<notin> leaving \<Longrightarrow> me \<notin> over \<Longrightarrow>
    current_thread system me p = (self, q) \<Longrightarrow> process_history system q (given(me \<mapsto> self)) leaving over"
| named_again: "process_history system p given leaving over \<Longrightarrow> given me \<noteq> None \<or> me \<in> over \<Longrightarrow> me \<notin> leaving \<Longrightarrow>
    current_thread system me p = (self, q) \<Longrightarrow> process_history system q given leaving over"
| named_main: "process_history system p given leaving over \<Longrightarrow> me \<noteq> sy_main system \<Longrightarrow> me \<notin> leaving \<Longrightarrow>
    main_thread system me p = (self, q) \<Longrightarrow> process_history system q given leaving over"
| left: "process_history system p given leaving over \<Longrightarrow> me \<notin> leaving \<Longrightarrow> me \<notin> over \<Longrightarrow>
    process_history system (holder_leaves me p) given (insert me leaving) over"
| gone: "process_history system p given leaving over \<Longrightarrow> me \<in> leaving \<Longrightarrow>
    process_history system (holder_finishes me p) given (leaving - {me}) (insert me over)"
| looped: "process_history system p given leaving over \<Longrightarrow> loops_step system p q \<Longrightarrow> process_history system q given leaving over"

text \<open>The slots keep it.\<close>

lemma history_slots:
  "process_history system p given leaving over \<Longrightarrow>
    process_reach system p \<and> pr_holders p = given \<and> pr_leaving p = leaving \<and> pr_torn_down p = over"
proof (induction rule: process_history.induct)
  case at_first
  then show ?case using process_reach.begins by (simp add: process_start_def)
next
  case (started p given leaving over me run_loop self q)
  then have "process_step system p q" by (intro starts) simp_all
  moreover obtain r where "adds self r p q" using start_adds(1) [OF started(6)] by blast
  ultimately show ?case using started start_adds(3) [OF started(6)] by (auto simp: adds_def intro: process_reach.goes)
next
  case (named_first p given leaving over me self q)
  then have ok: "threads_ok system p" and s: "process_step system p q" by (auto intro: process_ok names)
  then show ?case using named_first current_claims(1) [OF ok named_first(5)] current_ok [OF ok named_first(5)]
    by (auto intro: process_reach.goes)
next
  case (named_again p given leaving over me self q)
  then have ok: "threads_ok system p" and s: "process_step system p q" by (auto intro: process_ok names)
  then show ?case using named_again current_claims(1) [OF ok named_again(4)] current_ok [OF ok named_again(4)]
    by (auto intro: process_reach.goes)
next
  case (named_main p given leaving over me self q)
  then have ok: "threads_ok system p" and s: "process_step system p q" by (auto intro: process_ok names_main)
  moreover have "main_thread_storage system me p = (self, q)" using named_main by (simp add: main_thread_def)
  ultimately show ?case using named_main main_storage_ok [of system p me self q] by (auto intro: process_reach.goes)
next
  case (left p given leaving over me)
  then show ?case by (auto intro: process_reach.goes leaves)
next
  case (gone p given leaving over me)
  then show ?case by (auto intro: process_reach.goes finishes)
next
  case (looped p given leaving over q)
  then show ?case using loops_step_ok [OF process_ok] by (auto intro: process_reach.goes loops)
qed

lemma registry_claims:
  assumes r: "process_reach system p"
  shows "self \<in> set (pr_registry p) \<longleftrightarrow>
    (\<exists>me. pr_holders p me = Some self \<and> me \<notin> pr_leaving p \<and> me \<notin> pr_torn_down p) \<or>
    pr_main p = Some self \<and> pr_holders p (sy_main system) = None"
proof -
  note ok = process_ok [OF r]
  have reg: "self \<in> set (pr_registry p) \<longleftrightarrow> living self p \<and> \<not> left_by self p"
    using threads_okD(2) [OF ok, of self] by (simp add: living_def)
  show ?thesis
  proof (cases "\<exists>me. pr_holders p me = Some self")
    case True
    then obtain me where me: "pr_holders p me = Some self" by blast
    have only: "pr_holders p you = Some self \<longleftrightarrow> you = me" for you using threads_okD(5) [OF ok _ me] me by blast
    have "living self p \<longleftrightarrow> me \<notin> pr_torn_down p" using threads_okD(4) [OF ok me] by (auto simp: living_def)
    moreover have "left_by self p \<longleftrightarrow> me \<in> pr_leaving p" using only by (auto simp: left_by_def)
    moreover have "pr_main p = Some self \<Longrightarrow> pr_holders p (sy_main system) \<noteq> None"
      using threads_okD(3,4) [OF ok] me by fastforce
    ultimately show ?thesis unfolding reg only by auto
  next
    case False
    then have "\<not> left_by self p" by (simp add: left_by_def)
    moreover have "living self p \<longleftrightarrow> pr_main p = Some self"
      using process_claims [OF r] threads_okD(6) [OF ok] False by (auto simp: living_def claimed_def)
    moreover have "pr_holders p (sy_main system) = None" if m: "pr_main p = Some self"
    proof (rule ccontr)
      assume "pr_holders p (sy_main system) \<noteq> None"
      then obtain v where v: "pr_holders p (sy_main system) = Some v" by blast
      then have "pr_main p = Some v" using threads_okD(3,4) [OF ok] by blast
      then show False using v m False by simp
    qed
    ultimately show ?thesis using reg False by blast
  qed
qed

section \<open>Properties\<close>

lemma history_current:
  assumes h: "process_history system p given leaving over" and g: "given me = Some self" "me \<notin> over"
  shows "thread_running self p" "is_current system me self p" "current_thread system me p = (self, p)"
proof -
  note s = history_slots [OF h]
  obtain r where r: "pr_records p self = Some r" "\<not> tr_finished r" "tr_is_main r \<longleftrightarrow> me = sy_main system"
      "me \<noteq> sy_main system \<longrightarrow> tr_native_id r = Some (sy_thread_id system me)"
    using threads_okD(4) [OF process_ok, of system p me self] s g by auto
  then show "thread_running self p" "is_current system me self p"
    by (auto simp: thread_running_def is_current_def the_record_def)
  show "current_thread system me p = (self, p)" using s g by (simp add: current_thread_def)
qed

text \<open>C29: However the steps of the threads interleave, the registry holds exactly the records of the threads that
  were started or have asked for their name and are not at their end yet, each once, and until the main thread
  has asked that of the main thread, if another thread did. A thread has one record for as long as it lives, the
  one it was started with or was named by first, that it shares with no other: \<open>current_thread\<close> gives
  that one, which is running and the caller's own. While it ends the record is out of the registry before it is
  finished; then it is finished for good and takes no task, and a thread that still asks is given one
  that is finished.\<close>

theorem registry_holds_living:
  assumes h: "process_history system p given leaving over"
  shows "distinct (all_threads p) \<and>
    (\<forall>self. self \<in> set (all_threads p) \<longleftrightarrow>
      (\<exists>me. given me = Some self \<and> me \<notin> leaving \<and> me \<notin> over) \<or>
      pr_main p = Some self \<and> given (sy_main system) = None) \<and>
    (\<forall>me you self. given me = Some self \<and> given you = Some self \<longrightarrow> me = you) \<and>
    (\<forall>me self. given me = Some self \<longrightarrow>
      (if me \<in> over then thread_finished self p
       else thread_running self p \<and> is_current system me self p \<and> current_thread system me p = (self, p))) \<and>
    (\<forall>me. me \<in> over \<longrightarrow> (case current_thread system me p of (other, q) \<Rightarrow>
      thread_finished other q \<and> other \<notin> set (all_threads q) \<and> current_thread system me q = (other, q))) \<and>
    (\<forall>self q. ended self p \<and> process_step system p q \<longrightarrow>
      ended self q \<and> self \<notin> set (all_threads q) \<and> \<not> fst (thread_perform self task q))"
proof (intro conjI allI impI)
  note s = history_slots [OF h]
  have r: "process_reach system p" using s by blast
  have ok: "threads_ok system p" using r by (rule process_ok)
  show "distinct (all_threads p)" using threads_okD(1) [OF ok] by (simp add: all_threads_def)
  show "self \<in> set (all_threads p) \<longleftrightarrow>
      (\<exists>me. given me = Some self \<and> me \<notin> leaving \<and> me \<notin> over) \<or>
      pr_main p = Some self \<and> given (sy_main system) = None" for self
    using registry_claims [OF r, of self] s by (simp add: all_threads_def)
  show "me = you" if "given me = Some self \<and> given you = Some self" for me you self
    using threads_okD(5) [OF ok] that s by blast
  show "if me \<in> over then thread_finished self p
      else thread_running self p \<and> is_current system me self p \<and> current_thread system me p = (self, p)"
    if "given me = Some self" for me self
    using history_current [OF h that] threads_okD(4) [OF ok, of me self] that s by (auto simp: thread_finished_def the_record_def)
  show "case current_thread system me p of (other, q) \<Rightarrow>
      thread_finished other q \<and> other \<notin> set (all_threads q) \<and> current_thread system me q = (other, q)" if "me \<in> over" for me
  proof -
    obtain other q where c: "current_thread system me p = (other, q)" by fastforce
    have l: "me \<notin> pr_leaving p" using threads_okD(8) [OF ok, of me] that s by blast
    note q = current_ok [OF ok c l]
    have "pr_placeholder q = Some other" "me \<in> pr_torn_down q" using q that s by (auto simp: named_def)
    then show ?thesis
      using c threads_okD(2,7) [OF conjunct1 [OF q], of other]
      by (auto simp: current_thread_def thread_placeholder_def thread_finished_def the_record_def all_threads_def)
  qed
  show "ended self q" "self \<notin> set (all_threads q)" "\<not> fst (thread_perform self task q)"
    if "ended self p \<and> process_step system p q" for self q
  proof -
    have q: "threads_ok system q" "ended self q" using step_ok [OF ok] that by (auto simp: keeps_ended_def)
    then show "ended self q" "self \<notin> set (all_threads q)" "\<not> fst (thread_perform self task q)"
      using threads_okD(2) [OF q(1), of self] by (auto simp: ended_def all_threads_def thread_perform_def thread_finished_def the_record_def)
  qed
qed

text \<open>A process whose main thread is 0 and whose threads all report the kernel id 77: it starts a thread,
  1, which ends.\<close>

definition reused :: system where
  "reused = \<lparr>sy_thread_id = (\<lambda>os. 77), sy_main = 0, sy_main_thread_id = (\<lambda>os. Some 77)\<rparr>"

definition one_started :: "nat process" where
  "one_started = snd (start_one_shot_thread reused 1 process_start)"

lemma one_started: "process_history reused one_started [1 \<mapsto> 0] {} {}"
proof -
  obtain self q where s: "thread_start reused 1 False process_start = (self, q :: nat process)" by fastforce
  have "process_history reused q (Map.empty(1 \<mapsto> self)) {} {}"
    by (rule started [OF at_first _ _ _ _ s]) (simp_all add: reused_def)
  moreover have "self = 0" using s by (simp add: thread_start_def make_record_def process_start_def)
  ultimately show ?thesis using s by (simp add: one_started_def start_one_shot_thread_def)
qed

lemmas one_simps = one_started_def start_one_shot_thread_def thread_start_def make_record_def run_on_new_thread_def Let_def
  register_self_def set_native_id_def install_holder_def change_record_def process_start_def reused_def

lemma registry_holds_living_witness:
  "all_threads one_started = [0] \<and> thread_running 0 one_started \<and> current_thread reused 1 one_started = (0, one_started)"
proof -
  have "all_threads one_started = [0]" by (simp add: all_threads_def one_simps)
  moreover have "thread_running 0 one_started \<and> current_thread reused 1 one_started = (0, one_started)"
    using registry_holds_living [OF one_started, THEN conjunct2, THEN conjunct2, THEN conjunct2, THEN conjunct1, rule_format, of 1 0]
    by simp
  ultimately show ?thesis by simp
qed

text \<open>A record keeps the kernel id of its thread when the thread has ended, and the system may give that
  id to another thread: \<open>is_current_thread\<close> of the old record then says that thread is it.\<close>

lemma ended_thread_is_current:
  "\<exists>p :: nat process. process_history reused p [1 \<mapsto> 0] {} {1} \<and> ended 0 p \<and> is_current reused 2 0 p"
proof (intro exI conjI)
  have "process_history reused (holder_leaves 1 one_started) [1 \<mapsto> 0] {1} {}" using left [OF one_started, of 1] by simp
  then show "process_history reused (holder_finishes 1 (holder_leaves 1 one_started)) [1 \<mapsto> 0] {} {1}"
    using gone [of reused _ "[1 \<mapsto> 0]" "{1}" "{}" 1] by simp
qed (simp_all add: ended_def holder_finishes_records is_current_def the_record_def one_simps)

end
