(* ===== verification/Runloop_Laws.thy ===== *)
theory Runloop_Laws
  imports Runloop "HOL-Library.Multiset"
begin

text \<open>
  What a run loop promises: tasks run in the order they were posted and each at most once, whatever
  threads do to the loop meanwhile and however running calls nest.
\<close>

section \<open>Executions\<close>

text \<open>The critical sections of a loop, with what each does to the tasks, by their sequence
  numbers. A timer is installed once, when it is made. A running call consumes a request to quit
  exactly when it is the outermost.\<close>

datatype loop_event = Posted nat | Took nat | Dropped "nat list"

fun posted_by :: "loop_event \<Rightarrow> nat list" where
  "posted_by (Posted q) = [q]"
| "posted_by (Took q) = []"
| "posted_by (Dropped qs) = []"

fun taken_by :: "loop_event \<Rightarrow> nat list" where
  "taken_by (Posted q) = []"
| "taken_by (Took q) = [q]"
| "taken_by (Dropped qs) = []"

fun dropped_by :: "loop_event \<Rightarrow> nat list" where
  "dropped_by (Posted q) = []"
| "dropped_by (Took q) = []"
| "dropped_by (Dropped qs) = qs"

abbreviation posted :: "loop_event list \<Rightarrow> nat list" where
  "posted events \<equiv> concat (map posted_by events)"

abbreviation taken :: "loop_event list \<Rightarrow> nat list" where
  "taken events \<equiv> concat (map taken_by events)"

abbreviation dropped :: "loop_event list \<Rightarrow> nat list" where
  "dropped events \<equiv> concat (map dropped_by events)"

abbreviation queued :: "'k loop_state \<Rightarrow> nat list" where
  "queued s \<equiv> map fst (rl_pending s)"

fun takes_task :: "'k round \<Rightarrow> 'k loop_state \<Rightarrow> loop_event list" where
  "takes_task (Returns (Some (Task k))) s = [Took (hd (queued s))]"
| "takes_task r s = []"

inductive loop_step :: "'k loop_state \<Rightarrow> loop_event list \<Rightarrow> 'k loop_state \<Rightarrow> bool" where
  posts: "rl_next_sequence s + 1 < 2 ^ 64 \<Longrightarrow> loop_enqueue (Some task) s = (True, t) \<Longrightarrow>
    loop_step s [Posted (rl_next_sequence s)] t"
| installs: "th_id which \<notin> installed (rl_timers s) \<Longrightarrow> install_timer which deadline s = (r, t) \<Longrightarrow> loop_step s [] t"
| removes: "loop_step s [] (remove_timer i s)"
| invalidates: "loop_step s [] (mark_invalid i s)"
| quits: "loop_step s [] (loop_quit s)"
| clears: "loop_step s [Dropped (queued s)] (loop_clear s)"
| finishes: "loop_step s [Dropped (queued s)] (loop_finish s)"
| marks: "running_mark s = (b, t) \<Longrightarrow> loop_step s [] t"
| unmarks: "loop_step s [] (running_unmark s)"
| rounds: "next_round world deadline (rl_depth s = 1) refreshed current_pass n s = (r, current_pass', n', t) \<Longrightarrow>
    loop_step s (takes_task r s) t"
| claims: "take_due_timer boundary now handled s = (work, handled', t) \<Longrightarrow> loop_step s [] t"
| pops: "rl_pending s = (q, k) # rest \<Longrightarrow> loop_step s [Took q] (s\<lparr>rl_pending := rest\<rparr>)"

inductive loop_exec :: "'k loop_state \<Rightarrow> loop_event list \<Rightarrow> 'k loop_state \<Rightarrow> bool" where
  stays: "loop_exec s [] s"
| goes: "loop_exec s events t \<Longrightarrow> loop_step t event u \<Longrightarrow> loop_exec s (events @ event) u"

lemma loop_exec_trans: "loop_exec t events' u \<Longrightarrow> loop_exec s events t \<Longrightarrow> loop_exec s (events @ events') u"
proof (induction rule: loop_exec.induct)
  case (goes t events' t' event u)
  then show ?case using loop_exec.goes [OF goes(3) [OF goes(4)] goes(2)] by simp
qed simp

lemma loop_exec_step: "loop_step s event t \<Longrightarrow> loop_exec s event t"
  using loop_exec.goes [OF loop_exec.stays] by fastforce

section \<open>The order of the tasks\<close>

text \<open>The loop has given out the numbers in turn; the tasks taken and those queued, one after
  another, have increasing numbers; every task posted was taken, was dropped, or is queued, and only
  one of these; a finished loop holds nothing.\<close>

definition in_order :: "loop_event list \<Rightarrow> 'k loop_state \<Rightarrow> bool" where
  "in_order events s =
     (posted events = [0..<rl_next_sequence s] \<and> sorted_wrt (<) (taken events @ queued s) \<and>
      mset (taken events) + mset (dropped events) + mset (queued s) = mset (posted events) \<and>
      schedule_ok (rl_timers s) \<and> (rl_finished s \<longrightarrow> rl_pending s = [] \<and> rl_timers s = []))"

lemma in_order_same:
  assumes "in_order events s" "rl_pending t = rl_pending s" "rl_next_sequence t = rl_next_sequence s"
    "schedule_ok (rl_timers t)" "rl_finished t \<longrightarrow> rl_finished s \<and> (rl_timers s = [] \<longrightarrow> rl_timers t = [])"
  shows "in_order events t"
  using assms by (auto simp: in_order_def)

lemma in_order_take:
  assumes "in_order events s" "rl_pending s = (q, k) # rest" "rl_pending t = rest" "rl_next_sequence t = rl_next_sequence s"
    "schedule_ok (rl_timers t)" "rl_finished t = rl_finished s" "rl_timers s = [] \<longrightarrow> rl_timers t = []"
  shows "in_order (events @ [Took q]) t"
  using assms by (auto simp: in_order_def)

lemma in_order_drop:
  assumes "in_order events s" "rl_pending t = []" "rl_next_sequence t = rl_next_sequence s"
    "schedule_ok (rl_timers t)" "rl_finished t \<longrightarrow> rl_timers t = []"
  shows "in_order (events @ [Dropped (queued s)]) t"
  using assms by (simp add: in_order_def sorted_wrt_append ac_simps)

lemma in_order_post:
  assumes o: "in_order events s" and n: "rl_next_sequence s + 1 < 2 ^ 64" and e: "loop_enqueue (Some task) s = (True, t)"
  shows "in_order (events @ [Posted (rl_next_sequence s)]) t"
proof -
  have t: "t = s\<lparr>rl_pending := rl_pending s @ [(rl_next_sequence s, task)], rl_next_sequence := Suc (rl_next_sequence s)\<rparr>" "\<not> rl_finished s"
    using e n by (auto simp: loop_enqueue_def split: if_splits)
  have m: "mset (taken events) + mset (dropped events) + mset (queued s) = mset [0..<rl_next_sequence s]"
    using o by (simp add: in_order_def)
  have "set (taken events @ queued s) \<subseteq> set_mset (mset [0..<rl_next_sequence s])" unfolding m [symmetric] by auto
  then have "sorted_wrt (<) (taken events @ queued s @ [rl_next_sequence s])"
    using o by (auto simp: in_order_def sorted_wrt_append)
  then show ?thesis using o t m by (simp add: in_order_def)
qed

lemma remove_schedule_ok: "schedule_ok slots \<Longrightarrow> schedule_ok (snd (schedule_remove slots i))"
  by (auto simp: schedule_remove_def find_pos_Some remove_at_filter distinct_map_filter split: option.splits)
    (simp add: schedule_ok_def distinct_map_filter)

text \<open>Every critical section keeps it.\<close>

lemma take_due_ok:
  assumes "schedule_ok slots" "take_due slots boundary now handled = (w, slots', handled')"
  shows "schedule_ok slots'"
  using schedule.claim_none [OF assms(1), of boundary now handled slots' handled']
    schedule.claim_some [OF assms(1), of boundary now handled "the w" slots' handled'] assms
  by (cases w) simp_all

lemma take_due_empty [simp]: "take_due [] boundary now handled = (None, [], handled)"
  by (simp add: take_due_def)

lemma finish_timers [simp]:
  "rl_timers (loop_finish s) = []" "rl_pending (loop_finish s) = []" "rl_finished (loop_finish s)"
  "rl_next_sequence (loop_finish s) = rl_next_sequence s" "rl_depth (loop_finish s) = rl_depth s" "rl_quit (loop_finish s) = rl_quit s"
proof -
  have f: "rl_timers (fold (\<lambda>which. mark_invalid (th_id which)) ws t) = rl_timers t \<and>
      rl_pending (fold (\<lambda>which. mark_invalid (th_id which)) ws t) = rl_pending t \<and>
      rl_finished (fold (\<lambda>which. mark_invalid (th_id which)) ws t) = rl_finished t \<and>
      rl_next_sequence (fold (\<lambda>which. mark_invalid (th_id which)) ws t) = rl_next_sequence t \<and>
      rl_depth (fold (\<lambda>which. mark_invalid (th_id which)) ws t) = rl_depth t \<and>
      rl_quit (fold (\<lambda>which. mark_invalid (th_id which)) ws t) = rl_quit t"
    for ws and t :: "'a loop_state"
    by (induction ws arbitrary: t) (simp_all add: mark_invalid_def)
  show "rl_timers (loop_finish s) = []" "rl_pending (loop_finish s) = []" "rl_finished (loop_finish s)"
    "rl_next_sequence (loop_finish s) = rl_next_sequence s" "rl_depth (loop_finish s) = rl_depth s" "rl_quit (loop_finish s) = rl_quit s"
    by (simp_all add: loop_finish_def schedule_remove_all_def f)
qed

lemma nothing_due:
  "take_due_timer boundary now handled s = (None, handled', t) \<Longrightarrow> t = s \<and> handled' = handled"
  by (auto simp: take_due_timer_def take_due_def Let_def split: option.splits prod.splits if_splits)

lemma timer_due:
  assumes "take_due_timer boundary now handled s = (Some work, handled', t)"
  obtains which slots where "work = Fire which" "take_due (rl_timers s) boundary now handled = (Some which, slots, handled')"
    "t = s\<lparr>rl_timers := slots\<rparr>"
  using assms by (auto simp: take_due_timer_def split: prod.splits)

lemma next_round_cases:
  assumes "next_round world deadline consume refreshed current_pass n s = (r, current_pass', n', t)"
  obtains (quit) "rl_quit s" "r = Returns None" "t = (if consume then s\<lparr>rl_quit := False\<rparr> else s)" "current_pass' = current_pass" "n' = n"
  | (fires) which handled slots where "\<not> rl_quit s" "r = Returns (Some (Fire which))" "t = s\<lparr>rl_timers := slots\<rparr>" "n' = n + 1"
      "take_due (rl_timers s) (ps_boundary current_pass) (wd_clock world n) (ps_handled current_pass) = (Some which, slots, handled)"
      "current_pass' = current_pass\<lparr>ps_handled := handled\<rparr>"
  | (task) q k rest where "\<not> rl_quit s" "r = Returns (Some (Task k))" "rl_pending s = (q, k) # rest" "t = s\<lparr>rl_pending := rest\<rparr>"
      "fst (take_due (rl_timers s) (ps_boundary current_pass) (wd_clock world n) (ps_handled current_pass)) = None"
      "current_pass' = (if rl_timers s = [] then current_pass else fresh_pass (wd_clock world (n + 1)))"
  | (idle) "\<not> rl_quit s" "r \<in> {Again, Returns None} \<union> range Waits" "rl_pending s = []" "t = s"
proof (cases "rl_quit s")
  case True
  then show thesis using assms by (intro quit) (auto simp: next_round_def)
next
  case False
  define due where "due = (if rl_timers s \<noteq> [] then take_due_timer (ps_boundary current_pass) (wd_clock world n) (ps_handled current_pass) s
      else (None, ps_handled current_pass, s))"
  obtain work handled s1 where d: "due = (work, handled, s1)" by (cases due)
  show thesis
  proof (cases work)
    case None
    have s1: "s1 = s" using d None by (auto simp: due_def dest: nothing_due split: if_splits)
    have t: "fst (take_due (rl_timers s) (ps_boundary current_pass) (wd_clock world n) (ps_handled current_pass)) = None"
      using d None by (auto simp: due_def take_due_timer_def split: if_splits prod.splits)
    show thesis
    proof (cases "rl_pending s")
      case Nil
      then show thesis using assms False None d s1 unfolding next_round_def due_def
        by (intro idle) (auto simp: Let_def schedule_empty_def split: if_splits prod.splits)
    next
      case (Cons p rest)
      obtain q k where p: "p = (q, k)" by fastforce
      show thesis using assms False None d s1 Cons p t unfolding next_round_def due_def
        by (intro task [of k q rest]) (auto simp: Let_def schedule_empty_def split: if_splits prod.splits)
    qed
  next
    case (Some job)
    have k: "take_due_timer (ps_boundary current_pass) (wd_clock world n) (ps_handled current_pass) s = (Some job, handled, s1)" "rl_timers s \<noteq> []"
      using d Some by (auto simp: due_def split: if_splits)
    obtain which slots where w: "job = Fire which"
        "take_due (rl_timers s) (ps_boundary current_pass) (wd_clock world n) (ps_handled current_pass) = (Some which, slots, handled)"
        "s1 = s\<lparr>rl_timers := slots\<rparr>"
      using timer_due [OF k(1)] by blast
    show thesis using assms False k w(1,3) unfolding next_round_def
      by (intro fires [OF False _ _ _ w(2)]) (simp_all add: Let_def schedule_empty_def)
  qed
qed

lemma in_order_round:
  assumes o: "in_order events s" and r: "next_round world deadline consume refreshed current_pass n s = (r, current_pass', n', t)"
  shows "in_order (events @ takes_task r s) t"
  using r
proof (cases rule: next_round_cases)
  case quit
  then show ?thesis using o by (cases consume) (simp_all add: in_order_def)
next
  case (fires which handled slots)
  have "schedule_ok slots" using take_due_ok [OF _ fires(5)] o by (simp add: in_order_def)
  then show ?thesis using o fires(2,3,5) by (auto simp: in_order_def)
next
  case (task q k rest)
  then show ?thesis using o by (simp add: in_order_def)
next
  case idle
  then show ?thesis using o by (cases r) (auto simp: in_order_def)
qed

lemma in_order_step:
  assumes o: "in_order events s" and s: "loop_step s event t"
  shows "in_order (events @ event) t"
  using s
proof cases
  case (posts task)
  then show ?thesis using in_order_post [OF o] by simp
next
  case (installs which deadline r)
  then show ?thesis using o
    by (auto simp: in_order_def install_timer_def schedule_install_def schedule_ok_def installed_def split: if_splits)
next
  case (removes i)
  have "rl_timers s = [] \<longrightarrow> snd (schedule_remove (rl_timers s) i) = []" by (simp add: schedule_remove_def)
  then show ?thesis using o removes remove_schedule_ok [of "rl_timers s" i] by (auto simp: in_order_def remove_timer_def)
next
  case invalidates
  then show ?thesis using o by (simp add: in_order_def mark_invalid_def)
next
  case quits
  then show ?thesis using o by (simp add: in_order_def loop_quit_def)
next
  case clears
  have "in_order (events @ [Dropped (queued s)]) t"
    by (rule in_order_drop [OF o]) (use o clears(2) in \<open>auto simp: loop_clear_def in_order_def\<close>)
  then show ?thesis using clears(1) by simp
next
  case finishes
  have "in_order (events @ [Dropped (queued s)]) t"
    by (rule in_order_drop [OF o]) (simp_all add: finishes(2) schedule_ok_def)
  then show ?thesis using finishes(1) by simp
next
  case (marks b)
  then show ?thesis using o by (auto simp: in_order_def running_mark_def)
next
  case unmarks
  then show ?thesis using o by (simp add: in_order_def running_unmark_def)
next
  case (rounds world deadline refreshed current_pass n r current_pass' n')
  then show ?thesis using in_order_round [OF o] by blast
next
  case (claims boundary now handled work handled')
  show ?thesis
  proof (cases work)
    case None
    then show ?thesis using nothing_due [of boundary now handled s handled' t] claims o by simp
  next
    case (Some job)
    then obtain which slots where w: "take_due (rl_timers s) boundary now handled = (Some which, slots, handled')" "t = s\<lparr>rl_timers := slots\<rparr>"
      using timer_due claims(2) by metis
    have "schedule_ok slots" using take_due_ok [OF _ w(1)] o by (simp add: in_order_def)
    then show ?thesis using o w claims(1) by (auto simp: in_order_def)
  qed
next
  case (pops q k rest)
  have "in_order (events @ [Took q]) t" by (rule in_order_take [OF o pops(3)]) (use o pops(2) in \<open>auto simp: in_order_def\<close>)
  then show ?thesis using pops(1) by simp
qed

lemma in_order_start: "in_order [] loop_make"
  by (simp add: in_order_def loop_make_def schedule_ok_def)

lemma in_order_exec: "loop_exec s events t \<Longrightarrow> in_order before s \<Longrightarrow> in_order (before @ events) t"
proof (induction rule: loop_exec.induct)
  case (goes s events t event u)
  then show ?case using in_order_step [of "before @ events" t event u] by simp
qed simp

section \<open>The running calls are executions\<close>

text \<open>What may happen to a loop while a running call has let go of the mutex: anything that is an
  execution, where calls that run nest, so that the depth is as before and none of them is the
  outermost, so that a request to quit stays.\<close>

definition lawful :: "('k loop_state \<Rightarrow> 'k loop_state) \<Rightarrow> bool" where
  "lawful f = (\<forall>s. 0 < rl_depth s \<longrightarrow>
     (\<exists>events. loop_exec s events (f s)) \<and> rl_depth (f s) = rl_depth s \<and> (rl_quit s \<longrightarrow> rl_quit (f s)))"

definition lawful_world :: "'k world \<Rightarrow> bool" where
  "lawful_world world = ((\<forall>n. lawful (wd_waiting world n)) \<and> (\<forall>n work. lawful (wd_running world n work)))"

text \<open>What a step of a running call at depth \<open>d\<close> makes of a state.\<close>

definition goes_on :: "nat \<Rightarrow> 'k loop_state \<Rightarrow> 'k loop_state \<Rightarrow> bool" where
  "goes_on d s t = (rl_depth s = d \<longrightarrow>
     (\<exists>events. loop_exec s events t) \<and> rl_depth t = d \<and> (rl_quit s \<and> d \<noteq> 1 \<longrightarrow> rl_quit t))"

lemma goes_on_refl [simp]: "goes_on d s s"
  by (auto simp: goes_on_def intro: loop_exec.stays)

lemma goes_on_trans: "goes_on d s t \<Longrightarrow> goes_on d t u \<Longrightarrow> goes_on d s u"
  unfolding goes_on_def by (blast intro: loop_exec_trans)

lemma goes_on_step: "loop_step s event t \<Longrightarrow> rl_depth t = rl_depth s \<Longrightarrow> rl_quit t = rl_quit s \<Longrightarrow> goes_on d s t"
  by (auto simp: goes_on_def intro: loop_exec_step)

lemma lawful_goes_on: "lawful f \<Longrightarrow> 0 < d \<Longrightarrow> goes_on d s (f s)"
  by (auto simp: lawful_def goes_on_def)

lemma round_goes_on:
  assumes "next_round world deadline (d = 1) refreshed current_pass n s = (r, current_pass', n', t)"
  shows "goes_on d s t"
proof -
  have "rl_depth t = rl_depth s \<and> (rl_quit s \<and> d \<noteq> 1 \<longrightarrow> rl_quit t)" using assms by (cases rule: next_round_cases) auto
  moreover have "rl_depth s = d \<Longrightarrow> loop_step s (takes_task r s) t" using assms by (intro rounds) simp
  ultimately show ?thesis by (auto simp: goes_on_def intro: loop_exec_step)
qed

lemma released_goes_on:
  assumes "lawful_world world" "0 < d"
  shows "goes_on d s (run_released world n work s)"
proof -
  have w: "goes_on d s (wd_running world n work s)" using assms by (intro lawful_goes_on) (simp_all add: lawful_world_def)
  have "goes_on d t (mark_invalid i t)" for i and t :: "'a loop_state"
    by (rule goes_on_step [OF invalidates]) (simp_all add: mark_invalid_def)
  then show ?thesis using w by (auto simp: run_released_def after_fire_def intro: goes_on_trans split: job.split)
qed

lemma claim_goes_on: "take_due_timer boundary now handled s = (work, handled', t) \<Longrightarrow> goes_on d s t"
  by (rule goes_on_step [OF claims]) (auto simp: take_due_timer_def split: prod.splits)

lemma next_work_goes_on:
  assumes w: "lawful_world world" "0 < d"
  shows "next_work world deadline (d = 1) refreshed current_pass n s = Some (work, current_pass', n', t) \<Longrightarrow> goes_on d s t"
proof -
  let ?P = "\<lambda>world' deadline consume refreshed current_pass n s y. world' = world \<longrightarrow> consume = (d = 1) \<longrightarrow> goes_on d s (snd (snd (snd y)))"
  have "?P world' deadline consume refreshed current_pass n s y"
    if "next_work world' deadline consume refreshed current_pass n s = Some y" for world' deadline consume refreshed current_pass n s y
  proof (rule next_work.raw_induct [where P = ?P, OF _ that], intro impI, goal_cases)
    case (1 next_work world' deadline consume refreshed current_pass n s y)
    obtain r current_pass' n' t where x: "next_round world deadline (d = 1) refreshed current_pass n s = (r, current_pass', n', t)"
      by (metis prod_cases4)
    note g = round_goes_on [OF x]
    show ?case
    proof (cases r)
      case (Returns work)
      then show ?thesis using 1(2-4) x g by auto
    next
      case Again
      then have "goes_on d t (snd (snd (snd y)))" using 1 x by auto
      then show ?thesis by (rule goes_on_trans [OF g])
    next
      case (Waits wait_deadline)
      then have "goes_on d (wd_waiting world n' t) (snd (snd (snd y)))" using 1 x by auto
      moreover have "goes_on d t (wd_waiting world n' t)" using w by (intro lawful_goes_on) (simp_all add: lawful_world_def)
      ultimately show ?thesis by (blast intro: goes_on_trans [OF g] goes_on_trans)
    qed
  qed
  then show "next_work world deadline (d = 1) refreshed current_pass n s = Some (work, current_pass', n', t) \<Longrightarrow> goes_on d s t"
    by fastforce
qed

lemma run_until_loop_goes_on:
  assumes w: "lawful_world world" "0 < d"
  shows "run_until_loop world deadline (d = 1) runs current_pass n s = Some (runs', n', t) \<Longrightarrow> goes_on d s t"
proof -
  let ?P = "\<lambda>world' deadline outermost runs current_pass n s y. world' = world \<longrightarrow> outermost = (d = 1) \<longrightarrow> goes_on d s (snd (snd y))"
  have "?P world' deadline outermost runs current_pass n s y"
    if "run_until_loop world' deadline outermost runs current_pass n s = Some y" for world' deadline outermost runs current_pass n s y
  proof (rule run_until_loop.raw_induct [where P = ?P, OF _ that], intro impI, goal_cases)
    case (1 run_until_loop world' deadline outermost runs current_pass n s y)
    note same = 1(3,4)
    show ?case
    proof (cases "\<not> (deadline = kNoDeadline \<or> wd_clock world' n < deadline)")
      case False
      then obtain work current_pass' n' t where x: "next_work world' deadline outermost False current_pass (if deadline = kNoDeadline then n else n + 1) s =
          Some (work, current_pass', n', t)"
        and y: "(case work of None \<Rightarrow> Some (Ran runs, n', t) | Some job \<Rightarrow>
          if wd_throws world' n' job t then Some (Threw, n' + 1, run_released world' n' job t)
          else run_until_loop world' deadline outermost (runs + 1) current_pass' (n' + 1) (run_released world' n' job t)) = Some y"
        using 1(2) by (auto simp: bind_eq_Some_conv split: if_splits)
      note g = next_work_goes_on [OF w x [unfolded same]]
      show ?thesis
      proof (cases work)
        case None
        then show ?thesis using y g by auto
      next
        case (Some job)
        then have "goes_on d (run_released world n' job t) (snd (snd y))" using 1(1) y same by (auto split: if_splits)
        then show ?thesis using released_goes_on [OF w] by (blast intro: goes_on_trans [OF g] goes_on_trans)
      qed
    qed (use 1(2,3) in auto)
  qed
  then show "run_until_loop world deadline (d = 1) runs current_pass n s = Some (runs', n', t) \<Longrightarrow> goes_on d s t"
    by fastforce
qed

lemma run_due_loop_goes_on:
  assumes w: "lawful_world world" "0 < d"
  shows "run_due_loop world boundary handled runs n s = Some (runs', n', t) \<Longrightarrow> goes_on d s t"
proof -
  let ?P = "\<lambda>world' boundary handled runs n s y. world' = world \<longrightarrow> goes_on d s (snd (snd y))"
  have "?P world' boundary handled runs n s y"
    if "run_due_loop world' boundary handled runs n s = Some y" for world' boundary handled runs n s y
  proof (rule run_due_loop.raw_induct [where P = ?P, OF _ that], intro impI, goal_cases)
    case (1 run_due_loop world' boundary handled runs n s y)
    obtain work handled' t where x: "take_due_timer boundary (wd_clock world n) handled s = (work, handled', t)" by (metis prod_cases3)
    note g = claim_goes_on [OF x]
    show ?case
    proof (cases work)
      case None
      then show ?thesis using 1(2,3) x g by auto
    next
      case (Some job)
      then have "goes_on d (run_released world (n + 1) job t) (snd (snd y))" using 1 x by (auto split: if_splits)
      then show ?thesis using released_goes_on [OF w] by (blast intro: goes_on_trans [OF g] goes_on_trans)
    qed
  qed
  then show "run_due_loop world boundary handled runs n s = Some (runs', n', t) \<Longrightarrow> goes_on d s t" by fastforce
qed

lemma run_queued_loop_goes_on:
  assumes w: "lawful_world world" "0 < d"
  shows "run_queued_loop world limit runs n s = Some (runs', n', t) \<Longrightarrow> goes_on d s t"
proof -
  let ?P = "\<lambda>world' limit runs n s y. world' = world \<longrightarrow> goes_on d s (snd (snd y))"
  have "?P world' limit runs n s y"
    if "run_queued_loop world' limit runs n s = Some y" for world' limit runs n s y
  proof (rule run_queued_loop.raw_induct [where P = ?P, OF _ that], intro impI, goal_cases)
    case (1 run_queued_loop world' limit runs n s y)
    show ?case
    proof (cases "rl_pending s \<noteq> [] \<and> fst (hd (rl_pending s)) < limit")
      case True
      let ?t = "s\<lparr>rl_pending := tl (rl_pending s)\<rparr>" and ?job = "Task (snd (hd (rl_pending s)))"
      obtain q k rest where q: "rl_pending s = (q, k) # rest" using True by (metis list.exhaust surj_pair)
      have "goes_on d s (s\<lparr>rl_pending := rest\<rparr>)" by (rule goes_on_step [OF pops [OF q]]) simp_all
      then have "goes_on d s ?t" by (simp add: q)
      moreover have "goes_on d (run_released world n ?job ?t) (snd (snd y))" using 1 True by (auto simp: Let_def split: if_splits)
      ultimately show ?thesis using released_goes_on [OF w] by (blast intro: goes_on_trans)
    qed (use 1(2,3) in auto)
  qed
  then show "run_queued_loop world limit runs n s = Some (runs', n', t) \<Longrightarrow> goes_on d s t" by fastforce
qed

definition calls_on :: "'k loop_state \<Rightarrow> 'k loop_state \<Rightarrow> bool" where
  "calls_on s t =
     ((\<exists>events. loop_exec s events t) \<and> rl_depth t = rl_depth s \<and> (rl_quit s \<and> rl_depth s \<noteq> 0 \<longrightarrow> rl_quit t))"

lemma call_marked:
  assumes "goes_on (rl_depth s + 1) (s\<lparr>rl_depth := rl_depth s + 1\<rparr>) t"
  shows "calls_on s (running_unmark t)"
proof -
  let ?s = "s\<lparr>rl_depth := rl_depth s + 1\<rparr>"
  obtain events where e: "loop_exec ?s events t" "rl_depth t = rl_depth s + 1" "rl_quit s \<and> rl_depth s + 1 \<noteq> 1 \<longrightarrow> rl_quit t"
    using assms by (auto simp: goes_on_def)
  have "loop_step s [] ?s" by (rule marks) (simp add: running_mark_def)
  then have "loop_exec s ([] @ events) t" by (intro loop_exec_trans [OF e(1)] loop_exec_step)
  then have "loop_exec s (([] @ events) @ []) (running_unmark t)" by (rule loop_exec.goes) (rule unmarks)
  then show ?thesis using e(2,3) by (auto simp: calls_on_def running_unmark_def)
qed

lemma run_until_calls_on:
  assumes "lawful_world world" "run_until world deadline n s = Some (runs, n', t)"
  shows "calls_on s t"
proof -
  obtain u where u: "run_until_loop world deadline (rl_depth s + 1 = 1) 0 (fresh_pass (wd_clock world n)) (n + 1) (s\<lparr>rl_depth := rl_depth s + 1\<rparr>) =
      Some (runs, n', u)" "t = running_unmark u"
    using assms(2) by (auto simp: run_until_def running_mark_def)
  show ?thesis unfolding u(2) by (rule call_marked [OF run_until_loop_goes_on [OF assms(1) _ u(1)]]) simp
qed

lemma run_one_calls_on:
  assumes "lawful_world world" "run_one world n s = Some (r, n', t)"
  shows "calls_on s t"
proof -
  obtain work current_pass m u where u:
      "next_work world kNoDeadline (rl_depth s + 1 = 1) False (fresh_pass (wd_clock world n)) (n + 1) (s\<lparr>rl_depth := rl_depth s + 1\<rparr>) =
        Some (work, current_pass, m, u)"
      "t = running_unmark (case work of None \<Rightarrow> u | Some job \<Rightarrow> run_released world m job u)"
    using assms(2) by (auto simp: run_one_def running_mark_def split: option.splits)
  have "goes_on (rl_depth s + 1) u (case work of None \<Rightarrow> u | Some job \<Rightarrow> run_released world m job u)"
    using released_goes_on [OF assms(1)] by (cases work) simp_all
  then show ?thesis
    unfolding u(2) by (intro call_marked goes_on_trans [OF next_work_goes_on [OF assms(1) _ u(1)]]) simp_all
qed

lemma run_pending_calls_on:
  assumes "lawful_world world" "run_pending world n s = Some (runs, n', t)"
  shows "calls_on s t"
proof -
  let ?s = "s\<lparr>rl_depth := rl_depth s + 1\<rparr>"
  obtain r1 n1 s1 u where u: "run_due_loop world (wd_clock world n) [] 0 (n + 1) ?s = Some (r1, n1, s1)"
      "u = s1 \<or> (\<exists>runs1. run_queued_loop world (rl_next_sequence ?s) runs1 n1 s1 = Some (runs, n', u))" "t = running_unmark u"
    using assms(2) by (auto simp: run_pending_def running_mark_def bind_eq_Some_conv split: call_end.splits) (metis call_end.exhaust)
  have "goes_on (rl_depth s + 1) ?s s1" by (rule run_due_loop_goes_on [OF assms(1) _ u(1)]) simp
  moreover have "goes_on (rl_depth s + 1) s1 u" using u(2) run_queued_loop_goes_on [OF assms(1), of "rl_depth s + 1"] by auto
  ultimately show ?thesis unfolding u(3) by (intro call_marked) (rule goes_on_trans)
qed

text \<open>A running call that ends, by returning or by an exception, and the state it leaves.\<close>

definition ends_in :: "'k world \<Rightarrow> nat \<Rightarrow> 'k loop_state \<Rightarrow> 'k loop_state \<Rightarrow> bool" where
  "ends_in world n s t =
     ((\<exists>deadline runs n'. run_until world deadline n s = Some (runs, n', t)) \<or>
      (\<exists>r n'. run_one world n s = Some (r, n', t)) \<or> (\<exists>runs n'. run_pending world n s = Some (runs, n', t)))"

lemma ended_calls_on: "lawful_world world \<Longrightarrow> ends_in world n s t \<Longrightarrow> calls_on s t"
  unfolding ends_in_def by (elim disjE exE) (erule (1) run_until_calls_on run_one_calls_on run_pending_calls_on)+

text \<open>So a running call is, to the calls it is nested in, one of the things that may happen.\<close>

lemma nested_call_lawful:
  assumes "\<And>s t. call s = Some t \<Longrightarrow> calls_on s t"
  shows "lawful (\<lambda>s. case call s of None \<Rightarrow> s | Some t \<Rightarrow> t)"
  using assms by (fastforce simp: lawful_def calls_on_def intro: loop_exec.stays split: option.split)

lemma loop_quit_lawful: "lawful loop_quit"
  by (auto simp: lawful_def loop_quit_def intro: loop_exec_step [OF quits, unfolded loop_quit_def])

lemma enqueue_stays: "\<not> fst (loop_enqueue task s) \<Longrightarrow> snd (loop_enqueue task s) = s"
  by (auto simp: loop_enqueue_def split: option.splits if_splits)

text \<open>C28: Tasks run in the order they were posted, each at most once. In every state that executions of
  a loop reach, through whatever its own and other threads do and however running calls nest, the
  tasks have their numbers in the order they were posted, those taken to run had increasing numbers,
  all below the numbers of those still queued, which increase too; every task posted was taken,
  was dropped by clearing or finishing the loop, or is queued, and only one of these; and a finished
  loop holds neither tasks nor timers. A running call that returns, or that an exception of a task or a callback
  ends, leaves the loop in such a state, at the depth it found it at, and leaves a request to quit
  standing unless it is the outermost.\<close>

theorem runloop_in_order:
  assumes "loop_exec loop_make events s"
  shows "in_order events s \<and>
    (lawful_world world \<longrightarrow>
      (\<forall>t. ends_in world n s t \<longrightarrow>
        (\<exists>events'. loop_exec loop_make (events @ events') t \<and> in_order (events @ events') t) \<and>
        rl_depth t = rl_depth s \<and> (rl_quit s \<and> rl_depth s \<noteq> 0 \<longrightarrow> rl_quit t)))"
proof -
  have o: "in_order events s" using in_order_exec [OF assms in_order_start] by simp
  have "(\<exists>events'. loop_exec loop_make (events @ events') t \<and> in_order (events @ events') t) \<and>
      rl_depth t = rl_depth s \<and> (rl_quit s \<and> rl_depth s \<noteq> 0 \<longrightarrow> rl_quit t)" if c: "calls_on s t" for t
  proof -
    obtain events' where e: "loop_exec s events' t" using c by (auto simp: calls_on_def)
    have "loop_exec loop_make (events @ events') t" using e assms by (rule loop_exec_trans)
    moreover have "in_order (events @ events') t" using e o by (rule in_order_exec)
    ultimately show ?thesis using c by (auto simp: calls_on_def)
  qed
  then show ?thesis using o ended_calls_on by blast
qed

text \<open>A loop with a task and a timer that is due and repeats at once, in a world where nothing else
  happens.\<close>

definition idle_world :: "nat world" where
  "idle_world = \<lparr>wd_clock = (\<lambda>n. 10 + int n), wd_waiting = (\<lambda>n s. s), wd_running = (\<lambda>n job s. s), wd_throws = (\<lambda>n job s. False)\<rparr>"

definition busy_timer :: timer_handle where
  "busy_timer = \<lparr>th_id = 0, th_repeats = True, th_interval = 0\<rparr>"

definition busy_loop :: "nat loop_state" where
  "busy_loop = snd (install_timer busy_timer 5 (snd (loop_enqueue (Some 7) loop_make)))"

lemma busy_loop: "busy_loop = \<lparr>rl_pending = [(0, 7)], rl_timers = [\<lparr>slot_handle = busy_timer, slot_deadline = 5\<rparr>], rl_next_sequence = 1,
    rl_depth = 0, rl_quit = False, rl_finished = False, rl_invalid = {}\<rparr>"
  by (simp add: busy_loop_def install_timer_def loop_enqueue_def loop_make_def schedule_install_def next_u64_def)

lemma busy_due: "5 \<le> boundary \<Longrightarrow> due_at (rl_timers busy_loop) boundary = {0}"
  by (auto simp: busy_loop due_at_def busy_timer_def)

lemma busy_exec: "loop_exec loop_make [Posted 0] busy_loop"
proof -
  have "loop_exec loop_make ([] @ [Posted 0]) (snd (loop_enqueue (Some 7) loop_make))"
    by (rule loop_exec.goes [OF loop_exec.stays]) (use posts [of loop_make 7] in \<open>simp add: loop_make_def loop_enqueue_def\<close>)
  then have "loop_exec loop_make (([] @ [Posted 0]) @ []) busy_loop"
    by (rule loop_exec.goes) (rule installs [of busy_timer _ 5 True], simp_all add: busy_loop_def install_timer_def loop_enqueue_def loop_make_def installed_def)
  then show ?thesis by simp
qed

lemma idle_lawful: "lawful_world idle_world"
  by (auto simp: lawful_world_def lawful_def idle_world_def intro: loop_exec.stays)

lemma runloop_in_order_witness:
  "in_order [Posted 0] busy_loop \<and> (\<exists>t. ends_in idle_world 0 busy_loop t \<and> rl_depth t = 0)"
proof -
  have "run_pending idle_world 0 busy_loop \<noteq> None"
    by (simp add: run_pending_def running_mark_def busy_loop run_due_loop.simps run_queued_loop.simps take_due_timer_def take_due_def
        idle_world_def busy_timer_def run_released_def after_fire_def deadline_after_def Let_def)
  then obtain t where t: "ends_in idle_world 0 busy_loop t" unfolding ends_in_def by (metis not_None_eq surj_pair)
  have "rl_depth t = rl_depth busy_loop" using runloop_in_order [OF busy_exec, of idle_world 0] idle_lawful t by blast
  then show ?thesis using runloop_in_order [OF busy_exec, of idle_world 0] t by (auto simp: busy_loop)
qed

end
