(* ===== verification/Runloop_Runs.thy ===== *)
theory Runloop_Runs
  imports Runloop_Laws
begin

text \<open>
  What the running calls of a loop promise: a call that does not wait returns, timers that are always
  due starve neither each other nor the tasks, and a request to quit ends a run.
\<close>

section \<open>Running what is pending returns\<close>

lemma step_schedule_ok:
  assumes "loop_step s event t" "schedule_ok (rl_timers s)"
  shows "schedule_ok (rl_timers t)"
  using assms(1)
proof cases
  case (installs which deadline r)
  then show ?thesis using assms(2)
    by (auto simp: install_timer_def schedule_install_def schedule_ok_def installed_def split: if_splits)
next
  case (rounds world deadline refreshed current_pass n r current_pass' n')
  from rounds(2) show ?thesis
    by (cases rule: next_round_cases) (use assms(2) in \<open>auto intro: take_due_ok\<close>)
next
  case (claims boundary now handled work handled')
  then show ?thesis using assms(2) take_due_ok by (fastforce simp: take_due_timer_def split: prod.splits)
next
  case finishes
  then show ?thesis by (simp add: schedule_ok_def)
qed (use assms(2) in \<open>auto simp: loop_enqueue_def remove_timer_def remove_schedule_ok mark_invalid_def loop_quit_def loop_clear_def
  running_mark_def running_unmark_def split: if_splits\<close>)

lemma exec_schedule_ok: "loop_exec s events t \<Longrightarrow> schedule_ok (rl_timers s) \<Longrightarrow> schedule_ok (rl_timers t)"
  by (induction rule: loop_exec.induct) (auto intro: step_schedule_ok)

text \<open>The tasks queued below a number, which only taking and dropping change once it was given out.\<close>

definition queued_below :: "nat \<Rightarrow> 'k loop_state \<Rightarrow> nat" where
  "queued_below limit s = length (filter (\<lambda>q. q < limit) (queued s))"

lemma step_below:
  assumes "loop_step s event t" "limit \<le> rl_next_sequence s"
  shows "limit \<le> rl_next_sequence t \<and> queued_below limit t \<le> queued_below limit s"
  using assms(1)
proof cases
  case (rounds world deadline refreshed current_pass n r current_pass' n')
  from rounds(2) show ?thesis
    by (cases rule: next_round_cases) (use assms(2) in \<open>auto simp: queued_below_def\<close>)
next
  case (claims boundary now handled work handled')
  then show ?thesis using assms(2) by (auto simp: take_due_timer_def queued_below_def split: prod.splits)
qed (use assms(2) in \<open>auto simp: loop_enqueue_def install_timer_def remove_timer_def mark_invalid_def loop_quit_def loop_clear_def
  queued_below_def running_mark_def running_unmark_def split: if_splits\<close>)

lemma exec_below:
  "loop_exec s events t \<Longrightarrow> limit \<le> rl_next_sequence s \<Longrightarrow>
    limit \<le> rl_next_sequence t \<and> queued_below limit t \<le> queued_below limit s"
proof (induction rule: loop_exec.induct)
  case (goes s events t event u)
  then show ?case using step_below [OF goes(2), of limit] by auto
qed simp

text \<open>While a task runs or a timer fires nothing becomes due at a boundary: what is installed or
  rescheduled then is due later, as it is once the clock has moved past the boundary.\<close>

definition nothing_due_by :: "time_point \<Rightarrow> 'k world \<Rightarrow> bool" where
  "nothing_due_by boundary world =
     (\<forall>n job s. due_at (rl_timers (wd_running world n job s)) boundary \<subseteq> due_at (rl_timers s) boundary)"

lemma released_timers: "rl_timers (run_released world n job s) = rl_timers (wd_running world n job s)"
  by (simp add: run_released_def after_fire_def mark_invalid_def split: job.split)

text \<open>A call ran so many, or ended with an exception that something it ran threw.\<close>

definition ran_upto :: "'k world \<Rightarrow> nat \<Rightarrow> nat \<Rightarrow> nat call_end \<Rightarrow> bool" where
  "ran_upto world runs most result =
     (case result of Ran m \<Rightarrow> runs \<le> m \<and> m \<le> runs + most | Threw \<Rightarrow> \<exists>n job s. wd_throws world n job s)"

lemma ran_upto_more: "ran_upto world runs' most' result \<Longrightarrow> runs \<le> runs' \<Longrightarrow> runs' + most' \<le> runs + most \<Longrightarrow> ran_upto world runs most result"
  by (auto simp: ran_upto_def split: call_end.splits)

lemma ran_upto_same [simp]: "ran_upto world runs most (Ran runs)"
  by (simp add: ran_upto_def)

lemma ran_upto_threw: "wd_throws world n job s \<Longrightarrow> ran_upto world runs most Threw"
  by (auto simp: ran_upto_def)

lemma left_mono: "due_at slots' boundary \<subseteq> due_at slots boundary \<Longrightarrow> schedule.left slots' boundary handled \<le> schedule.left slots boundary handled"
  unfolding schedule.left_def by (intro card_mono) (auto simp: due_at_def)

lemma run_due_loop_returns:
  assumes w: "lawful_world world" "nothing_due_by boundary world"
  shows "0 < d \<Longrightarrow> rl_depth s = d \<Longrightarrow> schedule_ok (rl_timers s) \<Longrightarrow>
    \<exists>result n' t. run_due_loop world boundary handled runs n s = Some (result, n', t) \<and>
      ran_upto world runs (schedule.left (rl_timers s) boundary handled) result"
proof (induction "schedule.left (rl_timers s) boundary handled" arbitrary: handled runs n s rule: less_induct)
  case less
  obtain work handled' t where x: "take_due_timer boundary (wd_clock world n) handled s = (work, handled', t)" by (metis prod_cases3)
  show ?case
  proof (cases work)
    case None
    then show ?thesis using x by (subst run_due_loop.simps) simp
  next
    case (Some job)
    obtain which slots where c: "job = Fire which" "take_due (rl_timers s) boundary (wd_clock world n) handled = (Some which, slots, handled')"
        "t = s\<lparr>rl_timers := slots\<rparr>"
      using timer_due x unfolding Some by metis
    define u where "u = run_released world (n + 1) job t"
    have t: "rl_depth t = d" "schedule_ok (rl_timers t)" using less.prems(2) take_due_ok [OF less.prems(3) c(2)] by (simp_all add: c(3))
    have g: "goes_on d t u" unfolding u_def using w(1) less.prems(1) by (rule released_goes_on)
    then have u: "rl_depth u = d" "schedule_ok (rl_timers u)" using t exec_schedule_ok by (auto simp: goes_on_def)
    have "schedule.left (rl_timers u) boundary handled' \<le> schedule.left slots boundary handled'"
      using w(2) [unfolded nothing_due_by_def, rule_format, of "n + 1" job t] by (intro left_mono) (simp add: u_def released_timers c(3))
    also have "\<dots> < schedule.left (rl_timers s) boundary handled" using schedule.claim_left [OF less.prems(3) c(2)] .
    finally have l: "schedule.left (rl_timers u) boundary handled' < schedule.left (rl_timers s) boundary handled" .
    obtain result n' t' where k: "run_due_loop world boundary handled' (runs + 1) (n + 2) u = Some (result, n', t')"
        "ran_upto world (runs + 1) (schedule.left (rl_timers u) boundary handled') result"
      using less.hyps [OF l less.prems(1) u] by blast
    have "run_due_loop world boundary handled runs n s =
        (if wd_throws world (n + 1) job t then Some (Threw, n + 2, u) else Some (result, n', t'))"
      using x k(1) [unfolded u_def] by (subst run_due_loop.simps) (simp add: Some u_def)
    then show ?thesis using ran_upto_more [OF k(2)] l ran_upto_threw [of world "n + 1" job t] by (auto split: if_splits)
  qed
qed

lemma run_queued_loop_returns:
  assumes w: "lawful_world world"
  shows "0 < d \<Longrightarrow> rl_depth s = d \<Longrightarrow> limit \<le> rl_next_sequence s \<Longrightarrow>
    \<exists>result n' t. run_queued_loop world limit runs n s = Some (result, n', t) \<and> ran_upto world runs (queued_below limit s) result"
proof (induction "queued_below limit s" arbitrary: runs n s rule: less_induct)
  case less
  show ?case
  proof (cases "rl_pending s \<noteq> [] \<and> fst (hd (rl_pending s)) < limit")
    case False
    then show ?thesis by (subst run_queued_loop.simps) auto
  next
    case True
    obtain q k rest where q: "rl_pending s = (q, k) # rest" using True by (metis list.exhaust surj_pair)
    let ?t = "s\<lparr>rl_pending := rest\<rparr>"
    define u where "u = run_released world n (Task k) ?t"
    have g: "goes_on d ?t u" unfolding u_def using w less.prems(1) by (rule released_goes_on)
    then have "rl_depth u = d" and b: "limit \<le> rl_next_sequence u \<and> queued_below limit u \<le> queued_below limit ?t"
      using less.prems(2,3) exec_below [of ?t _ u limit] by (auto simp: goes_on_def)
    moreover have l: "queued_below limit ?t < queued_below limit s" using True by (simp add: queued_below_def q)
    ultimately obtain result n' t' where j: "run_queued_loop world limit (runs + 1) (n + 1) u = Some (result, n', t')"
        "ran_upto world (runs + 1) (queued_below limit u) result"
      using less.hyps [of u "runs + 1" "n + 1"] less.prems(1) by auto
    have "run_queued_loop world limit runs n s =
        (if wd_throws world n (Task k) ?t then Some (Threw, n + 1, u) else Some (result, n', t'))"
      using True j(1) by (subst run_queued_loop.simps) (simp add: q u_def [symmetric] Let_def)
    then show ?thesis using ran_upto_more [OF j(2)] b l ran_upto_threw [of world n "Task k" ?t] by (auto split: if_splits)
  qed
qed

text \<open>C37: when nothing the call runs makes another timer due by the time the call started, \<open>run_pending\<close> ends:
  tasks that post more tasks, that clear the queue and post again, or that install timers for later do not keep it
  going. It then runs at most the timers that were due and the tasks that were queued when it started, and returns
  how many it ran unless one of them throws. The condition is needed for the bound: a callback that installs a
  timer which is due at once is followed by that timer in the same call (\<open>run_pending_runs_new_timer\<close>).\<close>

theorem run_pending_returns:
  assumes "lawful_world world" "schedule_ok (rl_timers s)" "nothing_due_by (wd_clock world n) world"
  shows "\<exists>result n' t. run_pending world n s = Some (result, n', t) \<and>
    ran_upto world 0 (card (due_at (rl_timers s) (wd_clock world n)) + pending_count s) result"
proof -
  let ?s = "s\<lparr>rl_depth := rl_depth s + 1\<rparr>" and ?b = "wd_clock world n" and ?q = "rl_next_sequence s"
  obtain r1 n1 s1 where k: "run_due_loop world ?b [] 0 (n + 1) ?s = Some (r1, n1, s1)" "ran_upto world 0 (schedule.left (rl_timers s) ?b []) r1"
    using run_due_loop_returns [OF assms(1,3), of "rl_depth s + 1" ?s "[]" 0 "n + 1"] assms(2) by auto
  have "goes_on (rl_depth s + 1) ?s s1" by (rule run_due_loop_goes_on [OF assms(1) _ k(1)]) simp
  then have "rl_depth s1 = rl_depth s + 1" and b: "?q \<le> rl_next_sequence s1 \<and> queued_below ?q s1 \<le> queued_below ?q ?s"
    using exec_below [of ?s _ s1 ?q] by (auto simp: goes_on_def)
  then obtain r2 n' t where j: "run_queued_loop world ?q m n1 s1 = Some (r2 m, n' m, t m)" "ran_upto world m (queued_below ?q s1) (r2 m)" for m
    using run_queued_loop_returns [OF assms(1), of "rl_depth s + 1" s1 ?q _ n1] by (metis add_gr_0 zero_less_one)
  have "queued_below ?q ?s \<le> pending_count s" unfolding queued_below_def pending_count_def
    using length_filter_le [of "\<lambda>q. q < ?q" "queued s"] by simp
  then have m: "ran_upto world 0 (card (due_at (rl_timers s) ?b) + pending_count s) (r2 m)" if "r1 = Ran m" for m
    using k(2) b that by (intro ran_upto_more [OF j(2)]) (auto simp: ran_upto_def schedule.left_def)
  show ?thesis
  proof (cases r1)
    case (Ran m)
    then show ?thesis using k(1) j(1) [of m] m [OF Ran] by (simp add: run_pending_def running_mark_def)
  next
    case Threw
    then show ?thesis using k by (simp add: run_pending_def running_mark_def ran_upto_def)
  qed
qed

section \<open>Timers starve no task\<close>

text \<open>Firing timers neither throws nor asks the loop to quit nor takes what is queued off it, and makes
  nothing due at the boundary of the pass.\<close>

definition only_fires :: "time_point \<Rightarrow> 'k world \<Rightarrow> bool" where
  "only_fires boundary world =
     (\<forall>n which s. let t = wd_running world n (Fire which) s
      in \<not> wd_throws world n (Fire which) s \<and> (rl_quit t \<longrightarrow> rl_quit s) \<and> (\<exists>more. rl_pending t = rl_pending s @ more) \<and>
         due_at (rl_timers t) boundary \<subseteq> due_at (rl_timers s) boundary \<and>
         (schedule_ok (rl_timers s) \<longrightarrow> schedule_ok (rl_timers t)))"

lemma only_firesD:
  assumes "only_fires boundary world"
  obtains more where "\<not> wd_throws world n (Fire which) s" "rl_quit (wd_running world n (Fire which) s) \<Longrightarrow> rl_quit s"
    "rl_pending (wd_running world n (Fire which) s) = rl_pending s @ more"
    "due_at (rl_timers (wd_running world n (Fire which) s)) boundary \<subseteq> due_at (rl_timers s) boundary"
    "schedule_ok (rl_timers s) \<Longrightarrow> schedule_ok (rl_timers (wd_running world n (Fire which) s))"
  using assms unfolding only_fires_def Let_def by blast

lemma released_fire [simp]:
  "rl_pending (run_released world n job s) = rl_pending (wd_running world n job s)"
  "rl_quit (run_released world n job s) = rl_quit (wd_running world n job s)"
  by (simp_all add: run_released_def after_fire_def mark_invalid_def split: job.split)

text \<open>A run, from when it runs \<open>job\<close> on.\<close>

definition run_from :: "'k world \<Rightarrow> bool \<Rightarrow> nat \<Rightarrow> pass \<Rightarrow> nat \<Rightarrow> 'k job \<Rightarrow> 'k loop_state \<Rightarrow> (nat call_end \<times> nat \<times> 'k loop_state) option" where
  "run_from world outermost runs current_pass n job s =
     (if wd_throws world n job s then Some (Threw, n + 1, run_released world n job s)
      else run_until_loop world kNoDeadline outermost (runs + 1) current_pass (n + 1) (run_released world n job s))"

lemma run_until_loop_runs:
  assumes "next_round world kNoDeadline outermost False current_pass n s = (Returns (Some job), current_pass', n', t)"
  shows "run_until_loop world kNoDeadline outermost runs current_pass n s = run_from world outermost runs current_pass' n' job t"
  using assms by (subst run_until_loop.simps, subst next_work.simps) (simp add: run_from_def)

lemma fires_then_task:
  assumes w: "only_fires boundary world"
  shows "schedule_ok (rl_timers s) \<Longrightarrow> \<not> rl_quit s \<Longrightarrow> rl_pending s = (q, k) # rest \<Longrightarrow>
    \<exists>fires current_pass' m t more. fires \<le> schedule.left (rl_timers s) boundary handled \<and>
      rl_pending t = rest @ more \<and> (rl_timers t = [] \<or> (\<exists>i. current_pass' = fresh_pass (wd_clock world i))) \<and>
      run_until_loop world kNoDeadline outermost runs \<lparr>ps_boundary = boundary, ps_handled = handled\<rparr> n s =
        run_from world outermost (runs + fires) current_pass' m (Task k) t"
proof (induction "schedule.left (rl_timers s) boundary handled" arbitrary: handled runs n s rest rule: less_induct)
  case less
  let ?pass = "\<lparr>ps_boundary = boundary, ps_handled = handled\<rparr>"
  obtain r current_pass' n' t where x: "next_round world kNoDeadline outermost False ?pass n s = (r, current_pass', n', t)"
    by (metis prod_cases4)
  from x show ?case
  proof (cases rule: next_round_cases)
    case (fires which handled' slots)
    define u where "u = run_released world n' (Fire which) t"
    have c: "take_due (rl_timers s) boundary (wd_clock world n) handled = (Some which, slots, handled')" using fires(5) by simp
    obtain more where m: "\<not> wd_throws world n' (Fire which) t" "rl_quit u \<Longrightarrow> rl_quit t" "rl_pending u = rl_pending t @ more" "due_at (rl_timers u) boundary \<subseteq> due_at slots boundary"
        "schedule_ok (rl_timers u)"
      using only_firesD [OF w, of n' which t] take_due_ok [OF less.prems(1) c] by (auto simp: u_def released_timers fires(3))
    have "schedule.left (rl_timers u) boundary handled' \<le> schedule.left slots boundary handled'" using m(4) by (rule left_mono)
    also have "\<dots> < schedule.left (rl_timers s) boundary handled" using schedule.claim_left [OF less.prems(1) c] .
    finally have l: "schedule.left (rl_timers u) boundary handled' < schedule.left (rl_timers s) boundary handled" .
    have u: "\<not> rl_quit u" "rl_pending u = (q, k) # rest @ more" using m(2,3) less.prems(2,3) by (auto simp: fires(3))
    obtain j current_pass'' i t' more' where j: "j \<le> schedule.left (rl_timers u) boundary handled'" "rl_pending t' = (rest @ more) @ more'"
        "rl_timers t' = [] \<or> (\<exists>i. current_pass'' = fresh_pass (wd_clock world i))"
        "run_until_loop world kNoDeadline outermost (runs + 1) \<lparr>ps_boundary = boundary, ps_handled = handled'\<rparr> (n' + 1) u =
          run_from world outermost (runs + 1 + j) current_pass'' i (Task k) t'"
      using less.hyps [OF l m(5) u] by blast
    have "run_until_loop world kNoDeadline outermost runs ?pass n s =
        run_from world outermost (runs + (j + 1)) current_pass'' i (Task k) t'"
      using run_until_loop_runs [OF x [unfolded fires(2)], of runs] j(4) m(1) by (simp add: fires(6) u_def run_from_def)
    moreover have "j + 1 \<le> schedule.left (rl_timers s) boundary handled" using j(1) l by simp
    ultimately show ?thesis using j(2,3) by (metis append.assoc)
  next
    case (task q' k' rest')
    have "q' = q" "k' = k" "rest' = rest" using task(3) less.prems(3) by simp_all
    then show ?thesis
      using run_until_loop_runs [OF x [unfolded task(2)], of runs] task(4,6)
      by (intro exI [of _ 0] exI [of _ current_pass'] exI [of _ n'] exI [of _ t] exI [of _ "[]"]) (auto split: if_splits)
  qed (use less.prems in simp_all)
qed



lemma run_pending_returns_witness: "\<exists>runs n' t. run_pending idle_world 0 busy_loop = Some (Ran runs, n', t) \<and> runs \<le> 2"
proof -
  have "schedule_ok (rl_timers busy_loop)" "nothing_due_by (wd_clock idle_world 0) idle_world"
    "card (due_at (rl_timers busy_loop) (wd_clock idle_world 0)) + pending_count busy_loop = 2"
    by (simp_all add: nothing_due_by_def idle_world_def busy_due) (simp_all add: busy_loop schedule_ok_def pending_count_def)
  then obtain result n' t where r: "run_pending idle_world 0 busy_loop = Some (result, n', t)" "ran_upto idle_world 0 2 result"
    using run_pending_returns [OF idle_lawful, of busy_loop 0] by auto
  show ?thesis using r by (cases result) (simp_all add: ran_upto_def idle_world_def)
qed

section \<open>Quitting\<close>

text \<open>A request to quit ends a run before it runs anything else, whether it was made before the
  call or by a task the call ran; the queue and the timers stay as they are, and the request is
  consumed exactly when the call is the outermost, so that every run it is nested in ends too.\<close>

theorem quit_ends_run:
  assumes "rl_quit s"
  shows "run_until world kNoDeadline n s = Some (Ran 0, n + 1, s\<lparr>rl_quit := rl_depth s \<noteq> 0\<rparr>) \<and>
    run_one world n s = Some (Ran False, n + 1, s\<lparr>rl_quit := rl_depth s \<noteq> 0\<rparr>) \<and>
    run_until_loop world kNoDeadline outermost runs current_pass n s = Some (Ran runs, n, s\<lparr>rl_quit := \<not> outermost\<rparr>)"
proof -
  have r: "next_work world kNoDeadline outermost False current_pass n t = Some (None, current_pass, n, t\<lparr>rl_quit := \<not> outermost\<rparr>)"
    if "rl_quit t" for outermost current_pass n t
    using that by (subst next_work.simps) (simp add: next_round_def)
  have l: "run_until_loop world kNoDeadline outermost runs current_pass n t = Some (Ran runs, n, t\<lparr>rl_quit := \<not> outermost\<rparr>)"
    if "rl_quit t" for outermost current_pass n t runs
    using that by (subst run_until_loop.simps) (simp add: r)
  show ?thesis using assms by (simp add: run_until_def run_one_def running_mark_def running_unmark_def l r)
qed

lemma quit_ends_run_witness:
  "run_one idle_world 0 (loop_quit busy_loop) = Some (Ran False, 1, busy_loop)"
proof -
  have "rl_quit (loop_quit busy_loop)" by (simp add: loop_quit_def)
  then show ?thesis using quit_ends_run [of "loop_quit busy_loop" idle_world 0] by (simp add: loop_quit_def busy_loop)
qed

section \<open>A timer installed while the clock stands still\<close>

text \<open>The cutoff of \<open>run_pending\<close> for timers is the time the call started at, so a timer that a
  callback installs, due at once, is run by the same call when the clock has not moved on by then.
  Here a callback installs one, and the call runs two.\<close>

definition standing_world :: "nat world" where
  "standing_world = \<lparr>wd_clock = (\<lambda>n. 5), wd_waiting = (\<lambda>n s. s),
     wd_running = (\<lambda>n job s. case job of Task k \<Rightarrow> s
       | Fire which \<Rightarrow> if th_id which = 0 then snd (snd (timer_once 0 True 5 1 s)) else s),
     wd_throws = (\<lambda>n job s. False)\<rparr>"

lemma run_pending_runs_new_timer:
  "\<exists>n' t. run_pending standing_world 0 busy_loop = Some (Ran 3, n', t) \<and> pending_count busy_loop + timer_count busy_loop = 2"
  by (simp add: run_pending_def running_mark_def busy_loop run_due_loop.simps run_queued_loop.simps take_due_timer_def take_due_def
      standing_world_def busy_timer_def run_released_def after_fire_def deadline_after_def timer_once_def timer_make_def next_timer_id_def install_timer_def
      schedule_install_def pending_count_def timer_count_def schedule_size_def mark_invalid_def Let_def)

end
