(* ===== verification/Thread_Life.thy ===== *)
theory Thread_Life
  imports Thread_Laws Runloop_Runs
begin

text \<open>
  A thread from its start to its end (\<open>src/thread/thread.cpp\<close>), with the run loop it runs in between
  (\<open>src/thread/runloop.cpp\<close>) and what is left of both when it has ended; and timers on the loop of the
  thread that makes them (\<open>src/thread/timer.cpp\<close>).
\<close>

section \<open>The life of a thread\<close>

text \<open>At the end of a thread its slots are destroyed: that of its record, and that of its loop when it
  has asked for one, in an order the language need not promise. Between the two parts of the first other
  threads run, and do \<open>between\<close> to the process.\<close>

definition end_loop :: "system \<Rightarrow> nat \<Rightarrow> 'k process \<Rightarrow> 'k process" where
  "end_loop system me p = (if me \<in> pr_loop_holders p then loop_holder_ends system me p else p)"

definition end_record :: "nat \<Rightarrow> ('k process \<Rightarrow> 'k process) \<Rightarrow> 'k process \<Rightarrow> 'k process" where
  "end_record me between p = holder_finishes me (between (holder_leaves me p))"

definition thread_ends :: "system \<Rightarrow> nat \<Rightarrow> bool \<Rightarrow> ('k process \<Rightarrow> 'k process) \<Rightarrow> 'k process \<Rightarrow> 'k process" where
  "thread_ends system me loop_first between p =
     (if loop_first then end_record me between (end_loop system me p) else end_loop system me (end_record me between p))"

text \<open>Once published, the thread runs its loop, or the body, until it ends. What the body and all other
  threads do to the process in the meantime is \<open>meanwhile\<close>, what becomes of the loop is up to the
  \<open>world\<close>. An exception ends the program, and a run may go on for ever: then there is no end.\<close>

definition thread_life ::
  "system \<Rightarrow> 'k world \<Rightarrow> ('k process \<Rightarrow> 'k process) \<Rightarrow> ('k process \<Rightarrow> 'k process) \<Rightarrow> bool \<Rightarrow> nat \<Rightarrow> bool \<Rightarrow> 'k process \<Rightarrow>
    (nat \<times> 'k process) option" where
  "thread_life system world meanwhile between loop_first me run_loop p =
     (let (self, p1) = thread_start system me run_loop p;
          p2 = meanwhile p1
      in map_option (\<lambda>p3. (self, thread_ends system me loop_first between p3))
           (if \<not> run_loop then Some p2
            else case loop_run world 0 (pr_loops p1 (loop_for system me)) of
                Some (Ran runs, n, l) \<Rightarrow> Some (change_loop (loop_for system me) (\<lambda>_. l) p2)
              | _ \<Rightarrow> None))"

section \<open>Timers on the loop of the caller\<close>

definition timer_repeating_here ::
  "system \<Rightarrow> nat \<Rightarrow> milliseconds \<Rightarrow> bool \<Rightarrow> time_point \<Rightarrow> nat \<Rightarrow> 'k process \<Rightarrow> (timer_handle \<times> loop_name) \<times> nat \<times> 'k process" where
  "timer_repeating_here system me interval has_callback now counter p =
     (let (name, p') = current_runloop system me p;
          (which, counter', l) = timer_repeating interval has_callback now counter (pr_loops p' name)
      in ((which, name), counter', change_loop name (\<lambda>_. l) p'))"

definition timer_once_here ::
  "system \<Rightarrow> nat \<Rightarrow> milliseconds \<Rightarrow> bool \<Rightarrow> time_point \<Rightarrow> nat \<Rightarrow> 'k process \<Rightarrow> (timer_handle \<times> loop_name) \<times> nat \<times> 'k process" where
  "timer_once_here system me delay has_callback now counter p =
     (let (name, p') = current_runloop system me p;
          (which, counter', l) = timer_once delay has_callback now counter (pr_loops p' name)
      in ((which, name), counter', change_loop name (\<lambda>_. l) p'))"

text \<open>On a finished loop, such as the one a thread is given whose own is gone, a timer is not installed
  and is never valid.\<close>

lemma timer_make_finished:
  assumes "rl_finished l" "timer_make interval repeats has_callback now counter l = (which, counter', l')"
  shows "\<not> timer_valid which l' \<and> rl_timers l' = rl_timers l"
  using assms by (auto simp: timer_make_def next_timer_id_def install_timer_def mark_invalid_def timer_valid_def Let_def split: if_splits)

lemma late_timer_invalid:
  assumes "me \<in> pr_loops_torn_down p" "rl_finished (pr_loops p Finished_loop)"
    "timer_repeating_here system me interval has_callback now counter p = ((which, name), counter', q)"
  shows "name = Finished_loop \<and> \<not> timer_valid which (pr_loops q name) \<and> timer_count (pr_loops q name) = timer_count (pr_loops p name)"
  using assms timer_make_finished [OF assms(2)]
  by (auto simp: timer_repeating_here_def timer_repeating_def current_runloop_def change_loop_def timer_count_def split: prod.splits)

section \<open>What is left of a thread\<close>

lemma change_loop_holders [simp]: "pr_loop_holders (change_loop name f p) = pr_loop_holders p"
  by (simp add: change_loop_def)

lemma end_loop_frame [simp]:
  "pr_records (end_loop system me p) = pr_records p" "pr_holders (end_loop system me p) = pr_holders p"
  "pr_registry (end_loop system me p) = pr_registry p" "pr_torn_down (end_loop system me p) = pr_torn_down p"
  "pr_leaving (end_loop system me p) = pr_leaving p"
  by (simp_all add: end_loop_def loop_holder_ends_def)

lemma end_loop_reach: "process_reach system p \<Longrightarrow> process_reach system (end_loop system me p)"
  by (auto simp: end_loop_def intro: process_reach.goes process_step.loops loops_step.ends_loop)

text \<open>What other threads do meanwhile keeps the process one that executions reach, and leaves the slots of
  the new thread to it; and, while it ends, leaves a loop that is finished and empty so.\<close>

definition leaves_slots :: "system \<Rightarrow> nat \<Rightarrow> ('k process \<Rightarrow> 'k process) \<Rightarrow> bool" where
  "leaves_slots system me f =
     (\<forall>p. process_reach system p \<longrightarrow> process_reach system (f p) \<and> pr_holders (f p) me = pr_holders p me \<and>
        (me \<in> pr_torn_down (f p) \<longleftrightarrow> me \<in> pr_torn_down p) \<and> (me \<in> pr_leaving (f p) \<longleftrightarrow> me \<in> pr_leaving p) \<and>
        (me \<in> pr_loop_holders p \<longrightarrow> me \<in> pr_loop_holders (f p)))"

definition loop_over :: "system \<Rightarrow> nat \<Rightarrow> 'k process \<Rightarrow> bool" where
  "loop_over system me p =
     (me \<in> pr_loops_torn_down p \<and> rl_finished (pr_loops p (loop_for system me)) \<and>
      rl_pending (pr_loops p (loop_for system me)) = [] \<and> rl_timers (pr_loops p (loop_for system me)) = [])"

definition leaves_loop :: "system \<Rightarrow> nat \<Rightarrow> ('k process \<Rightarrow> 'k process) \<Rightarrow> bool" where
  "leaves_loop system me f = (\<forall>p. process_reach system p \<and> loop_over system me p \<longrightarrow> loop_over system me (f p))"

lemma end_loop_over: "me \<in> pr_loop_holders p \<Longrightarrow> loop_over system me (end_loop system me p)"
  by (simp add: loop_over_def end_loop_def loop_holder_ends_def change_loop_def)

lemma end_record_reach:
  assumes p: "process_reach system p" "me \<notin> pr_leaving p" "me \<notin> pr_torn_down p" and b: "leaves_slots system me between"
  shows "process_reach system (end_record me between p)" "pr_holders p me = Some self \<Longrightarrow> ended self (end_record me between p)"
    "me \<in> pr_torn_down (end_record me between p)" "me \<in> pr_loop_holders p \<Longrightarrow> me \<in> pr_loop_holders (end_record me between p)"
proof -
  define u where "u = between (holder_leaves me p)"
  have l: "process_reach system (holder_leaves me p)" using p by (intro process_reach.goes [OF p(1)] process_step.leaves)
  then have u: "process_reach system u" "pr_holders u me = pr_holders p me" "me \<in> pr_leaving u"
      "me \<in> pr_loop_holders p \<Longrightarrow> me \<in> pr_loop_holders u"
    using b by (auto simp: leaves_slots_def u_def)
  show "process_reach system (end_record me between p)"
    unfolding end_record_def u_def [symmetric] using u by (intro process_reach.goes [OF u(1)] process_step.finishes)
  show "ended self (end_record me between p)" if "pr_holders p me = Some self"
    using threads_okD(4) [OF process_ok [OF u(1)], of me self] u(2) that
    by (auto simp: end_record_def u_def [symmetric] ended_def holder_finishes_records)
  show "me \<in> pr_torn_down (end_record me between p)" by (simp add: end_record_def)
  show "me \<in> pr_loop_holders (end_record me between p)" if "me \<in> pr_loop_holders p"
    using u(4) [OF that] by (simp add: end_record_def u_def)
qed

lemma end_record_loop:
  assumes p: "process_reach system p" "me \<notin> pr_leaving p" "me \<notin> pr_torn_down p" and b: "leaves_loop system me between" "loop_over system me p"
  shows "loop_over system me (end_record me between p)"
proof -
  have "process_reach system (holder_leaves me p)" using p by (intro process_reach.goes [OF p(1)] process_step.leaves)
  moreover have "loop_over system me (holder_leaves me p)" using b(2) by (simp add: loop_over_def)
  ultimately have "loop_over system me (between (holder_leaves me p))" using b(1) by (simp add: leaves_loop_def)
  then show ?thesis by (simp add: loop_over_def end_record_def)
qed

lemma thread_ends_all:
  assumes p: "process_reach system p" "me \<notin> pr_leaving p" "me \<notin> pr_torn_down p" "pr_holders p me = Some self"
    and b: "leaves_slots system me between" "leaves_loop system me between"
  shows "process_reach system (thread_ends system me loop_first between p)" "ended self (thread_ends system me loop_first between p)"
    "me \<in> pr_torn_down (thread_ends system me loop_first between p)"
    "me \<in> pr_loop_holders p \<Longrightarrow> loop_over system me (thread_ends system me loop_first between p)"
proof -
  let ?e = "end_loop system me p"
  have e: "process_reach system ?e" "me \<notin> pr_leaving ?e" "me \<notin> pr_torn_down ?e" "pr_holders ?e me = Some self"
    using p by (simp_all add: end_loop_reach)
  note first = end_record_reach [OF e(1-3) b(1)] and second = end_record_reach [OF p(1-3) b(1)]
  show "process_reach system (thread_ends system me loop_first between p)"
    using first(1) end_loop_reach [OF second(1)] by (simp add: thread_ends_def)
  show "ended self (thread_ends system me loop_first between p)"
    using first(2) [OF e(4)] second(2) [OF p(4)] by (simp add: thread_ends_def ended_def)
  show "me \<in> pr_torn_down (thread_ends system me loop_first between p)"
    using first(3) second(3) by (simp add: thread_ends_def)
  show "loop_over system me (thread_ends system me loop_first between p)" if h: "me \<in> pr_loop_holders p"
    using end_record_loop [OF e(1-3) b(2) end_loop_over [OF h]] end_loop_over [OF second(4) [OF h]] by (simp add: thread_ends_def)
qed

lemma start_loop_holder: "thread_start system me True p = (self, q) \<Longrightarrow> me \<notin> pr_loops_torn_down p \<Longrightarrow> me \<in> pr_loop_holders q"
  by (auto simp: thread_start_def run_on_new_thread_def make_record_def Let_def current_runloop_def install_holder_def set_native_id_def
      change_record_def set_record_loop_def register_self_def)

lemma placeholder_finished:
  assumes "threads_ok system p"
  shows "thread_finished (fst (thread_placeholder p)) (snd (thread_placeholder p))"
proof (cases "pr_placeholder p")
  case None
  then show ?thesis
    by (simp add: thread_placeholder_def make_record_def record_finish_def mark_finished_def deregister_def thread_finished_def
        the_record_def change_record_def)
next
  case (Some v)
  then show ?thesis using threads_okD(7) [OF assms Some] by (auto simp: thread_placeholder_def thread_finished_def the_record_def)
qed


text \<open>A thread that is asked to quit while it waits for work.\<close>

definition quitting_world :: "nat world" where
  "quitting_world = \<lparr>wd_clock = (\<lambda>n. 0), wd_waiting = (\<lambda>n s. loop_quit s), wd_running = (\<lambda>n job s. s), wd_throws = (\<lambda>n job s. False)\<rparr>"

lemma quitting_run: "loop_run quitting_world 0 loop_make = Some (Ran 0, 3, loop_make)"
  by (simp add: loop_run_def run_until_def running_mark_def run_until_loop.simps next_work.simps next_round_def quitting_world_def
      loop_make_def loop_quit_def schedule_empty_def schedule_earliest_def fresh_pass_def kNoDeadline_def kMaxDeadline_def
      running_unmark_def Let_def)


end
