(* ===== verification/Native.thy ===== *)
theory Native
  imports Thread
begin

text \<open>
  \<open>src/thread/native.cpp\<close>: what the library asks the operating system about a thread, on each of the two
  platforms. What the system calls answer is a parameter; which thread calls is an argument.
\<close>

section \<open>The system calls\<close>

datatype platform = Linux | MacOS

record kern =
  ke_getpid :: nat
  ke_gettid :: "nat \<Rightarrow> nat"
  ke_threadid_np :: "nat \<Rightarrow> nat option"
  ke_mach_thread_np :: "nat \<Rightarrow> nat"
  ke_main_np :: "nat \<Rightarrow> bool"

section \<open>The answers\<close>

definition native_thread_id :: "platform \<Rightarrow> kern \<Rightarrow> nat \<Rightarrow> nat" where
  "native_thread_id platform kern me =
     (case platform of
        Linux \<Rightarrow> ke_gettid kern me
      | MacOS \<Rightarrow> (case ke_threadid_np kern me of Some i \<Rightarrow> i | None \<Rightarrow> ke_mach_thread_np kern me))"

definition is_main_thread :: "platform \<Rightarrow> kern \<Rightarrow> nat \<Rightarrow> bool" where
  "is_main_thread platform kern me =
     (case platform of Linux \<Rightarrow> ke_getpid kern = ke_gettid kern me | MacOS \<Rightarrow> ke_main_np kern me)"

definition main_thread_id :: "platform \<Rightarrow> kern \<Rightarrow> nat \<Rightarrow> nat option" where
  "main_thread_id platform kern me =
     (case platform of
        Linux \<Rightarrow> Some (ke_getpid kern)
      | MacOS \<Rightarrow> if is_main_thread platform kern me then Some (native_thread_id platform kern me) else None)"

text \<open>The answer of \<open>is_main_thread\<close> is kept for each thread once it has asked.\<close>

definition on_main_thread :: "platform \<Rightarrow> kern \<Rightarrow> nat \<Rightarrow> (nat \<rightharpoonup> bool) \<Rightarrow> bool \<times> (nat \<rightharpoonup> bool)" where
  "on_main_thread platform kern me known =
     (case known me of
        Some is_main \<Rightarrow> (is_main, known)
      | None \<Rightarrow> let is_main = is_main_thread platform kern me in (is_main, known(me \<mapsto> is_main)))"

section \<open>The system of the thread model\<close>

text \<open>\<open>main\<close> is the thread the process started on.\<close>

definition native_system :: "platform \<Rightarrow> kern \<Rightarrow> nat \<Rightarrow> system" where
  "native_system platform kern main =
     \<lparr>sy_thread_id = native_thread_id platform kern, sy_main = main, sy_main_thread_id = main_thread_id platform kern\<rparr>"

text \<open>What the kernels promise: on Linux the process id is the id of the thread the process started on and
  of no other; on macOS \<open>pthread_main_np\<close> tells that thread.\<close>

definition kernel_ok :: "platform \<Rightarrow> kern \<Rightarrow> nat \<Rightarrow> bool" where
  "kernel_ok platform kern main =
     (case platform of
        Linux \<Rightarrow> \<forall>me. ke_getpid kern = ke_gettid kern me \<longleftrightarrow> me = main
      | MacOS \<Rightarrow> \<forall>me. ke_main_np kern me \<longleftrightarrow> me = main)"

lemma is_main_thread_main: "kernel_ok platform kern main \<Longrightarrow> is_main_thread platform kern me \<longleftrightarrow> me = main"
  unfolding kernel_ok_def is_main_thread_def by (cases platform) simp_all

text \<open>So the test for the main thread is the one of the thread model, asked directly or from what a thread
  has kept; and the id of the main thread is the one the main thread reads itself, whoever asks and
  wherever it is known.\<close>

definition known_ok :: "nat \<Rightarrow> (nat \<rightharpoonup> bool) \<Rightarrow> bool" where
  "known_ok main known = (\<forall>me b. known me = Some b \<longrightarrow> (b \<longleftrightarrow> me = main))"

lemma on_main_thread_main:
  assumes "kernel_ok platform kern main" "known_ok main known" "on_main_thread platform kern me known = (b, known')"
  shows "b \<longleftrightarrow> me = sy_main (native_system platform kern main)" "known_ok main known'"
proof -
  have "(b \<longleftrightarrow> me = main) \<and> known_ok main known'"
  proof (cases "known me")
    case None
    then have "b \<longleftrightarrow> me = main" "known' = known(me \<mapsto> b)"
      using assms(3) is_main_thread_main [OF assms(1), of me] by (auto simp: on_main_thread_def)
    then show ?thesis using assms(2) by (simp add: known_ok_def)
  next
    case (Some is_main)
    then show ?thesis using assms(2,3) by (simp add: on_main_thread_def known_ok_def)
  qed
  then show "b \<longleftrightarrow> me = sy_main (native_system platform kern main)" "known_ok main known'" by (simp_all add: native_system_def)
qed

lemma main_thread_id_main:
  assumes "kernel_ok platform kern main" "sy_main_thread_id (native_system platform kern main) me = Some i"
  shows "i = sy_thread_id (native_system platform kern main) main"
proof (cases platform)
  case Linux
  then have "ke_getpid kern = ke_gettid kern main" using assms(1) by (simp add: kernel_ok_def)
  then show ?thesis using assms(2) Linux by (simp add: native_system_def main_thread_id_def native_thread_id_def)
next
  case MacOS
  then show ?thesis using assms(2) is_main_thread_main [OF assms(1), of me]
    by (simp add: native_system_def main_thread_id_def split: if_splits)
qed

lemma main_thread_id_known:
  "sy_main_thread_id (native_system Linux kern main) me \<noteq> None"
  "kernel_ok MacOS kern main \<Longrightarrow> sy_main_thread_id (native_system MacOS kern main) me = None \<longleftrightarrow> me \<noteq> main"
  by (simp_all add: native_system_def main_thread_id_def is_main_thread_main)

text \<open>On a system of either platform, then, \<open>is_current\<close> of the main thread's record is the test of the
  platform.\<close>

lemma is_current_main:
  "kernel_ok platform kern main \<Longrightarrow> tr_is_main (the_record self p) \<Longrightarrow>
    is_current (native_system platform kern main) me self p \<longleftrightarrow> is_main_thread platform kern me"
  by (simp add: is_current_def is_main_thread_main) (simp add: native_system_def)

end
