(* ===== verification/Platform.thy ===== *)
theory Platform
  imports Prelude
begin

text \<open>
  \<open>src/platform/path.cpp\<close>, \<open>src/platform/xdg.cpp\<close>, \<open>src/platform/absolute_directory.h\<close> and
  \<open>src/platform/environment.cpp\<close>. A path is its text, as \<open>std::filesystem::path\<close> holds it on POSIX.
  The environment, the password database and what touches the file system are arguments.
\<close>

section \<open>Paths of the standard library\<close>

type_synonym fs_path = string
type_synonym environment = "string \<rightharpoonup> string"

definition is_absolute :: "fs_path \<Rightarrow> bool" where
  "is_absolute p = (p \<noteq> [] \<and> hd p = CHR ''/'')"

text \<open>\<open>append\<close>: an absolute path replaces, any other is joined with a separator where the path ends in
  a file name.\<close>

definition fs_append :: "fs_path \<Rightarrow> fs_path \<Rightarrow> fs_path" where
  "fs_append p q =
     (if is_absolute q then q
      else if p \<noteq> [] \<and> List.last p \<noteq> CHR ''/'' then p @ ''/'' @ q
      else p @ q)"

definition absolute_directory :: "string \<Rightarrow> fs_path option" where
  "absolute_directory v = (if is_absolute v then Some v else None)"

section \<open>The home directory\<close>

definition environment_value :: "environment \<Rightarrow> string \<Rightarrow> string option" where
  "environment_value env key = env key"

text \<open>What \<open>getpwuid_r\<close> answers with a buffer of some size: the buffer is too small, another error, no
  entry, or an entry, whose directory may be null.\<close>

datatype passwd_answer = Too_small | Failed_lookup | No_entry | Entry "string option"

definition largest_buffer :: nat where
  "largest_buffer = 1024 * 1024"

function passwd_loop :: "(nat \<Rightarrow> passwd_answer) \<Rightarrow> nat \<Rightarrow> passwd_answer" where
  "passwd_loop lookup buffer =
     (if lookup buffer \<noteq> Too_small \<or> buffer \<ge> largest_buffer \<or> buffer = 0 then lookup buffer
      else passwd_loop lookup (buffer * 2))"
  by auto
termination by (relation "measure (\<lambda>(lookup, buffer). largest_buffer - buffer)") auto

definition password_database_home :: "int \<Rightarrow> (nat \<Rightarrow> passwd_answer) \<Rightarrow> fs_path option" where
  "password_database_home suggested lookup =
     (case passwd_loop lookup (if suggested > 0 then nat suggested else 1024) of
        Entry (Some dir) \<Rightarrow> absolute_directory dir
      | _ \<Rightarrow> None)"

definition path_home :: "environment \<Rightarrow> fs_path option \<Rightarrow> fs_path option" where
  "path_home env password_home =
     (case Option.bind (environment_value env ''HOME'') absolute_directory of
        Some h \<Rightarrow> Some h
      | None \<Rightarrow> password_home)"

section \<open>Operations of paths\<close>

definition path_separator :: string where
  "path_separator = ''/''"

text \<open>The path of the working directory, which the file system makes absolute.\<close>

definition path_default :: "(fs_path \<Rightarrow> fs_path) \<Rightarrow> fs_path" where
  "path_default absolute = absolute ''.''"

definition path_exists :: "(fs_path \<Rightarrow> bool) \<Rightarrow> fs_path \<Rightarrow> bool" where
  "path_exists exists p = exists p"

definition path_append :: "fs_path \<Rightarrow> string \<Rightarrow> fs_path" where
  "path_append p component =
     (case find_pos (\<lambda>c. c \<notin> set path_separator) component of
        None \<Rightarrow> fs_append p []
      | Some first \<Rightarrow> fs_append p (drop first component))"

datatype fs_code = No_such_file_or_directory | Other_code int

record fs_error =
  fe_what :: string
  fe_path :: fs_path
  fe_code :: fs_code

definition path_mkdir :: "(fs_path \<Rightarrow> fs_code option) \<Rightarrow> fs_path \<Rightarrow> fs_error + fs_path" where
  "path_mkdir create_directories dir_path =
     (case create_directories dir_path of
        Some err \<Rightarrow> Inl \<lparr>fe_what = ''failed'', fe_path = dir_path, fe_code = err\<rparr>
      | None \<Rightarrow> Inr dir_path)"

definition starts_with :: "string \<Rightarrow> string \<Rightarrow> bool" where
  "starts_with s t = (take (length s) t = s)"

definition path_expand ::
  "(fs_path \<Rightarrow> fs_error + fs_path) \<Rightarrow> fs_path option \<Rightarrow> fs_path \<Rightarrow> fs_error + fs_path" where
  "path_expand canonical home p =
     (if p = ''~'' \<or> starts_with ''~/'' p
      then (case map_option (\<lambda>h. path_append h (drop 1 p)) home of
              Some expanded \<Rightarrow> canonical expanded
            | None \<Rightarrow> Inl \<lparr>fe_what = ''fail to expand tilde'', fe_path = p, fe_code = No_such_file_or_directory\<rparr>)
      else Inr p)"

definition path_resolve ::
  "(fs_path \<Rightarrow> fs_error + fs_path) \<Rightarrow> fs_path option \<Rightarrow> fs_path \<Rightarrow> fs_error + fs_path" where
  "path_resolve canonical home p =
     (case path_expand canonical home p of Inl e \<Rightarrow> Inl e | Inr expanded \<Rightarrow> canonical expanded)"

section \<open>The XDG directories\<close>

definition xdg_variable :: "environment \<Rightarrow> string \<Rightarrow> string option" where
  "xdg_variable env key = Option.bind (environment_value env key) absolute_directory"

definition config_home :: "environment \<Rightarrow> fs_path option \<Rightarrow> string \<Rightarrow> string option" where
  "config_home env home app_name =
     map_option (\<lambda>p. path_append p app_name)
       (case xdg_variable env ''XDG_CONFIG_HOME'' of
          Some v \<Rightarrow> Some v
        | None \<Rightarrow> map_option (\<lambda>h. path_append h ''.config'') home)"

definition data_home :: "environment \<Rightarrow> fs_path option \<Rightarrow> string \<Rightarrow> string option" where
  "data_home env home app_name =
     map_option (\<lambda>p. path_append p app_name)
       (case xdg_variable env ''XDG_DATA_HOME'' of
          Some v \<Rightarrow> Some v
        | None \<Rightarrow> map_option (\<lambda>h. path_append (path_append h ''.local'') ''share'') home)"

definition cache_home :: "environment \<Rightarrow> fs_path option \<Rightarrow> string \<Rightarrow> string option" where
  "cache_home env home app_name =
     map_option (\<lambda>p. path_append p app_name)
       (case xdg_variable env ''XDG_CACHE_HOME'' of
          Some v \<Rightarrow> Some v
        | None \<Rightarrow> map_option (\<lambda>h. path_append h ''.cache'') home)"

definition state_home :: "environment \<Rightarrow> fs_path option \<Rightarrow> string \<Rightarrow> string option" where
  "state_home env home app_name =
     map_option (\<lambda>p. path_append p app_name)
       (case xdg_variable env ''XDG_STATE_HOME'' of
          Some v \<Rightarrow> Some v
        | None \<Rightarrow> map_option (\<lambda>h. path_append (path_append h ''.local'') ''state'') home)"

section \<open>Where the directories are\<close>

text \<open>The text of a path under another: a separator between them where the first has none at its end.\<close>

definition under :: "fs_path \<Rightarrow> string \<Rightarrow> fs_path" where
  "under base rest = (if List.last base = CHR ''/'' then base @ rest else base @ ''/'' @ rest)"

abbreviation without_separators :: "string \<Rightarrow> string" where
  "without_separators name \<equiv> dropWhile (\<lambda>c. c = CHR ''/'') name"

lemma drop_first_other: "find_pos (\<lambda>c. c \<noteq> d) s = Some first \<Longrightarrow> drop first s = dropWhile (\<lambda>c. c = d) s"
  by (induction s arbitrary: first) (auto split: if_splits)

lemma path_append_under:
  assumes "base \<noteq> []"
  shows "path_append base component = under base (without_separators component)"
proof (cases "find_pos (\<lambda>c. c \<noteq> CHR ''/'') component")
  case None
  then have "without_separators component = []" by (auto simp: find_pos_None dropWhile_eq_Nil_conv)
  then show ?thesis using None assms
    by (simp add: path_append_def path_separator_def fs_append_def under_def is_absolute_def del: dropWhile_eq_Nil_conv)
next
  case (Some first)
  have "\<not> is_absolute (without_separators component)"
    using hd_dropWhile [of "\<lambda>c. c = CHR ''/''" component] by (auto simp: is_absolute_def)
  with Some show ?thesis using assms
    by (simp add: path_append_def path_separator_def fs_append_def under_def drop_first_other)
qed

lemma under_absolute: "is_absolute base \<Longrightarrow> is_absolute (under base rest)"
  by (auto simp: under_def is_absolute_def)

lemma absolute_not_Nil: "is_absolute p \<Longrightarrow> p \<noteq> []"
  by (simp add: is_absolute_def)

lemma password_home_absolute: "password_database_home suggested lookup = Some h \<Longrightarrow> is_absolute h"
  by (auto simp: password_database_home_def absolute_directory_def split: passwd_answer.splits option.splits if_splits)

lemma path_home_absolute:
  "path_home env (password_database_home suggested lookup) = Some h \<Longrightarrow> is_absolute h"
  using password_home_absolute
  by (auto simp: path_home_def absolute_directory_def split: option.splits if_splits bind_splits)

text \<open>Expanding a path that does not begin with a tilde leaves it; one that does is below the home directory
  before the file system resolves it, and fails where there is no home directory. A file system that
  resolves a path to an absolute one makes a resolved path absolute.\<close>

lemma path_expand_cases:
  "p \<noteq> ''~'' \<Longrightarrow> \<not> starts_with ''~/'' p \<Longrightarrow> path_expand canonical home p = Inr p"
  "p = ''~'' \<or> starts_with ''~/'' p \<Longrightarrow> home = Some h \<Longrightarrow> path_expand canonical home p = canonical (path_append h (drop 1 p))"
  "p = ''~'' \<or> starts_with ''~/'' p \<Longrightarrow> home = None \<Longrightarrow>
    path_expand canonical home p = Inl \<lparr>fe_what = ''fail to expand tilde'', fe_path = p, fe_code = No_such_file_or_directory\<rparr>"
  by (simp_all add: path_expand_def)

lemma path_resolve_absolute:
  assumes "\<And>p q. canonical p = Inr q \<Longrightarrow> is_absolute q" "path_resolve canonical home p = Inr q"
  shows "is_absolute q"
  using assms by (auto simp: path_resolve_def split: sum.splits)

lemma absolute_variable:
  "Option.bind (env key) absolute_directory = (if \<exists>v. env key = Some v \<and> is_absolute v then env key else None)"
  by (auto simp: absolute_directory_def split: bind_split)

text \<open>The four directories, with the text of their defaults.\<close>

lemma xdg_base:
  assumes "\<And>h. home = Some h \<Longrightarrow> is_absolute h"
  shows "config_home env home app_name = map_option (\<lambda>p. path_append p app_name)
      (if \<exists>v. env ''XDG_CONFIG_HOME'' = Some v \<and> is_absolute v then env ''XDG_CONFIG_HOME'' else map_option (\<lambda>h. under h ''.config'') home)"
    "data_home env home app_name = map_option (\<lambda>p. path_append p app_name)
      (if \<exists>v. env ''XDG_DATA_HOME'' = Some v \<and> is_absolute v then env ''XDG_DATA_HOME'' else map_option (\<lambda>h. under h ''.local/share'') home)"
    "cache_home env home app_name = map_option (\<lambda>p. path_append p app_name)
      (if \<exists>v. env ''XDG_CACHE_HOME'' = Some v \<and> is_absolute v then env ''XDG_CACHE_HOME'' else map_option (\<lambda>h. under h ''.cache'') home)"
    "state_home env home app_name = map_option (\<lambda>p. path_append p app_name)
      (if \<exists>v. env ''XDG_STATE_HOME'' = Some v \<and> is_absolute v then env ''XDG_STATE_HOME'' else map_option (\<lambda>h. under h ''.local/state'') home)"
proof -
  have one: "is_absolute h \<Longrightarrow> path_append h (c # cs) = under h (c # cs)" if "c \<noteq> CHR ''/''" for h c cs
    using that by (simp add: path_append_under absolute_not_Nil)
  have two: "path_append (path_append h ''.local'') ''share'' = under h ''.local/share''"
    "path_append (path_append h ''.local'') ''state'' = under h ''.local/state''" if "is_absolute h" for h
    using that by (simp_all add: path_append_under absolute_not_Nil under_absolute) (simp_all add: under_def)
  note v = xdg_variable_def environment_value_def absolute_variable
  show "config_home env home app_name = map_option (\<lambda>p. path_append p app_name)
      (if \<exists>v. env ''XDG_CONFIG_HOME'' = Some v \<and> is_absolute v then env ''XDG_CONFIG_HOME'' else map_option (\<lambda>h. under h ''.config'') home)"
    using one assms by (cases home) (auto simp: config_home_def v split: option.split)
  show "data_home env home app_name = map_option (\<lambda>p. path_append p app_name)
      (if \<exists>v. env ''XDG_DATA_HOME'' = Some v \<and> is_absolute v then env ''XDG_DATA_HOME'' else map_option (\<lambda>h. under h ''.local/share'') home)"
    using two assms by (cases home) (auto simp: data_home_def v split: option.split)
  show "cache_home env home app_name = map_option (\<lambda>p. path_append p app_name)
      (if \<exists>v. env ''XDG_CACHE_HOME'' = Some v \<and> is_absolute v then env ''XDG_CACHE_HOME'' else map_option (\<lambda>h. under h ''.cache'') home)"
    using one assms by (cases home) (auto simp: cache_home_def v split: option.split)
  show "state_home env home app_name = map_option (\<lambda>p. path_append p app_name)
      (if \<exists>v. env ''XDG_STATE_HOME'' = Some v \<and> is_absolute v then env ''XDG_STATE_HOME'' else map_option (\<lambda>h. under h ''.local/state'') home)"
    using two assms by (cases home) (auto simp: state_home_def v split: option.split)
qed

text \<open>C40: The home directory is the one \<open>HOME\<close> names where that is absolute, and otherwise the absolute one of
  the password database. The directory of an application is then, without what separators its name begins with,
  the name under the directory the XDG variable names where that is absolute, and otherwise under
  \<open>.config\<close>, \<open>.local/share\<close>, \<open>.cache\<close> or \<open>.local/state\<close> under the home directory; there is none
  exactly when there is neither. It is absolute, whatever the environment holds and whatever the application is
  called: a name that begins with a separator does not replace the directory it is put under.\<close>

theorem xdg_directories:
  assumes "home = path_home env (password_database_home suggested lookup)"
    and "(directory, key, rest) \<in> {(config_home, ''XDG_CONFIG_HOME'', ''.config''), (data_home, ''XDG_DATA_HOME'', ''.local/share''),
      (cache_home, ''XDG_CACHE_HOME'', ''.cache''), (state_home, ''XDG_STATE_HOME'', ''.local/state'')}"
  shows "home = (if \<exists>h. env ''HOME'' = Some h \<and> is_absolute h then env ''HOME'' else password_database_home suggested lookup) \<and>
    directory env home app_name =
      map_option (\<lambda>base. under base (without_separators app_name))
        (if \<exists>v. env key = Some v \<and> is_absolute v then env key else map_option (\<lambda>h. under h rest) home) \<and>
    (\<forall>d. directory env home app_name = Some d \<longrightarrow> is_absolute d)"
proof -
  have h: "home = Some h \<Longrightarrow> is_absolute h" for h using path_home_absolute unfolding assms(1) by blast
  have e: "home = (if \<exists>h. env ''HOME'' = Some h \<and> is_absolute h then env ''HOME'' else password_database_home suggested lookup)"
    by (auto simp: assms(1) path_home_def environment_value_def absolute_variable)
  define base where "base = (if \<exists>v. env key = Some v \<and> is_absolute v then env key else map_option (\<lambda>h. under h rest) home)"
  have b: "base = Some p \<Longrightarrow> is_absolute p" for p using h under_absolute by (auto simp: base_def split: if_splits)
  have d: "directory env home app_name = map_option (\<lambda>p. path_append p app_name) base"
    using assms(2) xdg_base [OF h] by (auto simp: base_def)
  then have "directory env home app_name = map_option (\<lambda>p. under p (without_separators app_name)) base"
    using b path_append_under absolute_not_Nil by (cases base) auto
  then show ?thesis using e b under_absolute by (auto simp: base_def [symmetric])
qed

lemma xdg_directories_witness:
  "config_home [''HOME'' \<mapsto> ''/home/u''] (Some ''/home/u'') ''/app'' = Some ''/home/u/.config/app''"
proof -
  have "Some ''/home/u'' = path_home [''HOME'' \<mapsto> ''/home/u''] (password_database_home 0 (\<lambda>buffer. No_entry))"
    by (simp add: path_home_def environment_value_def absolute_directory_def is_absolute_def)
  from xdg_directories [OF this, of config_home "''XDG_CONFIG_HOME''" "''.config''" "''/app''"]
  show ?thesis by (simp add: under_def)
qed

end
