(* ===== verification/Spec2Isabelle.thy ===== *)
theory Spec2Isabelle
  imports Number_Operators Errors Data_Iterators Timestamp_Laws Value_Access Toml_Document Queue_Drains Queue_Results Thread_Life Native Platform
begin

text \<open>
  Verification of the dross library (the C++ sources under \<open>src/src/\<close> and the templates in the
  headers under \<open>src/include/dross/\<close>).

  The program has three parts.

  The types: \<open>boolean\<close>, \<open>number\<close> (a decimal number of any length, stored as text), \<open>string\<close>, \<open>data\<close>,
  \<open>timezone\<close>, \<open>timestamp\<close>, \<open>error\<close>, and the containers \<open>value\<close>, \<open>array\<close> and \<open>dictionary\<close>, which hold
  one another. The configuration format \<open>toml\<close> is on top of them: a parser from text to a dictionary
  and a serializer back.

  The threads: a \<open>runloop\<close> runs tasks and fires timers on the thread it belongs to; a \<open>thread\<close> has a
  record, which every handle shares, and may run a loop; an \<open>operation_queue\<close> has threads as its
  workers, whose loops take its tasks from one \<open>backlog\<close>, in the order of their priorities and after
  the results they wait for; an \<open>operation_result\<close> is where a task leaves what it computes.

  The platform: paths, and the directories of the XDG specification.


  \<^bold>\<open>Theories and sources\<close>

  \<^item> \<open>Prelude\<close>: strings and vectors as lists, results of fallible code, the three-way comparison as
    an interface. \<open>Decimal\<close>: what decimal text means, as integers and rationals; no code.
  \<^item> \<open>Number_Arith\<close>, \<open>Number_Division\<close>, \<open>Number_Text\<close>, \<open>Number\<close>: \<open>type/number.cpp\<close>, the schoolbook
    arithmetic on digits, long division, the grammar and expansion of exponents, the class; a
    \<open>number_storage\<close> is \<open>number::storage\<close>. \<open>Number_Laws\<close>: the contract over the storage.
    \<open>Number_Conversions\<close>: the conversions to \<open>int\<close> and \<open>double\<close>. \<open>Number_Operators\<close>: the operators
    of \<open>type/number.h\<close> and what it makes of the arithmetic types of the language.
  \<^item> \<open>Basic_Types\<close>, \<open>Data_Iterators\<close>, \<open>Errors\<close>: \<open>type/boolean.cpp\<close>, \<open>type/string.cpp\<close>, \<open>type/data.cpp\<close>,
    \<open>type/error.cpp\<close>, \<open>type.cpp\<close>.
  \<^item> \<open>Timezone\<close>, \<open>Calendar\<close>, \<open>Timestamp\<close>, \<open>Timestamp_Laws\<close>: \<open>type/timezone.cpp\<close>, \<open>type/timestamp.cpp\<close>
    and the part of \<open>std::chrono\<close> they use.
  \<^item> \<open>Values\<close>, \<open>Value_Laws\<close>: \<open>type/value.cpp\<close>, \<open>type/array.cpp\<close>, \<open>type/dictionary.cpp\<close>; the variant is a
    \<open>datatype\<close> with a constructor for each alternative. \<open>Value_Access\<close>: the constructors and
    assignments of \<open>type/value.h\<close>, the iterators that change nothing, \<open>concat\<close> of \<open>type.h\<close>.
  \<^item> \<open>Toml_Text\<close>, \<open>Toml_Parser\<close>, \<open>Toml_Scalars\<close>, \<open>Toml_Reader\<close>, \<open>Toml_Writer\<close>: \<open>format/toml.cpp\<close>, the
    characters, the parser's state and the scalars, the tables and nested values, the serializer.
    The proofs are in \<open>Toml_Termination\<close>, \<open>Toml_Tables\<close>, \<open>Toml_Safety\<close>, \<open>Toml_Reads\<close>, \<open>Toml_Roundtrip\<close>
    and \<open>Toml_Document\<close>.
  \<^item> \<open>Timer_Schedule\<close>: \<open>thread/deadline.cpp\<close>, \<open>thread/timer_schedule.h\<close>. \<open>Operation\<close>:
    \<open>thread/operation.cpp\<close> and the templates of \<open>operation.h\<close>.
  \<^item> \<open>Backlog\<close>: \<open>class backlog\<close> and the queue's storage of \<open>thread/operation_queue.cpp\<close>;
    \<open>Queue_Machine\<close> and \<open>Queue_Steps\<close>: what its workers run, as executions. The proofs are in
    \<open>Queue_Books\<close>, \<open>Queue_Laws\<close>, \<open>Queue_Progress\<close>, \<open>Queue_Drains\<close> and \<open>Queue_Results\<close>.
  \<^item> \<open>Runloop\<close>, \<open>Runloop_Laws\<close>, \<open>Runloop_Runs\<close>: \<open>thread/runloop.cpp\<close>, \<open>thread/timer.cpp\<close>.
  \<^item> \<open>Thread\<close>, \<open>Thread_Laws\<close>: \<open>thread/thread.cpp\<close>, \<open>thread/teardown.h\<close>, and what
    \<open>thread/runloop.cpp\<close> has to give each thread a loop. \<open>Native\<close>: \<open>thread/native.cpp\<close>, on both
    platforms. \<open>Thread_Life\<close>: a thread from its start to its end, with the run of its loop in between,
    and timers on the caller's own loop.
  \<^item> \<open>Platform\<close>: \<open>platform/path.cpp\<close>, \<open>platform/xdg.cpp\<close>, \<open>platform/environment.cpp\<close>,
    \<open>platform/absolute_directory.h\<close>.

  \<^bold>\<open>How the code is modelled\<close>

  A class is a \<open>record\<close> of its members, an operation a function from the state, which it returns when
  it changes it. A handle is its storage. \<open>std::optional\<close> is \<open>option\<close>, an error or an exception the
  left side of a sum, undefined behaviour that the code must avoid an error of its own, which the
  proofs then exclude. Integers are \<open>int\<close> and \<open>nat\<close>; where the width matters the conversion, the
  clamp or the wrap-around is written out as in the code.

  Loops are recursive functions. Those of \<open>number.cpp\<close> that need not end by their form, and those of
  the parser, are \<open>partial_function (option)\<close> or take fuel, and are proved to return: \<open>parse\<close> is
  given \<open>enough_fuel\<close>, three for each character and five more, which is enough as every nested value
  and every turn of a loop reads at least one character and none of them costs more than three.

  The threads share state under mutexes, so an operation that holds the mutex for its whole body is
  one step. \<open>worker_step\<close>, \<open>outside_step\<close> and \<open>loop_step\<close> are the critical sections of a queue and of a run loop, and
  \<open>process_step\<close> what threads do to the registry; their executions interleave the steps in any order. The end of
  a thread takes two of these, \<open>holder_leaves\<close> and \<open>holder_finishes\<close>, for its record leaves the registry under
  one mutex and is marked finished under another. \<open>process_history\<close> records which threads were started or named,
  with which record, and which have ended, apart from what the process itself keeps of them.
  A running call of a loop lets go of the mutex while it waits and while it runs a task; what
  happens then is a function of the \<open>world\<close>, restricted only to be an execution itself, so that
  calls nest. A task and a callback may throw there.


  \<^bold>\<open>What the theorems show\<close>

  Numbers: the calculations return and have the exact value, or exactly the 34 leading digits of the quotient;
  the ring laws, with 0, 1 and subtraction; the order; text and values round-trip. Timestamps: the range of the years is kept by
  every operation, adding is exact or reports the range, text and clock round-trip. Containers:
  equality is an equivalence and that of the contents, place by place and key by key; operations have the contents
  they say and keep values well formed; a dictionary implements a map; what removing an element by reference to
  it leaves.
  The format: the parser returns for every input, never reads the back of an empty vector, gives a
  well-formed dictionary or an error with its position; tables refine nested maps; what the
  serializer writes is read back.

  Results and schedules: the first of finish and cancel decides and what a result holds then never
  changes, a wait for a result or for a queue's tasks ends, the earliest due timer is claimed. Queues: the books account for every task, a
  task starts only after what it runs after, cancelling takes exactly the followers, and the workers
  drain the queue: no wakeup is lost. Run loops: tasks run in order and at most once, \<open>run_pending\<close>
  ends when no timer is made due meanwhile, timers starve no task, a request to quit ends a run. Threads: the
  registry holds exactly the threads that were started or named and are not at their end, each by its one record,
  and a thread that ends leaves neither a record nor a loop in it. Directories: the exact path for each
  environment, always absolute.

  The interfaces are locales: \<open>three_way\<close> for the comparisons, \<open>exact_operation\<close>, \<open>calculation\<close> and
  \<open>unital_calculation\<close> for numbers, \<open>key_value\<close> for the dictionary, \<open>due_timers\<close> for the schedule, which the run loop's
  proofs use, \<open>settled_once\<close> for results; each is interpreted on the model's definitions.


  \<^bold>\<open>Parameters\<close>

  What is not under \<open>src/\<close> is an argument: the clock, what waits see, which thread is the main one
  and the kernel's ids of threads (\<open>system\<close>), what tasks and callbacks do (\<open>world\<close>), the user's
  environment and home directory and the file system, the kernel's calls, \<open>std::stod\<close>, of which the
  proofs assume that it reads a double next to the value, \<open>std::to_chars\<close> of a floating-point value, and
  \<open>std::put_time\<close>.


  \<^bold>\<open>Not modelled\<close>

  \<^item> The stream operators, which write the text of a value, but for that of \<open>error\<close>.
  \<^item> Allocations that fail, and counters of ids and sequence numbers that wrap at \<open>2 ^ 64\<close>: the
    operations wrap them, the theorems about executions are for fewer.
  \<^item> Tasks of a queue that throw, which end the program as the header says, and tasks that run their
    own worker's loop.
  \<^item> Copy constructors, destructors and the handles' operations that only forward, which are the
    identity on the model.
  \<^item> \<open>thread/time_source.cpp\<close>, which only reads the clocks of the system.
\<close>

end
